(* ===== verification/Prelude.thy ===== *)
theory Prelude
  imports Main "HOL-Library.Monad_Syntax" "HOL-Library.Signed_Division"
begin

text \<open>
  Shared vocabulary of the development: the conventions for C values, the memory helpers every
  component uses, and the generic list lemmas.

  \<^item> C \<^verbatim>\<open>int\<close>, \<^verbatim>\<open>size_t\<close>, offsets and addresses are \<open>int\<close>; the null pointer is the
    address \<open>0\<close>. Where the code relies on the width (the FNV hash, the comparison of integer
    keys, the value of \<^verbatim>\<open>strtol\<close>) the wrap-around is written out.
  \<^item> A C string is a \<open>string\<close> without its terminating NUL.
  \<^item> A result of type \<open>'a option\<close> is \<open>None\<close> where the C program would leave its memory (a read
    or write outside an object, a null dereference): a theorem that an operation returns
    \<open>Some\<close> is a theorem that it does not.
\<close>

named_theorems buf_simps \<open>reading and writing raw byte buffers\<close>
named_theorems wf_intros \<open>well-formedness of the components' states\<close>

type_synonym addr = int
type_synonym byte = "char option" \<comment> \<open>\<open>None\<close> is an indeterminate byte\<close>
type_synonym bytes = "byte list"

abbreviation (input) NULL :: addr where "NULL \<equiv> 0"
abbreviation NUL :: char where "NUL \<equiv> CHR 0x00"
abbreviation NL :: char where "NL \<equiv> CHR 0x0A"

definition dlog_min :: "int \<Rightarrow> int \<Rightarrow> int" where
  "dlog_min a b = (if a < b then a else b)"

lemma dlog_min_eq [simp]: "dlog_min a b = min a b"
  by (simp add: dlog_min_def)

subsection \<open>Byte buffers\<close>

definition buf_put :: "bytes \<Rightarrow> int \<Rightarrow> bytes \<Rightarrow> bytes option" where
  "buf_put b off bs =
     (if 0 \<le> off \<and> off + int (length bs) \<le> int (length b)
      then Some (take (nat off) b @ bs @ drop (nat off + length bs) b) else None)"

definition buf_get :: "bytes \<Rightarrow> int \<Rightarrow> int \<Rightarrow> bytes option" where
  "buf_get b off n =
     (if 0 \<le> off \<and> 0 \<le> n \<and> off + n \<le> int (length b)
      then Some (take (nat n) (drop (nat off) b)) else None)"

text \<open>The C string at the start of a buffer: reading stops at the first NUL; running off the
  buffer or over an indeterminate byte is a fault.\<close>

fun buf_cstr :: "bytes \<Rightarrow> string option" where
  "buf_cstr [] = None"
| "buf_cstr (None # bs) = None"
| "buf_cstr (Some c # bs) = (if c = NUL then Some [] else map_option ((#) c) (buf_cstr bs))"

lemma buf_put_Some_iff [buf_simps]:
  "buf_put b off bs = Some b' \<longleftrightarrow>
     0 \<le> off \<and> off + int (length bs) \<le> int (length b)
     \<and> b' = take (nat off) b @ bs @ drop (nat off + length bs) b"
  by (auto simp: buf_put_def)

lemma buf_get_Some_iff [buf_simps]:
  "buf_get b off n = Some r \<longleftrightarrow>
     0 \<le> off \<and> 0 \<le> n \<and> off + n \<le> int (length b) \<and> r = take (nat n) (drop (nat off) b)"
  by (auto simp: buf_get_def)

lemma buf_put_length: "buf_put b off bs = Some b' \<Longrightarrow> length b' = length b"
  by (auto simp: buf_put_Some_iff)

lemma buf_cstr_prefix:
  "NUL \<notin> set s \<Longrightarrow> buf_cstr (map Some s @ Some NUL # rest) = Some s"
  by (induction s) auto

lemma take_eq_map_Some_nth:
  "take n b = map Some s \<Longrightarrow> i < length s \<Longrightarrow> b ! i = Some (s ! i)"
  by (metis length_map nth_map nth_take length_take min_less_iff_conj)

subsection \<open>Lists and options\<close>

lemma bind_Some_iff: "(m \<bind> f) = Some r \<longleftrightarrow> (\<exists>x. m = Some x \<and> f x = Some r)"
  by (cases m) auto

lemma upto_Cons_tl: "i < (j::int) \<Longrightarrow> [i..j] = i # [i+1..j]"
  by (simp add: upto.simps)

lemma distinct_map_inj_on:
  "distinct xs \<Longrightarrow> (\<And>x y. x \<in> set xs \<Longrightarrow> y \<in> set xs \<Longrightarrow> f x = f y \<Longrightarrow> x = y)
   \<Longrightarrow> distinct (map f xs)"
  by (induction xs) auto

subsection \<open>Searching a character\<close>

text \<open>\<^verbatim>\<open>memchr\<close> over a sequence of characters: the index of the first hit.\<close>

fun find_char :: "char \<Rightarrow> string \<Rightarrow> nat option" where
  "find_char c [] = None"
| "find_char c (x # xs) = (if x = c then Some 0 else map_option Suc (find_char c xs))"

lemma find_char_Some:
  "find_char c t = Some k \<Longrightarrow> k < length t \<and> t ! k = c \<and> c \<notin> set (take k t)"
  by (induction t arbitrary: k) (auto split: if_splits)

lemma find_char_None: "find_char c t = None \<longleftrightarrow> c \<notin> set t"
  by (induction t) auto

lemma find_char_append: "c \<notin> set s \<Longrightarrow> find_char c (s @ c # u) = Some (length s)"
  by (induction s) auto

lemma find_char_skip: "c \<notin> set s \<Longrightarrow> find_char c (s @ u) = map_option (\<lambda>k. length s + k) (find_char c u)"
proof (induction s)
  case Nil
  then show ?case by (cases "find_char c u") simp_all
next
  case (Cons x s)
  then show ?case by (cases "find_char c u") auto
qed

lemma find_char_before: "find_char c s = Some k \<Longrightarrow> find_char c (s @ u) = Some k"
  by (induction s arbitrary: k) (auto split: if_splits)

subsection \<open>Integers of 32 bits\<close>

text \<open>Storing a \<^verbatim>\<open>long\<close> in an \<^verbatim>\<open>int\<close> keeps its low 32 bits.\<close>

definition to_int32 :: "int \<Rightarrow> int" where
  "to_int32 n = (n + 2 ^ 31) mod 2 ^ 32 - 2 ^ 31"

lemma to_int32_id [simp]: "- (2 ^ 31) \<le> n \<Longrightarrow> n < 2 ^ 31 \<Longrightarrow> to_int32 n = n"
  by (simp add: to_int32_def)

end
