(* ===== verification/Slot_Interface.thy ===== *)
theory Slot_Interface
  imports Prelude
begin

text \<open>
  What a fixed-size slot allocator promises its clients. The allocator is a stack of free slot
  addresses (\<open>rep p fl\<close>); it hands out the top and pushes what is given back. Clients may write
  to the slots they own, and may not disturb the allocator by doing so.
\<close>

locale slot_stack =
  fixes alloc :: "'p \<Rightarrow> (addr \<times> 'p) option"
    and release :: "'p \<Rightarrow> addr \<Rightarrow> 'p option"
    and scribble :: "'p \<Rightarrow> addr \<Rightarrow> 'h \<Rightarrow> 'p option"
    and rep :: "'p \<Rightarrow> addr list \<Rightarrow> bool"
    and cells :: "'p \<Rightarrow> addr set"
  assumes rep_distinct: "rep p fl \<Longrightarrow> distinct fl"
    and rep_cells: "rep p fl \<Longrightarrow> set fl \<subseteq> cells p"
    and cells_not_null: "rep p fl \<Longrightarrow> NULL \<notin> cells p"
    and cells_finite: "rep p fl \<Longrightarrow> finite (cells p)"
    and rep_unique: "rep p fl \<Longrightarrow> rep p fl' \<Longrightarrow> fl = fl'"
    and alloc_nil: "rep p [] \<Longrightarrow> alloc p = Some (NULL, p)"
    and alloc_cons: "rep p (a # fl) \<Longrightarrow>
          \<exists>p'. alloc p = Some (a, p') \<and> rep p' fl \<and> cells p' = cells p"
    and release_push: "rep p fl \<Longrightarrow> a \<in> cells p \<Longrightarrow> a \<notin> set fl \<Longrightarrow>
          \<exists>p'. release p a = Some p' \<and> rep p' (a # fl) \<and> cells p' = cells p"
    and scribble_keep: "rep p fl \<Longrightarrow> a \<in> cells p \<Longrightarrow> a \<notin> set fl \<Longrightarrow>
          \<exists>p'. scribble p a h = Some p' \<and> rep p' fl \<and> cells p' = cells p"
begin

definition owned :: "'p \<Rightarrow> addr set \<Rightarrow> bool" where
  "owned p L \<longleftrightarrow> (\<exists>fl. rep p fl \<and> L = cells p - set fl)"

lemma ownedI: "rep p fl \<Longrightarrow> owned p (cells p - set fl)"
  by (auto simp: owned_def)

lemma alloc_total: "rep p fl \<Longrightarrow> \<exists>a p'. alloc p = Some (a, p')"
  using alloc_nil alloc_cons by (cases fl) blast+

lemma owned_alloc_fresh:
  assumes "owned p L" and "alloc p = Some (a, p')" and "a \<noteq> NULL"
  shows "a \<notin> L \<and> a \<in> cells p \<and> owned p' (insert a L) \<and> cells p' = cells p"
proof -
  obtain fl where rep: "rep p fl" and L: "L = cells p - set fl"
    using assms(1) by (auto simp: owned_def)
  from rep assms(2,3) alloc_nil obtain fl' where fl: "fl = a # fl'"
    using alloc_cons by (cases fl) fastforce+
  with rep assms(2) have p': "rep p' fl'" "cells p' = cells p"
    using alloc_cons[of p a fl'] by auto
  from rep fl have "a \<notin> set fl'" "a \<in> cells p"
    using rep_distinct rep_cells by fastforce+
  with fl L p' show ?thesis
    using rep_cells[OF rep] by (auto simp: owned_def intro!: exI[of _ fl'])
qed

lemma owned_alloc_null_iff:
  assumes "owned p L" and "alloc p = Some (a, p')"
  shows "a = NULL \<longleftrightarrow> L = cells p"
proof -
  obtain fl where rep: "rep p fl" and L: "L = cells p - set fl"
    using assms(1) by (auto simp: owned_def)
  show ?thesis
  proof (cases fl)
    case Nil
    with rep alloc_nil assms(2) L show ?thesis by simp
  next
    case (Cons b fl')
    with rep assms(2) have "a = b" using alloc_cons by fastforce
    moreover have "b \<in> cells p" using rep Cons rep_cells by fastforce
    ultimately show ?thesis using L Cons cells_not_null[OF rep] by auto
  qed
qed

lemma owned_alloc_null:
  assumes "owned p L" and "alloc p = Some (NULL, p')"
  shows "owned p' L \<and> cells p' = cells p"
proof -
  obtain fl where rep: "rep p fl" and L: "L = cells p - set fl"
    using assms(1) by (auto simp: owned_def)
  have "fl = []"
    using rep assms(2) alloc_cons rep_cells cells_not_null[OF rep] by (cases fl) fastforce+
  with rep assms(2) L show ?thesis by (auto simp: owned_def alloc_nil)
qed

lemma owned_release:
  assumes "owned p L" and "a \<in> L"
  shows "\<exists>p'. release p a = Some p' \<and> owned p' (L - {a}) \<and> cells p' = cells p"
proof -
  obtain fl where rep: "rep p fl" and L: "L = cells p - set fl"
    using assms(1) by (auto simp: owned_def)
  with assms(2) obtain p' where "release p a = Some p'" "rep p' (a # fl)" "cells p' = cells p"
    using release_push by blast
  with L show ?thesis by (auto simp: owned_def intro!: exI[of _ p'] exI[of _ "a # fl"])
qed

lemma owned_scribble:
  assumes "owned p L" and "a \<in> L"
  shows "\<exists>p'. scribble p a h = Some p' \<and> owned p' L \<and> cells p' = cells p"
proof -
  obtain fl where rep: "rep p fl" and L: "L = cells p - set fl"
    using assms(1) by (auto simp: owned_def)
  with assms(2) obtain p' where "scribble p a h = Some p'" "rep p' fl" "cells p' = cells p"
    using scribble_keep by blast
  with L show ?thesis by (auto simp: owned_def)
qed

lemma owned_alloc_total: "owned p L \<Longrightarrow> \<exists>a p'. alloc p = Some (a, p')"
  by (auto simp: owned_def intro: alloc_total)

lemma owned_sub: "owned p L \<Longrightarrow> L \<subseteq> cells p"
  by (auto simp: owned_def)

lemma owned_unique: "owned p L \<Longrightarrow> owned p L' \<Longrightarrow> L = L'"
  using rep_unique by (fastforce simp: owned_def)

text \<open>What was given back last is handed out next.\<close>

lemma release_alloc:
  assumes "rep p fl" and "a \<in> cells p" and "a \<notin> set fl" and "release p a = Some p'"
  shows "\<exists>p''. alloc p' = Some (a, p'') \<and> rep p'' fl"
  using assms release_push[of p fl a] alloc_cons[of p' a fl] by auto

end

end
