(* ===== verification/Mempool.thy ===== *)
theory Mempool
  imports Slot_Interface
begin

unbundle bit_operations_syntax

text \<open>
  The fixed-size slot pools of \<^verbatim>\<open>mempool.c\<close>.

  A pool is a buffer of equal slots. A free slot holds a \<^verbatim>\<open>slot_hdr\<close> in its first bytes, a used
  slot holds the client's data there, so the memory \<open>slots\<close> maps the address of each slot to the
  header words found at it. The free slots form a chain of single slots, which may end in one
  run of slots that were never handed out and share a header.
\<close>

section \<open>Data\<close>

record slot_hdr =
  free_next :: int
  hdr_slots :: int

record mempool =
  mp_base :: addr
  num_slots :: int
  slot_sz :: int
  free_list_head :: int
  owns_buffer :: int
  slots :: "addr \<Rightarrow> slot_hdr option"

definition DLOG_ALLOC_DEFAULT_ALIGNMENT :: int where
  "DLOG_ALLOC_DEFAULT_ALIGNMENT = 16"

definition ALIGN_TO :: "int \<Rightarrow> int \<Rightarrow> int" where
  "ALIGN_TO obj algn_bytes = (obj + (algn_bytes - 1)) AND NOT (algn_bytes - 1)"

definition sizeof_mempool :: int where
  "sizeof_mempool = 16"

section \<open>Operations\<close>

definition slot :: "mempool \<Rightarrow> int \<Rightarrow> addr" where
  "slot p idx = mp_base p + sizeof_mempool + idx * slot_sz p"

definition idx_of :: "mempool \<Rightarrow> addr \<Rightarrow> int" where
  "idx_of pool ptr = (let diff = ptr - (mp_base pool + sizeof_mempool) in diff sdiv slot_sz pool)"

definition hdr_write :: "mempool \<Rightarrow> addr \<Rightarrow> slot_hdr \<Rightarrow> mempool option" where
  "hdr_write p a h =
     (case slots p a of None \<Rightarrow> None | Some _ \<Rightarrow> Some (p\<lparr>slots := (slots p)(a \<mapsto> h)\<rparr>))"

definition mempool_get_numslots :: "mempool \<Rightarrow> int" where
  "mempool_get_numslots p = num_slots p"

definition mempool_get_slotsz :: "mempool \<Rightarrow> int" where
  "mempool_get_slotsz p = slot_sz p"

definition mempool_memsize :: "int \<Rightarrow> int \<Rightarrow> int" where
  "mempool_memsize elem_sz_b n = sizeof_mempool + n * ALIGN_TO elem_sz_b 16"

definition mempool_has_ptr :: "mempool \<Rightarrow> addr \<Rightarrow> bool" where
  "mempool_has_ptr p ptr \<longleftrightarrow> ptr \<ge> slot p 0 \<and> ptr \<le> slot p (num_slots p - 1)"

definition mempool_create_from_buffer ::
  "addr \<Rightarrow> (addr \<Rightarrow> slot_hdr option) \<Rightarrow> int \<Rightarrow> int \<Rightarrow> mempool option" where
  "mempool_create_from_buffer buf mem elem_sz_b n =
     (let pool = \<lparr>mp_base = buf, num_slots = n,
                  slot_sz = ALIGN_TO elem_sz_b DLOG_ALLOC_DEFAULT_ALIGNMENT,
                  free_list_head = 0, owns_buffer = 0, slots = mem\<rparr>
      in do {
        pool \<leftarrow> hdr_write pool (slot pool 0) \<lparr>free_next = 1, hdr_slots = 1\<rparr>;
        hdr_write pool (slot pool 1) \<lparr>free_next = -1, hdr_slots = n - 1\<rparr>
      })"

text \<open>\<open>memalign\<close> is the outcome of \<^verbatim>\<open>posix_memalign\<close>: the buffer it returns, or \<open>None\<close>. The result
  is \<open>Inl ()\<close> for the null pointer.\<close>

definition mempool_create ::
  "(addr \<times> (addr \<Rightarrow> slot_hdr option)) option \<Rightarrow> int \<Rightarrow> int \<Rightarrow> (unit + mempool) option" where
  "mempool_create memalign elem_sz_b n =
     (case memalign of
        None \<Rightarrow> Some (Inl ())
      | Some (buf, mem) \<Rightarrow> do {
          p \<leftarrow> mempool_create_from_buffer buf mem elem_sz_b n;
          Some (Inr (p\<lparr>owns_buffer := 1\<rparr>))
        })"

text \<open>The addresses given back to the C heap.\<close>

definition mempool_destroy :: "mempool \<Rightarrow> addr list" where
  "mempool_destroy m = (if owns_buffer m \<noteq> 0 then [mp_base m] else [])"

definition mempool_alloc :: "mempool \<Rightarrow> (addr \<times> mempool) option" where
  "mempool_alloc pool =
     (if free_list_head pool = -1 then Some (NULL, pool)
      else let a = slot pool (free_list_head pool) in do {
        s \<leftarrow> slots pool a;
        if hdr_slots s = 1 then Some (a, pool\<lparr>free_list_head := free_next s\<rparr>)
        else if hdr_slots s > 1 then do {
          pool' \<leftarrow> hdr_write pool (slot pool (free_list_head pool + 1))
                     \<lparr>free_next = -1, hdr_slots = hdr_slots s - 1\<rparr>;
          Some (a, pool'\<lparr>free_list_head :=
                     (if free_list_head pool + 1 = num_slots pool then -1
                      else free_list_head pool + 1)\<rparr>)
        }
        else Some (NULL, pool)
      })"

definition mempool_free :: "mempool \<Rightarrow> addr \<Rightarrow> mempool option" where
  "mempool_free pool ptr =
     (let slotidx = idx_of pool ptr in do {
        pool' \<leftarrow> hdr_write pool ptr \<lparr>free_next = free_list_head pool, hdr_slots = 1\<rparr>;
        Some (pool'\<lparr>free_list_head := slotidx\<rparr>)
      })"

text \<open>What a client may do to a slot it owns: overwrite the bytes the header would occupy.\<close>

definition client_write :: "mempool \<Rightarrow> addr \<Rightarrow> slot_hdr \<Rightarrow> mempool option" where
  "client_write p a h = hdr_write p a h"

section \<open>The free chain\<close>

definition pool_wf :: "mempool \<Rightarrow> bool" where
  "pool_wf p \<longleftrightarrow> 0 < mp_base p \<and> 0 < num_slots p \<and> 0 < slot_sz p
     \<and> dom (slots p) = slot p ` {0..<num_slots p}"

text \<open>\<open>chain p i fl\<close>: following the headers from slot \<open>i\<close> visits the free slots \<open>fl\<close>.\<close>

inductive chain :: "mempool \<Rightarrow> int \<Rightarrow> int list \<Rightarrow> bool" for p where
  chain_nil: "chain p (-1) []"
| chain_single: "0 \<le> i \<Longrightarrow> i < num_slots p \<Longrightarrow> slots p (slot p i) = Some h \<Longrightarrow> hdr_slots h = 1
    \<Longrightarrow> chain p (free_next h) fl \<Longrightarrow> chain p i (i # fl)"
| chain_run: "0 \<le> i \<Longrightarrow> slots p (slot p i) = Some h \<Longrightarrow> 1 < hdr_slots h
    \<Longrightarrow> i + hdr_slots h = num_slots p \<Longrightarrow> chain p i [i..num_slots p - 1]"

inductive_cases chain_NilE: "chain p i []"
inductive_cases chain_ConsE [consumes 1, case_names single run]: "chain p i (j # fl)"

definition pool_rep :: "mempool \<Rightarrow> addr list \<Rightarrow> bool" where
  "pool_rep p fl \<longleftrightarrow> pool_wf p \<and>
     (\<exists>is. chain p (free_list_head p) is \<and> distinct is \<and> fl = map (slot p) is)"

definition pool_cells :: "mempool \<Rightarrow> addr set" where
  "pool_cells p = slot p ` {0..<num_slots p}"

subsection \<open>Slot addresses\<close>

lemma slot_inj: "0 < slot_sz p \<Longrightarrow> slot p i = slot p j \<longleftrightarrow> i = j"
  by (auto simp: slot_def)

lemma slot_mono: "0 < slot_sz p \<Longrightarrow> slot p i \<le> slot p j \<longleftrightarrow> i \<le> j"
  by (simp add: slot_def)

lemma slot_pos: "pool_wf p \<Longrightarrow> 0 \<le> i \<Longrightarrow> 0 < slot p i"
  by (simp add: slot_def pool_wf_def sizeof_mempool_def add_pos_nonneg)

lemma idx_of_slot: "0 < slot_sz p \<Longrightarrow> 0 \<le> i \<Longrightarrow> idx_of p (slot p i) = i"
  by (simp add: idx_of_def slot_def signed_divide_int_def sgn_mult sgn_if)

lemma slot_cong: "mp_base p = mp_base q \<Longrightarrow> slot_sz p = slot_sz q \<Longrightarrow> slot p = slot q"
  by (simp add: slot_def fun_eq_iff)

lemma slot_update [simp]:
  "slot (p\<lparr>slots := m\<rparr>) = slot p" "slot (p\<lparr>free_list_head := k\<rparr>) = slot p"
  "slot (p\<lparr>owns_buffer := k\<rparr>) = slot p"
  by (simp_all add: slot_def fun_eq_iff)

lemma pool_cells_update [simp]:
  "pool_cells (p\<lparr>slots := m\<rparr>) = pool_cells p"
  "pool_cells (p\<lparr>free_list_head := k\<rparr>) = pool_cells p"
  "pool_cells (p\<lparr>owns_buffer := k\<rparr>) = pool_cells p"
  by (simp_all add: pool_cells_def)

lemma pool_wf_update [simp]:
  "pool_wf (p\<lparr>free_list_head := k\<rparr>) = pool_wf p"
  "pool_wf (p\<lparr>owns_buffer := k\<rparr>) = pool_wf p"
  by (simp_all add: pool_wf_def)

lemma pool_wf_cells: "pool_wf p \<Longrightarrow> slots p a \<noteq> None \<longleftrightarrow> a \<in> pool_cells p"
  by (auto simp: pool_wf_def pool_cells_def dom_def)

lemma hdr_write_wf:
  assumes "pool_wf p" and "a \<in> pool_cells p"
  shows "hdr_write p a h = Some (p\<lparr>slots := (slots p)(a \<mapsto> h)\<rparr>)"
    and "pool_wf (p\<lparr>slots := (slots p)(a \<mapsto> h)\<rparr>)"
  using assms pool_wf_cells[OF assms(1), of a]
  by (auto simp: hdr_write_def pool_wf_def pool_cells_def insert_absorb split: option.splits)

subsection \<open>The chain depends on the free slots only\<close>

lemma chain_range: "chain p i fl \<Longrightarrow> set fl \<subseteq> {0..<num_slots p}"
  by (induction rule: chain.induct) auto

lemma chain_head: "chain p i fl \<Longrightarrow> (fl = [] \<longleftrightarrow> i = -1) \<and> (fl \<noteq> [] \<longrightarrow> hd fl = i)"
  by (induction rule: chain.induct) (auto simp: upto.simps)

lemma chain_cong:
  assumes "chain p i fl" and "num_slots q = num_slots p" and "slot q = slot p"
    and "\<And>j. j \<in> set fl \<Longrightarrow> slots q (slot p j) = slots p (slot p j)"
  shows "chain q i fl"
  using assms
proof (induction rule: chain.induct)
  case chain_nil
  show ?case by (rule chain.chain_nil)
next
  case (chain_single i h fl)
  then show ?case by (auto intro!: chain.chain_single)
next
  case (chain_run i h)
  then have "slots q (slot q i) = Some h" by simp
  with chain_run chain.chain_run[of i q h] show ?case by simp
qed

lemma chain_unique: "chain p i fl \<Longrightarrow> chain p i fl' \<Longrightarrow> fl = fl'"
proof (induction arbitrary: fl' rule: chain.induct)
  case chain_nil
  then show ?case using chain_head by blast
next
  case (chain_single i h fl)
  from chain_single.prems chain_single.hyps show ?case
    by (cases rule: chain.cases) (auto intro: chain_single.IH)
next
  case (chain_run i h)
  from chain_run.prems chain_run.hyps show ?case
    by (cases rule: chain.cases) auto
qed

section \<open>The operations on the chain\<close>

lemma pool_rep_wf: "pool_rep p fl \<Longrightarrow> pool_wf p"
  by (simp add: pool_rep_def)

lemma pool_rep_cells: "pool_rep p fl \<Longrightarrow> set fl \<subseteq> pool_cells p"
  using chain_range by (fastforce simp: pool_rep_def pool_cells_def)

lemma pool_rep_distinct: "pool_rep p fl \<Longrightarrow> distinct fl"
  by (auto simp: pool_rep_def pool_wf_def slot_inj intro!: distinct_map_inj_on)

lemma pool_rep_unique: "pool_rep p fl \<Longrightarrow> pool_rep p fl' \<Longrightarrow> fl = fl'"
  by (auto simp: pool_rep_def dest: chain_unique)

lemma pool_cells_not_null: "pool_wf p \<Longrightarrow> NULL \<notin> pool_cells p"
  using slot_pos by (fastforce simp: pool_cells_def)

lemma slot_in_cells: "0 < slot_sz p \<Longrightarrow> slot p i \<in> pool_cells p \<longleftrightarrow> 0 \<le> i \<and> i < num_slots p"
  by (auto simp: pool_cells_def slot_inj)

lemma mempool_alloc_nil: "pool_rep p [] \<Longrightarrow> mempool_alloc p = Some (NULL, p)"
  by (auto simp: pool_rep_def mempool_alloc_def dest: chain_head)

text \<open>Taking the first slot off the run of fresh slots moves the run's header to the next one.\<close>

lemma chain_run_step:
  assumes "pool_wf p" and "0 \<le> i" and "1 < k" and "i + k = num_slots p"
    and q: "q = p\<lparr>slots := (slots p)(slot p (i + 1) \<mapsto> \<lparr>free_next = -1, hdr_slots = k - 1\<rparr>),
                 free_list_head := j\<rparr>"
  shows "chain q (i + 1) [i + 1..num_slots p - 1]"
proof (cases "k = 2")
  case True
  have "chain q (i + 1) [i + 1]"
    by (rule chain.chain_single[where h = "\<lparr>free_next = -1, hdr_slots = k - 1\<rparr>"])
      (use assms True chain.chain_nil in auto)
  with True assms(4) show ?thesis by (simp add: upto.simps)
next
  case False
  have "chain q (i + 1) [i + 1..num_slots q - 1]"
    by (rule chain.chain_run[where h = "\<lparr>free_next = -1, hdr_slots = k - 1\<rparr>"])
      (use assms False in auto)
  with q show ?thesis by simp
qed

lemma mempool_alloc_cons:
  assumes "pool_rep p (a # fl)"
  shows "\<exists>p'. mempool_alloc p = Some (a, p') \<and> pool_rep p' fl \<and> pool_cells p' = pool_cells p"
proof -
  obtain is0 where wf: "pool_wf p" and ch: "chain p (free_list_head p) is0"
    and dist: "distinct is0" and fl: "a # fl = map (slot p) is0"
    using assms by (auto simp: pool_rep_def)
  then obtain i js where is0: "is0 = i # js" "a = slot p i" "fl = map (slot p) js"
    by (cases is0) auto
  with ch have hd: "free_list_head p = i" using chain_head by fastforce
  from ch[unfolded is0] show ?thesis
  proof (cases rule: chain_ConsE)
    case (single h)
    let ?q = "p\<lparr>free_list_head := free_next h\<rparr>"
    have "chain ?q (free_next h) js"
      by (rule chain_cong[OF single(6)]) auto
    with single hd wf dist is0 show ?thesis
      by (auto simp: mempool_alloc_def pool_rep_def Let_def intro!: exI[of _ js])
  next
    case (run h)
    let ?h = "\<lparr>free_next = -1, hdr_slots = hdr_slots h - 1\<rparr>"
    let ?q = "p\<lparr>slots := (slots p)(slot p (i + 1) \<mapsto> ?h), free_list_head := i + 1\<rparr>"
    have sz: "0 < slot_sz p" using wf by (simp add: pool_wf_def)
    have cell: "slot p (i + 1) \<in> pool_cells p"
      using run hd sz by (simp add: slot_in_cells)
    note w = hdr_write_wf[OF wf cell, of ?h]
    have js: "js = [i + 1..num_slots p - 1]"
      using run hd by (simp add: upto_Cons_tl)
    have "chain ?q (i + 1) js"
      unfolding js by (rule chain_run_step[OF wf]) (use run hd in auto)
    moreover have "mempool_alloc p = Some (a, ?q)"
      using run hd is0 w by (simp add: mempool_alloc_def Let_def)
    ultimately show ?thesis
      using w(2) dist is0 by (auto simp: pool_rep_def intro!: exI[of _ js])
  qed
qed

lemma mempool_free_push:
  assumes rep: "pool_rep p fl" and a: "a \<in> pool_cells p" "a \<notin> set fl"
  shows "\<exists>p'. mempool_free p a = Some p' \<and> pool_rep p' (a # fl) \<and> pool_cells p' = pool_cells p"
proof -
  obtain is0 where wf: "pool_wf p" and ch: "chain p (free_list_head p) is0"
    and dist: "distinct is0" and fl: "fl = map (slot p) is0"
    using rep by (auto simp: pool_rep_def)
  obtain i where i: "a = slot p i" "0 \<le> i" "i < num_slots p"
    using a(1) by (auto simp: pool_cells_def)
  have sz: "0 < slot_sz p" using wf by (simp add: pool_wf_def)
  let ?h = "\<lparr>free_next = free_list_head p, hdr_slots = 1\<rparr>"
  let ?q = "p\<lparr>slots := (slots p)(a \<mapsto> ?h), free_list_head := i\<rparr>"
  have iout: "i \<notin> set is0" using a(2) fl i(1) by auto
  have "chain ?q (free_list_head p) is0"
    by (rule chain_cong[OF ch]) (use iout i sz in \<open>auto simp: slot_inj\<close>)
  then have "chain ?q i (i # is0)"
    using i by (auto intro!: chain.chain_single[where h = ?h])
  moreover note w = hdr_write_wf[OF wf a(1), of ?h]
  moreover have "mempool_free p a = Some ?q"
    using w(1) i sz by (simp add: mempool_free_def Let_def idx_of_slot)
  ultimately show ?thesis
    using dist iout fl i by (auto simp: pool_rep_def intro!: exI[of _ "i # is0"])
qed

lemma client_write_keep:
  assumes rep: "pool_rep p fl" and a: "a \<in> pool_cells p" "a \<notin> set fl"
  shows "\<exists>p'. client_write p a h = Some p' \<and> pool_rep p' fl \<and> pool_cells p' = pool_cells p"
proof -
  obtain is0 where wf: "pool_wf p" and ch: "chain p (free_list_head p) is0"
    and dist: "distinct is0" and fl: "fl = map (slot p) is0"
    using rep by (auto simp: pool_rep_def)
  let ?q = "p\<lparr>slots := (slots p)(a \<mapsto> h)\<rparr>"
  have "chain ?q (free_list_head p) is0"
    by (rule chain_cong[OF ch]) (use a(2) fl in auto)
  with hdr_write_wf[OF wf a(1), of h] dist fl show ?thesis
    by (auto simp: client_write_def pool_rep_def intro!: exI[of _ is0])
qed

interpretation mp: slot_stack mempool_alloc mempool_free client_write pool_rep pool_cells
proof unfold_locales
  fix p fl a h
  show "pool_rep p fl \<Longrightarrow> finite (pool_cells p)" by (simp add: pool_cells_def)
qed (simp_all add: pool_rep_distinct pool_rep_cells pool_rep_unique pool_cells_not_null
      pool_rep_wf mempool_alloc_nil mempool_alloc_cons mempool_free_push client_write_keep)

section \<open>Creation and reachable pools\<close>

lemma ALIGN_TO_16: "ALIGN_TO x 16 = (x + 15) div 16 * 16"
proof -
  have "y AND NOT (mask 4) = push_bit 4 (drop_bit 4 y)" for y :: int
    by (rule bit_eqI) (auto simp: bit_simps)
  then have "(x + 15) AND NOT (mask 4) = (x + 15) div 16 * 16"
    by (simp add: push_bit_eq_mult drop_bit_eq_div)
  then show ?thesis by (simp add: ALIGN_TO_def mask_eq_exp_minus_1)
qed

text \<open>A buffer as \<^verbatim>\<open>mempool_create_from_buffer\<close> assumes it: one slot header is addressable at every
  slot, and nothing beyond. Its contents are arbitrary.\<close>

definition pool_buffer :: "addr \<Rightarrow> int \<Rightarrow> int \<Rightarrow> (addr \<Rightarrow> slot_hdr option) \<Rightarrow> bool" where
  "pool_buffer buf elem_sz_b n mem \<longleftrightarrow> 0 < buf \<and> 0 < elem_sz_b
     \<and> dom mem = (\<lambda>i. buf + sizeof_mempool + i * ALIGN_TO elem_sz_b 16) ` {0..<n}"

lemma ALIGN_TO_bounds: "x \<le> ALIGN_TO x 16 \<and> ALIGN_TO x 16 < x + 16 \<and> ALIGN_TO x 16 mod 16 = 0"
  by (simp add: ALIGN_TO_16) presburger

lemma create_slot:
  "slot \<lparr>mp_base = buf, num_slots = n, slot_sz = sz, free_list_head = h, owns_buffer = ow,
          slots = mem\<rparr> i = buf + sizeof_mempool + i * sz"
  by (simp add: slot_def)

lemma create_from_buffer_rep:
  assumes buf: "pool_buffer buf sz n mem" and n: "2 \<le> n"
  shows "\<exists>p. mempool_create_from_buffer buf mem sz n = Some p \<and> mp_base p = buf
          \<and> num_slots p = n \<and> slot_sz p = ALIGN_TO sz 16 \<and> owns_buffer p = 0
          \<and> pool_rep p (map (slot p) [0..n - 1])"
proof -
  define al where "al = ALIGN_TO sz 16"
  define p0 where "p0 = \<lparr>mp_base = buf, num_slots = n, slot_sz = al, free_list_head = 0,
    owns_buffer = 0, slots = mem\<rparr>"
  have al: "0 < al" using buf ALIGN_TO_bounds[of sz] by (simp add: al_def pool_buffer_def)
  have wf0: "pool_wf p0"
    using buf n al
    by (auto simp: pool_wf_def pool_buffer_def p0_def slot_def al_def image_iff)
  let ?h0 = "\<lparr>free_next = 1, hdr_slots = 1\<rparr>" and ?h1 = "\<lparr>free_next = -1, hdr_slots = n - 1\<rparr>"
  have c: "slot p0 0 \<in> pool_cells p0" "slot p0 1 \<in> pool_cells p0"
    using n al by (simp_all add: slot_in_cells p0_def)
  define p1 where "p1 = p0\<lparr>slots := (slots p0)(slot p0 0 \<mapsto> ?h0)\<rparr>"
  have p1: "hdr_write p0 (slot p0 0) ?h0 = Some p1" "pool_wf p1"
    unfolding p1_def by (rule hdr_write_wf[OF wf0 c(1)])+
  have c1: "slot p1 1 \<in> pool_cells p1" using c(2) by (simp add: p1_def)
  define p2 where "p2 = p1\<lparr>slots := (slots p1)(slot p1 1 \<mapsto> ?h1)\<rparr>"
  have p2: "hdr_write p1 (slot p1 1) ?h1 = Some p2" "pool_wf p2"
    unfolding p2_def by (rule hdr_write_wf[OF p1(2) c1])+
  have eq: "mempool_create_from_buffer buf mem sz n = Some p2"
    using p1(1) p2(1)
    by (simp add: mempool_create_from_buffer_def DLOG_ALLOC_DEFAULT_ALIGNMENT_def Let_def
        p0_def al_def)
  have f: "mp_base p2 = buf" "num_slots p2 = n" "slot_sz p2 = al" "owns_buffer p2 = 0"
    "free_list_head p2 = 0" "slot p2 = slot p0" "slots p2 (slot p0 1) = Some ?h1"
    "slots p2 (slot p0 0) = Some ?h0"
    using al by (auto simp: p2_def p1_def p0_def slot_def)
  have ch1: "chain p2 1 [1..n - 1]"
  proof (cases "n = 2")
    case True
    have "chain p2 1 [1]"
      by (rule chain.chain_single[where h = ?h1]) (use f True chain.chain_nil in auto)
    with True show ?thesis by (simp add: upto.simps)
  next
    case False
    with f n chain.chain_run[of 1 p2 ?h1] show ?thesis by auto
  qed
  then have "chain p2 0 (0 # [1..n - 1])"
    using f n by (auto intro!: chain.chain_single[where h = ?h0])
  with n have "chain p2 0 [0..n - 1]" by (simp add: upto_Cons_tl)
  with f eq p2(2) show ?thesis by (auto simp: pool_rep_def al_def intro!: exI[of _ p2])
qed

text \<open>The states a pool reaches when its clients give back, and write to, only what they own.\<close>

inductive pool_reach :: "mempool \<Rightarrow> addr set \<Rightarrow> bool" where
  reach_create: "pool_buffer buf sz n mem \<Longrightarrow> 2 \<le> n
    \<Longrightarrow> mempool_create_from_buffer buf mem sz n = Some p \<Longrightarrow> pool_reach p {}"
| reach_alloc: "pool_reach p L \<Longrightarrow> mempool_alloc p = Some (a, p') \<Longrightarrow> a \<noteq> NULL
    \<Longrightarrow> pool_reach p' (insert a L)"
| reach_full: "pool_reach p L \<Longrightarrow> mempool_alloc p = Some (NULL, p') \<Longrightarrow> pool_reach p' L"
| reach_free: "pool_reach p L \<Longrightarrow> a \<in> L \<Longrightarrow> mempool_free p a = Some p' \<Longrightarrow> pool_reach p' (L - {a})"
| reach_write: "pool_reach p L \<Longrightarrow> a \<in> L \<Longrightarrow> client_write p a h = Some p' \<Longrightarrow> pool_reach p' L"

lemma pool_reach_owned: "pool_reach p L \<Longrightarrow> mp.owned p L"
proof (induction rule: pool_reach.induct)
  case (reach_create buf sz n mem p)
  then obtain "pool_rep p (map (slot p) [0..n - 1])" "num_slots p = n"
    using create_from_buffer_rep by fastforce
  moreover from this have "pool_cells p - set (map (slot p) [0..n - 1]) = {}"
    by (auto simp: pool_cells_def)
  ultimately show ?case by (metis mp.ownedI)
next
  case (reach_alloc p L a p')
  then show ?case using mp.owned_alloc_fresh by blast
next
  case (reach_full p L p')
  then show ?case using mp.owned_alloc_null by blast
next
  case (reach_free p L a p')
  then show ?case using mp.owned_release[of p L a] by auto
next
  case (reach_write p L a h p')
  then show ?case using mp.owned_scribble[of p L a h] by auto
qed

text \<open>Every slot has the alignment of the pool's buffer: the slots are 16 bytes apart, or a multiple of it.\<close>

lemma pool_reach_aligned: "pool_reach p L \<Longrightarrow> slot_sz p mod 16 = 0"
proof (induction rule: pool_reach.induct)
  case (reach_create buf sz n mem p)
  with create_from_buffer_rep[OF reach_create(1,2)] ALIGN_TO_bounds[of sz] show ?case by auto
qed (auto simp: mempool_alloc_def mempool_free_def client_write_def hdr_write_def Let_def bind_eq_Some_conv split: if_splits option.splits)

lemma slot_aligned:
  assumes "pool_reach p L" and "a \<in> slot p ` {0..<num_slots p}"
  shows "a mod 16 = mp_base p mod 16"
proof -
  obtain i where a: "a = mp_base p + 16 + i * slot_sz p" using assms(2) by (auto simp: slot_def sizeof_mempool_def)
  obtain k where "slot_sz p = 16 * k" using pool_reach_aligned[OF assms(1)] by (auto simp: mod_eq_0_iff_dvd)
  then have "a = mp_base p + 16 * (1 + i * k)" using a by (simp add: algebra_simps)
  then show ?thesis by (simp only: mod_mult_self2)
qed

section \<open>Properties\<close>

text \<open>C17: in every state a pool reaches under disciplined clients, allocation does not fault; it
  returns the null pointer exactly when every slot is in use, and otherwise a slot of the pool
  that no client owns, with the alignment of the pool's buffer: at a multiple of 16 if that begins at one, as the creation assumes.\<close>

theorem mempool_alloc_fresh:
  assumes "pool_reach p L"
  shows "\<exists>a p'. mempool_alloc p = Some (a, p')
      \<and> (a = NULL \<longleftrightarrow> L = slot p ` {0..<num_slots p})
      \<and> (a \<noteq> NULL \<longrightarrow> a \<in> slot p ` {0..<num_slots p} \<and> a \<notin> L \<and> a mod 16 = mp_base p mod 16
         \<and> pool_reach p' (insert a L))"
proof -
  have o: "mp.owned p L" using assms by (rule pool_reach_owned)
  then obtain a p' where al: "mempool_alloc p = Some (a, p')"
    using mp.owned_alloc_total by blast
  have "a = NULL \<longleftrightarrow> L = pool_cells p"
    using o al by (rule mp.owned_alloc_null_iff)
  moreover have "a \<noteq> NULL \<Longrightarrow> a \<in> pool_cells p \<and> a \<notin> L"
    using mp.owned_alloc_fresh[OF o al] by simp
  ultimately show ?thesis
    using al reach_alloc[OF assms al] slot_aligned[OF assms] by (auto simp: pool_cells_def)
qed

text \<open>A pool of two slots, for evaluation.\<close>

definition pool2 :: mempool where
  "pool2 = \<lparr>mp_base = 64, num_slots = 2, slot_sz = 16, free_list_head = 0, owns_buffer = 0,
     slots = [80 \<mapsto> \<lparr>free_next = 1, hdr_slots = 1\<rparr>, 96 \<mapsto> \<lparr>free_next = -1, hdr_slots = 1\<rparr>]\<rparr>"

lemma pool2_create:
  "mempool_create_from_buffer 64
     [80 \<mapsto> \<lparr>free_next = 7, hdr_slots = 7\<rparr>, 96 \<mapsto> \<lparr>free_next = 7, hdr_slots = 7\<rparr>] 8 2 = Some pool2"
  by (simp add: mempool_create_from_buffer_def DLOG_ALLOC_DEFAULT_ALIGNMENT_def ALIGN_TO_16
      slot_def sizeof_mempool_def hdr_write_def pool2_def fun_eq_iff)

lemma pool2_buffer:
  "pool_buffer 64 8 2
     [80 \<mapsto> \<lparr>free_next = 7, hdr_slots = 7\<rparr>, 96 \<mapsto> \<lparr>free_next = 7, hdr_slots = 7\<rparr>]"
proof -
  have "{0..<2::int} = {0, 1}" by auto
  then show ?thesis by (auto simp: pool_buffer_def ALIGN_TO_16 sizeof_mempool_def)
qed

lemma pool2_reach: "pool_reach pool2 {}"
  by (rule reach_create[OF pool2_buffer _ pool2_create]) simp

theorem mempool_alloc_fresh_witness:
  "pool_reach pool2 {} \<and> (\<exists>a p'. mempool_alloc pool2 = Some (a, p') \<and> a \<noteq> NULL \<and> pool_reach p' {a})"
proof -
  have "{} \<noteq> slot pool2 ` {0..<num_slots pool2}" by (simp add: pool2_def)
  with mempool_alloc_fresh[OF pool2_reach] pool2_reach show ?thesis by auto
qed

text \<open>Giving back an owned slot never faults, and the slot is the next one handed out; the
  pool is otherwise as before.\<close>

theorem mempool_free_lifo:
  assumes "pool_reach p L" and "a \<in> L"
  shows "\<exists>p' p''. mempool_free p a = Some p' \<and> pool_reach p' (L - {a})
           \<and> mempool_alloc p' = Some (a, p'') \<and> pool_reach p'' L"
proof -
  obtain fl where rep: "pool_rep p fl" and L: "L = pool_cells p - set fl"
    using pool_reach_owned[OF assms(1)] unfolding mp.owned_def by blast
  with assms(2) have a: "a \<in> pool_cells p" "a \<notin> set fl" by auto
  from mempool_free_push[OF rep a] obtain p' where p': "mempool_free p a = Some p'" by blast
  from mp.release_alloc[OF rep a p'] obtain p'' where "mempool_alloc p' = Some (a, p'')" by blast
  moreover have "pool_reach p' (L - {a})" using assms p' by (rule reach_free)
  moreover have "a \<noteq> NULL" using a pool_cells_not_null[OF pool_rep_wf[OF rep]] by auto
  ultimately show ?thesis
    using p' reach_alloc[of p' "L - {a}" a p''] assms(2) by (auto simp: insert_absorb)
qed

theorem mempool_free_lifo_witness:
  "\<exists>p a p' p''. pool_reach p {a} \<and> mempool_free p a = Some p' \<and> mempool_alloc p' = Some (a, p'')"
proof -
  have al: "mempool_alloc pool2 = Some (80, pool2\<lparr>free_list_head := 1\<rparr>)"
    by (simp add: mempool_alloc_def pool2_def slot_def sizeof_mempool_def)
  have "pool_reach (pool2\<lparr>free_list_head := 1\<rparr>) {80}"
    using reach_alloc[OF pool2_reach al] by simp
  with mempool_free_lifo[OF this, of 80] show ?thesis by auto
qed

text \<open>Creation lays the slots out inside the buffer that \<^verbatim>\<open>mempool_memsize\<close> asks for: every slot
  is large enough for an element, slots keep the buffer's alignment, do not overlap and end
  inside the buffer; all of them are free, the first one first. It needs two slots: with one,
  the header written to slot 1 is outside the buffer.\<close>

theorem mempool_create_layout:
  assumes buf: "pool_buffer buf sz n mem" and n: "2 \<le> n" and al: "buf mod 16 = 0"
  shows "\<exists>p. mempool_create_from_buffer buf mem sz n = Some p \<and> pool_reach p {}
           \<and> sz \<le> mempool_get_slotsz p \<and> mempool_get_numslots p = n
           \<and> slot p 0 = buf + 16 \<and> slot p n = buf + mempool_memsize sz n
           \<and> (\<forall>i. slot p i mod 16 = 0 \<and> slot p (i + 1) = slot p i + mempool_get_slotsz p)"
proof -
  from create_from_buffer_rep[OF buf n] obtain p where
    p: "mempool_create_from_buffer buf mem sz n = Some p" "mp_base p = buf" "num_slots p = n"
       "slot_sz p = ALIGN_TO sz 16" by blast
  have "slot p i mod 16 = 0" for i
  proof -
    have "16 dvd ALIGN_TO sz 16" "16 dvd buf" using ALIGN_TO_bounds[of sz] al by auto
    then have "16 dvd slot p i" by (simp add: slot_def p sizeof_mempool_def)
    then show ?thesis by (simp add: dvd_eq_mod_eq_0)
  qed
  with p reach_create[OF buf n p(1)] ALIGN_TO_bounds[of sz] show ?thesis
    by (auto simp: slot_def mempool_get_slotsz_def mempool_get_numslots_def mempool_memsize_def
        sizeof_mempool_def distrib_right)
qed

theorem mempool_create_layout_witness:
  "\<exists>mem p. pool_buffer 64 8 2 mem \<and> mempool_create_from_buffer 64 mem 8 2 = Some p \<and> pool_reach p {}"
proof -
  have "(64::int) mod 16 = 0" by simp
  with mempool_create_layout[OF pool2_buffer, simplified] pool2_buffer show ?thesis by blast
qed

text \<open>A pool of a single slot cannot be created: writing the header of slot 1 leaves the
  buffer.\<close>

theorem mempool_create_one_slot:
  assumes "pool_buffer buf sz 1 mem"
  shows "mempool_create_from_buffer buf mem sz 1 = None"
proof -
  have d: "dom mem = {buf + sizeof_mempool}" "0 < ALIGN_TO sz 16"
    using assms ALIGN_TO_bounds[of sz] by (auto simp: pool_buffer_def)
  then have "buf + sizeof_mempool + ALIGN_TO sz 16 \<notin> dom mem" by simp
  then have "mem (buf + sizeof_mempool + ALIGN_TO sz 16) = None" by blast
  with d(2) show ?thesis
    by (auto simp: mempool_create_from_buffer_def DLOG_ALLOC_DEFAULT_ALIGNMENT_def Let_def
        hdr_write_def slot_def split: option.splits)
qed

theorem mempool_create_one_slot_witness:
  "mempool_create_from_buffer 64 [80 \<mapsto> \<lparr>free_next = 0, hdr_slots = 0\<rparr>] 8 1 = None"
proof (rule mempool_create_one_slot)
  have "{0..<1::int} = {0}" by auto
  then show "pool_buffer 64 8 1 [80 \<mapsto> \<lparr>free_next = 0, hdr_slots = 0\<rparr>]"
    by (simp add: pool_buffer_def sizeof_mempool_def)
qed

text \<open>Nothing protects against giving a slot back twice: after that the next two allocations
  return the same slot to two owners.\<close>

theorem mempool_double_free_aliases:
  assumes wf: "pool_wf p" and a: "a \<in> slot p ` {0..<num_slots p}"
  shows "\<exists>p1 p2 p3 p4. mempool_free p a = Some p1 \<and> mempool_free p1 a = Some p2
           \<and> mempool_alloc p2 = Some (a, p3) \<and> mempool_alloc p3 = Some (a, p4)"
proof -
  obtain i where i: "a = slot p i" "0 \<le> i" "i < num_slots p" using a by auto
  have sz: "0 < slot_sz p" using wf by (simp add: pool_wf_def)
  have c: "a \<in> pool_cells p" using a by (simp add: pool_cells_def)
  then obtain h where h: "slots p a = Some h" using pool_wf_cells[OF wf] by blast
  have fr: "mempool_free q a = Some (q\<lparr>slots := (slots q)(a \<mapsto>
       \<lparr>free_next = free_list_head q, hdr_slots = 1\<rparr>), free_list_head := i\<rparr>)"
    if "slot q = slot p" "slot_sz q = slot_sz p" "mp_base q = mp_base p" "slots q a \<noteq> None" for q
  proof -
    have "idx_of q (slot p i) = i" using idx_of_slot[of q i] sz i that by simp
    then show ?thesis using that i by (auto simp: mempool_free_def hdr_write_def Let_def)
  qed
  define p1 where "p1 = p\<lparr>slots := (slots p)(a \<mapsto>
       \<lparr>free_next = free_list_head p, hdr_slots = 1\<rparr>), free_list_head := i\<rparr>"
  define p2 where "p2 = p1\<lparr>slots := (slots p1)(a \<mapsto> \<lparr>free_next = i, hdr_slots = 1\<rparr>),
       free_list_head := i\<rparr>"
  have "mempool_free p a = Some p1" using fr[of p] h by (simp add: p1_def)
  moreover have "mempool_free p1 a = Some p2"
    using fr[of p1] by (simp add: p2_def p1_def)
  moreover have "mempool_alloc p2 = Some (a, p2)"
    using i by (simp add: mempool_alloc_def p2_def p1_def Let_def)
  ultimately show ?thesis by blast
qed

theorem mempool_double_free_aliases_witness:
  "\<exists>p1 p2 p3 p4. mempool_free pool2 80 = Some p1 \<and> mempool_free p1 80 = Some p2
     \<and> mempool_alloc p2 = Some (80, p3) \<and> mempool_alloc p3 = Some (80, p4)"
proof -
  have "{0..<2::int} = {0, 1}" by auto
  then have "80 \<in> slot pool2 ` {0..<num_slots pool2}" "pool_wf pool2"
    by (auto simp: pool2_def slot_def sizeof_mempool_def pool_wf_def)
  then show ?thesis by (intro mempool_double_free_aliases)
qed

end
