(* ===== verification/Block_Interface.thy ===== *)
theory Block_Interface
  imports Prelude
begin

text \<open>
  What the dynamic strings expect of their allocator, the external functions
  \<^verbatim>\<open>alloc_dynstr_alloc\<close>, \<^verbatim>\<open>alloc_dynstr_free\<close> and \<^verbatim>\<open>alloc_dynstr_realloc\<close> that \<^verbatim>\<open>dynstr.c\<close> declares.
  \<open>inv h L\<close> says that \<open>h\<close> is a consistent allocator state in which the blocks \<open>L\<close> are in use;
  \<open>blk h p\<close> is the size of block \<open>p\<close>. Reallocation returns how many bytes it carried over,
  \<open>None\<close> for a block that stayed where it was.
\<close>

record 'h allocator =
  al_alloc :: "'h \<Rightarrow> int \<Rightarrow> (addr \<times> int \<times> 'h) option"
  al_free :: "'h \<Rightarrow> addr \<Rightarrow> 'h option"
  al_realloc :: "'h \<Rightarrow> addr \<Rightarrow> int \<Rightarrow> (addr \<times> int \<times> int option \<times> 'h) option"

locale block_heap =
  fixes A :: "'h allocator"
    and inv :: "'h \<Rightarrow> addr set \<Rightarrow> bool"
    and blk :: "'h \<Rightarrow> addr \<Rightarrow> int"
  assumes alloc_ok: "inv h L \<Longrightarrow>
      \<exists>p cap h'. al_alloc A h n = Some (p, cap, h') \<and> p \<noteq> NULL \<and> p \<notin> L \<and> n \<le> cap
        \<and> inv h' (insert p L) \<and> blk h' p = cap \<and> (\<forall>q \<in> L. blk h' q = blk h q)"
    and free_ok: "inv h L \<Longrightarrow> p \<in> L \<Longrightarrow>
      \<exists>h'. al_free A h p = Some h' \<and> inv h' (L - {p}) \<and> (\<forall>q \<in> L - {p}. blk h' q = blk h q)"
    and realloc_ok: "inv h L \<Longrightarrow> p \<in> L \<Longrightarrow>
      \<exists>q cap m h'. al_realloc A h p n = Some (q, cap, m, h') \<and> q \<noteq> NULL \<and> n \<le> cap
        \<and> (q = p \<and> m = None \<and> cap = blk h p \<or>
           q \<notin> L \<and> (\<exists>k. m = Some k \<and> min (blk h p) n \<le> k \<and> k \<le> blk h p \<and> k \<le> cap))
        \<and> inv h' (insert q (L - {p})) \<and> blk h' q = cap \<and> (\<forall>r \<in> L - {p}. blk h' r = blk h r)"
begin

text \<open>Growing a block moves it and carries all of it over.\<close>

lemma realloc_grow:
  assumes "inv h L" and "p \<in> L" and "blk h p < n"
  shows "\<exists>q cap h'. al_realloc A h p n = Some (q, cap, Some (blk h p), h') \<and> q \<noteq> NULL \<and> n \<le> cap
        \<and> q \<notin> L \<and> inv h' (insert q (L - {p})) \<and> blk h' q = cap
        \<and> (\<forall>r \<in> L - {p}. blk h' r = blk h r)"
  using realloc_ok[OF assms(1,2), of n] assms(3) by fastforce

text \<open>A block allocated and released again leaves the other blocks as they were.\<close>

lemma alloc_free:
  assumes "inv h L"
  shows "\<exists>p cap h' h''. al_alloc A h n = Some (p, cap, h') \<and> al_free A h' p = Some h'' \<and> inv h'' L
           \<and> (\<forall>q \<in> L. blk h'' q = blk h q)"
proof -
  obtain p cap h' where a: "al_alloc A h n = Some (p, cap, h')" "p \<notin> L" "inv h' (insert p L)"
    "\<forall>q \<in> L. blk h' q = blk h q" using alloc_ok[OF assms, of n] by blast
  from free_ok[OF a(3), of p] a(2) obtain h'' where "al_free A h' p = Some h''" "inv h'' L"
    "\<forall>q \<in> L. blk h'' q = blk h' q" by auto
  with a show ?thesis by auto
qed

end

end
