(* ===== verification/Arena.thy ===== *)
theory Arena
  imports Mempool Block_Interface
begin

text \<open>
  The arena of \<^verbatim>\<open>arena.c\<close>: pools of increasing slot size laid out one after the other in a single
  allocation, with the C heap behind them. The C heap is part of the state: \<open>heap\<close> holds the live
  blocks with their sizes, and new blocks get addresses from \<open>heap_next\<close> upwards, above the arena.
  \<^verbatim>\<open>realloc\<close> on the heap is taken to move the block; running out of memory, which the code does not
  check for, is not modelled.
\<close>

section \<open>Data\<close>

record pool_hdr =
  this_pool :: mempool
  next_pool :: addr

record arena =
  allow_heap :: bool
  num_pools :: int
  pools :: "pool_hdr list"
  heap :: "addr \<Rightarrow> int option"
  heap_next :: addr

definition sizeof_arena :: int where "sizeof_arena = 16"
definition sizeof_pool_hdr :: int where "sizeof_pool_hdr = 16"

section \<open>The C heap\<close>

definition heap_calloc :: "arena \<Rightarrow> int \<Rightarrow> addr \<times> arena" where
  "heap_calloc ar sz =
     (let p = heap_next ar
      in (p, ar\<lparr>heap := (heap ar)(p \<mapsto> sz), heap_next := p + max 1 sz\<rparr>))"

definition heap_free :: "arena \<Rightarrow> addr \<Rightarrow> arena option" where
  "heap_free ar p = (case heap ar p of None \<Rightarrow> None | Some _ \<Rightarrow> Some (ar\<lparr>heap := (heap ar)(p := None)\<rparr>))"

section \<open>Operations\<close>

definition pool_at :: "arena \<Rightarrow> int \<Rightarrow> mempool option" where
  "pool_at ar i = (if 0 \<le> i \<and> i < int (length (pools ar)) then Some (this_pool (pools ar ! nat i)) else None)"

definition set_pool :: "arena \<Rightarrow> int \<Rightarrow> mempool \<Rightarrow> arena" where
  "set_pool ar i p = ar\<lparr>pools := (pools ar)[nat i := (pools ar ! nat i)\<lparr>this_pool := p\<rparr>]\<rparr>"

fun create_pools ::
  "(addr \<Rightarrow> slot_hdr) \<Rightarrow> addr \<Rightarrow> (int \<times> int) list \<Rightarrow> pool_hdr list option" where
  "create_pools mem0 pooladdr [] = Some []"
| "create_pools mem0 pooladdr ((sz, n) # sizes) =
     (let mem = (\<lambda>a. if a \<in> (\<lambda>i. pooladdr + sizeof_mempool + i * ALIGN_TO sz 16) ` set [0..n - 1]
                     then Some (mem0 a) else None);
          nxt = pooladdr + mempool_memsize sz n
      in do {
        p \<leftarrow> mempool_create_from_buffer pooladdr mem sz n;
        rest \<leftarrow> create_pools mem0 nxt sizes;
        Some (\<lparr>this_pool = p, next_pool = (if sizes = [] then NULL else nxt)\<rparr> # rest)
      })"

text \<open>\<open>base\<close> and \<open>mem0\<close> are the address and the contents of the memory the allocator returns;
  \<open>brk\<close> is where the C heap continues.\<close>

definition arena_create ::
  "addr \<Rightarrow> (addr \<Rightarrow> slot_hdr) \<Rightarrow> addr \<Rightarrow> (int \<times> int) list \<Rightarrow> bool \<Rightarrow> arena option" where
  "arena_create base mem0 brk sizes allow_heap_alloc =
     (let header_size = sizeof_arena + int (length sizes) * sizeof_pool_hdr in do {
        ps \<leftarrow> create_pools mem0 (base + header_size) sizes;
        if sizes = [] then None
        else Some \<lparr>allow_heap = allow_heap_alloc, num_pools = int (length sizes), pools = ps,
                   heap = Map.empty, heap_next = brk\<rparr>
      })"

definition arena_size :: "(int \<times> int) list \<Rightarrow> int" where
  "arena_size sizes = sizeof_arena + int (length sizes) * sizeof_pool_hdr
     + sum_list (map (\<lambda>(sz, n). mempool_memsize sz n) sizes)"

fun find_pool :: "(mempool \<Rightarrow> bool) \<Rightarrow> int \<Rightarrow> pool_hdr list \<Rightarrow> int" where
  "find_pool P i [] = -1"
| "find_pool P i (h # hs) = (if P (this_pool h) then i else find_pool P (i + 1) hs)"

definition poolidx_from_size :: "arena \<Rightarrow> int \<Rightarrow> int" where
  "poolidx_from_size ar sz = find_pool (\<lambda>pool. mempool_get_slotsz pool \<ge> sz) 0 (pools ar)"

definition poolidx_from_ptr :: "arena \<Rightarrow> addr \<Rightarrow> int" where
  "poolidx_from_ptr ar ptr = find_pool (\<lambda>pool. mempool_has_ptr pool ptr) 0 (pools ar)"

text \<open>The loop of \<^verbatim>\<open>arena_alloc\<close> over the pools from \<open>pidx\<close> on. \<open>Some None\<close>: no pool could allocate.\<close>

function alloc_from_pools :: "arena \<Rightarrow> int \<Rightarrow> (addr \<times> int \<times> arena) option option" where
  "alloc_from_pools ar pidx = do {
     pool \<leftarrow> pool_at ar pidx;
     (p, pool') \<leftarrow> mempool_alloc pool;
     if p \<noteq> NULL then Some (Some (p, mempool_get_slotsz pool, set_pool ar pidx pool'))
     else if pidx + 1 < int (length (pools ar)) then alloc_from_pools ar (pidx + 1)
     else Some None
   }"
  by pat_completeness auto
termination
  by (relation "measure (\<lambda>(ar, pidx). nat (int (length (pools ar)) - pidx))") auto

declare alloc_from_pools.simps [simp del]

text \<open>The results are the block and its capacity; a null pointer comes with no capacity (the C
  function leaves \<^verbatim>\<open>*capacity\<close> alone).\<close>

definition arena_alloc :: "arena \<Rightarrow> int \<Rightarrow> (addr \<times> int \<times> arena) option" where
  "arena_alloc ar sz =
     (let pidx = poolidx_from_size ar sz in do {
        r \<leftarrow> (if pidx \<noteq> -1 then alloc_from_pools ar pidx else Some None);
        case r of
          Some res \<Rightarrow> Some res
        | None \<Rightarrow> if allow_heap ar then let (p, ar') = heap_calloc ar sz in Some (p, sz, ar')
                  else Some (NULL, 0, ar)
      })"

definition arena_free :: "arena \<Rightarrow> addr \<Rightarrow> arena option" where
  "arena_free ar p =
     (let poolidx = poolidx_from_ptr ar p in
      if poolidx = -1 \<and> allow_heap ar then heap_free ar p
      else do {
        pool \<leftarrow> pool_at ar poolidx;
        pool' \<leftarrow> mempool_free pool p;
        Some (set_pool ar poolidx pool')
      })"

text \<open>The third result is how many bytes of the old block were copied into the new one; \<open>None\<close>
  means the block stayed in place.\<close>

definition arena_realloc ::
  "arena \<Rightarrow> addr \<Rightarrow> int \<Rightarrow> (addr \<times> int \<times> int option \<times> arena) option" where
  "arena_realloc ar p newlen =
     (let poolidx = poolidx_from_ptr ar p in
      if poolidx = -1 then do {
        old \<leftarrow> heap ar p;
        ar \<leftarrow> heap_free ar p;
        let (q, ar') = heap_calloc ar newlen in Some (q, newlen, Some (dlog_min old newlen), ar')
      }
      else do {
        pool \<leftarrow> pool_at ar poolidx;
        if poolidx_from_size ar newlen = poolidx then Some (p, mempool_get_slotsz pool, None, ar)
        else do {
          (newp, cap, ar') \<leftarrow> arena_alloc ar newlen;
          if newp = NULL then Some (NULL, 0, None, ar')
          else do {
            let newidx = poolidx_from_ptr ar' newp;
            (newcap, n) \<leftarrow>
              (if newidx = -1 then Some (newlen, dlog_min (mempool_get_slotsz pool) newlen)
               else if newidx > poolidx then Some (cap, mempool_get_slotsz pool)
               else do { np \<leftarrow> pool_at ar' newidx; Some (cap, mempool_get_slotsz np) });
            ar'' \<leftarrow> arena_free ar' p;
            Some (newp, newcap, Some n, ar'')
          }
        }
      })"

section \<open>Layout and ownership\<close>

abbreviation pool_nth :: "arena \<Rightarrow> nat \<Rightarrow> mempool" where
  "pool_nth ar i \<equiv> this_pool (pools ar ! i)"

abbreviation npools :: "arena \<Rightarrow> nat" where
  "npools ar \<equiv> length (pools ar)"

definition pool_end :: "mempool \<Rightarrow> addr" where
  "pool_end p = slot p (num_slots p)"

definition arena_layout :: "arena \<Rightarrow> bool" where
  "arena_layout ar \<longleftrightarrow> num_pools ar = int (npools ar)
     \<and> (\<forall>i < npools ar. pool_wf (pool_nth ar i) \<and> pool_end (pool_nth ar i) \<le> heap_next ar
          \<and> (\<forall>a \<in> dom (heap ar). pool_end (pool_nth ar i) \<le> a))
     \<and> (\<forall>j < npools ar. \<forall>i < j. pool_end (pool_nth ar i) \<le> mp_base (pool_nth ar j)
          \<and> slot_sz (pool_nth ar i) \<le> slot_sz (pool_nth ar j))
     \<and> 0 < heap_next ar \<and> (\<forall>a \<in> dom (heap ar). 0 < a \<and> a < heap_next ar)"

text \<open>\<open>arena_inv ar L\<close>: the arena is laid out properly and exactly the blocks \<open>L\<close> are in use.\<close>

definition arena_inv :: "arena \<Rightarrow> addr set \<Rightarrow> bool" where
  "arena_inv ar L \<longleftrightarrow> arena_layout ar
     \<and> (\<forall>i < npools ar. mp.owned (pool_nth ar i) (L \<inter> pool_cells (pool_nth ar i)))
     \<and> L \<subseteq> (\<Union>i < npools ar. pool_cells (pool_nth ar i)) \<union> dom (heap ar)
     \<and> dom (heap ar) \<subseteq> L"

definition block_size :: "arena \<Rightarrow> addr \<Rightarrow> int" where
  "block_size ar a =
     (let i = poolidx_from_ptr ar a in
      if i = -1 then the (heap ar a) else slot_sz (pool_nth ar (nat i)))"

lemma find_pool_cases:
  "find_pool P k hs = -1 \<and> (\<forall>h \<in> set hs. \<not> P (this_pool h))
   \<or> (\<exists>i < length hs. find_pool P k hs = k + int i \<and> P (this_pool (hs ! i))
        \<and> (\<forall>j < i. \<not> P (this_pool (hs ! j))))"
proof (induction hs arbitrary: k)
  case Nil
  then show ?case by simp
next
  case (Cons h hs)
  show ?case
  proof (cases "P (this_pool h)")
    case True
    then show ?thesis by (intro disjI2 exI[of _ 0]) simp
  next
    case False
    from Cons.IH[of "k + 1"] show ?thesis
    proof (elim disjE exE conjE)
      fix i
      assume "i < length hs" "find_pool P (k + 1) hs = k + 1 + int i" "P (this_pool (hs ! i))"
        "\<forall>j < i. \<not> P (this_pool (hs ! j))"
      with False show ?thesis
        by (intro disjI2 exI[of _ "Suc i"]) (auto simp: less_Suc_eq_0_disj)
    qed (use False in auto)
  qed
qed

lemma find_pool_at:
  assumes "i < length hs" and "P (this_pool (hs ! i))" and "\<And>j. j < i \<Longrightarrow> \<not> P (this_pool (hs ! j))"
  shows "find_pool P 0 hs = int i"
  using find_pool_cases[of P 0 hs] assms
  by (metis add_0 nth_mem linorder_neqE_nat)

lemma find_pool_none: "(\<And>h. h \<in> set hs \<Longrightarrow> \<not> P (this_pool h)) \<Longrightarrow> find_pool P k hs = -1"
  by (induction hs arbitrary: k) auto

lemma cells_bounds:
  assumes "pool_wf p" and "a \<in> pool_cells p"
  shows "mp_base p < a" and "a < pool_end p" and "mempool_has_ptr p a"
  using assms
  by (auto simp: pool_cells_def pool_wf_def slot_def pool_end_def mempool_has_ptr_def
      sizeof_mempool_def add_pos_nonneg)

lemma has_ptr_bounds:
  assumes "pool_wf p" and "mempool_has_ptr p a"
  shows "mp_base p < a" and "a < pool_end p"
  using assms
  by (auto simp: pool_wf_def slot_def pool_end_def mempool_has_ptr_def
      sizeof_mempool_def left_diff_distrib)

lemma layout_wf: "arena_layout ar \<Longrightarrow> i < npools ar \<Longrightarrow> pool_wf (pool_nth ar i)"
  by (simp add: arena_layout_def)

lemma has_ptr_unique:
  assumes lay: "arena_layout ar" and i: "i < npools ar" "mempool_has_ptr (pool_nth ar i) a"
    and j: "j < npools ar" "mempool_has_ptr (pool_nth ar j) a"
  shows "i = j"
proof -
  have False if "k < l" "l < npools ar" "mempool_has_ptr (pool_nth ar k) a"
    "mempool_has_ptr (pool_nth ar l) a" for k l
  proof -
    have "a < pool_end (pool_nth ar k)" "mp_base (pool_nth ar l) < a"
      using that lay has_ptr_bounds by (auto simp: arena_layout_def)
    moreover have "pool_end (pool_nth ar k) \<le> mp_base (pool_nth ar l)"
      using lay that by (simp add: arena_layout_def)
    ultimately show False by simp
  qed
  with i j show ?thesis by (metis linorder_neqE_nat)
qed

lemma idx_from_ptr_cell:
  assumes "arena_layout ar" and "i < npools ar" and "a \<in> pool_cells (pool_nth ar i)"
  shows "poolidx_from_ptr ar a = int i"
  unfolding poolidx_from_ptr_def
proof (rule find_pool_at)
  show hp: "mempool_has_ptr (pool_nth ar i) a"
    using assms layout_wf cells_bounds(3) by blast
  show "\<not> mempool_has_ptr (pool_nth ar j) a" if "j < i" for j
    using has_ptr_unique[OF assms(1,2) hp, of j] that assms(2) by auto
qed (rule assms(2))

lemma idx_from_ptr_heap:
  assumes "arena_layout ar" and "a \<in> dom (heap ar)"
  shows "poolidx_from_ptr ar a = -1"
  unfolding poolidx_from_ptr_def
proof (rule find_pool_none)
  fix h assume "h \<in> set (pools ar)"
  then obtain i where i: "i < npools ar" "h = pools ar ! i" by (auto simp: in_set_conv_nth)
  then have "pool_end (this_pool h) \<le> a" "pool_wf (this_pool h)"
    using assms by (auto simp: arena_layout_def)
  then show "\<not> mempool_has_ptr (this_pool h) a" using has_ptr_bounds(2) by fastforce
qed

lemma cells_disjoint:
  "arena_layout ar \<Longrightarrow> i < npools ar \<Longrightarrow> j < npools ar \<Longrightarrow> a \<in> pool_cells (pool_nth ar i)
   \<Longrightarrow> a \<in> pool_cells (pool_nth ar j) \<Longrightarrow> i = j"
  using idx_from_ptr_cell by (metis of_nat_eq_iff)

lemma heap_cells_disjoint:
  "arena_layout ar \<Longrightarrow> i < npools ar \<Longrightarrow> a \<in> pool_cells (pool_nth ar i) \<Longrightarrow> heap ar a = None"
  using idx_from_ptr_cell[of ar i a] idx_from_ptr_heap[of ar a] by (cases "heap ar a") auto

subsection \<open>Replacing one pool\<close>

definition same_shape :: "mempool \<Rightarrow> mempool \<Rightarrow> bool" where
  "same_shape p q \<longleftrightarrow> mp_base q = mp_base p \<and> num_slots q = num_slots p \<and> slot_sz q = slot_sz p"

lemma same_shape_slot: "same_shape p q \<Longrightarrow> slot q = slot p"
  by (auto simp: same_shape_def intro: slot_cong)

lemma same_shape_cells: "same_shape p q \<Longrightarrow> pool_cells q = pool_cells p"
  by (simp add: pool_cells_def same_shape_slot) (simp add: same_shape_def)

lemma hdr_write_shape: "hdr_write p a h = Some q \<Longrightarrow> same_shape p q"
  by (auto simp: hdr_write_def same_shape_def split: option.splits)

lemma mempool_alloc_shape: "mempool_alloc p = Some (a, q) \<Longrightarrow> same_shape p q"
  by (auto simp: mempool_alloc_def Let_def same_shape_def bind_Some_iff hdr_write_def
      split: if_splits option.splits)

lemma mempool_free_shape: "mempool_free p a = Some q \<Longrightarrow> same_shape p q"
  by (auto simp: mempool_free_def Let_def same_shape_def bind_Some_iff hdr_write_def
      split: option.splits)

lemma owned_wf: "mp.owned p L \<Longrightarrow> pool_wf p"
  by (auto simp: mp.owned_def pool_rep_wf)

lemma set_pool_simps [simp]:
  "heap (set_pool ar i q) = heap ar" "heap_next (set_pool ar i q) = heap_next ar"
  "allow_heap (set_pool ar i q) = allow_heap ar" "num_pools (set_pool ar i q) = num_pools ar"
  "npools (set_pool ar i q) = npools ar"
  "j < npools ar \<Longrightarrow> pool_nth (set_pool ar (int i') q) j = (if i' = j then q else pool_nth ar j)"
  by (simp_all add: set_pool_def nth_list_update)

lemma set_pool_inv:
  assumes inv: "arena_inv ar L" and i: "i < npools ar" and sh: "same_shape (pool_nth ar i) q"
    and ow: "mp.owned q L'"
  shows "arena_inv (set_pool ar (int i) q) ((L - pool_cells (pool_nth ar i)) \<union> L')"
proof -
  let ?ar = "set_pool ar (int i) q" and ?C = "pool_cells (pool_nth ar i)"
  have lay: "arena_layout ar" using inv by (simp add: arena_inv_def)
  have sub: "L' \<subseteq> ?C" using mp.owned_sub[OF ow] sh by (simp add: same_shape_cells)
  have pe: "pool_end q = pool_end (pool_nth ar i)"
    using sh by (simp add: pool_end_def same_shape_slot) (simp add: same_shape_def)
  have "arena_layout ?ar"
    using lay i sh owned_wf[OF ow]
    by (auto simp: arena_layout_def pe same_shape_def)
  moreover have "mp.owned (pool_nth ?ar j) ((L - ?C \<union> L') \<inter> pool_cells (pool_nth ?ar j))"
    if j: "j < npools ar" for j
  proof (cases "i = j")
    case True
    with sub have "(L - ?C \<union> L') \<inter> pool_cells q = L'" using sh by (auto simp: same_shape_cells)
    with True ow j show ?thesis by simp
  next
    case False
    with cells_disjoint[OF lay i j] sub
    have "(L - ?C \<union> L') \<inter> pool_cells (pool_nth ar j) = L \<inter> pool_cells (pool_nth ar j)" by blast
    with False inv j show ?thesis by (simp add: arena_inv_def)
  qed
  moreover have "L - ?C \<union> L' \<subseteq> (\<Union>j < npools ar. pool_cells (pool_nth ?ar j)) \<union> dom (heap ar)"
  proof
    fix a assume a: "a \<in> L - ?C \<union> L'"
    show "a \<in> (\<Union>j < npools ar. pool_cells (pool_nth ?ar j)) \<union> dom (heap ar)"
    proof (cases "a \<in> L'")
      case True
      with sub i sh show ?thesis by (auto simp: same_shape_cells intro!: bexI[of _ i])
    next
      case False
      have "L \<subseteq> (\<Union>j < npools ar. pool_cells (pool_nth ar j)) \<union> dom (heap ar)"
        using inv by (simp add: arena_inv_def)
      with a False consider "a \<in> dom (heap ar)"
        | j where "j < npools ar" "a \<in> pool_cells (pool_nth ar j)" by blast
      then show ?thesis
      proof cases
        case (2 j)
        with a False have "i \<noteq> j" by auto
        with 2 show ?thesis by (auto intro!: bexI[of _ j])
      qed simp
    qed
  qed
  moreover have "dom (heap ar) \<subseteq> L - ?C \<union> L'"
    using inv heap_cells_disjoint[OF lay i] by (fastforce simp: arena_inv_def)
  ultimately show ?thesis by (simp add: arena_inv_def)
qed

lemma block_size_set_pool:
  assumes "same_shape (pool_nth ar i) q" and "i < npools ar"
  shows "block_size (set_pool ar (int i) q) a = block_size ar a"
    and "poolidx_from_ptr (set_pool ar (int i) q) a = poolidx_from_ptr ar a"
proof -
  have *: "find_pool P k (hs[i := (hs ! i)\<lparr>this_pool := q\<rparr>]) = find_pool P k hs"
    if "P q \<longleftrightarrow> P (this_pool (hs ! i))" for P k hs i
    using that by (induction hs arbitrary: i k) (auto split: nat.splits)
  show idx: "poolidx_from_ptr (set_pool ar (int i) q) a = poolidx_from_ptr ar a"
  proof -
    have "mempool_has_ptr q a = mempool_has_ptr (pool_nth ar i) a"
      using assms(1) by (simp add: mempool_has_ptr_def same_shape_slot) (simp add: same_shape_def)
    from *[of "\<lambda>p. mempool_has_ptr p a", OF this] show ?thesis
      by (simp add: poolidx_from_ptr_def set_pool_def)
  qed
  show "block_size (set_pool ar (int i) q) a = block_size ar a"
    using assms find_pool_cases[of "\<lambda>p. mempool_has_ptr p a" 0 "pools ar"]
    unfolding block_size_def Let_def idx
    by (auto simp: poolidx_from_ptr_def same_shape_def)
qed

section \<open>Allocation, release and reallocation keep ownership\<close>

text \<open>\<open>arena_frame ar ar' A\<close>: \<open>ar'\<close> has the same configuration, and the blocks of \<open>A\<close> their sizes.\<close>

definition arena_frame :: "arena \<Rightarrow> arena \<Rightarrow> addr set \<Rightarrow> bool" where
  "arena_frame ar ar' A \<longleftrightarrow> allow_heap ar' = allow_heap ar
     \<and> map (\<lambda>h. slot_sz (this_pool h)) (pools ar') = map (\<lambda>h. slot_sz (this_pool h)) (pools ar)
     \<and> (\<forall>a \<in> A. block_size ar' a = block_size ar a)"

lemma set_pool_sizes:
  "same_shape (pool_nth ar i) q \<Longrightarrow> i < npools ar \<Longrightarrow>
   map (\<lambda>h. slot_sz (this_pool h)) (pools (set_pool ar (int i) q)) = map (\<lambda>h. slot_sz (this_pool h)) (pools ar)"
  by (rule nth_equalityI) (auto simp: set_pool_def nth_list_update same_shape_def)

lemma arena_frame_sizes:
  assumes "arena_frame ar ar' A"
  shows "npools ar' = npools ar"
    and "i < npools ar \<Longrightarrow> slot_sz (pool_nth ar' i) = slot_sz (pool_nth ar i)"
proof -
  have m: "map (\<lambda>h. slot_sz (this_pool h)) (pools ar') = map (\<lambda>h. slot_sz (this_pool h)) (pools ar)"
    using assms by (simp add: arena_frame_def)
  from arg_cong[OF m, of length] show n: "npools ar' = npools ar" by simp
  from arg_cong[OF m, of "\<lambda>xs. xs ! i"] n
  show "i < npools ar \<Longrightarrow> slot_sz (pool_nth ar' i) = slot_sz (pool_nth ar i)" by simp
qed

lemma arena_frame_trans:
  "arena_frame a b A \<Longrightarrow> arena_frame b c B \<Longrightarrow> arena_frame a c (A \<inter> B)"
  by (auto simp: arena_frame_def)

lemma arena_inv_layout: "arena_inv ar L \<Longrightarrow> arena_layout ar"
  by (simp add: arena_inv_def)

lemma arena_inv_owned:
  "arena_inv ar L \<Longrightarrow> i < npools ar \<Longrightarrow> mp.owned (pool_nth ar i) (L \<inter> pool_cells (pool_nth ar i))"
  by (simp add: arena_inv_def)

lemma arena_inv_cases:
  assumes "arena_inv ar L" and "a \<in> L"
  obtains (pool) i where "i < npools ar" "a \<in> pool_cells (pool_nth ar i)"
        | (heap) sz where "heap ar a = Some sz"
proof -
  have "L \<subseteq> (\<Union>i < npools ar. pool_cells (pool_nth ar i)) \<union> dom (heap ar)"
    using assms(1) by (simp add: arena_inv_def)
  with assms(2) pool heap show thesis by blast
qed

lemma pool_at_int [simp]: "i < npools ar \<Longrightarrow> pool_at ar (int i) = Some (pool_nth ar i)"
  by (simp add: pool_at_def)

lemma block_size_pool:
  "arena_layout ar \<Longrightarrow> i < npools ar \<Longrightarrow> a \<in> pool_cells (pool_nth ar i)
   \<Longrightarrow> block_size ar a = slot_sz (pool_nth ar i)"
  by (simp add: block_size_def idx_from_ptr_cell)

lemma block_size_heap:
  "arena_layout ar \<Longrightarrow> heap ar a = Some sz \<Longrightarrow> block_size ar a = sz"
  using idx_from_ptr_heap[of ar a] by (simp add: block_size_def domI)

lemma pool_alloc_step:
  assumes inv: "arena_inv ar L" and i: "i < npools ar"
    and al: "mempool_alloc (pool_nth ar i) = Some (p, q)" "p \<noteq> NULL"
  shows "p \<notin> L \<and> p \<in> pool_cells (pool_nth ar i) \<and> arena_inv (set_pool ar (int i) q) (insert p L)
    \<and> arena_frame ar (set_pool ar (int i) q) UNIV
    \<and> (\<forall>a. poolidx_from_ptr (set_pool ar (int i) q) a = poolidx_from_ptr ar a)"
proof -
  let ?C = "pool_cells (pool_nth ar i)"
  have f: "p \<notin> L \<inter> ?C" "p \<in> ?C" "mp.owned q (insert p (L \<inter> ?C))"
    using mp.owned_alloc_fresh[OF arena_inv_owned[OF inv i] al] by auto
  have sh: "same_shape (pool_nth ar i) q" using al(1) by (rule mempool_alloc_shape)
  have "L - ?C \<union> insert p (L \<inter> ?C) = insert p L" by blast
  with set_pool_inv[OF inv i sh f(3)] f(1,2) block_size_set_pool[OF sh i] set_pool_sizes[OF sh i]
  show ?thesis by (auto simp: arena_frame_def)
qed

lemma alloc_from_pools_ok:
  assumes "arena_inv ar L" and "i < npools ar"
  shows "alloc_from_pools ar (int i) = Some None \<or>
    (\<exists>p j ar'. i \<le> j \<and> j < npools ar \<and> p \<noteq> NULL \<and> p \<notin> L \<and> p \<in> pool_cells (pool_nth ar j)
       \<and> alloc_from_pools ar (int i) = Some (Some (p, slot_sz (pool_nth ar j), ar'))
       \<and> arena_inv ar' (insert p L) \<and> arena_frame ar ar' UNIV
       \<and> (\<forall>a. poolidx_from_ptr ar' a = poolidx_from_ptr ar a))"
  using assms(2)
proof (induction "npools ar - i" arbitrary: i)
  case 0
  then show ?case by simp
next
  case (Suc n)
  obtain p q where al: "mempool_alloc (pool_nth ar i) = Some (p, q)"
    using mp.owned_alloc_total[OF arena_inv_owned[OF assms(1) Suc.prems]] by blast
  note unf = alloc_from_pools.simps[of ar "int i"]
  show ?case
  proof (cases "p = NULL")
    case False
    with pool_alloc_step[OF assms(1) Suc.prems al] al Suc.prems show ?thesis
      by (intro disjI2 exI[of _ p] exI[of _ i] exI[of _ "set_pool ar (int i) q"])
        (simp add: unf mempool_get_slotsz_def)
  next
    case True
    show ?thesis
    proof (cases "Suc i < npools ar")
      case lt: True
      have "alloc_from_pools ar (int i) = alloc_from_pools ar (int (Suc i))"
        using True al lt Suc.prems by (simp add: unf add.commute)
      moreover have "n = npools ar - Suc i" using Suc.hyps(2) by simp
      note Suc.hyps(1)[OF this lt]
      ultimately show ?thesis by (metis Suc_leD)
    next
      case False
      with True al Suc.prems show ?thesis by (simp add: unf)
    qed
  qed
qed

lemma heap_calloc_inv:
  assumes inv: "arena_inv ar L" and c: "heap_calloc ar sz = (p, ar')"
  shows "p \<noteq> NULL \<and> p \<notin> L \<and> arena_inv ar' (insert p L) \<and> arena_frame ar ar' L
    \<and> block_size ar' p = sz \<and> poolidx_from_ptr ar' p = -1"
proof -
  have lay: "arena_layout ar" using inv by (rule arena_inv_layout)
  have ar': "ar' = ar\<lparr>heap := (heap ar)(p \<mapsto> sz), heap_next := p + max 1 sz\<rparr>"
    and p: "p = heap_next ar" using c by (auto simp: heap_calloc_def Let_def)
  have lay': "arena_layout ar'"
  proof -
    have "a < p + max 1 sz" if "heap ar a = Some y" for a y
    proof -
      have "a < p" using lay p that by (auto simp: arena_layout_def)
      then show ?thesis by (simp add: add_strict_increasing2)
    qed
    with lay p show ?thesis by (auto simp: arena_layout_def ar' add.commute add_increasing)
  qed
  have hp: "heap ar' p = Some sz" by (simp add: ar')
  have out: "p \<notin> pool_cells (pool_nth ar i)" if "i < npools ar" for i
    using heap_cells_disjoint[OF lay', of i p] that hp by (auto simp: ar')
  have "heap ar p = None" using lay p by (fastforce simp: arena_layout_def)
  with out inv have pL: "p \<notin> L" by (auto elim: arena_inv_cases)
  have "insert p L \<inter> pool_cells (pool_nth ar i) = L \<inter> pool_cells (pool_nth ar i)"
    if "i < npools ar" for i using out[OF that] by blast
  with inv lay' have inv': "arena_inv ar' (insert p L)" by (auto simp: arena_inv_def ar')
  have idx: "poolidx_from_ptr ar' a = poolidx_from_ptr ar a" for a
    by (simp add: poolidx_from_ptr_def ar')
  have "block_size ar' a = block_size ar a" if "a \<in> L" for a
    using that pL idx[of a] by (auto simp: block_size_def Let_def ar')
  with inv' pL hp idx_from_ptr_heap[OF lay', of p] block_size_heap[OF lay' hp] lay p show ?thesis
    by (auto simp: arena_frame_def ar' arena_layout_def)
qed

lemma arena_alloc_ok:
  assumes inv: "arena_inv ar L" and heap: "allow_heap ar"
  shows "\<exists>p cap ar'. arena_alloc ar sz = Some (p, cap, ar') \<and> p \<noteq> NULL \<and> p \<notin> L \<and> sz \<le> cap
     \<and> arena_inv ar' (insert p L) \<and> block_size ar' p = cap \<and> arena_frame ar ar' L
     \<and> (poolidx_from_ptr ar' p = -1 \<longrightarrow> cap = sz)"
proof -
  have lay: "arena_layout ar" using inv by (rule arena_inv_layout)
  obtain p ar' where c: "heap_calloc ar sz = (p, ar')" by (cases "heap_calloc ar sz")
  note hp = heap_calloc_inv[OF inv c]
  show ?thesis
  proof (cases "poolidx_from_size ar sz = -1")
    case True
    with heap hp c show ?thesis by (auto simp: arena_alloc_def)
  next
    case False
    then obtain i where i: "i < npools ar" "poolidx_from_size ar sz = int i"
      "sz \<le> slot_sz (pool_nth ar i)"
      using find_pool_cases[of "\<lambda>pool. mempool_get_slotsz pool \<ge> sz" 0 "pools ar"]
      by (auto simp: poolidx_from_size_def mempool_get_slotsz_def)
    from alloc_from_pools_ok[OF inv i(1)] show ?thesis
    proof (elim disjE exE conjE)
      assume "alloc_from_pools ar (int i) = Some None"
      with heap hp c i(2) show ?thesis by (auto simp: arena_alloc_def)
    next
      fix p j ar'
      assume r: "i \<le> j" "j < npools ar" "p \<noteq> NULL" "p \<notin> L" "p \<in> pool_cells (pool_nth ar j)"
        "alloc_from_pools ar (int i) = Some (Some (p, slot_sz (pool_nth ar j), ar'))"
        "arena_inv ar' (insert p L)" "arena_frame ar ar' UNIV"
        "\<forall>a. poolidx_from_ptr ar' a = poolidx_from_ptr ar a"
      have "slot_sz (pool_nth ar i) \<le> slot_sz (pool_nth ar j)"
        using lay r(1,2) by (cases "i = j") (auto simp: arena_layout_def)
      moreover have "block_size ar' p = slot_sz (pool_nth ar j)"
        using r(8) block_size_pool[OF lay r(2,5)] by (simp add: arena_frame_def)
      moreover have "poolidx_from_ptr ar' p \<noteq> -1"
        using r(9) idx_from_ptr_cell[OF lay r(2,5)] by simp
      ultimately show ?thesis
        using r i by (auto simp: arena_alloc_def arena_frame_def)
    qed
  qed
qed

lemma heap_free_inv:
  assumes inv: "arena_inv ar L" and p: "heap ar p = Some sz"
  shows "\<exists>ar'. heap_free ar p = Some ar' \<and> arena_inv ar' (L - {p}) \<and> arena_frame ar ar' (L - {p})
     \<and> allow_heap ar' = allow_heap ar"
proof -
  let ?ar = "ar\<lparr>heap := (heap ar)(p := None)\<rparr>"
  have lay: "arena_layout ar" using inv by (rule arena_inv_layout)
  have out: "p \<notin> pool_cells (pool_nth ar i)" if "i < npools ar" for i
    using heap_cells_disjoint[OF lay that] p by auto
  then have eq: "(L - {p}) \<inter> pool_cells (pool_nth ar i) = L \<inter> pool_cells (pool_nth ar i)"
    if "i < npools ar" for i using that by blast
  have lay': "arena_layout ?ar" using lay by (auto simp: arena_layout_def)
  have sub: "L - {p} \<subseteq> (\<Union>i < npools ar. pool_cells (pool_nth ar i)) \<union> (dom (heap ar) - {p})"
    "dom (heap ar) - {p} \<subseteq> L - {p}" using inv by (auto simp: arena_inv_def)
  have "arena_inv ?ar (L - {p})"
    using inv lay' eq sub by (simp add: arena_inv_def)
  moreover have "arena_frame ar ?ar (L - {p})"
    by (auto simp: arena_frame_def block_size_def poolidx_from_ptr_def Let_def)
  ultimately show ?thesis using p by (simp add: heap_free_def)
qed

lemma arena_free_ok:
  assumes inv: "arena_inv ar L" and heap: "allow_heap ar" and p: "p \<in> L"
  shows "\<exists>ar'. arena_free ar p = Some ar' \<and> arena_inv ar' (L - {p}) \<and> arena_frame ar ar' (L - {p})"
  using inv p
proof (cases rule: arena_inv_cases)
  case (heap sz)
  then have "p \<in> dom (heap ar)" by blast
  with heap_free_inv[OF inv heap] idx_from_ptr_heap[OF arena_inv_layout[OF inv]] assms(2)
  show ?thesis by (auto simp: arena_free_def)
next
  case (pool i)
  let ?C = "pool_cells (pool_nth ar i)"
  have idx: "poolidx_from_ptr ar p = int i"
    using idx_from_ptr_cell[OF arena_inv_layout[OF inv] pool] .
  have "p \<in> L \<inter> ?C" using p pool by simp
  from mp.owned_release[OF arena_inv_owned[OF inv pool(1)] this] obtain q where
    q: "mempool_free (pool_nth ar i) p = Some q" "mp.owned q (L \<inter> ?C - {p})" by blast
  note sh = mempool_free_shape[OF q(1)]
  have "L - ?C \<union> (L \<inter> ?C - {p}) = L - {p}" using pool(2) by blast
  with set_pool_inv[OF inv pool(1) sh q(2)] q(1) pool(1) idx block_size_set_pool[OF sh pool(1)]
    set_pool_sizes[OF sh pool(1)]
  show ?thesis by (auto simp: arena_free_def arena_frame_def)
qed

lemma arena_realloc_heap:
  assumes inv: "arena_inv ar L" and hp: "heap ar p = Some sz"
  shows "\<exists>q ar'. arena_realloc ar p n = Some (q, n, Some (min sz n), ar') \<and> q \<noteq> NULL \<and> q \<notin> L
     \<and> arena_inv ar' (insert q (L - {p})) \<and> block_size ar' q = n \<and> arena_frame ar ar' (L - {p})"
proof -
  have idx: "poolidx_from_ptr ar p = -1"
    using idx_from_ptr_heap[OF arena_inv_layout[OF inv], of p] hp by blast
  from heap_free_inv[OF inv hp] obtain ar1 where ar1: "heap_free ar p = Some ar1"
    "arena_inv ar1 (L - {p})" "arena_frame ar ar1 (L - {p})" by blast
  obtain q ar2 where c: "heap_calloc ar1 n = (q, ar2)" by (cases "heap_calloc ar1 n")
  note h = heap_calloc_inv[OF ar1(2) c]
  have "q = heap_next ar" using c ar1(1) hp by (auto simp: heap_calloc_def heap_free_def Let_def)
  moreover have "p < heap_next ar"
    using arena_inv_layout[OF inv] hp by (auto simp: arena_layout_def)
  ultimately have "q \<notin> L" using h by auto
  with h ar1 hp idx c arena_frame_trans[OF ar1(3), of ar2 "L - {p}"] show ?thesis
    by (auto simp: arena_realloc_def)
qed

lemma arena_realloc_pool:
  assumes inv: "arena_inv ar L" and heap: "allow_heap ar" and p: "p \<in> L"
    and i: "i < npools ar" "p \<in> pool_cells (pool_nth ar i)"
  shows "\<exists>q cap m ar'. arena_realloc ar p n = Some (q, cap, m, ar') \<and> q \<noteq> NULL \<and> n \<le> cap
     \<and> (q = p \<and> m = None \<and> cap = block_size ar p \<or>
        q \<notin> L \<and> (\<exists>k. m = Some k \<and> min (block_size ar p) n \<le> k \<and> k \<le> block_size ar p \<and> k \<le> cap))
     \<and> arena_inv ar' (insert q (L - {p})) \<and> block_size ar' q = cap \<and> arena_frame ar ar' (L - {p})"
proof -
  have lay: "arena_layout ar" using inv by (rule arena_inv_layout)
  have idx: "poolidx_from_ptr ar p = int i" using lay i by (rule idx_from_ptr_cell)
  have bs: "block_size ar p = slot_sz (pool_nth ar i)" using lay i by (rule block_size_pool)
  have pos: "0 < p" using i layout_wf[OF lay i(1)] slot_pos by (auto simp: pool_cells_def)
  show ?thesis
  proof (cases "poolidx_from_size ar n = int i")
    case True
    then have "n \<le> slot_sz (pool_nth ar i)"
      using find_pool_cases[of "\<lambda>pool. mempool_get_slotsz pool \<ge> n" 0 "pools ar"]
      by (auto simp: poolidx_from_size_def mempool_get_slotsz_def)
    with True i idx inv p pos bs show ?thesis
      by (auto simp: arena_realloc_def mempool_get_slotsz_def arena_frame_def insert_absorb)
  next
    case False
    obtain q cap ar1 where al: "arena_alloc ar n = Some (q, cap, ar1)" "q \<noteq> NULL" "q \<notin> L" "n \<le> cap"
      "arena_inv ar1 (insert q L)" "block_size ar1 q = cap" "arena_frame ar ar1 L"
      "poolidx_from_ptr ar1 q = -1 \<longrightarrow> cap = n"
      using arena_alloc_ok[OF inv heap, of n] by blast
    have lay1: "arena_layout ar1" using al(5) by (rule arena_inv_layout)
    have "allow_heap ar1" using al(7) heap by (simp add: arena_frame_def)
    with arena_free_ok[OF al(5) _, of p] p obtain ar2 where
      fr: "arena_free ar1 p = Some ar2" "arena_inv ar2 (insert q L - {p})"
      "arena_frame ar1 ar2 (insert q L - {p})" by auto
    have qp: "q \<noteq> p" using al(3) p by auto
    then have set: "insert q L - {p} = insert q (L - {p})" by auto
    have f2: "block_size ar2 q = cap" using fr(3) al(6) qp by (simp add: arena_frame_def)
    have f3: "arena_frame ar ar2 (L - {p})"
      using al(7) fr(3) by (auto simp: arena_frame_def)
    define k where "k = (if poolidx_from_ptr ar1 q = -1 then min (slot_sz (pool_nth ar i)) n
      else if poolidx_from_ptr ar1 q > int i then slot_sz (pool_nth ar i) else cap)"
    have np: "pool_at ar1 (poolidx_from_ptr ar1 q) \<bind> (\<lambda>np. Some (cap, mempool_get_slotsz np))
        = Some (cap, cap) \<and> (poolidx_from_ptr ar1 q > int i \<longrightarrow> slot_sz (pool_nth ar i) \<le> cap)
        \<and> (\<not> poolidx_from_ptr ar1 q > int i \<longrightarrow> cap \<le> slot_sz (pool_nth ar i))"
      if ne: "poolidx_from_ptr ar1 q \<noteq> -1"
    proof -
      from al(5) obtain j where j: "j < npools ar1" "q \<in> pool_cells (pool_nth ar1 j)"
        using idx_from_ptr_heap[OF lay1, of q] ne by (auto elim!: arena_inv_cases[of ar1 _ q])
      have ij: "poolidx_from_ptr ar1 q = int j" "cap = slot_sz (pool_nth ar1 j)"
        using idx_from_ptr_cell[OF lay1 j] block_size_pool[OF lay1 j] al(6) by auto
      have j': "j < npools ar" "cap = slot_sz (pool_nth ar j)"
        using arena_frame_sizes[OF al(7)] j(1) ij(2) by auto
      have mono: "slot_sz (pool_nth ar k) \<le> slot_sz (pool_nth ar l)" if "k \<le> l" "l < npools ar" for k l
        using lay that by (cases "k = l") (auto simp: arena_layout_def)
      show ?thesis
        using ij j j' mono[of i j] mono[of j i] i(1) by (auto simp: mempool_get_slotsz_def)
    qed
    have "arena_realloc ar p n = Some (q, cap, Some k, ar2)"
      using False idx i al(1,2,8) fr(1) np
      by (auto simp: arena_realloc_def k_def mempool_get_slotsz_def Let_def)
    moreover have "min (block_size ar p) n \<le> k \<and> k \<le> block_size ar p \<and> k \<le> cap"
      using np al(4,8) by (auto simp: k_def bs)
    ultimately show ?thesis
      using al(2,3,4) fr(2) f2 f3 set by auto
  qed
qed

lemma arena_realloc_ok:
  assumes inv: "arena_inv ar L" and heap: "allow_heap ar" and p: "p \<in> L"
  shows "\<exists>q cap m ar'. arena_realloc ar p n = Some (q, cap, m, ar') \<and> q \<noteq> NULL \<and> n \<le> cap
     \<and> (q = p \<and> m = None \<and> cap = block_size ar p \<or>
        q \<notin> L \<and> (\<exists>k. m = Some k \<and> min (block_size ar p) n \<le> k \<and> k \<le> block_size ar p \<and> k \<le> cap))
     \<and> arena_inv ar' (insert q (L - {p})) \<and> block_size ar' q = cap \<and> arena_frame ar ar' (L - {p})"
  using inv p
proof (cases rule: arena_inv_cases)
  case (pool i)
  then show ?thesis using arena_realloc_pool[OF inv heap p] by blast
next
  case (heap sz)
  have "block_size ar p = sz" using arena_inv_layout[OF inv] heap by (rule block_size_heap)
  with arena_realloc_heap[OF inv heap, of n] show ?thesis by auto
qed

section \<open>The allocator of the dynamic strings\<close>

definition alloc_dynstr_alloc :: "arena \<Rightarrow> int \<Rightarrow> (addr \<times> int \<times> arena) option" where
  "alloc_dynstr_alloc ar sz = arena_alloc ar sz"

definition alloc_dynstr_free :: "arena \<Rightarrow> addr \<Rightarrow> arena option" where
  "alloc_dynstr_free ar s = arena_free ar s"

definition alloc_dynstr_realloc ::
  "arena \<Rightarrow> addr \<Rightarrow> int \<Rightarrow> (addr \<times> int \<times> int option \<times> arena) option" where
  "alloc_dynstr_realloc ar s newsize = arena_realloc ar s newsize"

definition dynstr_arena :: "arena allocator" where
  "dynstr_arena = \<lparr>al_alloc = alloc_dynstr_alloc, al_free = alloc_dynstr_free,
     al_realloc = alloc_dynstr_realloc\<rparr>"

definition arena_ok :: "arena \<Rightarrow> addr set \<Rightarrow> bool" where
  "arena_ok ar L \<longleftrightarrow> arena_inv ar L \<and> allow_heap ar"

interpretation da: block_heap dynstr_arena arena_ok block_size
proof unfold_locales
  fix h L n p
  show "arena_ok h L \<Longrightarrow> \<exists>p cap h'. al_alloc dynstr_arena h n = Some (p, cap, h') \<and> p \<noteq> NULL
      \<and> p \<notin> L \<and> n \<le> cap \<and> arena_ok h' (insert p L) \<and> block_size h' p = cap
      \<and> (\<forall>q \<in> L. block_size h' q = block_size h q)"
    using arena_alloc_ok[of h L n]
    by (auto simp: dynstr_arena_def alloc_dynstr_alloc_def arena_ok_def arena_frame_def)
  show "arena_ok h L \<Longrightarrow> p \<in> L \<Longrightarrow> \<exists>h'. al_free dynstr_arena h p = Some h'
      \<and> arena_ok h' (L - {p}) \<and> (\<forall>q \<in> L - {p}. block_size h' q = block_size h q)"
    using arena_free_ok[of h L p]
    by (auto simp: dynstr_arena_def alloc_dynstr_free_def arena_ok_def arena_frame_def)
  show "arena_ok h L \<Longrightarrow> p \<in> L \<Longrightarrow> \<exists>q cap m h'. al_realloc dynstr_arena h p n = Some (q, cap, m, h')
      \<and> q \<noteq> NULL \<and> n \<le> cap
      \<and> (q = p \<and> m = None \<and> cap = block_size h p \<or>
         q \<notin> L \<and> (\<exists>k. m = Some k \<and> min (block_size h p) n \<le> k \<and> k \<le> block_size h p \<and> k \<le> cap))
      \<and> arena_ok h' (insert q (L - {p})) \<and> block_size h' q = cap
      \<and> (\<forall>r \<in> L - {p}. block_size h' r = block_size h r)"
    using arena_realloc_ok[of h L p n] unfolding arena_ok_def dynstr_arena_def
      alloc_dynstr_realloc_def arena_frame_def by fastforce
qed

section \<open>Creation\<close>

lemma ALIGN_TO_mono: "x \<le> y \<Longrightarrow> ALIGN_TO x 16 \<le> ALIGN_TO y 16"
  by (simp add: ALIGN_TO_16 zdiv_mono1)

lemma memsize_pos: "0 < sz \<Longrightarrow> 0 \<le> n \<Longrightarrow> 0 < mempool_memsize sz n"
  using ALIGN_TO_bounds[of sz] by (simp add: mempool_memsize_def sizeof_mempool_def add_pos_nonneg)

lemma create_pools_ok:
  assumes "0 < base" and "\<forall>(sz, n) \<in> set sizes. 0 < sz \<and> 2 \<le> n"
  shows "\<exists>ps. create_pools mem0 base sizes = Some ps \<and> length ps = length sizes
    \<and> (\<forall>i < length ps. let p = this_pool (ps ! i) in mp.owned p {} \<and> base \<le> mp_base p
         \<and> pool_end p \<le> base + sum_list (map (\<lambda>(sz, n). mempool_memsize sz n) sizes)
         \<and> slot_sz p = ALIGN_TO (fst (sizes ! i)) 16)
    \<and> (\<forall>j < length ps. \<forall>i < j. pool_end (this_pool (ps ! i)) \<le> mp_base (this_pool (ps ! j)))"
  using assms
proof (induction sizes arbitrary: base)
  case Nil
  then show ?case by simp
next
  case (Cons s sizes)
  obtain sz n where s: "s = (sz, n)" "0 < sz" "2 \<le> n" using Cons.prems(2) by (cases s) auto
  define mem where "mem = (\<lambda>a. if a \<in> (\<lambda>i. base + sizeof_mempool + i * ALIGN_TO sz 16) ` set [0..n - 1]
                     then Some (mem0 a) else None)"
  have "set [0..n - 1] = {0..<n}" by auto
  then have buf: "pool_buffer base sz n mem"
    using Cons.prems(1) s(2) by (auto simp: pool_buffer_def mem_def dom_def)
  from create_from_buffer_rep[OF buf s(3)] obtain p where
    p: "mempool_create_from_buffer base mem sz n = Some p" "mp_base p = base" "num_slots p = n"
       "slot_sz p = ALIGN_TO sz 16" by blast
  have ow: "mp.owned p {}" using pool_reach_owned[OF reach_create[OF buf s(3) p(1)]] .
  have pe: "pool_end p = base + mempool_memsize sz n"
    using p by (simp add: pool_end_def slot_def mempool_memsize_def)
  let ?nxt = "base + mempool_memsize sz n"
  have pos: "0 < mempool_memsize sz n" using s by (simp add: memsize_pos)
  with Cons.IH[of ?nxt] Cons.prems obtain ps where
    ps: "create_pools mem0 ?nxt sizes = Some ps" "length ps = length sizes"
    "\<forall>i < length ps. let p = this_pool (ps ! i) in mp.owned p {} \<and> ?nxt \<le> mp_base p
         \<and> pool_end p \<le> ?nxt + sum_list (map (\<lambda>(sz, n). mempool_memsize sz n) sizes)
         \<and> slot_sz p = ALIGN_TO (fst (sizes ! i)) 16"
    "\<forall>j < length ps. \<forall>i < j. pool_end (this_pool (ps ! i)) \<le> mp_base (this_pool (ps ! j))"
    by auto
  have nn: "0 \<le> sum_list (map (\<lambda>(sz, n). mempool_memsize sz n) sizes)"
    using Cons.prems(2) by (intro sum_list_nonneg) (auto intro!: less_imp_le memsize_pos)
  let ?ps = "\<lparr>this_pool = p, next_pool = (if sizes = [] then NULL else ?nxt)\<rparr> # ps"
  have "create_pools mem0 base (s # sizes) = Some ?ps"
    using p(1) ps(1) unfolding s(1) create_pools.simps mem_def[symmetric] Let_def by simp
  moreover have "let q = this_pool (?ps ! i) in mp.owned q {} \<and> base \<le> mp_base q
         \<and> pool_end q \<le> base + sum_list (map (\<lambda>(sz, n). mempool_memsize sz n) (s # sizes))
         \<and> slot_sz q = ALIGN_TO (fst ((s # sizes) ! i)) 16" if "i < length ?ps" for i
    using that ps(3) ow p pe nn pos by (cases i) (force simp: s(1) Let_def)+
  moreover have "pool_end (this_pool (?ps ! i)) \<le> mp_base (this_pool (?ps ! j))"
    if "j < length ?ps" "i < j" for i j
    using that ps(3,4) pe by (cases i; cases j) (auto simp: Let_def)
  ultimately show ?case using ps(2) by (intro exI[of _ ?ps]) auto
qed

lemma arena_create_ok:
  assumes base: "0 < base" and sz: "\<forall>(sz, n) \<in> set sizes. 0 < sz \<and> 2 \<le> n" "sizes \<noteq> []"
    and sorted: "sorted (map fst sizes)" and brk: "base + arena_size sizes \<le> brk"
  shows "\<exists>ar. arena_create base mem0 brk sizes ah = Some ar \<and> arena_inv ar {} \<and> allow_heap ar = ah
     \<and> num_pools ar = int (length sizes)"
proof -
  let ?b = "base + (sizeof_arena + int (length sizes) * sizeof_pool_hdr)"
  have b: "0 < ?b" using base by (simp add: sizeof_arena_def sizeof_pool_hdr_def)
  from create_pools_ok[OF b sz(1), of mem0] obtain ps where
    ps: "create_pools mem0 ?b sizes = Some ps" "length ps = length sizes"
    "\<forall>i < length ps. let p = this_pool (ps ! i) in mp.owned p {} \<and> ?b \<le> mp_base p
         \<and> pool_end p \<le> ?b + sum_list (map (\<lambda>(sz, n). mempool_memsize sz n) sizes)
         \<and> slot_sz p = ALIGN_TO (fst (sizes ! i)) 16"
    "\<forall>j < length ps. \<forall>i < j. pool_end (this_pool (ps ! i)) \<le> mp_base (this_pool (ps ! j))" by blast
  let ?ar = "\<lparr>allow_heap = ah, num_pools = int (length sizes), pools = ps, heap = Map.empty,
    heap_next = brk\<rparr>"
  have end_le: "pool_end (this_pool (ps ! i)) \<le> brk" if "i < length ps" for i
    using ps(3) that brk by (auto simp: Let_def arena_size_def)
  have "0 < mp_base (this_pool (ps ! 0)) \<and> mp_base (this_pool (ps ! 0)) \<le> pool_end (this_pool (ps ! 0))"
    using ps(2,3) sz(2) owned_wf[of "this_pool (ps ! 0)" "{}"]
    by (auto simp: pool_wf_def pool_end_def slot_def sizeof_mempool_def Let_def)
  then have brk0: "0 < brk" using end_le[of 0] ps(2) sz(2) by auto
  have "slot_sz (this_pool (ps ! i)) \<le> slot_sz (this_pool (ps ! j))" if "j < length ps" "i < j" for i j
  proof -
    have "fst (sizes ! i) \<le> fst (sizes ! j)"
      using sorted_nth_mono[OF sorted, of i j] that ps(2) by simp
    with ps(3) that ALIGN_TO_mono show ?thesis by (simp add: Let_def)
  qed
  then have "arena_layout ?ar"
    using ps end_le brk0 owned_wf by (auto simp: arena_layout_def Let_def)
  then have "arena_inv ?ar {}" using ps(3) by (auto simp: arena_inv_def Let_def)
  with ps(1) sz(2) show ?thesis by (auto simp: arena_create_def Let_def)
qed

definition dynstr_buckets :: "(int \<times> int) list" where
  "dynstr_buckets = [(32, 512), (128, 512), (256, 256), (1024, 256), (2048, 128), (8192, 32), (32768, 16)]"

section \<open>Properties\<close>

lemma dynstr_buckets_ok:
  "\<forall>(sz, n) \<in> set dynstr_buckets. 0 < sz \<and> 2 \<le> n" "dynstr_buckets \<noteq> []"
  "sorted (map fst dynstr_buckets)"
  by (simp_all add: dynstr_buckets_def)

text \<open>The arena that \<^verbatim>\<open>env_init\<close> creates from the bucket table is well laid out (pools in increasing
  slot size, disjoint from each other and from the heap) with no block in use.\<close>

theorem dynstr_arena_created:
  assumes "0 < base" and "base + arena_size dynstr_buckets \<le> brk"
  shows "\<exists>ar. arena_create base mem0 brk dynstr_buckets True = Some ar \<and> arena_ok ar {}"
  using arena_create_ok[OF assms(1) dynstr_buckets_ok assms(2), of mem0 True]
  by (auto simp: arena_ok_def)

lemma arena_size_buckets: "arena_size dynstr_buckets = 1458416"
  by (simp add: arena_size_def dynstr_buckets_def mempool_memsize_def ALIGN_TO_16
      sizeof_mempool_def sizeof_arena_def sizeof_pool_hdr_def)

lemma dynstr_arena_exists: "\<exists>ar. arena_ok ar {}"
  using arena_create_ok[of 4096 dynstr_buckets 2000000 "\<lambda>_. \<lparr>free_next = 0, hdr_slots = 0\<rparr>" True]
    dynstr_buckets_ok arena_size_buckets by (auto simp: arena_ok_def)

theorem dynstr_arena_created_witness:
  "\<exists>ar. arena_create 4096 (\<lambda>_. \<lparr>free_next = 0, hdr_slots = 0\<rparr>) 2000000 dynstr_buckets True = Some ar
     \<and> arena_ok ar {}"
  by (rule dynstr_arena_created) (simp_all add: arena_size_buckets)

text \<open>C12: an allocation of any size succeeds; the block is new, at least as large as asked for, and
  the blocks in use keep their place and size.\<close>

theorem arena_alloc_sound:
  assumes "arena_ok ar L"
  shows "\<exists>p cap ar'. arena_alloc ar sz = Some (p, cap, ar') \<and> p \<noteq> NULL \<and> p \<notin> L \<and> sz \<le> cap
     \<and> block_size ar' p = cap \<and> arena_ok ar' (insert p L)
     \<and> (\<forall>q \<in> L. block_size ar' q = block_size ar q)"
  using da.alloc_ok[OF assms, of sz] by (simp add: dynstr_arena_def alloc_dynstr_alloc_def)

theorem arena_alloc_sound_witness:
  "\<exists>ar p cap ar'. arena_ok ar {} \<and> arena_alloc ar 100 = Some (p, cap, ar') \<and> 100 \<le> cap \<and> arena_ok ar' {p}"
proof -
  obtain ar where "arena_ok ar {}" using dynstr_arena_exists by blast
  with arena_alloc_sound[OF this, of 100] show ?thesis by blast
qed

text \<open>C28: releasing a block in use succeeds wherever it came from, and exactly that block becomes
  free.\<close>

theorem arena_free_sound:
  assumes "arena_ok ar L" and "p \<in> L"
  shows "\<exists>ar'. arena_free ar p = Some ar' \<and> arena_ok ar' (L - {p})
     \<and> (\<forall>q \<in> L - {p}. block_size ar' q = block_size ar q)"
  using da.free_ok[OF assms] by (simp add: dynstr_arena_def alloc_dynstr_free_def)

theorem arena_free_sound_witness:
  "\<exists>ar p ar'. arena_ok ar {p} \<and> arena_free ar p = Some ar' \<and> arena_ok ar' {}"
proof -
  obtain ar where "arena_ok ar {}" using dynstr_arena_exists by blast
  then obtain p ar' where "arena_ok ar' {p}" using da.alloc_ok by blast
  with arena_free_sound[OF this, of p] show ?thesis by auto
qed

text \<open>C13: reallocation copies within both the old and the new block, loses nothing of the first
  \<open>n\<close> bytes, gives a block of at least \<open>n\<close> bytes and releases the old one.\<close>

theorem arena_realloc_sound:
  assumes "arena_ok ar L" and "p \<in> L"
  shows "\<exists>q cap m ar'. arena_realloc ar p n = Some (q, cap, m, ar') \<and> q \<noteq> NULL \<and> n \<le> cap
     \<and> (q = p \<and> m = None \<and> cap = block_size ar p \<or>
        q \<notin> L \<and> (\<exists>k. m = Some k \<and> min (block_size ar p) n \<le> k \<and> k \<le> block_size ar p \<and> k \<le> cap))
     \<and> block_size ar' q = cap \<and> arena_ok ar' (insert q (L - {p}))
     \<and> (\<forall>r \<in> L - {p}. block_size ar' r = block_size ar r)"
  using da.realloc_ok[OF assms, of n] unfolding dynstr_arena_def alloc_dynstr_realloc_def
  by fastforce

theorem arena_realloc_sound_witness:
  "\<exists>ar p q cap m ar'. arena_ok ar {p} \<and> arena_realloc ar p 5000 = Some (q, cap, m, ar')
     \<and> 5000 \<le> cap \<and> arena_ok ar' {q}"
proof -
  obtain ar where "arena_ok ar {}" using dynstr_arena_exists by blast
  then obtain p ar' where ok: "arena_ok ar' {p}" using da.alloc_ok by blast
  from arena_realloc_sound[OF ok, of p 5000] obtain q cap m ar'' where
    "arena_realloc ar' p 5000 = Some (q, cap, m, ar'')" "5000 \<le> cap" "arena_ok ar'' (insert q ({p} - {p}))"
    by blast
  with ok show ?thesis by fastforce
qed

end
