(* ===== verification/Dynstr.thy ===== *)
theory Dynstr
  imports Arena
begin

text \<open>
  The dynamic strings of \<^verbatim>\<open>dynstr.c\<close>: a length, a capacity and a byte array behind one allocation.
  A \<open>dynstr\<close> is the object at address \<open>ptr\<close>; its bytes may be indeterminate. The operations
  thread the allocator's state, and return \<open>None\<close> where the C code would write or read outside an
  object, use an indeterminate byte, dereference a null pointer or use a released string.
\<close>

section \<open>Data\<close>

record dynstr =
  ptr :: addr
  len :: int
  cap :: int
  str :: bytes

definition DYNSTR_MIN_SIZE :: int where "DYNSTR_MIN_SIZE = 16"
definition sizeof_dynstr :: int where "sizeof_dynstr = 8"
definition DYNSTR_TOTALSZ :: "int \<Rightarrow> int" where "DYNSTR_TOTALSZ n = sizeof_dynstr + n + 1"
definition DYNSTR_USABLE_SIZE :: "int \<Rightarrow> int" where "DYNSTR_USABLE_SIZE sz = sz - sizeof_dynstr"

section \<open>C library functions used here\<close>

text \<open>\<^verbatim>\<open>strncpy(dst, src, n)\<close> with \<open>src\<close> the \<open>n\<close> bytes at the source: the bytes it stores.\<close>

fun strncpy_bytes :: "bytes \<Rightarrow> bytes option" where
  "strncpy_bytes [] = Some []"
| "strncpy_bytes (None # bs) = None"
| "strncpy_bytes (Some c # bs) =
     (if c = NUL then Some (replicate (Suc (length bs)) (Some NUL))
      else map_option ((#) (Some c)) (strncpy_bytes bs))"

fun memcmp :: "string \<Rightarrow> string \<Rightarrow> int" where
  "memcmp (c # cs) (d # ds) = (if c = d then memcmp cs ds else int (of_char c) - int (of_char d))"
| "memcmp _ _ = 0"

text \<open>\<^verbatim>\<open>asprintf("%d")\<close>.\<close>

fun dec_of_nat :: "nat \<Rightarrow> string" where
  "dec_of_nat n = (if n < 10 then [char_of (48 + n)]
                   else dec_of_nat (n div 10) @ [char_of (48 + n mod 10)])"

declare dec_of_nat.simps [simp del]

definition dec_of_int :: "int \<Rightarrow> string" where
  "dec_of_int i = (if i < 0 then CHR ''-'' # dec_of_nat (nat (- i)) else dec_of_nat (nat i))"

section \<open>Operations\<close>

definition dynstr_alloc_raw :: "'h allocator \<Rightarrow> 'h \<Rightarrow> int \<Rightarrow> (dynstr \<times> 'h) option" where
  "dynstr_alloc_raw A h sz = do {
     (p, real_cap, h') \<leftarrow> al_alloc A h (DYNSTR_TOTALSZ sz);
     if p = NULL then None
     else Some (\<lparr>ptr = p, len = 0, cap = DYNSTR_USABLE_SIZE real_cap,
                 str = replicate (nat (DYNSTR_USABLE_SIZE real_cap)) None\<rparr>, h')
   }"

definition dynstr_realloc_raw :: "'h allocator \<Rightarrow> 'h \<Rightarrow> dynstr \<Rightarrow> int \<Rightarrow> (dynstr \<times> 'h) option" where
  "dynstr_realloc_raw A h d newsz = do {
     (q, new_cap, copied, h') \<leftarrow> al_realloc A h (ptr d) (DYNSTR_TOTALSZ newsz);
     if q = NULL then None
     else let n = nat (DYNSTR_USABLE_SIZE new_cap) in
       case copied of
         None \<Rightarrow> Some (d\<lparr>cap := DYNSTR_USABLE_SIZE new_cap\<rparr>, h')
       | Some k \<Rightarrow>
           if k < sizeof_dynstr then None
           else Some (d\<lparr>ptr := q, cap := DYNSTR_USABLE_SIZE new_cap,
                        str := take n (take (nat (k - sizeof_dynstr)) (str d) @ replicate n None)\<rparr>, h')
   }"

definition dynstr_resize :: "'h allocator \<Rightarrow> 'h \<Rightarrow> dynstr \<Rightarrow> int \<Rightarrow> (dynstr \<times> 'h) option" where
  "dynstr_resize A h s new_len =
     (if new_len < cap s then Some (s, h) else dynstr_realloc_raw A h s new_len)"

definition dynstr_reserve :: "'h allocator \<Rightarrow> 'h \<Rightarrow> int \<Rightarrow> (dynstr \<times> 'h) option" where
  "dynstr_reserve A h capacity = do {
     (s, h') \<leftarrow> dynstr_alloc_raw A h capacity;
     b \<leftarrow> buf_put (str s) 0 [Some NUL];
     Some (s\<lparr>len := 0, str := b\<rparr>, h')
   }"

text \<open>\<open>src\<close> is the memory of the inclusive range \<^verbatim>\<open>[start, end]\<close>.\<close>

definition dynstr_cnew :: "'h allocator \<Rightarrow> 'h \<Rightarrow> bytes \<Rightarrow> (dynstr \<times> 'h) option" where
  "dynstr_cnew A h src = do {
     let n = int (length src);
     (s, h') \<leftarrow> dynstr_reserve A h n;
     bs \<leftarrow> strncpy_bytes src;
     b \<leftarrow> buf_put (str s) 0 bs;
     b \<leftarrow> buf_put b n [Some NUL];
     Some (s\<lparr>len := n, str := b\<rparr>, h')
   }"

text \<open>\<open>src\<close> is \<open>None\<close> for a null pointer.\<close>

definition dynstr_new :: "'h allocator \<Rightarrow> 'h \<Rightarrow> string option \<Rightarrow> (dynstr \<times> 'h) option" where
  "dynstr_new A h src =
     (case src of
        None \<Rightarrow> dynstr_reserve A h DYNSTR_MIN_SIZE
      | Some t \<Rightarrow> if t \<noteq> [] then dynstr_cnew A h (map Some t) else dynstr_reserve A h DYNSTR_MIN_SIZE)"

definition dynstr_free :: "'h allocator \<Rightarrow> 'h \<Rightarrow> dynstr \<Rightarrow> 'h option" where
  "dynstr_free A h s = (if ptr s \<noteq> NULL then al_free A h (ptr s) else Some h)"

definition dynstr_reset :: "dynstr \<Rightarrow> dynstr option" where
  "dynstr_reset s = do { b \<leftarrow> buf_put (str s) 0 [Some NUL]; Some (s\<lparr>len := 0, str := b\<rparr>) }"

definition dynstr_ptr :: "dynstr \<Rightarrow> addr" where
  "dynstr_ptr s = ptr s + sizeof_dynstr"

definition dynstr_endptr :: "dynstr \<Rightarrow> addr" where
  "dynstr_endptr s = dynstr_ptr s + len s"

definition dynstr_wendptr :: "dynstr \<Rightarrow> addr" where
  "dynstr_wendptr s = dynstr_endptr s"

definition dynstr_len :: "dynstr \<Rightarrow> int" where
  "dynstr_len s = len s"

definition dynstr_empty :: "dynstr \<Rightarrow> bool" where
  "dynstr_empty s \<longleftrightarrow> len s = 0"

definition dynstr_cmp :: "dynstr \<Rightarrow> dynstr \<Rightarrow> int option" where
  "dynstr_cmp s1 s2 = do {
     let n = dlog_min (len s1) (len s2);
     a \<leftarrow> buf_get (str s1) 0 n \<bind> those;
     b \<leftarrow> buf_get (str s2) 0 n \<bind> those;
     Some (memcmp a b)
   }"

definition dynstr_ccmp :: "dynstr \<Rightarrow> string \<Rightarrow> int option" where
  "dynstr_ccmp s1 s2 = do {
     let n = dlog_min (len s1) (int (length s2));
     a \<leftarrow> buf_get (str s1) 0 n \<bind> those;
     Some (memcmp a (take (nat n) s2))
   }"

definition dynstr_assign :: "'h allocator \<Rightarrow> 'h \<Rightarrow> dynstr \<Rightarrow> string \<Rightarrow> (dynstr \<times> 'h) option" where
  "dynstr_assign A h s src = do {
     let n = int (length src);
     (s, h') \<leftarrow> dynstr_resize A h s n;
     bs \<leftarrow> strncpy_bytes (map Some src @ [Some NUL]);
     b \<leftarrow> buf_put (str s) 0 bs;
     b \<leftarrow> buf_put b n [Some NUL];
     Some (s\<lparr>len := n, str := b\<rparr>, h')
   }"

text \<open>\<^verbatim>\<open>src\<close> is read after \<^verbatim>\<open>dst\<close> was resized: if \<^verbatim>\<open>dst\<close> moved and \<^verbatim>\<open>src\<close> is the same string, it has
  been released.\<close>

definition dynstr_cat :: "'h allocator \<Rightarrow> 'h \<Rightarrow> dynstr \<Rightarrow> dynstr \<Rightarrow> (dynstr \<times> 'h) option" where
  "dynstr_cat A h dst src = do {
     (d, h') \<leftarrow> dynstr_resize A h dst (len dst + len src);
     if ptr src = ptr dst \<and> ptr d \<noteq> ptr dst then None
     else do {
       bs \<leftarrow> buf_get (str src) 0 (len src);
       b \<leftarrow> buf_put (str d) (len d) bs;
       b \<leftarrow> buf_put b (len d + len src) [Some NUL];
       Some (d\<lparr>len := len d + len src, str := b\<rparr>, h')
     }
   }"

definition dynstr_mcat :: "'h allocator \<Rightarrow> 'h \<Rightarrow> dynstr \<Rightarrow> dynstr \<Rightarrow> (dynstr \<times> 'h) option" where
  "dynstr_mcat A h dst src = do {
     (d, h') \<leftarrow> dynstr_cat A h dst src;
     h'' \<leftarrow> dynstr_free A h' src;
     Some (d, h'')
   }"

definition dynstr_ccat_range :: "'h allocator \<Rightarrow> 'h \<Rightarrow> dynstr \<Rightarrow> bytes \<Rightarrow> (dynstr \<times> 'h) option" where
  "dynstr_ccat_range A h dst src = do {
     (news, h') \<leftarrow> dynstr_cnew A h src;
     (d, h'') \<leftarrow> dynstr_cat A h' dst news;
     h''' \<leftarrow> dynstr_free A h'' news;
     Some (d, h''')
   }"

definition dynstr_ccat :: "'h allocator \<Rightarrow> 'h \<Rightarrow> dynstr \<Rightarrow> string \<Rightarrow> (dynstr \<times> 'h) option" where
  "dynstr_ccat A h dst s = dynstr_ccat_range A h dst (map Some s)"

definition dynstr_ncat :: "'h allocator \<Rightarrow> 'h \<Rightarrow> dynstr \<Rightarrow> int \<Rightarrow> (dynstr \<times> 'h) option" where
  "dynstr_ncat A h dst num = dynstr_ccat A h dst (dec_of_int num)"

text \<open>The needle is read after \<^verbatim>\<open>into\<close> was resized and cut: if it is the same string, it may have been
  released, or has been cut too.\<close>

definition dynstr_insert ::
  "'h allocator \<Rightarrow> 'h \<Rightarrow> dynstr \<Rightarrow> dynstr \<Rightarrow> int \<Rightarrow> (dynstr \<times> 'h) option" where
  "dynstr_insert A h into needle index =
     (if index \<ge> len into then dynstr_cat A h into needle
      else do {
        (newstr, h1) \<leftarrow> dynstr_resize A h into (len into + len needle);
        if ptr needle = ptr into \<and> ptr newstr \<noteq> ptr into then None
        else do {
          tl_bytes \<leftarrow> buf_get (str newstr) index (len newstr - index);
          (tail, h2) \<leftarrow> dynstr_cnew A h1 tl_bytes;
          b \<leftarrow> buf_put (str newstr) index [Some NUL];
          let newstr = newstr\<lparr>len := index, str := b\<rparr>;
          let needle = (if ptr needle = ptr into then newstr else needle);
          (newstr, h3) \<leftarrow> dynstr_cat A h2 newstr needle;
          (newstr, h4) \<leftarrow> dynstr_cat A h3 newstr tail;
          h5 \<leftarrow> dynstr_free A h4 tail;
          Some (newstr, h5)
        }
      })"

definition dynstr_remove_range :: "dynstr \<Rightarrow> int \<Rightarrow> int \<Rightarrow> dynstr option" where
  "dynstr_remove_range s idx1 idx2 =
     (if idx1 = 0 \<and> idx2 \<ge> len s then dynstr_reset s
      else if idx2 = 0 \<or> idx2 < idx1 then do {
        b \<leftarrow> buf_put (str s) idx1 [Some NUL];
        Some (s\<lparr>len := idx1 - 1, str := b\<rparr>)
      }
      else do {
        rest \<leftarrow> buf_get (str s) (idx2 + 1) (len s - idx2 - 1);
        b \<leftarrow> buf_put (str s) idx1 rest;
        let n = len s - (idx2 - idx1 + 1);
        b \<leftarrow> buf_put b n [Some NUL];
        Some (s\<lparr>len := n, str := b\<rparr>)
      })"

definition dynstr_copy :: "'h allocator \<Rightarrow> 'h \<Rightarrow> dynstr \<Rightarrow> (dynstr \<times> 'h) option" where
  "dynstr_copy A h src = do { t \<leftarrow> buf_cstr (str src); dynstr_new A h (Some t) }"

definition dynstr_in_range :: "dynstr \<Rightarrow> addr \<Rightarrow> bool" where
  "dynstr_in_range s p \<longleftrightarrow> p > dynstr_ptr s \<and> dynstr_ptr s + len s > p"

definition dynstr_fill :: "dynstr \<Rightarrow> int \<Rightarrow> dynstr option" where
  "dynstr_fill s numbytes = do {
     b \<leftarrow> buf_put (str s) (len s + numbytes) [Some NUL];
     Some (s\<lparr>len := len s + numbytes, str := b\<rparr>)
   }"

definition dynstr_padright :: "'h allocator \<Rightarrow> 'h \<Rightarrow> dynstr \<Rightarrow> int \<Rightarrow> (dynstr \<times> 'h) option" where
  "dynstr_padright A h s pad = dynstr_resize A h s (dynstr_len s + pad)"

definition cstr_cast :: "addr \<Rightarrow> addr" where
  "cstr_cast s = s - sizeof_dynstr"

definition dynstr_slack :: "dynstr \<Rightarrow> int" where
  "dynstr_slack s = cap s - len s - 1"

definition dynstr_isnewline :: "dynstr \<Rightarrow> bool option" where
  "dynstr_isnewline s =
     (if len s \<noteq> 0 then do {
        b \<leftarrow> buf_get (str s) (len s - 1) 1;
        cs \<leftarrow> those b;
        Some (cs = [NL])
      } else Some False)"

section \<open>What a dynamic string holds\<close>

text \<open>\<open>dyn_rep s t\<close>: \<open>s\<close> holds the text \<open>t\<close>, NUL-terminated inside its capacity.\<close>

definition dyn_rep :: "dynstr \<Rightarrow> string \<Rightarrow> bool" where
  "dyn_rep s t \<longleftrightarrow> len s = int (length t) \<and> int (length (str s)) = cap s
     \<and> (\<exists>rest. str s = map Some t @ Some NUL # rest)"

text \<open>\<open>str_in ok blk h L s t\<close>: in allocator state \<open>h\<close> with blocks \<open>L\<close> in use, \<open>s\<close> is a live string that
  fills its block and holds \<open>t\<close>.\<close>

definition str_in ::
  "('h \<Rightarrow> addr set \<Rightarrow> bool) \<Rightarrow> ('h \<Rightarrow> addr \<Rightarrow> int) \<Rightarrow> 'h \<Rightarrow> addr set \<Rightarrow> dynstr \<Rightarrow> string \<Rightarrow> bool" where
  "str_in ok blk h L s t \<longleftrightarrow> ok h L \<and> ptr s \<in> L \<and> ptr s \<noteq> NULL
     \<and> blk h (ptr s) = cap s + sizeof_dynstr \<and> dyn_rep s t"

text \<open>\<open>moves ok blk h L s h' s'\<close>: \<open>s'\<close> replaced \<open>s\<close>, in place or in a new block, and every other block
  is untouched.\<close>

definition moves ::
  "('h \<Rightarrow> addr set \<Rightarrow> bool) \<Rightarrow> ('h \<Rightarrow> addr \<Rightarrow> int) \<Rightarrow> 'h \<Rightarrow> addr set \<Rightarrow> dynstr \<Rightarrow> 'h \<Rightarrow> dynstr \<Rightarrow> bool" where
  "moves ok blk h L s h' s' \<longleftrightarrow> ok h' (insert (ptr s') (L - {ptr s}))
     \<and> (ptr s' = ptr s \<or> ptr s' \<notin> L) \<and> (\<forall>q \<in> L - {ptr s}. blk h' q = blk h q)"

abbreviation dyn_at :: "arena \<Rightarrow> addr set \<Rightarrow> dynstr \<Rightarrow> string \<Rightarrow> bool" where
  "dyn_at \<equiv> str_in arena_ok block_size"

abbreviation arena_moves :: "arena \<Rightarrow> addr set \<Rightarrow> dynstr \<Rightarrow> arena \<Rightarrow> dynstr \<Rightarrow> bool" where
  "arena_moves \<equiv> moves arena_ok block_size"

lemma dyn_repE:
  assumes "dyn_rep s t"
  obtains rest where "str s = map Some t @ Some NUL # rest" "len s = int (length t)"
    "cap s = int (length t) + 1 + int (length rest)"
  using assms by (auto simp: dyn_rep_def)

lemma dyn_repI:
  "len s = int (length t) \<Longrightarrow> str s = map Some t @ Some NUL # rest
   \<Longrightarrow> cap s = int (length t) + 1 + int (length rest) \<Longrightarrow> dyn_rep s t"
  by (auto simp: dyn_rep_def)

lemma dyn_rep_unique: "dyn_rep s t \<Longrightarrow> dyn_rep s u \<Longrightarrow> t = u"
  by (auto simp: dyn_rep_def)

lemma dyn_rep_cap: "dyn_rep s t \<Longrightarrow> int (length t) < cap s"
  by (auto simp: dyn_rep_def)

subsection \<open>Buffer lemmas\<close>

lemma buf_put_append:
  "length zs \<le> length ys \<Longrightarrow> off = int (length xs) \<Longrightarrow>
   buf_put (xs @ ys) off zs = Some (xs @ zs @ drop (length zs) ys)"
  by (simp add: buf_put_def)

lemma buf_put_start:
  "length zs \<le> length ys \<Longrightarrow> buf_put ys 0 zs = Some (zs @ drop (length zs) ys)"
  using buf_put_append[of zs ys 0 "[]"] by simp

lemma buf_get_append:
  "off = int (length xs) \<Longrightarrow> n = int (length ys) \<Longrightarrow> buf_get (xs @ ys @ zs) off n = Some ys"
  by (simp add: buf_get_def)

lemma buf_get_start: "n = int (length ys) \<Longrightarrow> buf_get (ys @ zs) 0 n = Some ys"
  using buf_get_append[of 0 "[]" n ys zs] by simp

lemma those_map_Some [simp]: "those (map Some t) = Some t"
  by (induction t) auto

lemma strncpy_text: "NUL \<notin> set t \<Longrightarrow> strncpy_bytes (map Some t) = Some (map Some t)"
  by (induction t) auto

lemma strncpy_text_nul:
  "NUL \<notin> set t \<Longrightarrow> strncpy_bytes (map Some t @ [Some NUL]) = Some (map Some t @ [Some NUL])"
  by (induction t) auto

text \<open>In general \<^verbatim>\<open>strncpy\<close> keeps the text up to the first NUL and fills up with NULs.\<close>

definition nul_cut :: "string \<Rightarrow> string" where
  "nul_cut t = takeWhile (\<lambda>c. c \<noteq> NUL) t @ replicate (length (dropWhile (\<lambda>c. c \<noteq> NUL) t)) NUL"

lemma strncpy_any: "strncpy_bytes (map Some t) = Some (map Some (nul_cut t))"
  by (induction t) (auto simp: nul_cut_def)

lemma nul_cut_id [simp]: "NUL \<notin> set t \<Longrightarrow> nul_cut t = t"
  by (induction t) (auto simp: nul_cut_def)

lemma nul_cut_length [simp]: "length (nul_cut t) = length t"
  using takeWhile_dropWhile_id[of "\<lambda>c. c \<noteq> NUL" t] unfolding nul_cut_def
  by (metis length_append length_replicate)

lemma replicate_split: "n = m + k \<Longrightarrow> replicate n x = replicate m x @ replicate k x"
  by (simp add: replicate_add)

subsection \<open>Operations on one object\<close>

lemma dynstr_reset_ok: "dyn_rep s t \<Longrightarrow> \<exists>s'. dynstr_reset s = Some s' \<and> dyn_rep s' [] \<and> ptr s' = ptr s \<and> cap s' = cap s"
  by (erule dyn_repE, cases t) (auto simp: dynstr_reset_def buf_put_start intro!: dyn_repI)

lemma dynstr_cmp_text:
  assumes "dyn_rep s t" and "dyn_rep s' t'"
  shows "dynstr_cmp s s' = Some (memcmp t t')"
proof -
  let ?n = "min (length t) (length t')"
  have mc: "memcmp (take k xs) (take k ys) = memcmp xs ys"
    if "k = min (length xs) (length ys)" for k and xs ys :: string
    using that by (induction xs ys arbitrary: k rule: memcmp.induct) (auto simp: take_Cons' min_def)
  have g: "buf_get (str x) 0 (int ?n) = Some (map Some (take ?n u))"
    if "dyn_rep x u" "?n \<le> length u" for x u
    using that by (elim dyn_repE) (simp add: buf_get_def take_map)
  from g[OF assms(1)] g[OF assms(2)] mc[of ?n t t'] assms show ?thesis
    by (auto simp: dynstr_cmp_def dyn_rep_def Let_def simp flip: of_nat_min)
qed

lemma memcmp_zero_iff: "memcmp t u = 0 \<longleftrightarrow> take (min (length t) (length u)) t = take (min (length t) (length u)) u"
  by (induction t u rule: memcmp.induct) auto

lemma dynstr_isnewline_text:
  assumes "dyn_rep s t"
  shows "dynstr_isnewline s = Some (t \<noteq> [] \<and> last t = NL)"
proof (cases t rule: rev_cases)
  case Nil
  with assms show ?thesis by (simp add: dynstr_isnewline_def dyn_rep_def)
next
  case (snoc u c)
  from assms obtain rest where s: "str s = map Some u @ [Some c] @ Some NUL # rest"
    "len s = int (length t)" by (auto elim!: dyn_repE simp: snoc)
  then have "buf_get (str s) (len s - 1) 1 = Some [Some c]"
    by (simp add: buf_get_append snoc del: append_Cons)
  with s snoc show ?thesis by (auto simp: dynstr_isnewline_def)
qed

section \<open>Operations that allocate, over any allocator that keeps its promises\<close>

context block_heap
begin

abbreviation own :: "'h \<Rightarrow> addr set \<Rightarrow> dynstr \<Rightarrow> string \<Rightarrow> bool" where
  "own \<equiv> str_in inv blk"

abbreviation moved :: "'h \<Rightarrow> addr set \<Rightarrow> dynstr \<Rightarrow> 'h \<Rightarrow> dynstr \<Rightarrow> bool" where
  "moved \<equiv> moves inv blk"

lemma own_inv: "own h L s t \<Longrightarrow> inv h L"
  by (simp add: str_in_def)

lemma own_frame:
  "own h L s t \<Longrightarrow> inv h' L' \<Longrightarrow> ptr s \<in> L' \<Longrightarrow> blk h' (ptr s) = blk h (ptr s) \<Longrightarrow> own h' L' s t"
  by (simp add: str_in_def)

lemma own_update:
  "own h L s t \<Longrightarrow> ptr s' = ptr s \<Longrightarrow> cap s' = cap s \<Longrightarrow> dyn_rep s' u \<Longrightarrow> own h L s' u"
  by (simp add: str_in_def)

lemma moved_refl: "own h L s t \<Longrightarrow> ptr s' = ptr s \<Longrightarrow> moved h L s h s'"
  by (auto simp: str_in_def moves_def insert_absorb)

lemma moved_other:
  assumes "moved h L s h' s'" and "own h L r u" and "ptr r \<noteq> ptr s"
  shows "own h' (insert (ptr s') (L - {ptr s})) r u"
  using assms by (auto simp: str_in_def moves_def)

lemma moved_trans:
  assumes "moved h L s h1 s1" and "moved h1 (insert (ptr s1) (L - {ptr s})) s1 h2 s2"
    and "ptr s \<in> L"
  shows "insert (ptr s2) (insert (ptr s1) (L - {ptr s}) - {ptr s1}) = insert (ptr s2) (L - {ptr s})"
    and "ptr s2 \<noteq> ptr s \<or> ptr s1 = ptr s \<Longrightarrow> moved h L s h2 s2"
  using assms by (auto simp: moves_def insert_Diff_if)

lemma resize_ok:
  assumes own: "own h L s t"
  shows "\<exists>d h'. dynstr_resize A h s n = Some (d, h') \<and> n < cap d \<and> cap s \<le> cap d \<and> moved h L s h' d
     \<and> own h' (insert (ptr d) (L - {ptr s})) d t"
proof (cases "n < cap s")
  case True
  with own moved_refl[OF own refl] show ?thesis
    by (auto simp: dynstr_resize_def str_in_def insert_absorb)
next
  case False
  have in_L: "ptr s \<in> L" "inv h L" and bl: "blk h (ptr s) = cap s + sizeof_dynstr" and rep: "dyn_rep s t"
    using own by (auto simp: str_in_def)
  have gt: "blk h (ptr s) < DYNSTR_TOTALSZ n" using False bl by (simp add: DYNSTR_TOTALSZ_def)
  obtain q c h' where q: "al_realloc A h (ptr s) (DYNSTR_TOTALSZ n) = Some (q, c, Some (blk h (ptr s)), h')"
    "q \<noteq> NULL" "DYNSTR_TOTALSZ n \<le> c" "q \<notin> L" "inv h' (insert q (L - {ptr s}))" "blk h' q = c"
    "\<forall>r \<in> L - {ptr s}. blk h' r = blk h r"
    using realloc_grow[OF in_L(2,1) gt] by blast
  define d where "d = s\<lparr>ptr := q, cap := c - sizeof_dynstr,
    str := str s @ replicate (nat (c - sizeof_dynstr) - length (str s)) None\<rparr>"
  have ls: "int (length (str s)) = cap s" using rep by (simp add: dyn_rep_def)
  have "dynstr_resize A h s n = Some (d, h')"
    using False q(1,2,3) bl ls
    by (simp add: dynstr_resize_def dynstr_realloc_raw_def d_def DYNSTR_USABLE_SIZE_def
        DYNSTR_TOTALSZ_def min_def Let_def)
  moreover have "dyn_rep d t"
    using rep q(3) ls False by (auto simp: dyn_rep_def d_def DYNSTR_TOTALSZ_def)
  ultimately show ?thesis
    using q False by (auto simp: d_def DYNSTR_TOTALSZ_def moves_def str_in_def sizeof_dynstr_def)
qed

lemma reserve_ok:
  assumes "inv h L" and n: "0 \<le> n"
  shows "\<exists>s h'. dynstr_reserve A h n = Some (s, h') \<and> ptr s \<notin> L \<and> n < cap s
     \<and> own h' (insert (ptr s) L) s [] \<and> (\<forall>q \<in> L. blk h' q = blk h q)"
proof -
  obtain p c h' where a: "al_alloc A h (DYNSTR_TOTALSZ n) = Some (p, c, h')" "p \<noteq> NULL" "p \<notin> L"
    "DYNSTR_TOTALSZ n \<le> c" "inv h' (insert p L)" "blk h' p = c" "\<forall>q \<in> L. blk h' q = blk h q"
    using alloc_ok[OF assms(1)] by blast
  obtain k where k: "nat (c - sizeof_dynstr) = Suc k" "int k = c - sizeof_dynstr - 1"
    using a(4) n by (cases "nat (c - sizeof_dynstr)") (auto simp: DYNSTR_TOTALSZ_def)
  define s where "s = \<lparr>ptr = p, len = 0, cap = c - sizeof_dynstr, str = Some NUL # replicate k None\<rparr>"
  have "dynstr_reserve A h n = Some (s, h')"
    using a(1,2) k
    by (simp add: dynstr_reserve_def dynstr_alloc_raw_def DYNSTR_USABLE_SIZE_def s_def buf_put_start)
  moreover have "dyn_rep s []" using k by (auto simp: dyn_rep_def s_def)
  ultimately show ?thesis
    using a by (auto simp: s_def str_in_def DYNSTR_TOTALSZ_def)
qed

text \<open>Copying a range: the text up to its first NUL, then NULs.\<close>

lemma cnew_any:
  assumes "inv h L"
  shows "\<exists>s h'. dynstr_cnew A h (map Some t) = Some (s, h') \<and> ptr s \<notin> L
     \<and> own h' (insert (ptr s) L) s (nul_cut t) \<and> (\<forall>q \<in> L. blk h' q = blk h q)"
proof -
  obtain s h' where s: "dynstr_reserve A h (int (length t)) = Some (s, h')" "ptr s \<notin> L"
    "int (length t) < cap s" "own h' (insert (ptr s) L) s []" "\<forall>q \<in> L. blk h' q = blk h q"
    using reserve_ok[OF assms, of "int (length t)"] by auto
  have ls: "int (length (str s)) = cap s" using s(4) by (simp add: str_in_def dyn_rep_def)
  define b where "b = map Some (nul_cut t) @ Some NUL # drop (Suc (length t)) (str s)"
  have "buf_put (str s) 0 (map Some (nul_cut t)) = Some (map Some (nul_cut t) @ drop (length t) (str s))"
    using ls s(3) by (simp add: buf_put_start)
  moreover have "buf_put (map Some (nul_cut t) @ drop (length t) (str s)) (int (length t)) [Some NUL] = Some b"
    using ls s(3) by (simp add: buf_put_append b_def)
  ultimately have "dynstr_cnew A h (map Some t) = Some (s\<lparr>len := int (length t), str := b\<rparr>, h')"
    using s(1) by (simp add: dynstr_cnew_def strncpy_any Let_def)
  moreover have "dyn_rep (s\<lparr>len := int (length t), str := b\<rparr>) (nul_cut t)"
    using ls s(3) by (auto simp: dyn_rep_def b_def)
  ultimately show ?thesis using s by (auto simp: str_in_def)
qed

lemma cnew_ok:
  assumes "inv h L" and "NUL \<notin> set t"
  shows "\<exists>s h'. dynstr_cnew A h (map Some t) = Some (s, h') \<and> ptr s \<notin> L
     \<and> own h' (insert (ptr s) L) s t \<and> (\<forall>q \<in> L. blk h' q = blk h q)"
  using cnew_any[OF assms(1), of t] assms(2) by simp

lemma new_ok:
  assumes "inv h L" and "NUL \<notin> set t"
  shows "\<exists>s h'. dynstr_new A h (Some t) = Some (s, h') \<and> ptr s \<notin> L
     \<and> own h' (insert (ptr s) L) s t \<and> (\<forall>q \<in> L. blk h' q = blk h q)"
  using cnew_ok[OF assms] reserve_ok[OF assms(1), of DYNSTR_MIN_SIZE]
  by (cases "t = []") (auto simp: dynstr_new_def DYNSTR_MIN_SIZE_def)

lemma new_null_ok:
  assumes "inv h L"
  shows "\<exists>s h'. dynstr_new A h None = Some (s, h') \<and> ptr s \<notin> L
     \<and> own h' (insert (ptr s) L) s [] \<and> (\<forall>q \<in> L. blk h' q = blk h q)"
  using reserve_ok[OF assms, of DYNSTR_MIN_SIZE] by (auto simp: dynstr_new_def DYNSTR_MIN_SIZE_def)

lemma free_str_ok:
  assumes "own h L s t"
  shows "\<exists>h'. dynstr_free A h s = Some h' \<and> inv h' (L - {ptr s}) \<and> (\<forall>q \<in> L - {ptr s}. blk h' q = blk h q)"
  using free_ok[of h L "ptr s"] assms by (simp add: dynstr_free_def str_in_def)

lemma cat_ok:
  assumes d: "own h L dst t" and s: "dyn_rep src u" and ne: "ptr src \<noteq> ptr dst"
  shows "\<exists>d h'. dynstr_cat A h dst src = Some (d, h') \<and> moved h L dst h' d
     \<and> own h' (insert (ptr d) (L - {ptr dst})) d (t @ u)"
proof -
  have l: "len dst = int (length t)" "len src = int (length u)"
    using d s by (auto simp: str_in_def dyn_rep_def)
  obtain d h' where r: "dynstr_resize A h dst (int (length t) + int (length u)) = Some (d, h')"
    "int (length t) + int (length u) < cap d" "moved h L dst h' d"
    "own h' (insert (ptr d) (L - {ptr dst})) d t" using resize_ok[OF d] by blast
  then obtain rest where rest: "str d = map Some t @ Some NUL # rest" "len d = int (length t)"
    "cap d = int (length t) + 1 + int (length rest)" by (auto simp: str_in_def elim: dyn_repE)
  obtain su where su: "str src = map Some u @ Some NUL # su" using s by (auto elim: dyn_repE)
  define b where "b = map Some (t @ u) @ Some NUL # drop (length u) rest"
  have ul: "length u \<le> length rest" using r(2) rest(3) by simp
  have "buf_get (str src) 0 (int (length u)) = Some (map Some u)"
    by (simp add: su buf_get_start)
  moreover have "buf_put (str d) (int (length t)) (map Some u)
      = Some (map Some (t @ u) @ drop (length u) (Some NUL # rest))"
    using ul by (simp add: rest buf_put_append)
  moreover have "buf_put (map Some (t @ u) @ drop (length u) (Some NUL # rest))
      (int (length t) + int (length u)) [Some NUL] = Some b"
  proof -
    have "drop 1 (drop (length u) (Some NUL # rest)) = drop (length u) rest"
      by (simp add: drop_Suc)
    then show ?thesis using ul by (subst buf_put_append) (auto simp: b_def)
  qed
  ultimately have "dynstr_cat A h dst src = Some (d\<lparr>len := int (length t) + int (length u), str := b\<rparr>, h')"
    using r(1) rest(2) l ne by (simp add: dynstr_cat_def)
  moreover have "dyn_rep (d\<lparr>len := int (length t) + int (length u), str := b\<rparr>) (t @ u)"
    using rest(3) ul by (auto simp: dyn_rep_def b_def)
  ultimately show ?thesis using r(3,4) by (auto simp: str_in_def moves_def)
qed

end

section \<open>Composite operations\<close>

context block_heap
begin

lemma mcat_ok:
  assumes d: "own h L dst t" and s: "own h L src u" and ne: "ptr src \<noteq> ptr dst"
  shows "\<exists>d h'. dynstr_mcat A h dst src = Some (d, h')
     \<and> own h' (insert (ptr d) (L - {ptr dst, ptr src})) d (t @ u)
     \<and> (ptr d = ptr dst \<or> ptr d \<notin> L) \<and> (\<forall>q \<in> L - {ptr dst, ptr src}. blk h' q = blk h q)"
proof -
  obtain d h1 where c: "dynstr_cat A h dst src = Some (d, h1)" "moved h L dst h1 d"
    "own h1 (insert (ptr d) (L - {ptr dst})) d (t @ u)"
    using cat_ok[OF d _ ne, of u] s by (auto simp: str_in_def)
  have pd: "ptr d \<noteq> ptr src" using c(2) s ne by (auto simp: moves_def str_in_def)
  obtain h2 where f: "dynstr_free A h1 src = Some h2"
    "inv h2 (insert (ptr d) (L - {ptr dst}) - {ptr src})"
    "\<forall>q \<in> insert (ptr d) (L - {ptr dst}) - {ptr src}. blk h2 q = blk h1 q"
    using free_str_ok[OF moved_other[OF c(2) s ne]] by blast
  have L2: "insert (ptr d) (L - {ptr dst}) - {ptr src} = insert (ptr d) (L - {ptr dst, ptr src})"
    using pd by auto
  show ?thesis
    using c f pd L2 by (auto simp: dynstr_mcat_def moves_def intro!: own_frame[OF c(3)])
qed

text \<open>A string built only to be appended is gone again afterwards: nothing but \<open>dst\<close> changed.\<close>

lemma ccat_range_ok:
  assumes d: "own h L dst t"
  shows "\<exists>d h'. dynstr_ccat_range A h dst (map Some u) = Some (d, h')
     \<and> own h' (insert (ptr d) (L - {ptr dst})) d (t @ nul_cut u)
     \<and> (ptr d = ptr dst \<or> ptr d \<notin> L) \<and> (\<forall>q \<in> L - {ptr dst}. blk h' q = blk h q)"
proof -
  obtain n h1 where n: "dynstr_cnew A h (map Some u) = Some (n, h1)" "ptr n \<notin> L"
    "own h1 (insert (ptr n) L) n (nul_cut u)" "\<forall>q \<in> L. blk h1 q = blk h q"
    using cnew_any[OF own_inv[OF d]] by blast
  have dL: "ptr dst \<in> L" using d by (simp add: str_in_def)
  then have ne: "ptr n \<noteq> ptr dst" using n(2) by auto
  have d1: "own h1 (insert (ptr n) L) dst t"
    using own_frame[OF d own_inv[OF n(3)]] dL n(4) by simp
  obtain d h2 where m: "dynstr_mcat A h1 dst n = Some (d, h2)"
    "own h2 (insert (ptr d) (insert (ptr n) L - {ptr dst, ptr n})) d (t @ nul_cut u)"
    "ptr d = ptr dst \<or> ptr d \<notin> insert (ptr n) L" "\<forall>q \<in> insert (ptr n) L - {ptr dst, ptr n}. blk h2 q = blk h1 q"
    using mcat_ok[OF d1 n(3) ne] by blast
  have L2: "insert (ptr n) L - {ptr dst, ptr n} = L - {ptr dst}" using n(2) ne by auto
  from m[unfolded L2] n show ?thesis
    by (auto simp: dynstr_ccat_range_def dynstr_mcat_def bind_Some_iff split: option.splits)
qed

lemma ccat_ok:
  assumes "own h L dst t" and "NUL \<notin> set u"
  shows "\<exists>d h'. dynstr_ccat A h dst u = Some (d, h') \<and> own h' (insert (ptr d) (L - {ptr dst})) d (t @ u)
     \<and> (ptr d = ptr dst \<or> ptr d \<notin> L) \<and> (\<forall>q \<in> L - {ptr dst}. blk h' q = blk h q)"
  using ccat_range_ok[OF assms(1), of u] assms(2) by (simp add: dynstr_ccat_def)

lemma assign_ok:
  assumes d: "own h L s t" and u: "NUL \<notin> set u"
  shows "\<exists>d h'. dynstr_assign A h s u = Some (d, h') \<and> moved h L s h' d
     \<and> own h' (insert (ptr d) (L - {ptr s})) d u"
proof -
  obtain d h' where r: "dynstr_resize A h s (int (length u)) = Some (d, h')"
    "int (length u) < cap d" "moved h L s h' d" "own h' (insert (ptr d) (L - {ptr s})) d t"
    using resize_ok[OF d] by blast
  have ls: "int (length (str d)) = cap d" using r(4) by (simp add: str_in_def dyn_rep_def)
  define b where "b = map Some u @ Some NUL # drop (Suc (length u)) (str d)"
  have "buf_put (str d) 0 (map Some u @ [Some NUL]) = Some b"
    using ls r(2) by (simp add: buf_put_start b_def)
  moreover have "buf_put b (int (length u)) [Some NUL] = Some b"
    by (simp add: b_def buf_put_append)
  moreover have "strncpy_bytes (map Some u @ [Some NUL]) = Some (map Some u @ [Some NUL])"
    using u by (induction u) auto
  ultimately have "dynstr_assign A h s u = Some (d\<lparr>len := int (length u), str := b\<rparr>, h')"
    using r(1) by (simp add: dynstr_assign_def Let_def)
  moreover have "dyn_rep (d\<lparr>len := int (length u), str := b\<rparr>) u"
    using ls r(2) by (auto simp: dyn_rep_def b_def)
  ultimately show ?thesis using r(3,4) by (auto simp: str_in_def moves_def)
qed

lemma copy_ok:
  assumes d: "own h L s t"
  shows "\<exists>d h'. dynstr_copy A h s = Some (d, h') \<and> ptr d \<notin> L
     \<and> own h' (insert (ptr d) L) d (takeWhile (\<lambda>c. c \<noteq> NUL) t) \<and> (\<forall>q \<in> L. blk h' q = blk h q)"
proof -
  have c: "buf_cstr (map Some t @ Some NUL # rest) = Some (takeWhile (\<lambda>c. c \<noteq> NUL) t)" for rest
    by (induction t) auto
  have "NUL \<notin> set (takeWhile (\<lambda>c. c \<noteq> NUL) t)" by (auto dest: set_takeWhileD)
  from new_ok[OF own_inv[OF d] this] d c show ?thesis
    by (auto simp: dynstr_copy_def str_in_def dyn_rep_def)
qed

end

context block_heap
begin

text \<open>Inserting in the middle: \<open>needle\<close> must be another string, and the part that moves must not
  contain a NUL, since the tail is copied with \<^verbatim>\<open>strncpy\<close>.\<close>

lemma insert_middle_ok:
  assumes d: "own h L into t" and n: "own h L needle u" and ne: "ptr needle \<noteq> ptr into"
    and i: "i < length t"
  shows "\<exists>d h'. dynstr_insert A h into needle (int i) = Some (d, h')
     \<and> own h' (insert (ptr d) (L - {ptr into})) d (take i t @ u @ nul_cut (drop i t))
     \<and> (\<forall>q \<in> L - {ptr into}. blk h' q = blk h q)"
proof -
  have l: "len into = int (length t)" "len needle = int (length u)"
    using d n by (auto simp: str_in_def dyn_rep_def)
  obtain d1 h1 where r: "dynstr_resize A h into (int (length t) + int (length u)) = Some (d1, h1)"
    "moved h L into h1 d1" "own h1 (insert (ptr d1) (L - {ptr into})) d1 t"
    using resize_ok[OF d] by blast
  let ?L1 = "insert (ptr d1) (L - {ptr into})"
  obtain rest where rest: "str d1 = map Some t @ Some NUL # rest" "len d1 = int (length t)"
    "cap d1 = int (length t) + 1 + int (length rest)"
    using r(3) by (auto simp: str_in_def elim: dyn_repE)
  have needle1: "own h1 ?L1 needle u" "ptr needle \<noteq> ptr d1"
    using moved_other[OF r(2) n ne] r(2) n ne by (auto simp: moves_def str_in_def)
  have tl: "buf_get (str d1) (int i) (len d1 - int i) = Some (map Some (drop i t))"
    using i by (simp add: rest buf_get_def drop_map)
  obtain tail h2 where tail: "dynstr_cnew A h1 (map Some (drop i t)) = Some (tail, h2)" "ptr tail \<notin> ?L1"
    "own h2 (insert (ptr tail) ?L1) tail (nul_cut (drop i t))" "\<forall>q \<in> ?L1. blk h2 q = blk h1 q"
    using cnew_any[OF own_inv[OF r(3)], of "drop i t"] by blast
  let ?L2 = "insert (ptr tail) ?L1"
  define b where "b = map Some (take i t) @ Some NUL # (map Some (drop (Suc i) t) @ Some NUL # rest)"
  have put: "buf_put (str d1) (int i) [Some NUL] = Some b"
    using i by (simp add: rest buf_put_def b_def take_map drop_map)
  let ?d2 = "d1\<lparr>len := int i, str := b\<rparr>"
  have "dyn_rep ?d2 (take i t)" using i rest(3) by (auto simp: dyn_rep_def b_def)
  then have d2: "own h2 ?L2 ?d2 (take i t)"
    using r(3) tail(3,4) by (auto simp: str_in_def)
  obtain d3 h3 where c1: "dynstr_cat A h2 ?d2 needle = Some (d3, h3)" "moved h2 ?L2 ?d2 h3 d3"
    "own h3 (insert (ptr d3) (?L2 - {ptr d1})) d3 (take i t @ u)"
    using cat_ok[OF d2, of needle u] needle1 by (auto simp: str_in_def)
  let ?L3 = "insert (ptr d3) (?L2 - {ptr d1})"
  have "own h3 ?L3 tail (nul_cut (drop i t))" "ptr tail \<noteq> ptr d3"
    using moved_other[OF c1(2) tail(3)] tail(2) c1(2) by (auto simp: moves_def)
  then obtain d4 h4 where c2: "dynstr_mcat A h3 d3 tail = Some (d4, h4)"
    "own h4 (insert (ptr d4) (?L3 - {ptr d3, ptr tail})) d4 ((take i t @ u) @ nul_cut (drop i t))"
    "\<forall>q \<in> ?L3 - {ptr d3, ptr tail}. blk h4 q = blk h3 q"
    using mcat_ok[OF c1(3), of tail] by blast
  have L4: "?L3 - {ptr d3, ptr tail} = L - {ptr into}"
    using r(2) tail(2) c1(2) d by (auto simp: moves_def str_in_def)
  have run: "dynstr_insert A h into needle (int i) = dynstr_mcat A h3 d3 tail"
    using i l r(1) tl tail(1) put c1(1) ne by (simp add: dynstr_insert_def dynstr_mcat_def rest(2) Let_def)
  have frame: "blk h4 q = blk h q" if "q \<in> L - {ptr into}" for q
  proof -
    have q: "q \<in> ?L1" "q \<in> ?L2 - {ptr d1} \<or> q = ptr d1" using that by auto
    have "q \<noteq> ptr d1" using that r(2) by (auto simp: moves_def)
    then show ?thesis using q that L4 c2(3) c1(2) tail(4) r(2) by (auto simp: moves_def)
  qed
  show ?thesis
    unfolding run using c2(1,2) frame by (simp add: L4)
qed

lemma insert_ok:
  assumes d: "own h L into t" and n: "own h L needle u" and ne: "ptr needle \<noteq> ptr into"
    and i: "0 \<le> i" and nul: "NUL \<notin> set (drop (nat i) t)"
  shows "\<exists>d h'. dynstr_insert A h into needle i = Some (d, h')
     \<and> own h' (insert (ptr d) (L - {ptr into})) d (take (nat i) t @ u @ drop (nat i) t)
     \<and> (\<forall>q \<in> L - {ptr into}. blk h' q = blk h q)"
proof (cases "nat i < length t")
  case True
  with insert_middle_ok[OF d n ne True] i nul show ?thesis by simp
next
  case False
  have "len into = int (length t)" using d by (simp add: str_in_def dyn_rep_def)
  with False i have "len into \<le> i" by linarith
  then have run: "dynstr_insert A h into needle i = dynstr_cat A h into needle"
    by (simp add: dynstr_insert_def)
  have "dyn_rep needle u" using n by (simp add: str_in_def)
  from cat_ok[OF d this ne] False show ?thesis unfolding run by (auto simp: moves_def)
qed

end

section \<open>In-place removal\<close>

lemma dynstr_remove_range_ok:
  assumes s: "dyn_rep s t" and ij: "0 \<le> i" "i \<le> j" "0 < j" "j < int (length t)"
  shows "\<exists>s'. dynstr_remove_range s i j = Some s' \<and> ptr s' = ptr s \<and> cap s' = cap s
     \<and> dyn_rep s' (take (nat i) t @ drop (nat j + 1) t)"
proof -
  obtain rest where rest: "str s = map Some t @ Some NUL # rest" "len s = int (length t)"
    "cap s = int (length t) + 1 + int (length rest)" using s by (rule dyn_repE)
  let ?r = "map Some (drop (nat j + 1) t)" and ?n = "int (length t) - (j - i + 1)"
  have nj: "nat j < length t" using ij by linarith
  have get: "buf_get (str s) (j + 1) (len s - j - 1) = Some ?r"
    using ij rest nj by (simp add: buf_get_def drop_map nat_add_distrib nat_diff_distrib)
  obtain gap where put: "buf_put (str s) i ?r = Some (map Some (take (nat i) t) @ ?r @ gap)"
    "length gap = length rest + 1 + nat (j - i + 1)"
    using ij rest nj by (simp add: buf_put_def take_map)
  obtain g gs where gap: "gap = g # gs" using put(2) by (cases gap) auto
  have put2: "buf_put (map Some (take (nat i) t) @ ?r @ gap) ?n [Some NUL]
      = Some (map Some (take (nat i) t @ drop (nat j + 1) t) @ Some NUL # gs)"
    using ij nj buf_put_append[of "[Some NUL]" gap ?n "map Some (take (nat i) t) @ ?r"]
    by (simp add: gap min_def)
  have "dynstr_remove_range s i j = Some (s\<lparr>len := ?n,
      str := map Some (take (nat i) t @ drop (nat j + 1) t) @ Some NUL # gs\<rparr>)"
    using ij get put(1) put2 rest(2) by (simp add: dynstr_remove_range_def Let_def)
  moreover have "int (length gs) = int (length rest) + (j - i + 1)" using put(2) gap ij by simp
  ultimately show ?thesis
    using ij nj rest(3) by (auto simp: dyn_rep_def min_def)
qed

lemma dynstr_remove_all_ok:
  assumes "dyn_rep s t" and "int (length t) \<le> j"
  shows "\<exists>s'. dynstr_remove_range s 0 j = Some s' \<and> ptr s' = ptr s \<and> cap s' = cap s \<and> dyn_rep s' []"
  using dynstr_reset_ok[OF assms(1)] assms by (auto simp: dynstr_remove_range_def dyn_rep_def)

section \<open>Properties\<close>

lemma two_strings_exist:
  assumes "NUL \<notin> set t" and "NUL \<notin> set u"
  shows "\<exists>ar L x y. dyn_at ar L x t \<and> dyn_at ar L y u \<and> ptr y \<noteq> ptr x"
proof -
  obtain ar where "arena_ok ar {}" using dynstr_arena_exists by blast
  from da.new_ok[OF this assms(1)] obtain x ar1 where x: "dyn_at ar1 {ptr x} x t" by blast
  from da.new_ok[OF da.own_inv[OF x] assms(2)] obtain y ar2 where
    y: "ptr y \<notin> {ptr x}" "dyn_at ar2 (insert (ptr y) {ptr x}) y u"
    "\<forall>q \<in> {ptr x}. block_size ar2 q = block_size ar1 q" by blast
  have "dyn_at ar2 (insert (ptr y) {ptr x}) x t"
    using da.own_frame[OF x da.own_inv[OF y(2)]] y(3) by simp
  with y show ?thesis by blast
qed

text \<open>C29: \<^verbatim>\<open>dynstr_cat\<close> gives the concatenation in one live string, moved to a larger block when it has to
  grow, and leaves the source and every other block alone.\<close>

theorem dynstr_cat_sound:
  assumes "dyn_at ar L dst t" and "dyn_at ar L src u" and "ptr src \<noteq> ptr dst"
  shows "\<exists>d ar'. dynstr_cat dynstr_arena ar dst src = Some (d, ar') \<and> arena_moves ar L dst ar' d
     \<and> dyn_at ar' (insert (ptr d) (L - {ptr dst})) d (t @ u)
     \<and> dyn_at ar' (insert (ptr d) (L - {ptr dst})) src u"
proof -
  have "dyn_rep src u" using assms(2) by (simp add: str_in_def)
  from da.cat_ok[OF assms(1) this assms(3)] da.moved_other[OF _ assms(2,3)] show ?thesis by blast
qed

theorem dynstr_cat_sound_witness:
  "\<exists>ar L dst src d ar'. dyn_at ar L dst ''ab'' \<and> dyn_at ar L src ''cd''
     \<and> dynstr_cat dynstr_arena ar dst src = Some (d, ar') \<and> dyn_rep d ''abcd''"
proof -
  obtain ar L x y where "dyn_at ar L x ''ab''" "dyn_at ar L y ''cd''" "ptr y \<noteq> ptr x"
    using two_strings_exist[of "''ab''" "''cd''"] by auto
  with dynstr_cat_sound[OF this] show ?thesis by (fastforce simp: str_in_def)
qed

text \<open>\<^verbatim>\<open>dynstr_insert\<close> splices the needle in at the index; the temporary copy of the tail is released,
  so that the blocks in use afterwards are exactly those before, with the new place of the string.\<close>

theorem dynstr_insert_sound:
  assumes "dyn_at ar L into t" and "dyn_at ar L needle u" and "ptr needle \<noteq> ptr into"
    and "0 \<le> i" and "NUL \<notin> set (drop (nat i) t)"
  shows "\<exists>d ar'. dynstr_insert dynstr_arena ar into needle i = Some (d, ar')
     \<and> dyn_at ar' (insert (ptr d) (L - {ptr into})) d (take (nat i) t @ u @ drop (nat i) t)
     \<and> (\<forall>q \<in> L - {ptr into}. block_size ar' q = block_size ar q)"
  by (rule da.insert_ok[OF assms])

theorem dynstr_insert_sound_witness:
  "\<exists>ar L x y d ar'. dyn_at ar L x ''ab'' \<and> dyn_at ar L y ''cd''
     \<and> dynstr_insert dynstr_arena ar x y 1 = Some (d, ar') \<and> dyn_rep d ''acdb''"
proof -
  obtain ar L x y where "dyn_at ar L x ''ab''" "dyn_at ar L y ''cd''" "ptr y \<noteq> ptr x"
    using two_strings_exist[of "''ab''" "''cd''"] by auto
  with dynstr_insert_sound[OF this, of 1] show ?thesis by (fastforce simp: str_in_def)
qed

text \<open>\<^verbatim>\<open>dynstr_ccat\<close> appends a C string through a temporary string, which is released: no block leaks.\<close>

theorem dynstr_ccat_sound:
  assumes "dyn_at ar L dst t" and "NUL \<notin> set u"
  shows "\<exists>d ar'. dynstr_ccat dynstr_arena ar dst u = Some (d, ar')
     \<and> dyn_at ar' (insert (ptr d) (L - {ptr dst})) d (t @ u)
     \<and> (\<forall>q \<in> L - {ptr dst}. block_size ar' q = block_size ar q)"
  using da.ccat_ok[OF assms] by blast

theorem dynstr_ccat_sound_witness:
  "\<exists>ar L x d ar'. dyn_at ar L x ''ab'' \<and> dynstr_ccat dynstr_arena ar x ''cd'' = Some (d, ar') \<and> dyn_rep d ''abcd''"
proof -
  obtain ar L x y where "dyn_at ar L x ''ab''"
    using two_strings_exist[of "''ab''" "''cd''"] by auto
  with dynstr_ccat_sound[OF this, of "''cd''"] show ?thesis by (fastforce simp: str_in_def)
qed

text \<open>\<^verbatim>\<open>dynstr_remove_range\<close> removes the inclusive range in place, for every range that ends at an index
  other than 0.\<close>

theorem dynstr_remove_range_sound:
  assumes "dyn_rep s t" and "0 \<le> i" and "i \<le> j" and "0 < j" and "j < int (length t)"
  shows "\<exists>s'. dynstr_remove_range s i j = Some s' \<and> ptr s' = ptr s
     \<and> dyn_rep s' (take (nat i) t @ drop (nat j + 1) t)"
  using dynstr_remove_range_ok[OF assms] by blast

theorem dynstr_remove_range_sound_witness:
  "\<exists>s'. dynstr_remove_range \<lparr>ptr = 8, len = 3, cap = 4, str = map Some ''abc'' @ [Some NUL]\<rparr> 0 1 = Some s'
     \<and> dyn_rep s' ''c''"
  using dynstr_remove_range_sound[of "\<lparr>ptr = 8, len = 3, cap = 4, str = map Some ''abc'' @ [Some NUL]\<rparr>" "''abc''" 0 1]
  by (auto simp: dyn_rep_def)

text \<open>Removing just the first character of a string takes the shortcut meant for a missing end index:
  the length becomes \<open>-1\<close>.\<close>

theorem dynstr_remove_first_negative:
  assumes "dyn_rep s t" and "t \<noteq> []"
  shows "\<exists>s'. dynstr_remove_range s 0 0 = Some s' \<and> len s' = - 1"
  using assms by (cases t) (auto simp: dynstr_remove_range_def buf_put_def elim!: dyn_repE)

theorem dynstr_remove_first_negative_witness:
  "\<exists>s'. dynstr_remove_range \<lparr>ptr = 8, len = 3, cap = 4, str = map Some ''abc'' @ [Some NUL]\<rparr> 0 0 = Some s'
     \<and> len s' = - 1"
  by (rule dynstr_remove_first_negative[where t = "''abc''"]) (auto simp: dyn_rep_def)

text \<open>\<^verbatim>\<open>dynstr_cmp\<close> compares only the common length: it is 0 exactly when one text is a prefix of the
  other, not only when they are equal.\<close>

theorem dynstr_cmp_prefix:
  assumes "dyn_rep s t" and "dyn_rep s' t'"
  shows "dynstr_cmp s s' = Some 0 \<longleftrightarrow> (\<exists>u. t' = t @ u \<or> t = t' @ u)"
proof -
  have "memcmp t t' = 0 \<longleftrightarrow> (\<exists>u. t' = t @ u \<or> t = t' @ u)"
    by (induction t t' rule: memcmp.induct) auto
  with dynstr_cmp_text[OF assms] show ?thesis by simp
qed

theorem dynstr_cmp_prefix_witness:
  "dynstr_cmp \<lparr>ptr = 8, len = 3, cap = 4, str = map Some ''APP'' @ [Some NUL]\<rparr>
     \<lparr>ptr = 32, len = 4, cap = 5, str = map Some ''APP2'' @ [Some NUL]\<rparr> = Some 0"
  by (subst dynstr_cmp_prefix[where t = "''APP''" and t' = "''APP2''"]) (auto simp: dyn_rep_def)

end
