(* ===== verification/Line_Reader.thy ===== *)
theory Line_Reader
  imports Dynstr
begin

text \<open>
  The line reader of \<^verbatim>\<open>lr.c\<close>: a buffer that \<^verbatim>\<open>read\<close> fills at its end and from whose front whole lines
  are cut. The reference definitions \<open>next_line\<close> and \<open>cut_lines\<close> say on texts what the buffer operations
  do; the operations are shown to implement them over every allocator that keeps the promises of
  \<open>block_heap\<close>, and so over the arena.
\<close>

section \<open>Data and operations\<close>

record linereader =
  cur_idx :: int
  buf :: dynstr

definition DEFAULTBUF_SIZE :: int where "DEFAULTBUF_SIZE = 1024"

definition reader_new_size :: "'h allocator \<Rightarrow> 'h \<Rightarrow> int \<Rightarrow> (linereader \<times> 'h) option" where
  "reader_new_size A h bufsz = do {
     (b, h') \<leftarrow> dynstr_reserve A h bufsz;
     Some (\<lparr>cur_idx = 0, buf = b\<rparr>, h')
   }"

definition reader_new :: "'h allocator \<Rightarrow> 'h \<Rightarrow> (linereader \<times> 'h) option" where
  "reader_new A h = reader_new_size A h (DYNSTR_USABLE_SIZE DEFAULTBUF_SIZE)"

definition reader_reset :: "linereader \<Rightarrow> linereader option" where
  "reader_reset r = do { b \<leftarrow> dynstr_reset (buf r); Some (r\<lparr>buf := b, cur_idx := 0\<rparr>) }"

definition reader_reset_with_buffer ::
  "'h allocator \<Rightarrow> 'h \<Rightarrow> linereader \<Rightarrow> string \<Rightarrow> int \<Rightarrow> (linereader \<times> 'h) option" where
  "reader_reset_with_buffer A h lr newbuf newidx = do {
     h' \<leftarrow> dynstr_free A h (buf lr);
     (b, h'') \<leftarrow> dynstr_new A h' (Some newbuf);
     Some (lr\<lparr>cur_idx := newidx, buf := b\<rparr>, h'')
   }"

text \<open>The argument of \<^verbatim>\<open>reader_destroy\<close> may be a null pointer; its buffer is released with it.\<close>

definition reader_destroy :: "'h allocator \<Rightarrow> 'h \<Rightarrow> linereader option \<Rightarrow> 'h option" where
  "reader_destroy A h r = (case r of None \<Rightarrow> Some h | Some r \<Rightarrow> dynstr_free A h (buf r))"

definition reader_get_buffer ::
  "'h allocator \<Rightarrow> 'h \<Rightarrow> linereader \<Rightarrow> int \<Rightarrow> (addr \<times> linereader \<times> 'h) option" where
  "reader_get_buffer A h r min_size_hint =
     (if dynstr_slack (buf r) < min_size_hint then do {
        (b, h') \<leftarrow> dynstr_resize A h (buf r) (len (buf r) + min_size_hint + 1);
        Some (dynstr_endptr b, r\<lparr>buf := b\<rparr>, h')
      } else Some (dynstr_endptr (buf r), r, h))"

definition reader_buffer_fill :: "linereader \<Rightarrow> int \<Rightarrow> linereader option" where
  "reader_buffer_fill r numbytes = do { b \<leftarrow> dynstr_fill (buf r) numbytes; Some (r\<lparr>buf := b\<rparr>) }"

text \<open>\<^verbatim>\<open>memchr\<close> over \<open>n\<close> bytes from offset \<open>off\<close>: the distance of the first hit. A negative size is an
  enormous \<^verbatim>\<open>size_t\<close>, a read outside the buffer.\<close>

definition memchr_at :: "bytes \<Rightarrow> char \<Rightarrow> int \<Rightarrow> int \<Rightarrow> nat option option" where
  "memchr_at b c off n = map_option (find_char c) (buf_get b off n \<bind> those)"

text \<open>The loop that steps over newlines at the index: \<open>Some (r', nl)\<close> with the offset of the newline found.\<close>

function reader_scan :: "linereader \<Rightarrow> (linereader \<times> int option) option" where
  "reader_scan r =
     (case memchr_at (str (buf r)) NL (cur_idx r) (len (buf r) - cur_idx r) of
        None \<Rightarrow> None
      | Some None \<Rightarrow> Some (r, None)
      | Some (Some k) \<Rightarrow>
          if k = 0 then reader_scan (r\<lparr>cur_idx := cur_idx r + 1\<rparr>)
          else Some (r, Some (cur_idx r + int k)))"
  by pat_completeness auto

lemma memchr_at_bounds: "memchr_at b c off n = Some (Some k) \<Longrightarrow> 0 \<le> off \<and> int k < n"
proof -
  have f: "find_char c xs = Some k \<Longrightarrow> k < length xs" for xs k
    by (induction xs arbitrary: k) (auto split: if_splits)
  have t: "those ys = Some zs \<Longrightarrow> length zs = length ys" for ys :: bytes and zs
    by (induction ys arbitrary: zs) (auto split: option.splits)
  assume "memchr_at b c off n = Some (Some k)"
  then obtain zs where y: "0 \<le> off" "0 \<le> n" "off + n \<le> int (length b)"
    "those (take (nat n) (drop (nat off) b)) = Some zs" "find_char c zs = Some k"
    by (auto simp: memchr_at_def bind_Some_iff buf_simps)
  from f[OF y(5)] t[OF y(4)] y(1,2,3) show ?thesis by (auto simp: min_def split: if_splits)
qed

termination reader_scan
  by (relation "measure (\<lambda>r. nat (len (buf r) - cur_idx r))") (auto dest: memchr_at_bounds)

declare reader_scan.simps [simp del]

definition reader_get_next_line ::
  "'h allocator \<Rightarrow> 'h \<Rightarrow> linereader \<Rightarrow> (dynstr option \<times> linereader \<times> 'h) option" where
  "reader_get_next_line A h r =
     (case reader_scan r of
        None \<Rightarrow> None
      | Some (r, None) \<Rightarrow> Some (None, r\<lparr>cur_idx := len (buf r)\<rparr>, h)
      | Some (r, Some nl) \<Rightarrow> do {
          bs \<leftarrow> buf_get (str (buf r)) 0 (nl + 1);
          (line, h') \<leftarrow> dynstr_cnew A h bs;
          b \<leftarrow> dynstr_remove_range (buf r) 0 nl;
          Some (Some line, r\<lparr>buf := b, cur_idx := 0\<rparr>, h')
        })"

definition reader_raw_buffer :: "linereader \<Rightarrow> dynstr \<times> int" where
  "reader_raw_buffer r = (buf r, cur_idx r)"

section \<open>What the reader does, on texts\<close>

text \<open>\<open>skip_nl c t\<close>: the first index at or after \<open>c\<close> that does not hold a newline.\<close>

definition skip_nl :: "nat \<Rightarrow> string \<Rightarrow> nat" where
  "skip_nl c t = c + length (takeWhile (\<lambda>x. x = NL) (drop c t))"

text \<open>The next line is everything from the start of the buffer to the first newline after the skipped ones.\<close>

definition next_line :: "nat \<Rightarrow> string \<Rightarrow> (string \<times> string) option" where
  "next_line c t = map_option (\<lambda>k. (take (Suc (skip_nl c t + k)) t, drop (Suc (skip_nl c t + k)) t))
     (find_char NL (drop (skip_nl c t) t))"

definition reader_rep :: "linereader \<Rightarrow> nat \<Rightarrow> string \<Rightarrow> bool" where
  "reader_rep r c t \<longleftrightarrow> dyn_rep (buf r) t \<and> cur_idx r = int c \<and> c \<le> length t"

lemma memchr_text:
  assumes "dyn_rep s t" and "c \<le> length t"
  shows "memchr_at (str s) x (int c) (len s - int c) = Some (find_char x (drop c t))"
  using assms by (elim dyn_repE) (auto simp: memchr_at_def buf_get_def drop_map)

lemma skip_nl_step:
  "find_char NL (drop c t) = Some 0 \<Longrightarrow> skip_nl (Suc c) t = skip_nl c t \<and> c < length t"
  by (cases "drop c t") (auto simp: skip_nl_def drop_Suc simp flip: tl_drop intro: ccontr split: if_splits)

lemma skip_nl_stop: "find_char NL (drop c t) \<noteq> Some 0 \<Longrightarrow> skip_nl c t = c"
  by (cases "drop c t") (auto simp: skip_nl_def)

lemma reader_scan_text:
  assumes "reader_rep r c t"
  shows "reader_scan r = Some (r\<lparr>cur_idx := int (skip_nl c t)\<rparr>,
     map_option (\<lambda>k. int (skip_nl c t + k)) (find_char NL (drop (skip_nl c t) t)))
     \<and> find_char NL (drop (skip_nl c t) t) \<noteq> Some 0"
  using assms
proof (induction "length t - c" arbitrary: c r rule: less_induct)
  case less
  have m: "memchr_at (str (buf r)) NL (cur_idx r) (len (buf r) - cur_idx r) = Some (find_char NL (drop c t))"
    using memchr_text[of "buf r" t c NL] less.prems by (simp add: reader_rep_def)
  show ?case
  proof (cases "find_char NL (drop c t) = Some 0")
    case True
    with skip_nl_step[OF True] less.prems have "reader_rep (r\<lparr>cur_idx := cur_idx r + 1\<rparr>) (Suc c) t"
      by (auto simp: reader_rep_def)
    moreover have "length t - Suc c < length t - c" using skip_nl_step[OF True] by linarith
    ultimately show ?thesis
      using less.hyps[of "Suc c"] skip_nl_step[OF True] m True by (subst reader_scan.simps) auto
  next
    case False
    with m skip_nl_stop[OF False] less.prems show ?thesis
      by (subst reader_scan.simps) (auto simp: reader_rep_def split: option.splits)
  qed
qed

lemma next_line_Some:
  assumes "next_line c t = Some (l, u)"
  shows "l @ u = t \<and> l \<noteq> [] \<and> last l = NL \<and> length u < length t"
proof -
  obtain k where k: "find_char NL (drop (skip_nl c t) t) = Some k"
    "l = take (Suc (skip_nl c t + k)) t" "u = drop (Suc (skip_nl c t + k)) t"
    using assms by (auto simp: next_line_def)
  from find_char_Some[OF k(1)] have "skip_nl c t + k < length t" "t ! (skip_nl c t + k) = NL" by auto
  with k(2,3) id_take_nth_drop[OF this(1)] show ?thesis
    by (auto simp: take_Suc_conv_app_nth)
qed

text \<open>The reader's buffer with \<open>c\<close> characters already scanned and \<open>t\<close> its text, as a live string.\<close>

definition reader_in ::
  "('h \<Rightarrow> addr set \<Rightarrow> bool) \<Rightarrow> ('h \<Rightarrow> addr \<Rightarrow> int) \<Rightarrow> 'h \<Rightarrow> addr set \<Rightarrow> linereader \<Rightarrow> nat \<Rightarrow> string \<Rightarrow> bool" where
  "reader_in ok blk h L r c t \<longleftrightarrow> str_in ok blk h L (buf r) t \<and> cur_idx r = int c \<and> c \<le> length t"

abbreviation reader_at :: "arena \<Rightarrow> addr set \<Rightarrow> linereader \<Rightarrow> nat \<Rightarrow> string \<Rightarrow> bool" where
  "reader_at \<equiv> reader_in arena_ok block_size"

context block_heap
begin

abbreviation reading :: "'h \<Rightarrow> addr set \<Rightarrow> linereader \<Rightarrow> nat \<Rightarrow> string \<Rightarrow> bool" where
  "reading \<equiv> reader_in inv blk"

lemma reading_rep: "reading h L r c t \<Longrightarrow> reader_rep r c t"
  by (simp add: reader_in_def reader_rep_def str_in_def)

lemma reader_new_ok:
  assumes "inv h L"
  shows "\<exists>r h'. reader_new A h = Some (r, h') \<and> ptr (buf r) \<notin> L \<and> reading h' (insert (ptr (buf r)) L) r 0 []
     \<and> (\<forall>q \<in> L. blk h' q = blk h q)"
  using reserve_ok[OF assms, of "DYNSTR_USABLE_SIZE DEFAULTBUF_SIZE"]
  by (auto simp: reader_new_def reader_new_size_def reader_in_def DYNSTR_USABLE_SIZE_def
      DEFAULTBUF_SIZE_def sizeof_dynstr_def)

lemma reader_reset_with_buffer_ok:
  assumes r: "reading h L r c t" and n: "NUL \<notin> set u" "i \<le> length u"
  shows "\<exists>r' h'. reader_reset_with_buffer A h r u (int i) = Some (r', h')
     \<and> reading h' (insert (ptr (buf r')) (L - {ptr (buf r)})) r' i u"
proof -
  have "own h L (buf r) t" using r by (simp add: reader_in_def)
  from free_str_ok[OF this] obtain h1 where "dynstr_free A h (buf r) = Some h1" "inv h1 (L - {ptr (buf r)})"
    by blast
  with new_ok[OF this(2) n(1)] n(2) show ?thesis
    by (auto simp: reader_reset_with_buffer_def reader_in_def)
qed

text \<open>The buffer handed out has room for the bytes asked for and the final NUL.\<close>

lemma reader_get_buffer_ok:
  assumes r: "reading h L r c t"
  shows "\<exists>r' h'. reader_get_buffer A h r n = Some (dynstr_endptr (buf r'), r', h')
     \<and> n \<le> dynstr_slack (buf r') \<and> reading h' (insert (ptr (buf r')) (L - {ptr (buf r)})) r' c t
     \<and> moved h L (buf r) h' (buf r')"
proof (cases "dynstr_slack (buf r) < n")
  case True
  have o: "own h L (buf r) t" using r by (simp add: reader_in_def)
  have len_eq: "\<And>d u. own h' L' d u \<Longrightarrow> len d = int (length u)" for h' L'
    by (simp add: str_in_def dyn_rep_def)
  from resize_ok[OF o, of "len (buf r) + n + 1"] obtain d h' where
    d: "dynstr_resize A h (buf r) (len (buf r) + n + 1) = Some (d, h')" "len (buf r) + n + 1 < cap d"
    "moved h L (buf r) h' d" "own h' (insert (ptr d) (L - {ptr (buf r)})) d t" by blast
  with True r len_eq[OF o] len_eq[OF d(4)] show ?thesis
    by (auto simp: reader_get_buffer_def dynstr_slack_def reader_in_def)
next
  case False
  have o: "own h L (buf r) t" using r by (simp add: reader_in_def)
  then have "insert (ptr (buf r)) (L - {ptr (buf r)}) = L" by (auto simp: str_in_def)
  with False r moved_refl[OF o refl] show ?thesis by (auto simp: reader_get_buffer_def)
qed

lemma get_next_line_None:
  assumes r: "reading h L r c t" and n: "next_line c t = None"
  shows "reader_get_next_line A h r = Some (None, r\<lparr>cur_idx := len (buf r)\<rparr>, h)"
  using reader_scan_text[OF reading_rep[OF r]] n
  by (simp add: reader_get_next_line_def next_line_def)

lemma get_next_line_Some:
  assumes r: "reading h L r c t" and n: "next_line c t = Some (l, u)"
  shows "\<exists>line r' h'. reader_get_next_line A h r = Some (Some line, r', h')
     \<and> ptr line \<notin> L \<and> own h' (insert (ptr line) L) line (nul_cut l)
     \<and> reading h' (insert (ptr line) L) r' 0 u \<and> ptr (buf r') = ptr (buf r) \<and> (\<forall>q \<in> L. blk h' q = blk h q)"
proof -
  have o: "own h L (buf r) t" using r by (simp add: reader_in_def)
  let ?s = "skip_nl c t"
  obtain k where k: "find_char NL (drop ?s t) = Some k" "l = take (Suc (?s + k)) t" "u = drop (Suc (?s + k)) t"
    using n by (auto simp: next_line_def)
  have scan: "reader_scan r = Some (r\<lparr>cur_idx := int ?s\<rparr>, Some (int (?s + k)))" and k0: "0 < k"
    using reader_scan_text[OF reading_rep[OF r]] k(1) by auto
  have lt: "?s + k < length t" using find_char_Some[OF k(1)] by auto
  have rep: "dyn_rep (buf r) t" using o by (simp add: str_in_def)
  then have get: "buf_get (str (buf r)) 0 (int (?s + k) + 1) = Some (map Some l)"
    using lt by (elim dyn_repE) (simp add: buf_get_def k(2) take_map nat_add_distrib)
  obtain line h' where line: "dynstr_cnew A h (map Some l) = Some (line, h')" "ptr line \<notin> L"
    "own h' (insert (ptr line) L) line (nul_cut l)" "\<forall>q \<in> L. blk h' q = blk h q"
    using cnew_any[OF own_inv[OF o], of l] by blast
  obtain b where b: "dynstr_remove_range (buf r) 0 (int (?s + k)) = Some b" "ptr b = ptr (buf r)"
    "cap b = cap (buf r)" "dyn_rep b u"
    using dynstr_remove_range_ok[OF rep, of 0 "int (?s + k)"] lt k0 k(3) by (auto simp: nat_add_distrib)
  have "own h' (insert (ptr line) L) b u"
    using own_update[OF own_frame[OF o own_inv[OF line(3)]] b(2-4)] o line(4) by (simp add: str_in_def)
  then show ?thesis
    using scan get line b by (auto simp: reader_get_next_line_def reader_in_def)
qed

end

section \<open>Cutting all the lines of a buffer\<close>

text \<open>\<open>cut_lines c t\<close>: the lines taken from a buffer with text \<open>t\<close> of which \<open>c\<close> characters were scanned, and
  the text that stays.\<close>

function cut_lines :: "nat \<Rightarrow> string \<Rightarrow> string list \<times> string" where
  "cut_lines c t =
     (case next_line c t of
        None \<Rightarrow> ([], t)
      | Some (l, u) \<Rightarrow> (let (ls, v) = cut_lines 0 u in (l # ls, v)))"
  by pat_completeness auto

termination cut_lines
  by (relation "measure (\<lambda>(c, t). length t)") (auto dest: next_line_Some)

declare cut_lines.simps [simp del]

text \<open>Reading chunk after chunk, cutting the lines after each: the whole buffer has been scanned in between.\<close>

fun cut_chunks :: "nat \<Rightarrow> string \<Rightarrow> string list \<Rightarrow> string list \<times> string" where
  "cut_chunks c t [] = ([], t)"
| "cut_chunks c t (x # xs) =
     (let (ls, u) = cut_lines c (t @ x); (ms, v) = cut_chunks (length u) u xs in (ls @ ms, v))"

lemma cut_lines_rule [consumes 1, case_names stop line]:
  assumes "cut_lines c t = (ls, u)"
    and stop: "\<And>c t. next_line c t = None \<Longrightarrow> P c t [] t"
    and line: "\<And>c t l v ls u. next_line c t = Some (l, v) \<Longrightarrow> cut_lines 0 v = (ls, u) \<Longrightarrow> P 0 v ls u
      \<Longrightarrow> P c t (l # ls) u"
  shows "P c t ls u"
  using assms(1)
proof (induction c t arbitrary: ls u rule: cut_lines.induct)
  case (1 c t)
  show ?case
  proof (cases "next_line c t")
    case None
    with 1(2) stop show ?thesis by (auto simp: cut_lines.simps[of c t])
  next
    case (Some p)
    obtain l v where p: "p = (l, v)" by fastforce
    obtain ms w where m: "cut_lines 0 v = (ms, w)" by fastforce
    with 1(2) Some p have "ls = l # ms" "u = w" by (auto simp: cut_lines.simps[of c t])
    with line[OF Some[unfolded p] m] 1(1)[OF Some p[symmetric] m] show ?thesis by simp
  qed
qed

lemma cut_lines_conserve: "cut_lines c t = (ls, u) \<Longrightarrow> concat ls @ u = t"
  by (induction rule: cut_lines_rule) (auto dest: next_line_Some)

lemma cut_lines_ended: "cut_lines c t = (ls, u) \<Longrightarrow> \<forall>l \<in> set ls. l \<noteq> [] \<and> last l = NL"
  by (induction rule: cut_lines_rule) (auto dest: next_line_Some)

lemma cut_lines_rest: "cut_lines c t = (ls, u) \<Longrightarrow> next_line (if ls = [] then c else 0) u = None"
  by (induction rule: cut_lines_rule) (auto split: if_splits)

lemma cut_chunks_conserve: "cut_chunks c t xs = (ls, u) \<Longrightarrow> concat ls @ u = t @ concat xs"
proof (induction xs arbitrary: c t ls u)
  case (Cons x xs)
  obtain ms v where m: "cut_lines c (t @ x) = (ms, v)" by fastforce
  obtain ns w where n: "cut_chunks (length v) v xs = (ns, w)" by fastforce
  from Cons.prems m n have "ls = ms @ ns" "u = w" by auto
  with Cons.IH[OF n] cut_lines_conserve[OF m] show ?case
    by simp
qed auto

text \<open>A line with some text and no other newline is cut as such from the front of a fresh buffer.\<close>

lemma next_line_simple:
  assumes "w \<noteq> []" and "NL \<notin> set w" and "c \<le> length w"
  shows "next_line c (w @ NL # u) = (if c = length w then
           (case next_line (Suc c) (w @ NL # u) of None \<Rightarrow> None | Some r \<Rightarrow> Some r)
         else Some (w @ [NL], u))"
proof (cases "c = length w")
  case True
  have "skip_nl (length w) (w @ NL # u) = skip_nl (Suc (length w)) (w @ NL # u)"
    by (simp add: skip_nl_def)
  with True show ?thesis by (simp add: next_line_def split: option.splits)
next
  case False
  with assms(3) have c: "c < length w" by simp
  obtain x xs where x: "drop c w = x # xs" using c by (cases "drop c w") auto
  have nl: "NL \<notin> set (drop c w)" using assms(2) by (auto dest: in_set_dropD)
  then have "x \<noteq> NL" using x by auto
  then have sk: "skip_nl c (w @ NL # u) = c" using x c by (simp add: skip_nl_def)
  have "find_char NL (drop c (w @ NL # u)) = Some (length (drop c w))"
    using find_char_append[OF nl, of u] c by simp
  with sk c show ?thesis by (simp add: next_line_def)
qed

lemma cut_lines_roundtrip:
  assumes "\<forall>w \<in> set ws. w \<noteq> [] \<and> NL \<notin> set w" and "NL \<notin> set v"
  shows "cut_lines 0 (concat (map (\<lambda>w. w @ [NL]) ws) @ v) = (map (\<lambda>w. w @ [NL]) ws, v)"
  using assms(1)
proof (induction ws)
  case Nil
  have "NL \<notin> set (drop k v)" for k using assms(2) by (auto dest: in_set_dropD)
  then have "next_line 0 v = None" by (simp add: next_line_def find_char_None)
  then show ?case by (simp add: cut_lines.simps[of 0])
next
  case (Cons w ws)
  from Cons.prems next_line_simple[of w 0 "concat (map (\<lambda>w. w @ [NL]) ws) @ v"] Cons.IH
  show ?case by (simp add: cut_lines.simps[of 0 "w @ NL # _"])
qed

section \<open>Lines as documented\<close>

text \<open>A text split at its newlines: the complete lines without their newlines, and what follows the last one.\<close>

fun text_lines :: "string \<Rightarrow> string list \<times> string" where
  "text_lines [] = ([], [])"
| "text_lines (x # t) =
     (case text_lines t of (ls, r) \<Rightarrow>
        if x = NL then ([] # ls, r)
        else (case ls of [] \<Rightarrow> ([], x # r) | l # ls \<Rightarrow> ((x # l) # ls, r)))"

text \<open>The lines a user expects to be processed: the complete ones that are not empty.\<close>

definition documented_lines :: "string \<Rightarrow> string list" where
  "documented_lines t = map (\<lambda>l. l @ [NL]) (filter (\<lambda>l. l \<noteq> []) (fst (text_lines t)))"

definition no_empty_lines :: "string \<Rightarrow> bool" where
  "no_empty_lines t \<longleftrightarrow> [] \<notin> set (fst (text_lines t))"

text \<open>Nothing that was scanned is a newline, and neither is the next character.\<close>

definition scanned_ok :: "nat \<Rightarrow> string \<Rightarrow> bool" where
  "scanned_ok c t \<longleftrightarrow> NL \<notin> set (take c t) \<and> (drop c t = [] \<or> hd (drop c t) \<noteq> NL)"

lemma text_lines_none: "NL \<notin> set v \<Longrightarrow> text_lines v = ([], v)"
  by (induction v) auto

lemma text_lines_line: "NL \<notin> set w \<Longrightarrow> text_lines (w @ NL # u) = (w # fst (text_lines u), snd (text_lines u))"
  by (induction w) (auto split: prod.splits)

lemma text_lines_concat:
  "\<forall>w \<in> set ws. NL \<notin> set w \<Longrightarrow> text_lines (concat (map (\<lambda>w. w @ [NL]) ws) @ t) = (ws @ fst (text_lines t), snd (text_lines t))"
  by (induction ws) (auto simp: text_lines_line)

lemma text_lines_parts:
  "t = concat (map (\<lambda>l. l @ [NL]) (fst (text_lines t))) @ snd (text_lines t)
   \<and> (\<forall>l \<in> set (fst (text_lines t)). NL \<notin> set l) \<and> NL \<notin> set (snd (text_lines t))"
  by (induction t) (auto split: prod.splits list.splits)

lemma documented_lines_concat:
  assumes "\<forall>w \<in> set ws. w \<noteq> [] \<and> NL \<notin> set w" and "NL \<notin> set v"
  shows "documented_lines (concat (map (\<lambda>w. w @ [NL]) ws) @ v) = map (\<lambda>w. w @ [NL]) ws"
    and "no_empty_lines (concat (map (\<lambda>w. w @ [NL]) ws) @ v)"
    and "snd (text_lines (concat (map (\<lambda>w. w @ [NL]) ws) @ v)) = v"
proof -
  have t: "text_lines (concat (map (\<lambda>w. w @ [NL]) ws) @ v) = (ws, v)" using text_lines_concat[of ws v] text_lines_none[OF assms(2)] assms(1) by simp
  have f: "filter (\<lambda>l. l \<noteq> []) ws = ws" using assms(1) by (simp add: filter_id_conv)
  show "documented_lines (concat (map (\<lambda>w. w @ [NL]) ws) @ v) = map (\<lambda>w. w @ [NL]) ws" unfolding documented_lines_def t fst_conv f ..
  show "no_empty_lines (concat (map (\<lambda>w. w @ [NL]) ws) @ v)" unfolding no_empty_lines_def t using assms(1) by auto
  show "snd (text_lines (concat (map (\<lambda>w. w @ [NL]) ws) @ v)) = v" unfolding t by simp
qed

text \<open>On texts without empty lines the reader cuts the documented lines.\<close>

lemma next_line_scanned:
  assumes "scanned_ok c t" and "c \<le> length t"
  shows "next_line c t = next_line 0 t"
proof (cases "c = 0")
  case False
  have k: "skip_nl c t = c" using assms(1) by (cases "drop c t") (auto simp: scanned_ok_def skip_nl_def)
  have "take c t \<noteq> []" "hd t = hd (take c t)" using False assms(2) by (cases t; cases c; simp)+
  then have "t = [] \<or> hd t \<noteq> NL" using assms(1) hd_in_set[of "take c t"] by (auto simp: scanned_ok_def)
  then have k0: "skip_nl 0 t = 0" by (cases t) (auto simp: skip_nl_def)
  have "find_char NL (take c t @ drop c t) = map_option (\<lambda>k. c + k) (find_char NL (drop c t))"
    using find_char_skip[of NL "take c t" "drop c t"] assms by (simp add: scanned_ok_def)
  then show ?thesis by (cases "find_char NL (drop c t)") (simp_all add: next_line_def k k0)
qed simp

lemma cut_lines_documented:
  assumes "no_empty_lines t" and "scanned_ok c t" and "c \<le> length t"
  shows "cut_lines c t = (documented_lines t, snd (text_lines t))"
proof -
  let ?ls = "fst (text_lines t)" and ?v = "snd (text_lines t)"
  have p: "t = concat (map (\<lambda>l. l @ [NL]) ?ls) @ ?v" "\<forall>l \<in> set ?ls. l \<noteq> [] \<and> NL \<notin> set l" "NL \<notin> set ?v"
    using text_lines_parts[of t] assms(1) by (auto simp: no_empty_lines_def)
  have "cut_lines c t = cut_lines 0 t" using next_line_scanned[OF assms(2,3)] by (simp add: cut_lines.simps[of c t] cut_lines.simps[of 0 t])
  also have "\<dots> = (map (\<lambda>l. l @ [NL]) ?ls, ?v)" using cut_lines_roundtrip[OF p(2,3)] p(1) by metis
  also have "map (\<lambda>l. l @ [NL]) ?ls = documented_lines t" using p(2) by (simp add: documented_lines_def filter_id_conv)
  finally show ?thesis .
qed

lemma next_line_documented:
  assumes "no_empty_lines t" and "scanned_ok c t" and "c \<le> length t"
  shows "case fst (text_lines t) of
      [] \<Rightarrow> next_line c t = None
    | l # ls \<Rightarrow> \<exists>u. next_line c t = Some (l @ [NL], u) \<and> t = l @ [NL] @ u \<and> text_lines u = (ls, snd (text_lines t))"
proof (cases "fst (text_lines t)")
  case Nil
  then have "NL \<notin> set t" using text_lines_parts[of t] by (metis append_Nil concat.simps(1) list.simps(8))
  then have "next_line c t = None" by (auto simp: next_line_def find_char_None dest: in_set_dropD)
  with Nil show ?thesis by simp
next
  case (Cons l ls)
  let ?u = "concat (map (\<lambda>l. l @ [NL]) ls) @ snd (text_lines t)"
  have l: "l \<noteq> []" "NL \<notin> set l" "\<forall>w \<in> set ls. NL \<notin> set w" "NL \<notin> set (snd (text_lines t))" "t = l @ NL # ?u"
    using text_lines_parts[of t] assms(1) Cons by (auto simp: no_empty_lines_def)
  have "next_line c t = Some (l @ [NL], ?u)" using next_line_scanned[OF assms(2,3)] next_line_simple[OF l(1,2), of 0 ?u] l(1,5) by simp
  moreover have "text_lines ?u = (ls, snd (text_lines t))" using text_lines_concat[OF l(3)] text_lines_none[OF l(4)] by simp
  ultimately show ?thesis using Cons l(5) by auto
qed

text \<open>The scan leaves the buffer alone, and a newline it reports is past the start of the buffer.\<close>

lemma reader_scan_buf:
  "reader_scan r = Some (r', nl) \<Longrightarrow> buf r' = buf r \<and> (\<forall>i. nl = Some i \<longrightarrow> 0 < i \<and> i < len (buf r))"
proof (induction r rule: reader_scan.induct)
  case (1 r)
  let ?m = "memchr_at (str (buf r)) NL (cur_idx r) (len (buf r) - cur_idx r)"
  show ?case
  proof (cases "?m = Some (Some 0)")
    case True
    with 1(2) have "reader_scan (r\<lparr>cur_idx := cur_idx r + 1\<rparr>) = Some (r', nl)" by (subst (asm) reader_scan.simps) simp
    with 1(1)[OF True] show ?thesis by auto
  next
    case False
    with 1(2) show ?thesis
      by (subst (asm) reader_scan.simps) (auto split: option.splits if_splits dest!: memchr_at_bounds)
  qed
qed

text \<open>Every line taken makes the buffer shorter, whatever its content.\<close>

lemma get_next_line_shrinks:
  "reader_get_next_line A h r = Some (Some ln, r', h') \<Longrightarrow> nat (len (buf r')) < nat (len (buf r))"
  by (auto simp: reader_get_next_line_def dynstr_remove_range_def bind_Some_iff Let_def
      split: option.splits if_splits dest!: reader_scan_buf)

section \<open>Properties\<close>

lemma reader_exists:
  assumes "NUL \<notin> set t" and "c \<le> length t"
  shows "\<exists>ar L r. reader_at ar L r c t"
proof -
  obtain ar L x y where "dyn_at ar L x t" using two_strings_exist[OF assms(1), of "[]"] by auto
  then have "reader_at ar L \<lparr>cur_idx = int c, buf = x\<rparr> c t" using assms(2) by (simp add: reader_in_def)
  then show ?thesis by blast
qed

text \<open>Over the arena, \<^verbatim>\<open>reader_get_next_line\<close> cuts the line that \<open>next_line\<close> names, whatever the text: it returns it as
  a fresh string (the bytes after a NUL are blanked by NULs, if the line has one), keeps the rest in the same block and starts over at its beginning;
  without a line it only remembers that everything was scanned.\<close>

lemma reader_next_line_cut:
  assumes "reader_at ar L r c t"
  shows "case next_line c t of
      None \<Rightarrow> reader_get_next_line dynstr_arena ar r = Some (None, r\<lparr>cur_idx := int (length t)\<rparr>, ar)
    | Some (l, u) \<Rightarrow> \<exists>ln r' ar'. reader_get_next_line dynstr_arena ar r = Some (Some ln, r', ar') \<and> ptr ln \<notin> L
        \<and> dyn_at ar' (insert (ptr ln) L) ln (nul_cut l) \<and> reader_at ar' (insert (ptr ln) L) r' 0 u \<and> ptr (buf r') = ptr (buf r)"
proof (cases "next_line c t")
  case None
  have "len (buf r) = int (length t)" using assms by (simp add: reader_in_def str_in_def dyn_rep_def)
  with da.get_next_line_None[OF assms None] None show ?thesis by simp
next
  case (Some p)
  obtain l u where p: "p = (l, u)" by fastforce
  from da.get_next_line_Some[OF assms Some[unfolded p]] Some p show ?thesis by auto
qed

text \<open>C30: for a text without empty lines, of which nothing scanned is a newline and the next character is not one either,
  \<^verbatim>\<open>reader_get_next_line\<close> takes the first line of the text out of the buffer as a fresh string over the arena (with the bytes after a NUL
  blanked), and the rest of the text stays, to be scanned from its beginning; without a complete line it remembers that everything was scanned.\<close>

theorem reader_next_line_sound:
  assumes "reader_at ar L r c t" and "no_empty_lines t" and "scanned_ok c t"
  shows "case fst (text_lines t) of
      [] \<Rightarrow> reader_get_next_line dynstr_arena ar r = Some (None, r\<lparr>cur_idx := int (length t)\<rparr>, ar)
    | l # ls \<Rightarrow> \<exists>ln r' ar' u. reader_get_next_line dynstr_arena ar r = Some (Some ln, r', ar') \<and> ptr ln \<notin> L
        \<and> dyn_at ar' (insert (ptr ln) L) ln (nul_cut (l @ [NL])) \<and> reader_at ar' (insert (ptr ln) L) r' 0 u \<and> ptr (buf r') = ptr (buf r)
        \<and> t = l @ [NL] @ u \<and> text_lines u = (ls, snd (text_lines t))"
proof -
  have "c \<le> length t" using assms(1) by (simp add: reader_in_def)
  note n = next_line_documented[OF assms(2,3) this]
  show ?thesis
  proof (cases "fst (text_lines t)")
    case Nil
    with reader_next_line_cut[OF assms(1)] n show ?thesis by simp
  next
    case (Cons l ls)
    with n obtain u where u: "next_line c t = Some (l @ [NL], u)" "t = l @ [NL] @ u" "text_lines u = (ls, snd (text_lines t))" by auto
    with reader_next_line_cut[OF assms(1)] Cons show ?thesis by fastforce
  qed
qed

theorem reader_next_line_sound_witness:
  "\<exists>ar L r ln r' ar'. reader_at ar L r 0 (''ab'' @ [NL] @ ''c'')
     \<and> reader_get_next_line dynstr_arena ar r = Some (Some ln, r', ar') \<and> dyn_rep ln (''ab'' @ [NL]) \<and> dyn_rep (buf r') ''c''"
proof -
  obtain ar L r where r: "reader_at ar L r 0 (''ab'' @ [NL] @ ''c'')" using reader_exists[of "''ab'' @ [NL] @ ''c''" 0] by auto
  have t: "text_lines (''ab'' @ [NL] @ ''c'') = ([''ab''], ''c'')" by code_simp
  then have "no_empty_lines (''ab'' @ [NL] @ ''c'')" "scanned_ok 0 (''ab'' @ [NL] @ ''c'')" by (simp_all add: no_empty_lines_def scanned_ok_def)
  from reader_next_line_sound[OF r this] obtain ln r' ar' u where
    "reader_get_next_line dynstr_arena ar r = Some (Some ln, r', ar')" "dyn_at ar' (insert (ptr ln) L) ln (nul_cut (''ab'' @ [NL]))"
    "reader_at ar' (insert (ptr ln) L) r' 0 u" "''ab'' @ [NL] @ ''c'' = ''ab'' @ [NL] @ u" unfolding t by auto
  moreover have "nul_cut (''ab'' @ [NL]) = ''ab'' @ [NL]" by code_simp
  ultimately show ?thesis using r by (fastforce simp: reader_in_def str_in_def)
qed

text \<open>An empty line is not ignored: its newline stays in front of the next line, which is cut with it.\<close>

theorem empty_line_glued:
  assumes "reader_at ar L r 0 (NL # w @ NL # u)" and "w \<noteq> []" and "NL \<notin> set w"
  shows "\<exists>ln r' ar'. reader_get_next_line dynstr_arena ar r = Some (Some ln, r', ar')
     \<and> dyn_at ar' (insert (ptr ln) L) ln (nul_cut (NL # w @ [NL])) \<and> reader_at ar' (insert (ptr ln) L) r' 0 u"
proof -
  have "skip_nl 0 (NL # w @ NL # u) = 1" using assms(2,3) by (cases w) (auto simp: skip_nl_def)
  moreover have "find_char NL (w @ NL # u) = Some (length w)" using find_char_append[OF assms(3)] .
  ultimately have "next_line 0 (NL # w @ NL # u) = Some (NL # w @ [NL], u)" by (simp add: next_line_def)
  with reader_next_line_cut[OF assms(1)] show ?thesis by auto
qed

theorem empty_line_glued_witness:
  "\<exists>ar L r ln r' ar'. reader_at ar L r 0 ([NL] @ ''b'' @ [NL]) \<and> reader_get_next_line dynstr_arena ar r = Some (Some ln, r', ar')
     \<and> dyn_rep ln ([NL] @ ''b'' @ [NL])"
proof -
  obtain ar L r where r: "reader_at ar L r 0 ([NL] @ ''b'' @ [NL])" using reader_exists[of "[NL] @ ''b'' @ [NL]" 0] by auto
  have "nul_cut (NL # ''b'' @ [NL]) = [NL] @ ''b'' @ [NL]" by code_simp
  with empty_line_glued[of ar L r "''b''" "[]"] r show ?thesis by (fastforce simp: str_in_def)
qed

text \<open>The buffer \<^verbatim>\<open>reader_get_buffer\<close> hands out has room for the bytes asked for and the final NUL, keeps the text
  and the scan position, and moving it touches no other block.\<close>

theorem reader_get_buffer_room:
  assumes "reader_at ar L r c t"
  shows "\<exists>r' ar'. reader_get_buffer dynstr_arena ar r n = Some (dynstr_endptr (buf r'), r', ar')
     \<and> n \<le> dynstr_slack (buf r') \<and> reader_at ar' (insert (ptr (buf r')) (L - {ptr (buf r)})) r' c t
     \<and> arena_moves ar L (buf r) ar' (buf r')"
  using assms by (rule da.reader_get_buffer_ok)

theorem reader_get_buffer_room_witness:
  "\<exists>ar L r r' ar'. reader_at ar L r 0 ''ab'' \<and> reader_get_buffer dynstr_arena ar r 4096 = Some (dynstr_endptr (buf r'), r', ar')
     \<and> 4096 \<le> dynstr_slack (buf r')"
proof -
  obtain ar L r where r: "reader_at ar L r 0 ''ab''" using reader_exists[of "''ab''" 0] by auto
  with reader_get_buffer_room[OF r, of 4096] show ?thesis by blast
qed

end
