(* ===== verification/Write_Queue.thy ===== *)
theory Write_Queue
  imports Dynstr
begin

text \<open>
  The write queue of \<^verbatim>\<open>lw.c\<close>: up to 32 lines waiting for a descriptor, written with one \<^verbatim>\<open>writev\<close>. The queue
  holds pointers; the strings they point to are in a store of live strings, so that using a released
  line is a fault. The kernel's answer to \<^verbatim>\<open>writev\<close> is a parameter, a function of the gathered bytes.
\<close>

section \<open>Data\<close>

definition DLOG_WRITE_HIGH_WM :: nat where "DLOG_WRITE_HIGH_WM = 32"

record writequeue =
  line :: "addr list"
  iov :: "(addr \<times> int) list"
  num_entries :: int
  write_off :: int

type_synonym strings = "addr \<rightharpoonup> dynstr"

datatype write_result = Written int | WouldBlock | Write_Error int

text \<open>\<^verbatim>\<open>dynstr_free\<close> on a pointer into the store.\<close>

definition store_free :: "'h allocator \<Rightarrow> 'h \<Rightarrow> strings \<Rightarrow> addr \<Rightarrow> ('h \<times> strings) option" where
  "store_free A h \<sigma> p =
     (if p = NULL then Some (h, \<sigma>)
      else do { d \<leftarrow> \<sigma> p; h' \<leftarrow> dynstr_free A h d; Some (h', \<sigma>(p := None)) })"

text \<open>An element of an array; outside it is a fault.\<close>

definition at_index :: "'a list \<Rightarrow> int \<Rightarrow> 'a option" where
  "at_index xs i = (if 0 \<le> i \<and> i < int (length xs) then Some (xs ! nat i) else None)"

section \<open>Operations\<close>

definition wq_new :: writequeue where
  "wq_new = \<lparr>line = replicate DLOG_WRITE_HIGH_WM NULL, iov = replicate DLOG_WRITE_HIGH_WM (NULL, 0),
     num_entries = 0, write_off = 0\<rparr>"

fun free_lines :: "'h allocator \<Rightarrow> 'h \<Rightarrow> strings \<Rightarrow> addr list \<Rightarrow> ('h \<times> strings) option" where
  "free_lines A h \<sigma> [] = Some (h, \<sigma>)"
| "free_lines A h \<sigma> (p # ps) = do { (h', \<sigma>') \<leftarrow> store_free A h \<sigma> p; free_lines A h' \<sigma>' ps }"

text \<open>The first \<open>n\<close> elements of an array.\<close>

definition first_entries :: "'a list \<Rightarrow> int \<Rightarrow> 'a list option" where
  "first_entries xs n = (if n \<le> int (length xs) then Some (take (nat n) xs) else None)"

definition wq_destroy ::
  "'h allocator \<Rightarrow> 'h \<Rightarrow> strings \<Rightarrow> writequeue option \<Rightarrow> (writequeue option \<times> 'h \<times> strings) option" where
  "wq_destroy A h \<sigma> wq =
     (case wq of
        None \<Rightarrow> Some (None, h, \<sigma>)
      | Some wq \<Rightarrow> do {
          ps \<leftarrow> first_entries (line wq) (num_entries wq);
          (h', \<sigma>') \<leftarrow> free_lines A h \<sigma> ps;
          Some (Some (wq\<lparr>num_entries := 0, write_off := 0\<rparr>), h', \<sigma>')
        })"

definition wq_add_line :: "writequeue \<Rightarrow> addr \<Rightarrow> (int \<times> writequeue) option" where
  "wq_add_line wq ln =
     (if num_entries wq = int DLOG_WRITE_HIGH_WM then Some (- 1, wq)
      else do {
        _ \<leftarrow> at_index (line wq) (num_entries wq);
        Some (0, wq\<lparr>line := (line wq)[nat (num_entries wq) := ln], num_entries := num_entries wq + 1\<rparr>)
      })"

text \<open>Filling the vector of \<^verbatim>\<open>writev\<close>: the entries and the bytes they name.\<close>

fun gather :: "strings \<Rightarrow> addr list \<Rightarrow> ((addr \<times> int) list \<times> string) option" where
  "gather \<sigma> [] = Some ([], [])"
| "gather \<sigma> (p # ps) = do {
     d \<leftarrow> \<sigma> p;
     t \<leftarrow> buf_get (str d) 0 (dynstr_len d) \<bind> those;
     (vs, u) \<leftarrow> gather \<sigma> ps;
     Some ((dynstr_ptr d, dynstr_len d) # vs, t @ u)
   }"

text \<open>The loop that releases what was written, from entry \<open>i\<close> with \<open>r\<close> bytes still to account for; it
  returns the value of \<open>i\<close> it stops at. It does not look at the number of entries.\<close>

function release_written ::
  "'h allocator \<Rightarrow> addr list \<Rightarrow> 'h \<Rightarrow> strings \<Rightarrow> int \<Rightarrow> int \<Rightarrow> (int \<times> 'h \<times> strings) option" where
  "release_written A ls h \<sigma> i r =
     (case at_index ls i of
        None \<Rightarrow> None
      | Some p \<Rightarrow>
          (case \<sigma> p of
             None \<Rightarrow> None
           | Some d \<Rightarrow>
               if r < dynstr_len d then Some (i, h, \<sigma>)
               else (case store_free A h \<sigma> p of
                       None \<Rightarrow> None
                     | Some (h', \<sigma>') \<Rightarrow>
                         if r - dynstr_len d = 0 then Some (i, h', \<sigma>')
                         else release_written A ls h' \<sigma>' (i + 1) (r - dynstr_len d))))"
  by pat_completeness auto

termination release_written
  by (relation "measure (\<lambda>(A, ls, h, \<sigma>, i, r). nat (int (length ls) - i))")
    (auto simp: at_index_def split: if_splits)

declare release_written.simps [simp del]

text \<open>\<^verbatim>\<open>memmove(&wq->line[0], &wq->line[i], n * sizeof(dynstr *))\<close>: the source range may run from the line array
  into the vector that follows it in the structure.\<close>

definition move_lines :: "writequeue \<Rightarrow> int \<Rightarrow> int \<Rightarrow> addr list option" where
  "move_lines wq i n =
     (let mem = line wq @ concat (map (\<lambda>(b, l). [b, l]) (iov wq))
      in if 0 \<le> i \<and> 0 \<le> n \<and> i + n \<le> int (length mem) \<and> n \<le> int (length (line wq))
         then Some (take (nat n) (drop (nat i) mem) @ drop (nat n) (line wq)) else None)"

text \<open>The result: the returned value, the error code, and the new state.\<close>

definition wq_write ::
  "'h allocator \<Rightarrow> (string \<Rightarrow> write_result) \<Rightarrow> 'h \<Rightarrow> strings \<Rightarrow> writequeue
   \<Rightarrow> (int \<times> int \<times> writequeue \<times> 'h \<times> strings) option" where
  "wq_write A writev h \<sigma> wq =
     (if num_entries wq = 0 then Some (0, 0, wq, h, \<sigma>)
      else do {
        ps \<leftarrow> first_entries (line wq) (num_entries wq);
        (vs, data) \<leftarrow> gather \<sigma> ps;
        let wq = wq\<lparr>iov := vs @ drop (length vs) (iov wq)\<rparr>;
        case writev data of
          Write_Error e \<Rightarrow> Some (- 1, e, wq, h, \<sigma>)
        | WouldBlock \<Rightarrow> Some (- 1, 0, wq, h, \<sigma>)
        | Written r \<Rightarrow>
            if 0 < r then do {
              (i, h', \<sigma>') \<leftarrow> release_written A (line wq) h \<sigma> 0 r;
              ls \<leftarrow> (if 0 < i then move_lines wq i (num_entries wq) else Some (line wq));
              Some (r, 0, wq\<lparr>line := ls, num_entries := num_entries wq - (i + 1)\<rparr>, h', \<sigma>')
            } else Some (r, 0, wq, h, \<sigma>)
      })"

section \<open>Queue contents\<close>

text \<open>\<open>queue_in ok blk h L \<sigma> wq ps ts\<close>: the queue holds the pointers \<open>ps\<close> of live strings with texts \<open>ts\<close>.\<close>

definition lines_in ::
  "('h \<Rightarrow> addr set \<Rightarrow> bool) \<Rightarrow> ('h \<Rightarrow> addr \<Rightarrow> int) \<Rightarrow> 'h \<Rightarrow> addr set \<Rightarrow> strings \<Rightarrow> addr list \<Rightarrow> string list \<Rightarrow> bool" where
  "lines_in ok blk h L \<sigma> ps ts \<longleftrightarrow>
     distinct ps \<and> list_all2 (\<lambda>p t. \<exists>d. \<sigma> p = Some d \<and> ptr d = p \<and> str_in ok blk h L d t) ps ts"

definition wq_holds :: "writequeue \<Rightarrow> addr list \<Rightarrow> bool" where
  "wq_holds wq ps \<longleftrightarrow> length (line wq) = DLOG_WRITE_HIGH_WM \<and> length (iov wq) = DLOG_WRITE_HIGH_WM
     \<and> length ps \<le> DLOG_WRITE_HIGH_WM \<and> num_entries wq = int (length ps) \<and> take (length ps) (line wq) = ps"

definition queue_in ::
  "('h \<Rightarrow> addr set \<Rightarrow> bool) \<Rightarrow> ('h \<Rightarrow> addr \<Rightarrow> int) \<Rightarrow> 'h \<Rightarrow> addr set \<Rightarrow> strings \<Rightarrow> writequeue
   \<Rightarrow> addr list \<Rightarrow> string list \<Rightarrow> bool" where
  "queue_in ok blk h L \<sigma> wq ps ts \<longleftrightarrow> ok h L \<and> wq_holds wq ps \<and> lines_in ok blk h L \<sigma> ps ts"

lemma wq_holds_entries: "wq_holds wq ps \<Longrightarrow> first_entries (line wq) (num_entries wq) = Some ps"
  by (auto simp: wq_holds_def first_entries_def)

lemma wq_holds_split:
  "wq_holds wq ps \<Longrightarrow> line wq = ps @ drop (length ps) (line wq)"
  by (metis append_take_drop_id wq_holds_def)

lemma wq_new_holds: "wq_holds wq_new []"
  by (simp add: wq_holds_def wq_new_def)

lemma wq_add_line_holds:
  assumes "wq_holds wq ps"
  shows "wq_add_line wq p = Some (if length ps = DLOG_WRITE_HIGH_WM then (- 1, wq)
     else (0, wq\<lparr>line := (line wq)[length ps := p], num_entries := int (length ps) + 1\<rparr>))"
    and "length ps < DLOG_WRITE_HIGH_WM \<Longrightarrow>
     wq_holds (wq\<lparr>line := (line wq)[length ps := p], num_entries := int (length ps) + 1\<rparr>) (ps @ [p])"
proof -
  show "wq_add_line wq p = Some (if length ps = DLOG_WRITE_HIGH_WM then (- 1, wq)
     else (0, wq\<lparr>line := (line wq)[length ps := p], num_entries := int (length ps) + 1\<rparr>))"
    using assms by (auto simp: wq_add_line_def wq_holds_def at_index_def)
  assume "length ps < DLOG_WRITE_HIGH_WM"
  then have "take (Suc (length ps)) ((line wq)[length ps := p]) = ps @ [p]"
    using assms by (simp add: wq_holds_def take_Suc_conv_app_nth)
  then show "wq_holds (wq\<lparr>line := (line wq)[length ps := p], num_entries := int (length ps) + 1\<rparr>) (ps @ [p])"
    using assms \<open>length ps < _\<close> by (simp add: wq_holds_def)
qed

lemma move_lines_holds:
  assumes "wq_holds wq (xs @ ys)" and "i = int (length xs)"
  shows "\<exists>ls. move_lines wq i (int (length (xs @ ys))) = Some ls \<and> length ls = DLOG_WRITE_HIGH_WM
     \<and> take (length ys) ls = ys"
proof -
  let ?mem = "line wq @ concat (map (\<lambda>(b, l). [b, l]) (iov wq))" and ?n = "length (xs @ ys)"
  have c: "length (concat (map (\<lambda>(b, l). [b, l]) v)) = 2 * length v" for v :: "(addr \<times> int) list"
    by (induction v) auto
  have mem: "length ?mem = 3 * DLOG_WRITE_HIGH_WM" using assms(1) c by (simp add: wq_holds_def)
  obtain zs where zs: "?mem = xs @ ys @ zs"
    using wq_holds_split[OF assms(1)] by (metis append.assoc)
  have n: "?n \<le> DLOG_WRITE_HIGH_WM" using assms(1) by (simp add: wq_holds_def)
  define ls where "ls = take ?n (drop (length xs) ?mem) @ drop ?n (line wq)"
  have "move_lines wq i (int ?n) = Some ls"
    using assms mem n unfolding move_lines_def Let_def ls_def wq_holds_def by (auto simp: nat_int_add)
  moreover have "length ls = DLOG_WRITE_HIGH_WM"
    using assms(1) mem n unfolding ls_def wq_holds_def by auto
  moreover have "take (length ys) ls = ys" unfolding ls_def zs by simp
  ultimately show ?thesis by blast
qed

context block_heap
begin

abbreviation lined :: "'h \<Rightarrow> addr set \<Rightarrow> strings \<Rightarrow> addr list \<Rightarrow> string list \<Rightarrow> bool" where
  "lined \<equiv> lines_in inv blk"

abbreviation queued :: "'h \<Rightarrow> addr set \<Rightarrow> strings \<Rightarrow> writequeue \<Rightarrow> addr list \<Rightarrow> string list \<Rightarrow> bool" where
  "queued \<equiv> queue_in inv blk"

lemma lined_Cons:
  "lined h L \<sigma> (p # ps) (t # ts) \<longleftrightarrow>
     p \<notin> set ps \<and> (\<exists>d. \<sigma> p = Some d \<and> ptr d = p \<and> own h L d t) \<and> lined h L \<sigma> ps ts"
  by (auto simp: lines_in_def)

lemma lined_Nil [simp]: "lined h L \<sigma> [] ts \<longleftrightarrow> ts = []" "lined h L \<sigma> ps [] \<longleftrightarrow> ps = []"
  by (auto simp: lines_in_def)

lemma lined_set: "lined h L \<sigma> ps ts \<Longrightarrow> set ps \<subseteq> L \<and> NULL \<notin> set ps \<and> set ps \<subseteq> dom \<sigma>"
  by (induction ps arbitrary: ts) (auto simp: lines_in_def list_all2_Cons1 str_in_def)

lemma lined_frame:
  assumes "lined h L \<sigma> ps ts" and "inv h' L'" and "\<forall>p \<in> set ps. p \<in> L' \<and> blk h' p = blk h p \<and> \<sigma>' p = \<sigma> p"
  shows "lined h' L' \<sigma>' ps ts"
  using assms unfolding lines_in_def
  by (auto elim!: list_all2_mono[rotated] simp: list_all2_conv_all_nth)
    (metis nth_mem own_frame)+

lemma lined_freed:
  assumes "lined h L \<sigma> ps ts" and "inv h' (L - {p})" and "\<forall>q \<in> L - {p}. blk h' q = blk h q" and "p \<notin> set ps"
  shows "lined h' (L - {p}) (\<sigma>(p := None)) ps ts"
  by (rule lined_frame[OF assms(1,2)]) (use lined_set[OF assms(1)] assms(3,4) in auto)

lemma gather_ok:
  assumes "lined h L \<sigma> ps ts"
  shows "\<exists>vs. gather \<sigma> ps = Some (vs, concat ts) \<and> length vs = length ps"
  using assms
proof (induction ps arbitrary: ts)
  case (Cons p ps)
  then obtain t ts' d where ts: "ts = t # ts'" "\<sigma> p = Some d" "own h L d t" "lined h L \<sigma> ps ts'"
    by (cases ts) (auto simp: lined_Cons)
  have "buf_get (str d) 0 (len d) = Some (map Some t)"
    using ts(3) by (auto simp: str_in_def buf_get_start elim!: dyn_repE)
  with Cons.IH[OF ts(4)] ts(1,2) show ?case by (auto simp: dynstr_len_def)
qed auto

lemma store_free_ok:
  assumes "\<sigma> p = Some d" and "ptr d = p" and "own h L d t"
  shows "\<exists>h'. store_free A h \<sigma> p = Some (h', \<sigma>(p := None)) \<and> inv h' (L - {p}) \<and> (\<forall>q \<in> L - {p}. blk h' q = blk h q)"
  using free_str_ok[OF assms(3)] assms by (auto simp: store_free_def str_in_def)

lemma free_lines_ok:
  assumes "inv h L" and "lined h L \<sigma> ps ts"
  shows "\<exists>h'. free_lines A h \<sigma> ps = Some (h', \<sigma> |` (- set ps)) \<and> inv h' (L - set ps)
     \<and> (\<forall>q \<in> L - set ps. blk h' q = blk h q)"
  using assms
proof (induction ps arbitrary: h L \<sigma> ts)
  case (Cons p ps)
  then obtain t ts' d where ts: "ts = t # ts'" "\<sigma> p = Some d" "ptr d = p" "own h L d t" "lined h L \<sigma> ps ts'"
    "p \<notin> set ps" by (cases ts) (auto simp: lined_Cons)
  obtain h1 where h1: "store_free A h \<sigma> p = Some (h1, \<sigma>(p := None))" "inv h1 (L - {p})"
    "\<forall>q \<in> L - {p}. blk h1 q = blk h q" using store_free_ok[of \<sigma> p d h L t] ts(2-4) by blast
  have "lined h1 (L - {p}) (\<sigma>(p := None)) ps ts'"
    by (rule lined_freed[OF ts(5) h1(2,3) ts(6)])
  from Cons.IH[OF h1(2) this] obtain h2 where "free_lines A h1 (\<sigma>(p := None)) ps = Some (h2, \<sigma>(p := None) |` (- set ps))"
    "inv h2 (L - {p} - set ps)" "\<forall>q \<in> L - {p} - set ps. blk h2 q = blk h1 q" by blast
  moreover have "\<sigma>(p := None) |` (- set ps) = \<sigma> |` (- set (p # ps))"
    by (auto simp: restrict_map_def fun_eq_iff)
  moreover have "L - {p} - set ps = L - set (p # ps)" by auto
  ultimately show ?case using h1 by auto
qed auto

end

section \<open>What a write releases\<close>

context block_heap
begin

text \<open>When exactly the lines \<open>us\<close> were written, they are released and the loop stops at the last of them.\<close>

lemma release_lines:
  assumes "inv h L" and "lined h L \<sigma> ps us" and "us \<noteq> []" and "\<forall>t \<in> set us. t \<noteq> []"
  shows "\<exists>h'. release_written A (pre @ ps @ post) h \<sigma> (int (length pre)) (int (length (concat us)))
     = Some (int (length pre + length ps) - 1, h', \<sigma> |` (- set ps))
     \<and> inv h' (L - set ps) \<and> (\<forall>q \<in> L - set ps. blk h' q = blk h q)"
  using assms
proof (induction us arbitrary: pre ps h L \<sigma>)
  case (Cons t us)
  then obtain p ps' d where ps: "ps = p # ps'" "p \<notin> set ps'" "\<sigma> p = Some d" "ptr d = p" "own h L d t"
    "lined h L \<sigma> ps' us" by (cases ps) (auto simp: lined_Cons)
  have ld: "dynstr_len d = int (length t)" using ps(5) by (simp add: dynstr_len_def str_in_def dyn_rep_def)
  have at: "at_index (pre @ ps @ post) (int (length pre)) = Some p" using ps(1) by (simp add: at_index_def)
  obtain h1 where h1: "store_free A h \<sigma> p = Some (h1, \<sigma>(p := None))" "inv h1 (L - {p})"
    "\<forall>q \<in> L - {p}. blk h1 q = blk h q" using store_free_ok[of \<sigma> p d h L t] ps(3-5) by blast
  show ?case
  proof (cases "us = []")
    case True
    with ps(6) have "ps' = []" by simp
    moreover have "\<sigma>(p := None) = \<sigma> |` (- {p})" by (auto simp: restrict_map_def fun_eq_iff)
    ultimately show ?thesis
      using True at ps ld h1 by (subst release_written.simps) auto
  next
    case False
    have l1: "lined h1 (L - {p}) (\<sigma>(p := None)) ps' us"
      by (rule lined_freed[OF ps(6) h1(2,3) ps(2)])
    have ne2: "\<forall>t \<in> set us. t \<noteq> []" using Cons.prems(4) by simp
    obtain h2 where h2: "release_written A ((pre @ [p]) @ ps' @ post) h1 (\<sigma>(p := None)) (int (length (pre @ [p])))
        (int (length (concat us))) = Some (int (length (pre @ [p]) + length ps') - 1, h2, (\<sigma>(p := None)) |` (- set ps'))"
      "inv h2 (L - {p} - set ps')" "\<forall>q \<in> L - {p} - set ps'. blk h2 q = blk h1 q"
      using Cons.IH[OF h1(2) l1 False ne2, of "pre @ [p]"] by blast
    have ne: "concat us \<noteq> []" using False Cons.prems(4) by (cases us) auto
    have sig: "(\<sigma>(p := None)) |` (- set ps') = \<sigma> |` (- set ps)" "L - {p} - set ps' = L - set ps"
      using ps(1) by (auto simp: restrict_map_def fun_eq_iff)
    have "release_written A (pre @ ps @ post) h \<sigma> (int (length pre)) (int (length (concat (t # us))))
      = release_written A ((pre @ [p]) @ ps' @ post) h1 (\<sigma>(p := None)) (int (length (pre @ [p]))) (int (length (concat us)))"
      using at ps ld h1(1) ne by (subst release_written.simps) (auto simp: add.commute)
    with h2 h1(3) ps(1) show ?thesis unfolding sig by auto
  qed
qed auto

text \<open>When the write ended inside line \<open>t\<close>, the loop stops there.\<close>

lemma release_stops:
  assumes "lined h L \<sigma> (p # ps) (t # ts)" and "int k < int (length t)"
  shows "release_written A (pre @ (p # ps) @ post) h \<sigma> (int (length pre)) (int k) = Some (int (length pre), h, \<sigma>)"
proof -
  obtain d where "\<sigma> p = Some d" "own h L d t" using assms(1) by (auto simp: lined_Cons)
  moreover then have "dynstr_len d = int (length t)" by (simp add: dynstr_len_def str_in_def dyn_rep_def)
  ultimately show ?thesis using assms(2) by (subst release_written.simps) (simp add: at_index_def)
qed

lemma release_partial:
  assumes "inv h L" and "lined h L \<sigma> (ps @ q # qs) (us @ t # ts)" and "length ps = length us"
    and "\<forall>t \<in> set us. t \<noteq> []" and "0 < k" and "k < length t"
  shows "\<exists>h'. release_written A (pre @ ps @ q # qs @ post) h \<sigma> (int (length pre)) (int (length (concat us) + k))
     = Some (int (length pre + length ps), h', \<sigma> |` (- set ps))
     \<and> inv h' (L - set ps) \<and> (\<forall>q \<in> L - set ps. blk h' q = blk h q)"
  using assms
proof (induction us arbitrary: pre ps h L \<sigma>)
  case Nil
  then have "lined h L \<sigma> (q # qs) (t # ts)" "ps = []" by auto
  with release_stops[of h L \<sigma> q qs t ts k pre post] Nil.prems show ?case by auto
next
  case (Cons u us)
  then obtain p ps' d where ps: "ps = p # ps'" "p \<notin> set (ps' @ q # qs)" "\<sigma> p = Some d" "ptr d = p" "own h L d u"
    "lined h L \<sigma> (ps' @ q # qs) (us @ t # ts)" "length ps' = length us" by (cases ps) (auto simp: lined_Cons)
  have ld: "dynstr_len d = int (length u)" using ps(5) by (simp add: dynstr_len_def str_in_def dyn_rep_def)
  have at: "at_index (pre @ ps @ q # qs @ post) (int (length pre)) = Some p" using ps(1) by (simp add: at_index_def)
  obtain h1 where h1: "store_free A h \<sigma> p = Some (h1, \<sigma>(p := None))" "inv h1 (L - {p})"
    "\<forall>q \<in> L - {p}. blk h1 q = blk h q" using store_free_ok[of \<sigma> p d h L u] ps(3-5) by blast
  have l1: "lined h1 (L - {p}) (\<sigma>(p := None)) (ps' @ q # qs) (us @ t # ts)"
    by (rule lined_freed[OF ps(6) h1(2,3) ps(2)])
  have ne2: "\<forall>t \<in> set us. t \<noteq> []" using Cons.prems(4) by simp
  obtain h2 where h2: "release_written A ((pre @ [p]) @ ps' @ q # qs @ post) h1 (\<sigma>(p := None)) (int (length (pre @ [p])))
      (int (length (concat us) + k)) = Some (int (length (pre @ [p]) + length ps'), h2, (\<sigma>(p := None)) |` (- set ps'))"
    "inv h2 (L - {p} - set ps')" "\<forall>q \<in> L - {p} - set ps'. blk h2 q = blk h1 q"
    using Cons.IH[OF h1(2) l1 ps(7) ne2 Cons.prems(5,6), of "pre @ [p]"] by blast
  have sig: "(\<sigma>(p := None)) |` (- set ps') = \<sigma> |` (- set ps)" "L - {p} - set ps' = L - set ps"
    using ps(1) by (auto simp: restrict_map_def fun_eq_iff)
  have "release_written A (pre @ ps @ q # qs @ post) h \<sigma> (int (length pre)) (int (length (concat (u # us)) + k))
    = release_written A ((pre @ [p]) @ ps' @ q # qs @ post) h1 (\<sigma>(p := None)) (int (length (pre @ [p]))) (int (length (concat us) + k))"
    using at ps ld h1(1) Cons.prems(5) by (subst release_written.simps) (auto simp: algebra_simps)
  with h2 h1(3) ps(1) show ?case unfolding sig by auto
qed

end

section \<open>Outcomes of a write\<close>

context block_heap
begin

lemma write_lines_step:
  assumes q: "queued h L \<sigma> wq (ps @ qs) (us @ ts)" and l: "length ps = length us" and us: "us \<noteq> []" "\<forall>t \<in> set us. t \<noteq> []"
    and w: "writev (concat (us @ ts)) = Written (int (length (concat us)))"
  shows "\<exists>wq' h'. wq_write A writev h \<sigma> wq = Some (int (length (concat us)), 0, wq', h', \<sigma> |` (- set ps))
     \<and> inv h' (L - set ps) \<and> (\<forall>r \<in> L - set ps. blk h' r = blk h r) \<and> wq_holds wq' (butlast (last ps # qs))"
proof -
  have inv: "inv h L" and hold: "wq_holds wq (ps @ qs)" and lns: "lined h L \<sigma> (ps @ qs) (us @ ts)"
    using q by (auto simp: queue_in_def)
  obtain vs where g: "gather \<sigma> (ps @ qs) = Some (vs, concat (us @ ts))" "length vs = length (ps @ qs)"
    using gather_ok[OF lns] by blast
  let ?wq = "wq\<lparr>iov := vs @ drop (length vs) (iov wq)\<rparr>"
  have hold1: "wq_holds ?wq (ps @ qs)" using hold g(2) by (auto simp: wq_holds_def)
  have ps_us: "lined h L \<sigma> ps us" using lns l by (simp add: lines_in_def list_all2_append)
  obtain h' where r: "release_written A ([] @ ps @ (qs @ drop (length (ps @ qs)) (line wq))) h \<sigma> (int (length ([]::addr list)))
      (int (length (concat us))) = Some (int (length ([]::addr list) + length ps) - 1, h', \<sigma> |` (- set ps))"
    "inv h' (L - set ps)" "\<forall>r \<in> L - set ps. blk h' r = blk h r"
    using release_lines[OF inv ps_us us, of "[]"] by blast
  have rel: "release_written A (line ?wq) h \<sigma> 0 (int (length (concat us))) = Some (int (length ps) - 1, h', \<sigma> |` (- set ps))"
    using r(1) wq_holds_split[OF hold] by simp
  have ne: "ps \<noteq> []" "concat us \<noteq> []" using us l by (cases us; cases ps; auto)+
  have split: "ps @ qs = butlast ps @ last ps # qs" using ne by simp
  have bl: "int (length ps) - 1 = int (length (butlast ps))" using ne by (cases ps) auto
  obtain ls where mv: "move_lines ?wq (int (length ps) - 1) (int (length (ps @ qs))) = Some ls"
    "length ls = DLOG_WRITE_HIGH_WM" "take (Suc (length qs)) ls = last ps # qs"
    using move_lines_holds[OF hold1[unfolded split] bl] split by auto
  define ls' where "ls' = (if 0 < int (length ps) - 1 then ls else line wq)"
  have ls': "length ls' = DLOG_WRITE_HIGH_WM" "take (Suc (length qs)) ls' = last ps # qs"
  proof -
    have "take (Suc (length qs)) (line wq) = ps @ qs" if "length ps = 1"
      using hold that by (simp add: wq_holds_def)
    moreover have "ps = [last ps]" if "length ps = 1" using that by (cases ps) auto
    moreover have "length ps = 1" if "\<not> 0 < int (length ps) - 1" using that ne by (cases ps) auto
    ultimately show "length ls' = DLOG_WRITE_HIGH_WM" "take (Suc (length qs)) ls' = last ps # qs"
      using mv hold by (auto simp: ls'_def wq_holds_def)
  qed
  let ?wq' = "?wq\<lparr>line := ls', num_entries := num_entries wq - int (length ps)\<rparr>"
  have nn: "num_entries wq = int (length (ps @ qs))" using hold by (simp add: wq_holds_def)
  have n0: "num_entries wq \<noteq> 0" using nn ne(1) by (cases ps) auto
  have "wq_write A writev h \<sigma> wq = Some (int (length (concat us)), 0, ?wq', h', \<sigma> |` (- set ps))"
    using wq_holds_entries[OF hold] g(1) w rel mv(1) n0 nn ne(2)
    by (auto simp: wq_write_def ls'_def Let_def length_greater_0_conv simp del: concat_append concat_eq_Nil_conv length_concat)
  moreover have "take (length qs) ls' = butlast (last ps # qs)"
  proof -
    have "length qs < length ls'" using ls'(1) hold ne(1) by (cases ps) (auto simp: wq_holds_def)
    with arg_cong[OF ls'(2), of butlast] show ?thesis by (simp add: butlast_take del: butlast.simps)
  qed
  ultimately show ?thesis
    using r(2,3) hold1 ls' by (intro exI[of _ ?wq'] exI[of _ h']) (auto simp: wq_holds_def)
qed

end

context block_heap
begin

text \<open>A write that ends inside a line drops the last line from the queue and keeps the whole of the line it
  ended in.\<close>

lemma write_partial_step:
  assumes q: "queued h L \<sigma> wq (ps @ q # qs) (us @ t # ts)" and l: "length ps = length us" and us: "\<forall>t \<in> set us. t \<noteq> []"
    and k: "0 < k" "k < length t"
    and w: "writev (concat (us @ t # ts)) = Written (int (length (concat us) + k))"
  shows "\<exists>wq' h'. wq_write A writev h \<sigma> wq = Some (int (length (concat us) + k), 0, wq', h', \<sigma> |` (- set ps))
     \<and> queued h' (L - set ps) (\<sigma> |` (- set ps)) wq' (butlast (q # qs)) (butlast (t # ts))"
proof -
  have inv: "inv h L" and hold: "wq_holds wq (ps @ q # qs)" and lns: "lined h L \<sigma> (ps @ q # qs) (us @ t # ts)"
    using q by (auto simp: queue_in_def)
  obtain vs where g: "gather \<sigma> (ps @ q # qs) = Some (vs, concat (us @ t # ts))" "length vs = length (ps @ q # qs)"
    using gather_ok[OF lns] by blast
  let ?wq = "wq\<lparr>iov := vs @ drop (length vs) (iov wq)\<rparr>"
  have hold1: "wq_holds ?wq (ps @ q # qs)" using hold g(2) by (auto simp: wq_holds_def)
  obtain h' where r: "release_written A (line ?wq) h \<sigma> 0 (int (length (concat us) + k)) = Some (int (length ps), h', \<sigma> |` (- set ps))"
    "inv h' (L - set ps)" "\<forall>r \<in> L - set ps. blk h' r = blk h r"
    using release_partial[OF inv lns l us k, of "[]" "drop (length (ps @ q # qs)) (line wq)"] wq_holds_split[OF hold] by auto
  obtain ls where mv: "move_lines ?wq (int (length ps)) (int (length (ps @ q # qs))) = Some ls"
    "length ls = DLOG_WRITE_HIGH_WM" "take (Suc (length qs)) ls = q # qs"
    using move_lines_holds[OF hold1 refl] by auto
  define ls' where "ls' = (if 0 < int (length ps) then ls else line wq)"
  have ls': "length ls' = DLOG_WRITE_HIGH_WM" "take (Suc (length qs)) ls' = q # qs"
    using mv hold by (cases ps; simp add: ls'_def wq_holds_def)+
  let ?wq' = "?wq\<lparr>line := ls', num_entries := num_entries wq - (int (length ps) + 1)\<rparr>"
  have "wq_write A writev h \<sigma> wq = Some (int (length (concat us) + k), 0, ?wq', h', \<sigma> |` (- set ps))"
    using wq_holds_entries[OF hold] g(1) w r(1) mv(1) hold k
    by (auto simp: wq_write_def wq_holds_def ls'_def Let_def)
  moreover have "take (length qs) ls' = butlast (q # qs)"
    using arg_cong[OF ls'(2), of butlast] ls'(1) hold by (simp add: butlast_take wq_holds_def)
  then have "wq_holds ?wq' (butlast (q # qs))" using hold1 ls' by (auto simp: wq_holds_def)
  moreover have "lined h' (L - set ps) (\<sigma> |` (- set ps)) (butlast (q # qs)) (butlast (t # ts))"
  proof -
    have sub: "lined h L \<sigma> (q # qs) (t # ts)" "set ps \<inter> set (q # qs) = {}"
      using lns l by (auto simp: lines_in_def list_all2_append)
    then have bl: "lined h L \<sigma> (butlast (q # qs)) (butlast (t # ts))"
      by (auto simp: lines_in_def distinct_butlast list_all2_lengthD butlast_conv_take list_all2_takeI
          simp del: butlast.simps dest: list_all2_lengthD intro!: list_all2_takeI)
    have "set (butlast (q # qs)) \<inter> set ps = {}" using sub(2) in_set_butlastD[of _ "q # qs"] by blast
    then show ?thesis
      using r(3) lined_set[OF bl] by (intro lined_frame[OF bl r(2)]) (auto simp: restrict_map_def simp del: butlast.simps)
  qed
  ultimately show ?thesis using r(2) by (auto simp: queue_in_def)
qed

lemma write_blocked:
  assumes q: "queued h L \<sigma> wq ps ts" and "ps \<noteq> []" and w: "writev (concat ts) = WouldBlock"
  shows "\<exists>wq'. wq_write A writev h \<sigma> wq = Some (- 1, 0, wq', h, \<sigma>) \<and> queued h L \<sigma> wq' ps ts"
proof -
  obtain vs where g: "gather \<sigma> ps = Some (vs, concat ts)" "length vs = length ps"
    using gather_ok q by (force simp: queue_in_def)
  let ?wq = "wq\<lparr>iov := vs @ drop (length vs) (iov wq)\<rparr>"
  have h: "wq_holds wq ps" using q by (simp add: queue_in_def)
  then have n: "wq_holds ?wq ps" "num_entries wq \<noteq> 0" using g(2) assms(2) by (auto simp: wq_holds_def)
  with q have "queued h L \<sigma> ?wq ps ts" by (auto simp: queue_in_def)
  then show ?thesis using w g(1) wq_holds_entries[OF h] n(2) by (auto simp: wq_write_def Let_def)
qed

lemma write_kept:
  assumes q: "queued h L \<sigma> wq ps ts" and w: "writev (concat ts) = WouldBlock \<or> writev (concat ts) = Write_Error e"
  shows "\<exists>b err wq'. wq_write A writev h \<sigma> wq = Some (b, err, wq', h, \<sigma>) \<and> b \<le> 0 \<and> queued h L \<sigma> wq' ps ts"
proof -
  obtain vs where g: "gather \<sigma> ps = Some (vs, concat ts)" "length vs = length ps"
    using gather_ok q by (force simp: queue_in_def)
  let ?wq = "wq\<lparr>iov := vs @ drop (length vs) (iov wq)\<rparr>"
  have h: "wq_holds wq ps" using q by (simp add: queue_in_def)
  then have "wq_holds ?wq ps" using g(2) by (auto simp: wq_holds_def)
  with q have "queued h L \<sigma> ?wq ps ts" by (auto simp: queue_in_def)
  then show ?thesis using w g(1) wq_holds_entries[OF h] q by (auto simp: wq_write_def Let_def)
qed

lemma add_line_queued:
  assumes q: "queued h L \<sigma> wq ps ts" and d: "\<sigma> p = Some d" "ptr d = p" "own h L d t" "p \<notin> set ps"
  shows "\<exists>wq' c. wq_add_line wq p = Some (c, wq')
     \<and> (if length ps = DLOG_WRITE_HIGH_WM then c = - 1 \<and> wq' = wq
        else c = 0 \<and> queued h L \<sigma> wq' (ps @ [p]) (ts @ [t]))"
proof -
  have h: "wq_holds wq ps" "length ps \<le> DLOG_WRITE_HIGH_WM" using q by (auto simp: queue_in_def wq_holds_def)
  have "lined h L \<sigma> (ps @ [p]) (ts @ [t])"
    using q d by (auto simp: queue_in_def lines_in_def list_all2_appendI)
  then show ?thesis
    using wq_add_line_holds[OF h(1), of p] h(2) q by (auto simp: queue_in_def)
qed

lemma destroy_ok:
  assumes q: "queued h L \<sigma> wq ps ts"
  shows "\<exists>wq' h'. wq_destroy A h \<sigma> (Some wq) = Some (Some wq', h', \<sigma> |` (- set ps)) \<and> inv h' (L - set ps)
     \<and> wq_holds wq' []"
  using free_lines_ok[of h L \<sigma> ps ts] q wq_holds_entries[of wq ps]
  by (fastforce simp: queue_in_def wq_destroy_def wq_holds_def)

end

section \<open>Properties\<close>

abbreviation queue_at :: "arena \<Rightarrow> addr set \<Rightarrow> strings \<Rightarrow> writequeue \<Rightarrow> addr list \<Rightarrow> string list \<Rightarrow> bool" where
  "queue_at \<equiv> queue_in arena_ok block_size"

text \<open>A queue of two lines, for the concrete instances below.\<close>

lemma queue_of_two:
  assumes "NUL \<notin> set t" and "NUL \<notin> set u"
  shows "\<exists>ar L \<sigma> wq p q. queue_at ar L \<sigma> wq [p, q] [t, u]"
proof -
  obtain ar L x y where xy: "dyn_at ar L x t" "dyn_at ar L y u" "ptr y \<noteq> ptr x"
    using two_strings_exist[OF assms] by blast
  let ?s = "[ptr x \<mapsto> x, ptr y \<mapsto> y]"
  have "queue_at ar L ?s wq_new [] []"
    using da.own_inv[OF xy(1)] by (simp add: queue_in_def wq_new_holds)
  from da.add_line_queued[OF this _ _ xy(1), of "ptr x"] xy(3) obtain wq1 where
    "queue_at ar L ?s wq1 [ptr x] [t]" by (auto simp: DLOG_WRITE_HIGH_WM_def)
  from da.add_line_queued[OF this _ _ xy(2), of "ptr y"] xy(3) obtain wq2 where
    "queue_at ar L ?s wq2 [ptr x, ptr y] [t, u]" by (auto simp: DLOG_WRITE_HIGH_WM_def)
  then show ?thesis by blast
qed

text \<open>C31: when \<^verbatim>\<open>writev\<close> takes all the bytes, every queued line has been handed over in order, is released, and
  the queue is empty.\<close>

theorem wq_write_all:
  assumes "queue_at ar L \<sigma> wq ps ts" and "ts \<noteq> []" and "\<forall>t \<in> set ts. t \<noteq> []"
    and "writev (concat ts) = Written (int (length (concat ts)))"
  shows "\<exists>wq' ar'. wq_write dynstr_arena writev ar \<sigma> wq
       = Some (int (length (concat ts)), 0, wq', ar', \<sigma> |` (- set ps))
     \<and> queue_at ar' (L - set ps) (\<sigma> |` (- set ps)) wq' [] []"
proof -
  have "length ps = length ts" using assms(1) by (auto simp: queue_in_def lines_in_def dest: list_all2_lengthD)
  with da.write_lines_step[of ar L \<sigma> wq ps "[]" ts "[]" writev] assms show ?thesis
    by (auto simp: queue_in_def)
qed

theorem wq_write_all_witness:
  "\<exists>ar L \<sigma> wq p q wq' ar'. queue_at ar L \<sigma> wq [p, q] [''a'', ''bc'']
     \<and> wq_write dynstr_arena (\<lambda>s. Written (int (length s))) ar \<sigma> wq = Some (3, 0, wq', ar', \<sigma> |` (- {p, q}))
     \<and> num_entries wq' = 0"
proof -
  obtain ar L \<sigma> wq p q where "queue_at ar L \<sigma> wq [p, q] [''a'', ''bc'']"
    using queue_of_two[of "''a''" "''bc''"] by auto
  with wq_write_all[OF this, of "\<lambda>s. Written (int (length s))"] show ?thesis
    by (fastforce simp: queue_in_def wq_holds_def)
qed

text \<open>When the descriptor would block or fails, the queue keeps all its lines, in order.\<close>

theorem wq_write_keeps:
  assumes "queue_at ar L \<sigma> wq ps ts"
    and "writev (concat ts) = WouldBlock \<or> writev (concat ts) = Write_Error e"
  shows "\<exists>b err wq'. wq_write dynstr_arena writev ar \<sigma> wq = Some (b, err, wq', ar, \<sigma>) \<and> b \<le> 0
     \<and> queue_at ar L \<sigma> wq' ps ts"
  using assms by (rule da.write_kept)

theorem wq_write_keeps_witness:
  "\<exists>ar L \<sigma> wq p q b err wq'. queue_at ar L \<sigma> wq [p, q] [''a'', ''bc'']
     \<and> wq_write dynstr_arena (\<lambda>_. WouldBlock) ar \<sigma> wq = Some (b, err, wq', ar, \<sigma>)
     \<and> queue_at ar L \<sigma> wq' [p, q] [''a'', ''bc'']"
proof -
  obtain ar L \<sigma> wq p q where "queue_at ar L \<sigma> wq [p, q] [''a'', ''bc'']"
    using queue_of_two[of "''a''" "''bc''"] by auto
  with wq_write_keeps[of ar L \<sigma> wq "[p, q]" "[''a'', ''bc'']" "\<lambda>_. WouldBlock"] show ?thesis by blast
qed

text \<open>A queue of 32 lines refuses another one; a shorter queue takes it at its end.\<close>

theorem wq_add_line_watermark:
  assumes "queue_at ar L \<sigma> wq ps ts" and "\<sigma> p = Some d" and "ptr d = p" and "dyn_at ar L d t" and "p \<notin> set ps"
  shows "\<exists>wq' c. wq_add_line wq p = Some (c, wq')
     \<and> (if length ps = DLOG_WRITE_HIGH_WM then c = - 1 \<and> wq' = wq
        else c = 0 \<and> queue_at ar L \<sigma> wq' (ps @ [p]) (ts @ [t]))"
  by (rule da.add_line_queued[OF assms])

theorem wq_add_line_watermark_witness:
  "\<exists>ar L d wq'. dyn_at ar L d ''ab'' \<and> wq_add_line wq_new (ptr d) = Some (0, wq')
     \<and> queue_at ar L [ptr d \<mapsto> d] wq' [ptr d] [''ab'']"
proof -
  obtain ar L d y where d: "dyn_at ar L d ''ab''" using two_strings_exist[of "''ab''" "[]"] by auto
  have "queue_at ar L [ptr d \<mapsto> d] wq_new [] []"
    using da.own_inv[OF d] by (simp add: queue_in_def wq_new_holds)
  from wq_add_line_watermark[OF this _ _ d, of "ptr d"] d show ?thesis by (auto simp: DLOG_WRITE_HIGH_WM_def)
qed

text \<open>When \<^verbatim>\<open>writev\<close> ends inside a line, the count is reduced by one too many: the last line leaves the queue
  without being written or released, and the line that was half written is queued again from its start.\<close>

theorem wq_write_partial_loses_last:
  assumes "queue_at ar L \<sigma> wq (ps @ q # qs) (us @ t # ts)" and "length ps = length us" and "\<forall>t \<in> set us. t \<noteq> []"
    and "0 < k" and "k < length t" and "writev (concat (us @ t # ts)) = Written (int (length (concat us) + k))"
  shows "\<exists>wq' ar'. wq_write dynstr_arena writev ar \<sigma> wq
       = Some (int (length (concat us) + k), 0, wq', ar', \<sigma> |` (- set ps))
     \<and> queue_at ar' (L - set ps) (\<sigma> |` (- set ps)) wq' (butlast (q # qs)) (butlast (t # ts))"
  using assms by (rule da.write_partial_step)

theorem wq_write_partial_loses_last_witness:
  "\<exists>ar L \<sigma> wq p q wq' ar'. queue_at ar L \<sigma> wq [p, q] [''abc'', ''de'']
     \<and> wq_write dynstr_arena (\<lambda>_. Written 1) ar \<sigma> wq = Some (1, 0, wq', ar', \<sigma>) \<and> queue_at ar' L \<sigma> wq' [p] [''abc'']"
proof -
  obtain ar L \<sigma> wq p q where "queue_at ar L \<sigma> wq ([] @ p # [q]) ([] @ ''abc'' # [''de''])"
    using queue_of_two[of "''abc''" "''de''"] by auto
  from this wq_write_partial_loses_last[OF this, of 1 "\<lambda>_. Written 1"] show ?thesis
    by (fastforce simp: restrict_map_def)
qed

text \<open>When \<^verbatim>\<open>writev\<close> ends exactly at the end of a line and more lines follow, the released line stays at the head
  of the queue, and the next write uses it after its release.\<close>

theorem wq_write_boundary_dangles:
  assumes "queue_at ar L \<sigma> wq (ps @ q # qs) (us @ t # ts)" and "length ps = length us" and "us \<noteq> []"
    and "\<forall>t \<in> set us. t \<noteq> []" and "writev (concat (us @ t # ts)) = Written (int (length (concat us)))"
  shows "\<exists>wq' ar' \<sigma>'. wq_write dynstr_arena writev ar \<sigma> wq = Some (int (length (concat us)), 0, wq', ar', \<sigma>')
     \<and> line wq' ! 0 = last ps \<and> \<sigma>' (last ps) = None
     \<and> wq_write dynstr_arena writev' ar' \<sigma>' wq' = None"
proof -
  obtain wq' ar' where w: "wq_write dynstr_arena writev ar \<sigma> wq = Some (int (length (concat us)), 0, wq', ar', \<sigma> |` (- set ps))"
    "wq_holds wq' (butlast (last ps # q # qs))"
    using da.write_lines_step[of ar L \<sigma> wq ps "q # qs" us "t # ts" writev] assms by blast
  have "ps \<noteq> []" using assms(2,3) by auto
  then have n: "(\<sigma> |` (- set ps)) (last ps) = None" by (simp add: restrict_map_def)
  have h: "wq_holds wq' (last ps # butlast (q # qs))" using w(2) by simp
  have "line wq' ! 0 = last ps"
    using wq_holds_split[OF h] by (metis append_Cons nth_Cons_0)
  moreover have "wq_write dynstr_arena writev' ar' (\<sigma> |` (- set ps)) wq' = None"
    using wq_holds_entries[OF h] h n by (simp add: wq_write_def wq_holds_def)
  ultimately show ?thesis using w(1) n by blast
qed

theorem wq_write_boundary_dangles_witness:
  "\<exists>ar L \<sigma> wq p q wq' ar' \<sigma>'. queue_at ar L \<sigma> wq [p, q] [''abc'', ''de'']
     \<and> wq_write dynstr_arena (\<lambda>_. Written 3) ar \<sigma> wq = Some (3, 0, wq', ar', \<sigma>')
     \<and> wq_write dynstr_arena (\<lambda>_. WouldBlock) ar' \<sigma>' wq' = None"
proof -
  obtain ar L \<sigma> wq p q where "queue_at ar L \<sigma> wq ([p] @ q # []) ([''abc''] @ ''de'' # [])"
    using queue_of_two[of "''abc''" "''de''"] by auto
  from this wq_write_boundary_dangles[OF this, of "\<lambda>_. Written 3" "\<lambda>_. WouldBlock"] show ?thesis by fastforce
qed

end
