(* ===== verification/Descriptor_IO.thy ===== *)
theory Descriptor_IO
  imports Line_Reader Write_Queue
begin

text \<open>
  Reading and writing descriptors, from \<^verbatim>\<open>dlog.c\<close>: \<^verbatim>\<open>descriptor_read\<close> fills the line reader from the kernel, takes the
  complete lines out of it and evaluates each; \<^verbatim>\<open>descriptor_write_direct\<close> ends a line with a newline, queues it and
  tries to write the queue. The kernel's \<^verbatim>\<open>read\<close> and \<^verbatim>\<open>writev\<close> and the evaluation of a line are parameters. What the
  functions ask of the descriptor table (adding to and removing from the pending reads, closing, resetting and
  reopening) is returned as the list of these calls, in order.
\<close>

unbundle bit_operations_syntax

section \<open>Data\<close>

definition DLOG_READ_BUF_SZ :: int where "DLOG_READ_BUF_SZ = 4096"
definition DLOG_READ_MAX_CHUNK :: int where "DLOG_READ_MAX_CHUNK = 4 * 1024"

text \<open>The descriptor states are bits of a word; the numbers are those of the enumeration.\<close>

datatype dstate = DSTATE_INVALID | DSTATE_INIT | DSTATE_PENDING | DSTATE_ACTIVE | DSTATE_DRAIN | DSTATE_DRAIN_ROTATE | DSTATE_DEAD

fun dstate_bits :: "dstate \<Rightarrow> int" where
  "dstate_bits DSTATE_INVALID = 0"
| "dstate_bits DSTATE_INIT = 1"
| "dstate_bits DSTATE_PENDING = 2"
| "dstate_bits DSTATE_ACTIVE = 4"
| "dstate_bits DSTATE_DRAIN = 8"
| "dstate_bits DSTATE_DRAIN_ROTATE = 16"
| "dstate_bits DSTATE_DEAD = 32"

datatype dtype = D_TYPEINVALID | D_FILER | D_FILEW | D_FIFOR | D_FIFOW | D_SOCKETR | D_SOCKETW | D_SOCKET_LISTEN | D_INOTIFY | D_ROTLOG

definition DOPEN_SEEKSTART :: int where "DOPEN_SEEKSTART = 1"
definition DOPEN_KEEP_BUFFERS :: int where "DOPEN_KEEP_BUFFERS = 8"

text \<open>The calls into the descriptor table.\<close>

datatype table_call =
    Desc_Pending_Add int
  | Desc_Pending_Remove int
  | Close_Descriptor
  | Reset_Descriptor
  | Open_Descriptor int
  | Post_Line_Write int int

text \<open>A descriptor's read and write sides; which of the two it has depends on its type.\<close>

record descriptor =
  d_state :: dstate
  d_type :: dtype
  fd :: int
  reader :: linereader
  wqueue :: writequeue
  post_line_write :: bool

text \<open>\<^verbatim>\<open>read(2)\<close> returns some bytes, none at the end of file, or an error.\<close>

datatype read_result = Read_Bytes string | Read_Error

type_synonym 'k kernel_read = "'k \<Rightarrow> int \<Rightarrow> read_result \<times> 'k"

section \<open>Reading\<close>

text \<open>The bytes go to the end of the reader's buffer, where \<^verbatim>\<open>reader_get_buffer\<close> pointed.\<close>

definition kernel_store :: "linereader \<Rightarrow> string \<Rightarrow> linereader option" where
  "kernel_store r bs = do {
     b \<leftarrow> buf_put (str (buf r)) (len (buf r)) (map Some bs);
     Some (r\<lparr>buf := (buf r)\<lparr>str := b\<rparr>\<rparr>)
   }"

text \<open>The loop over \<^verbatim>\<open>read\<close>; the result has the value last returned by \<^verbatim>\<open>read\<close> and whether the descriptor was added to
  the pending reads. Every turn but the last reads at least one byte, so \<^verbatim>\<open>max_chunk\<close> decreases.\<close>

function read_loop ::
  "'h allocator \<Rightarrow> 'k kernel_read \<Rightarrow> int \<Rightarrow> 'h \<Rightarrow> linereader \<Rightarrow> 'k \<Rightarrow> int \<Rightarrow> (int \<times> bool \<times> linereader \<times> 'h \<times> 'k) option" where
  "read_loop A read rs h r k max_chunk =
     (case reader_get_buffer A h r rs of
        None \<Rightarrow> None
      | Some (buffer, r, h) \<Rightarrow>
          (case read k rs of
             (Read_Error, k) \<Rightarrow> Some (- 1, False, r, h, k)
           | (Read_Bytes bs, k) \<Rightarrow>
               if bs = [] then Some (0, False, r, h, k)
               else
                 (case kernel_store r bs of
                    None \<Rightarrow> None
                  | Some r \<Rightarrow>
                      (case reader_buffer_fill r (int (length bs)) of
                         None \<Rightarrow> None
                       | Some r \<Rightarrow>
                           if max_chunk - int (length bs) \<le> 0 then Some (int (length bs), True, r, h, k)
                           else read_loop A read rs h r k (max_chunk - int (length bs))))))"
  by pat_completeness auto

termination read_loop
  by (relation "measure (\<lambda>(A, read, rs, h, r, k, mc). nat mc)") auto

declare read_loop.simps [simp del]

text \<open>The text of a live string.\<close>

definition dyn_text :: "dynstr \<Rightarrow> string option" where
  "dyn_text d = buf_get (str d) 0 (len d) \<bind> those"

text \<open>The loop over the complete lines; a line is released after its evaluation.\<close>

function read_lines ::
  "'h allocator \<Rightarrow> (string \<Rightarrow> 's \<Rightarrow> 's option) \<Rightarrow> 'h \<Rightarrow> linereader \<Rightarrow> 's \<Rightarrow> (linereader \<times> 'h \<times> 's) option" where
  "read_lines A eval h r s =
     (case reader_get_next_line A h r of
        None \<Rightarrow> None
      | Some (None, r', h') \<Rightarrow> Some (r', h', s)
      | Some (Some ln, r', h') \<Rightarrow>
          (case dyn_text ln \<bind> (\<lambda>t. eval t s) of
             None \<Rightarrow> None
           | Some s' \<Rightarrow>
               (case dynstr_free A h' ln of
                  None \<Rightarrow> None
                | Some h'' \<Rightarrow> read_lines A eval h'' r' s')))"
  by pat_completeness auto

termination read_lines
  by (relation "measure (\<lambda>(A, eval, h, r, s). nat (len (buf r)))") (auto dest: get_next_line_shrinks)

declare read_lines.simps [simp del]

text \<open>\<open>pre_read\<close> is what the descriptor's hook returned, if it has one.\<close>

definition descriptor_read ::
  "'h allocator \<Rightarrow> 'k kernel_read \<Rightarrow> int option \<Rightarrow> (string \<Rightarrow> 's \<Rightarrow> 's option) \<Rightarrow> 'h \<Rightarrow> descriptor \<Rightarrow> int \<Rightarrow> 'k \<Rightarrow> 's
   \<Rightarrow> (descriptor \<times> table_call list \<times> 'h \<times> 'k \<times> 's) option" where
  "descriptor_read A read pre_read eval h d size_hint k s =
     (if pre_read \<noteq> None \<and> pre_read \<noteq> Some 0 then Some (d, [], h, k, s)
      else do {
        let rs = (if size_hint = 0 then DLOG_READ_BUF_SZ else size_hint);
        (r, again, lr, h, k) \<leftarrow>
          (if fd d > 0 then read_loop A read rs h (reader d) k (DYNSTR_USABLE_SIZE DLOG_READ_MAX_CHUNK)
           else Some (1, False, reader d, h, k));
        (lr, h, s) \<leftarrow> read_lines A eval h lr s;
        let d = d\<lparr>reader := lr\<rparr>;
        Some (d,
          (if again then [Desc_Pending_Add (fd d)] else []) @
          (if r = 0 then
             Desc_Pending_Remove (fd d) #
             (if d_state d = DSTATE_DRAIN then [Close_Descriptor]
              else if d_type d = D_FILER \<and> d_state d = DSTATE_DRAIN_ROTATE
                then [Reset_Descriptor, Open_Descriptor (DOPEN_SEEKSTART + DOPEN_KEEP_BUFFERS)]
              else [])
           else []),
          h, k, s)
      })"

section \<open>Writing\<close>

text \<open>A line without a final newline gets one; the string may move.\<close>

definition end_line :: "'h allocator \<Rightarrow> 'h \<Rightarrow> strings \<Rightarrow> addr \<Rightarrow> (addr \<times> 'h \<times> strings) option" where
  "end_line A h \<sigma> p = do {
     d \<leftarrow> \<sigma> p;
     nl \<leftarrow> dynstr_isnewline d;
     if nl then Some (p, h, \<sigma>)
     else do {
       (d', h') \<leftarrow> dynstr_ccat A h d [NL];
       Some (ptr d', h', \<sigma>(p := None, ptr d' \<mapsto> d'))
     }
   }"

text \<open>A null line only writes what is queued. The result of \<^verbatim>\<open>wq_add_line\<close> is not looked at.\<close>

definition descriptor_write_direct ::
  "'h allocator \<Rightarrow> (string \<Rightarrow> write_result) \<Rightarrow> 'h \<Rightarrow> strings \<Rightarrow> descriptor \<Rightarrow> addr option
   \<Rightarrow> (descriptor \<times> table_call list \<times> 'h \<times> strings) option" where
  "descriptor_write_direct A writev h \<sigma> d ln = do {
     (wq, h, \<sigma>) \<leftarrow>
       (case ln of
          None \<Rightarrow> Some (wqueue d, h, \<sigma>)
        | Some p \<Rightarrow> do {
            (q, h, \<sigma>) \<leftarrow> end_line A h \<sigma> p;
            (_, wq) \<leftarrow> wq_add_line (wqueue d) q;
            Some (wq, h, \<sigma>)
          });
     if dstate_bits (d_state d) AND NOT (dstate_bits DSTATE_PENDING OR dstate_bits DSTATE_ACTIVE) \<noteq> 0 then Some (d\<lparr>wqueue := wq\<rparr>, [], h, \<sigma>)
     else do {
       (n, err, wq, h, \<sigma>) \<leftarrow> wq_write A writev h \<sigma> wq;
       Some (d\<lparr>wqueue := wq\<rparr>,
         if post_line_write d \<and> (err \<noteq> 0 \<or> n \<ge> 0) then [Post_Line_Write n err] else [], h, \<sigma>)
     }
   }"

text \<open>The write callback of the rules: the destination is looked up by its symbol; an unknown one drops the line.\<close>

definition descriptor_write ::
  "'h allocator \<Rightarrow> (string \<Rightarrow> write_result) \<Rightarrow> 'h \<Rightarrow> strings \<Rightarrow> (string \<rightharpoonup> descriptor) \<Rightarrow> string \<Rightarrow> addr
   \<Rightarrow> ((string \<rightharpoonup> descriptor) \<times> table_call list \<times> 'h \<times> strings) option" where
  "descriptor_write A writev h \<sigma> symbol_table symbol ln =
     (case symbol_table symbol of
        None \<Rightarrow> Some (symbol_table, [], h, \<sigma>)
      | Some d \<Rightarrow> do {
          (d', calls, h', \<sigma>') \<leftarrow> descriptor_write_direct A writev h \<sigma> d (Some ln);
          Some (symbol_table(symbol \<mapsto> d'), calls, h', \<sigma>')
        })"

lemma inactive_bits:
  "dstate_bits x AND NOT (dstate_bits DSTATE_PENDING OR dstate_bits DSTATE_ACTIVE) \<noteq> 0
     \<longleftrightarrow> x \<notin> {DSTATE_INVALID, DSTATE_PENDING, DSTATE_ACTIVE}"
  by (cases x) (simp_all add: not_int_def)

section \<open>What reading does, on texts\<close>

text \<open>The bytes one \<^verbatim>\<open>descriptor_read\<close> takes from the kernel, with the last value of \<^verbatim>\<open>read\<close>, whether it stopped because of the
  amount, and the kernel's state.\<close>

function pull :: "'k kernel_read \<Rightarrow> int \<Rightarrow> 'k \<Rightarrow> int \<Rightarrow> string \<times> int \<times> bool \<times> 'k" where
  "pull read rs k max_chunk =
     (case read k rs of
        (Read_Error, k) \<Rightarrow> ([], - 1, False, k)
      | (Read_Bytes bs, k) \<Rightarrow>
          if bs = [] then ([], 0, False, k)
          else if max_chunk - int (length bs) \<le> 0 then (bs, int (length bs), True, k)
          else (case pull read rs k (max_chunk - int (length bs)) of (data, r, again, k) \<Rightarrow> (bs @ data, r, again, k)))"
  by pat_completeness auto

termination pull
  by (relation "measure (\<lambda>(read, rs, k, mc). nat mc)") auto

declare pull.simps [simp del]

fun eval_lines :: "(string \<Rightarrow> 's \<Rightarrow> 's option) \<Rightarrow> string list \<Rightarrow> 's \<Rightarrow> 's option" where
  "eval_lines eval [] s = Some s"
| "eval_lines eval (l # ls) s = eval l s \<bind> eval_lines eval ls"

text \<open>\<^verbatim>\<open>read(2)\<close> returns no more bytes than it was asked for.\<close>

definition read_bounded :: "'k kernel_read \<Rightarrow> bool" where
  "read_bounded read \<longleftrightarrow> (\<forall>k n bs k'. read k n = (Read_Bytes bs, k') \<longrightarrow> int (length bs) \<le> max 0 n)"

text \<open>A line ended by a newline, if it is not already.\<close>

definition ended :: "string \<Rightarrow> string" where
  "ended t = (if t \<noteq> [] \<and> last t = NL then t else t @ [NL])"

lemma ended_ne [simp]: "ended t \<noteq> []"
  by (simp add: ended_def)

lemma dyn_text_rep: "dyn_rep d t \<Longrightarrow> dyn_text d = Some t"
  by (elim dyn_repE) (simp add: dyn_text_def buf_get_start)

context block_heap
begin

lemma store_fill_ok:
  assumes r: "reading h L r c t" and n: "int (length bs) \<le> dynstr_slack (buf r)"
  shows "\<exists>r1 r2. kernel_store r bs = Some r1 \<and> reader_buffer_fill r1 (int (length bs)) = Some r2
     \<and> reading h L r2 c (t @ bs) \<and> ptr (buf r2) = ptr (buf r)"
proof -
  have o: "own h L (buf r) t" using r by (simp add: reader_in_def)
  then obtain rest where s: "str (buf r) = map Some t @ Some NUL # rest" "len (buf r) = int (length t)"
    "cap (buf r) = int (length t) + 1 + int (length rest)" by (auto simp: str_in_def elim: dyn_repE)
  have lr: "length bs \<le> length rest" using n s by (simp add: dynstr_slack_def)
  then obtain x xs where x: "drop (length bs) (Some NUL # rest) = x # xs"
    by (cases "drop (length bs) (Some NUL # rest)") (auto simp: drop_eq_Nil)
  have put: "buf_put (str (buf r)) (len (buf r)) (map Some bs) = Some (map Some (t @ bs) @ x # xs)"
    using lr x by (simp add: s buf_put_def)
  have fill: "buf_put (map Some (t @ bs) @ x # xs) (int (length t) + int (length bs)) [Some NUL]
      = Some (map Some (t @ bs) @ Some NUL # xs)"
    using buf_put_append[of "[Some NUL]" "x # xs" "int (length (t @ bs))" "map Some (t @ bs)"] by simp
  let ?b = "(buf r)\<lparr>len := int (length (t @ bs)), str := map Some (t @ bs) @ Some NUL # xs\<rparr>"
  have "int (length xs) + int (length bs) = int (length rest)" using arg_cong[OF x, of length] lr by simp
  then have "dyn_rep ?b (t @ bs)" using s(3) by (auto simp: dyn_rep_def)
  then have "own h L ?b (t @ bs)" using own_update[OF o] by simp
  then show ?thesis using put fill r s(2)
    by (auto simp: kernel_store_def reader_buffer_fill_def dynstr_fill_def reader_in_def)
qed

lemma moved_trans:
  assumes "moved h L s h1 s1" and "moved h1 (insert (ptr s1) (L - {ptr s})) s1 h2 s2"
  shows "moved h L s h2 s2"
proof -
  have "insert (ptr s1) (L - {ptr s}) - {ptr s1} = L - {ptr s}" using assms(1) by (auto simp: moves_def)
  with assms show ?thesis by (auto simp: moves_def)
qed

lemma moved_place:
  "moved h L s h1 s1 \<Longrightarrow> insert (ptr s2) (insert (ptr s1) (L - {ptr s}) - {ptr s1}) = insert (ptr s2) (L - {ptr s})"
  by (auto simp: moves_def)

lemma reading_own: "reading h L r c t \<Longrightarrow> own h L (buf r) t"
  by (simp add: reader_in_def)

text \<open>One turn of the loop: the buffer may move, and the bytes are appended.\<close>

lemma read_turn_ok:
  assumes r: "reading h L r c t" and n: "int (length bs) \<le> rs"
  shows "\<exists>r1 h1 r2 r3. reader_get_buffer A h r rs = Some (dynstr_endptr (buf r1), r1, h1) \<and> kernel_store r1 bs = Some r2
     \<and> reader_buffer_fill r2 (int (length bs)) = Some r3 \<and> reading h1 (insert (ptr (buf r3)) (L - {ptr (buf r)})) r3 c (t @ bs)
     \<and> moved h L (buf r) h1 (buf r3)"
proof -
  obtain r1 h1 where b: "reader_get_buffer A h r rs = Some (dynstr_endptr (buf r1), r1, h1)" "rs \<le> dynstr_slack (buf r1)"
    "reading h1 (insert (ptr (buf r1)) (L - {ptr (buf r)})) r1 c t" "moved h L (buf r) h1 (buf r1)"
    using reader_get_buffer_ok[OF r, of rs] by blast
  obtain r2 r3 where f: "kernel_store r1 bs = Some r2" "reader_buffer_fill r2 (int (length bs)) = Some r3"
    "reading h1 (insert (ptr (buf r1)) (L - {ptr (buf r)})) r3 c (t @ bs)" "ptr (buf r3) = ptr (buf r1)"
    using store_fill_ok[OF b(3), of bs] b(2) n by auto
  with b show ?thesis by (auto simp: moves_def)
qed

lemma read_loop_ok:
  assumes "read_bounded read" and "reading h L r c t" and "pull read rs k mc = (data, ret, again, k')"
  shows "\<exists>r' h'. read_loop A read rs h r k mc = Some (ret, again, r', h', k')
     \<and> reading h' (insert (ptr (buf r')) (L - {ptr (buf r)})) r' c (t @ data) \<and> moved h L (buf r) h' (buf r')"
  using assms
proof (induction read rs k mc arbitrary: h L r t data rule: pull.induct)
  case (1 read rs k mc)
  obtain res k1 where rd: "read k rs = (res, k1)" by fastforce
  show ?case
  proof (cases "res = Read_Error \<or> res = Read_Bytes []")
    case True
    obtain r1 h1 where "reader_get_buffer A h r rs = Some (dynstr_endptr (buf r1), r1, h1)"
      "reading h1 (insert (ptr (buf r1)) (L - {ptr (buf r)})) r1 c t" "moved h L (buf r) h1 (buf r1)"
      using reader_get_buffer_ok[OF 1(3), of rs] by blast
    with True rd 1(4) show ?thesis by (subst read_loop.simps) (auto simp: pull.simps[of read rs k])
  next
    case False
    then obtain bs where bs: "res = Read_Bytes bs" "bs \<noteq> []" by (cases res) auto
    with 1(2) rd have "int (length bs) \<le> max 0 rs" by (auto simp: read_bounded_def)
    with bs(2) have n: "int (length bs) \<le> rs" by (cases bs) (auto simp: max_def split: if_splits)
    obtain r1 h1 r2 r3 where t: "reader_get_buffer A h r rs = Some (dynstr_endptr (buf r1), r1, h1)" "kernel_store r1 bs = Some r2"
      "reader_buffer_fill r2 (int (length bs)) = Some r3" "reading h1 (insert (ptr (buf r3)) (L - {ptr (buf r)})) r3 c (t @ bs)"
      "moved h L (buf r) h1 (buf r3)" using read_turn_ok[OF 1(3) n] by blast
    show ?thesis
    proof (cases "mc - int (length bs) \<le> 0")
      case True
      with t rd bs 1(4) show ?thesis by (subst read_loop.simps) (auto simp: pull.simps[of read rs k])
    next
      case mc: False
      obtain d where d: "pull read rs k1 (mc - int (length bs)) = (d, ret, again, k')" "data = bs @ d"
        using 1(4) rd bs mc by (auto simp: pull.simps[of read rs k] split: prod.splits)
      from 1(1)[OF rd[symmetric] bs mc 1(2) t(4) d(1)] obtain r' h' where
        i: "read_loop A read rs h1 r3 k1 (mc - int (length bs)) = Some (ret, again, r', h', k')"
        "reading h' (insert (ptr (buf r')) (insert (ptr (buf r3)) (L - {ptr (buf r)}) - {ptr (buf r3)})) r' c ((t @ bs) @ d)"
        "moved h1 (insert (ptr (buf r3)) (L - {ptr (buf r)})) (buf r3) h' (buf r')" by blast
      have "reading h' (insert (ptr (buf r')) (L - {ptr (buf r)})) r' c (t @ data)" using i(2) d(2) unfolding moved_place[OF t(5)] by simp
      with t(1-3) rd bs mc i(1) moved_trans[OF t(5) i(3)] show ?thesis by (subst read_loop.simps) auto
    qed
  qed
qed

lemma read_lines_ok:
  assumes "cut_lines c t = (ls, u)" and "reading h L r c t" and "eval_lines eval (map nul_cut ls) s = Some s'"
  shows "\<exists>r' h'. read_lines A eval h r s = Some (r', h', s') \<and> reading h' L r' (length u) u
     \<and> ptr (buf r') = ptr (buf r) \<and> (\<forall>q \<in> L. blk h' q = blk h q)"
  using assms
proof (induction arbitrary: h r s rule: cut_lines_rule)
  case (stop c t)
  have "len (buf r) = int (length t)" using stop(2) by (simp add: reader_in_def str_in_def dyn_rep_def)
  with get_next_line_None[OF stop(2,1)] stop(2,3) show ?case
    by (subst read_lines.simps) (auto simp: reader_in_def)
next
  case (line c t l v ls u)
  obtain ln r1 h1 where n: "reader_get_next_line A h r = Some (Some ln, r1, h1)" "ptr ln \<notin> L"
    "own h1 (insert (ptr ln) L) ln (nul_cut l)" "reading h1 (insert (ptr ln) L) r1 0 v" "ptr (buf r1) = ptr (buf r)"
    "\<forall>q \<in> L. blk h1 q = blk h q" using get_next_line_Some[OF line.prems(1) line.hyps(1)] by blast
  obtain s1 where s1: "eval (nul_cut l) s = Some s1" "eval_lines eval (map nul_cut ls) s1 = Some s'"
    using line.prems(2) by (auto simp: bind_Some_iff)
  have tx: "dyn_text ln = Some (nul_cut l)" using n(3) by (intro dyn_text_rep) (simp add: str_in_def)
  obtain h2 where f: "dynstr_free A h1 ln = Some h2" "inv h2 L" "\<forall>q \<in> L. blk h2 q = blk h1 q"
    using free_str_ok[OF n(3)] n(2) by auto
  have "ptr (buf r1) \<in> L" using line.prems(1) n(5) by (simp add: reader_in_def str_in_def)
  then have "reading h2 L r1 0 v" using n(4) f(2,3) by (auto simp: reader_in_def str_in_def)
  from line.IH[OF this s1(2)] n f tx s1(1) show ?case by (subst read_lines.simps) auto
qed

end

context block_heap
begin

text \<open>Ending a line with a newline: only that string changes.\<close>

lemma end_line_ok:
  assumes "\<sigma> p = Some d" and "ptr d = p" and o: "own h L d t"
  shows "\<exists>d' h'. end_line A h \<sigma> p = Some (ptr d', h', \<sigma>(p := None, ptr d' \<mapsto> d'))
     \<and> own h' (insert (ptr d') (L - {p})) d' (ended t)
     \<and> (ptr d' = p \<or> ptr d' \<notin> L) \<and> (\<forall>q \<in> L - {p}. blk h' q = blk h q)"
proof (cases "t \<noteq> [] \<and> last t = NL")
  case True
  have "dyn_rep d t" "ptr d \<in> L" using o by (auto simp: str_in_def)
  with dynstr_isnewline_text[OF this(1)] True assms show ?thesis
    by (auto simp: end_line_def ended_def insert_absorb intro!: exI[of _ d])
next
  case False
  have nl: "dynstr_isnewline d = Some False" using dynstr_isnewline_text[of d t] o False by (auto simp: str_in_def)
  obtain d' h' where "dynstr_ccat A h d [NL] = Some (d', h')" "own h' (insert (ptr d') (L - {ptr d})) d' (t @ [NL])"
    "ptr d' = ptr d \<or> ptr d' \<notin> L" "\<forall>q \<in> L - {ptr d}. blk h' q = blk h q" using ccat_ok[OF o, of "[NL]"] by auto
  with nl assms(1,2) False show ?thesis by (auto simp: end_line_def ended_def)
qed

text \<open>A queue with a line that is not in it yet, after the line was ended and added.\<close>

lemma end_add_ok:
  assumes q: "queued h L \<sigma> wq ps ts" and p: "\<sigma> p = Some d" "ptr d = p" "own h L d t" "p \<notin> set ps"
  shows "\<exists>p' wq' c h' \<sigma>'. end_line A h \<sigma> p = Some (p', h', \<sigma>') \<and> wq_add_line wq p' = Some (c, wq')
     \<and> queued h' (insert p' (L - {p})) \<sigma>' wq ps ts
     \<and> (if length ps = DLOG_WRITE_HIGH_WM then wq' = wq
        else queued h' (insert p' (L - {p})) \<sigma>' wq' (ps @ [p']) (ts @ [ended t]))"
proof -
  obtain d' h' where e: "end_line A h \<sigma> p = Some (ptr d', h', \<sigma>(p := None, ptr d' \<mapsto> d'))"
    "own h' (insert (ptr d') (L - {p})) d' (ended t)" "ptr d' = p \<or> ptr d' \<notin> L" "\<forall>q \<in> L - {p}. blk h' q = blk h q"
    using end_line_ok[of \<sigma> p d h L t] p(1-3) by blast
  let ?s = "\<sigma>(p := None, ptr d' \<mapsto> d')" and ?L = "insert (ptr d') (L - {p})"
  have l: "lined h L \<sigma> ps ts" "wq_holds wq ps" using q by (auto simp: queue_in_def)
  have nin: "ptr d' \<notin> set ps" using e(3) lined_set[OF l(1)] p(4) by auto
  have "lined h' ?L ?s ps ts"
    by (rule lined_frame[OF l(1) own_inv[OF e(2)]]) (use lined_set[OF l(1)] e(4) p(4) nin in auto)
  then have q': "queued h' ?L ?s wq ps ts" using own_inv[OF e(2)] l(2) by (simp add: queue_in_def)
  from add_line_queued[OF q' _ _ e(2) nin] obtain wq' c where "wq_add_line wq (ptr d') = Some (c, wq')"
    "if length ps = DLOG_WRITE_HIGH_WM then c = - 1 \<and> wq' = wq else c = 0 \<and> queued h' ?L ?s wq' (ps @ [ptr d']) (ts @ [ended t])"
    by auto
  with e(1) q' show ?thesis by (auto split: if_splits)
qed

end

section \<open>Properties\<close>

lemma queue_beside:
  assumes q: "queue_at ar L \<sigma> wq ps ts" and "NUL \<notin> set t"
  shows "\<exists>x \<sigma>' ar'. queue_at ar' (insert (ptr x) L) \<sigma>' wq ps ts \<and> \<sigma>' (ptr x) = Some x
     \<and> dyn_at ar' (insert (ptr x) L) x t \<and> ptr x \<notin> set ps"
proof -
  have ok: "arena_ok ar L" and l: "da.lined ar L \<sigma> ps ts" and h: "wq_holds wq ps" using q by (auto simp: queue_in_def)
  obtain x ar' where x: "ptr x \<notin> L" "dyn_at ar' (insert (ptr x) L) x t" "\<forall>q \<in> L. block_size ar' q = block_size ar q"
    using da.new_ok[OF ok assms(2)] by blast
  have n: "ptr x \<notin> set ps" using x(1) da.lined_set[OF l] by auto
  have "da.lined ar' (insert (ptr x) L) (\<sigma>(ptr x \<mapsto> x)) ps ts"
    by (rule da.lined_frame[OF l da.own_inv[OF x(2)]]) (use da.lined_set[OF l] x(3) n in auto)
  with x n h da.own_inv[OF x(2)] show ?thesis by (intro exI[of _ x] exI[of _ "\<sigma>(ptr x \<mapsto> x)"] exI[of _ ar']) (simp add: queue_in_def)
qed

text \<open>The calls at the end of a read that returned \<open>ret\<close>.\<close>

definition read_calls :: "descriptor \<Rightarrow> int \<Rightarrow> bool \<Rightarrow> table_call list" where
  "read_calls d ret again =
     (if again then [Desc_Pending_Add (fd d)] else []) @
     (if ret = 0 then
        Desc_Pending_Remove (fd d) #
        (if d_state d = DSTATE_DRAIN then [Close_Descriptor]
         else if d_type d = D_FILER \<and> d_state d = DSTATE_DRAIN_ROTATE
           then [Reset_Descriptor, Open_Descriptor (DOPEN_SEEKSTART + DOPEN_KEEP_BUFFERS)]
         else [])
      else [])"

lemma descriptor_read_calls:
  assumes r: "reader_at ar L (reader d) c t" and b: "read_bounded read" and "fd d > 0"
    and p: "pull read (if size_hint = 0 then DLOG_READ_BUF_SZ else size_hint) k (DYNSTR_USABLE_SIZE DLOG_READ_MAX_CHUNK) = (data, ret, again, k')"
    and c: "cut_lines c (t @ data) = (ls, u)" and e: "eval_lines eval (map nul_cut ls) s = Some s'"
  shows "\<exists>lr ar'. descriptor_read dynstr_arena read None eval ar d size_hint k s = Some (d\<lparr>reader := lr\<rparr>, read_calls d ret again, ar', k', s')
     \<and> reader_at ar' (insert (ptr (buf lr)) (L - {ptr (buf (reader d))})) lr (length u) u
     \<and> (\<forall>q \<in> L - {ptr (buf (reader d))}. block_size ar' q = block_size ar q)"
proof -
  let ?rs = "if size_hint = 0 then DLOG_READ_BUF_SZ else size_hint"
  obtain r1 ar1 where l: "read_loop dynstr_arena read ?rs ar (reader d) k (DYNSTR_USABLE_SIZE DLOG_READ_MAX_CHUNK) = Some (ret, again, r1, ar1, k')"
    "reader_at ar1 (insert (ptr (buf r1)) (L - {ptr (buf (reader d))})) r1 c (t @ data)" "arena_moves ar L (buf (reader d)) ar1 (buf r1)"
    using da.read_loop_ok[OF b r p] by blast
  obtain r2 ar2 where n: "read_lines dynstr_arena eval ar1 r1 s = Some (r2, ar2, s')"
    "reader_at ar2 (insert (ptr (buf r1)) (L - {ptr (buf (reader d))})) r2 (length u) u" "ptr (buf r2) = ptr (buf r1)"
    "\<forall>q \<in> insert (ptr (buf r1)) (L - {ptr (buf (reader d))}). block_size ar2 q = block_size ar1 q"
    using da.read_lines_ok[OF c l(2) e] by blast
  have "\<forall>q \<in> L - {ptr (buf (reader d))}. block_size ar2 q = block_size ar q" using n(4) l(3) by (auto simp: moves_def)
  with l(1) n(1,2,3) assms(3) show ?thesis by (auto simp: descriptor_read_def read_calls_def Let_def)
qed

lemma descriptor_read_ok:
  assumes r: "reader_at ar L (reader d) c t" and b: "read_bounded read" and "fd d > 0"
    and p: "pull read (if size_hint = 0 then DLOG_READ_BUF_SZ else size_hint) k (DYNSTR_USABLE_SIZE DLOG_READ_MAX_CHUNK) = (data, ret, again, k')"
    and c: "cut_lines c (t @ data) = (ls, u)" and e: "eval_lines eval (map nul_cut ls) s = Some s'"
  shows "\<exists>lr calls ar'. descriptor_read dynstr_arena read None eval ar d size_hint k s = Some (d\<lparr>reader := lr\<rparr>, calls, ar', k', s')
     \<and> reader_at ar' (insert (ptr (buf lr)) (L - {ptr (buf (reader d))})) lr (length u) u
     \<and> (\<forall>q \<in> L - {ptr (buf (reader d))}. block_size ar' q = block_size ar q)
     \<and> (Desc_Pending_Add (fd d) \<in> set calls \<longleftrightarrow> again) \<and> (Desc_Pending_Remove (fd d) \<in> set calls \<longleftrightarrow> ret = 0)"
proof -
  have "Desc_Pending_Add (fd d) \<in> set (read_calls d ret again) \<longleftrightarrow> again" "Desc_Pending_Remove (fd d) \<in> set (read_calls d ret again) \<longleftrightarrow> ret = 0"
    by (auto simp: read_calls_def)
  with descriptor_read_calls[OF assms] show ?thesis by blast
qed


text \<open>A kernel that answers as scripted, and then would block.\<close>

fun scripted :: "read_result list kernel_read" where
  "scripted [] n = (Read_Error, [])"
| "scripted (Read_Error # k) n = (Read_Error, k)"
| "scripted (Read_Bytes x # k) n = (Read_Bytes (take (nat n) x), k)"

lemma scripted_bounded: "read_bounded scripted"
proof -
  have "scripted k n = (Read_Bytes bs, k') \<Longrightarrow> int (length bs) \<le> max 0 n" for k n bs k'
    by (cases "(k, n)" rule: scripted.cases) auto
  then show ?thesis by (simp add: read_bounded_def)
qed

lemma pull_scripted:
  assumes "x \<noteq> []" and "length x \<le> nat n" and "int (length x) < mc"
  shows "pull scripted n (Read_Bytes x # Read_Error # k) mc = (x, - 1, False, k)"
  using assms by (simp add: pull.simps[of scripted n "Read_Bytes x # _"] pull.simps[of scripted n "Read_Error # _"])

text \<open>A fresh descriptor whose reader holds \<open>t\<close>.\<close>

definition file_desc :: "linereader \<Rightarrow> descriptor" where
  "file_desc r = \<lparr>d_state = DSTATE_ACTIVE, d_type = D_FILER, fd = 3, reader = r, wqueue = wq_new, post_line_write = False\<rparr>"

lemma usable_chunk: "4000 < DYNSTR_USABLE_SIZE DLOG_READ_MAX_CHUNK"
  by (simp add: DYNSTR_USABLE_SIZE_def DLOG_READ_MAX_CHUNK_def sizeof_dynstr_def)


text \<open>A newline that arrives in a read of its own, after the text of its line was already scanned, is taken for an empty
  line: the line is not evaluated, and when the next line is complete both are evaluated as one.\<close>

theorem lone_newline_glues_lines:
  assumes "reader_at ar L (reader d) (length w) w" and "w \<noteq> []" and "NL \<notin> set w" and "v \<noteq> []" and "NL \<notin> set v"
    and "read_bounded read" and "fd d > 0"
    and "pull read DLOG_READ_BUF_SZ k (DYNSTR_USABLE_SIZE DLOG_READ_MAX_CHUNK) = ([NL], r1, a1, k1)"
    and "pull read DLOG_READ_BUF_SZ k1 (DYNSTR_USABLE_SIZE DLOG_READ_MAX_CHUNK) = (v @ [NL], r2, a2, k2)"
    and "eval (nul_cut (w @ [NL] @ v @ [NL])) s = Some s'"
  shows "\<exists>lr1 calls1 ar1 lr2 calls2 ar2.
       descriptor_read dynstr_arena read None eval ar d 0 k s = Some (d\<lparr>reader := lr1\<rparr>, calls1, ar1, k1, s)
     \<and> descriptor_read dynstr_arena read None eval ar1 (d\<lparr>reader := lr1\<rparr>) 0 k1 s = Some (d\<lparr>reader := lr2\<rparr>, calls2, ar2, k2, s')"
proof -
  let ?t = "w @ [NL]"
  have sk: "skip_nl (length w) ?t = length ?t" by (simp add: skip_nl_def)
  have c1: "cut_lines (length w) ?t = ([], ?t)" by (simp add: cut_lines.simps[of "length w"] next_line_def sk)
  obtain x xs where v: "v = x # xs" "x \<noteq> NL" using assms(4,5) by (cases v) auto
  have sk2: "skip_nl (length ?t) (?t @ v @ [NL]) = length ?t" using v by (simp add: skip_nl_def)
  have "find_char NL (v @ [NL]) = Some (length v)" using find_char_append[OF assms(5), of "[]"] by simp
  then have "next_line (length ?t) (?t @ v @ [NL]) = Some (?t @ v @ [NL], [])" unfolding next_line_def sk2 by simp
  moreover have "cut_lines 0 [] = ([], [])" by code_simp
  ultimately have c2: "cut_lines (length ?t) (?t @ v @ [NL]) = ([?t @ v @ [NL]], [])"
    by (simp add: cut_lines.simps[of _ "_ @ _"])
  obtain lr1 calls1 ar1 where s1: "descriptor_read dynstr_arena read None eval ar d 0 k s = Some (d\<lparr>reader := lr1\<rparr>, calls1, ar1, k1, s)"
    "reader_at ar1 (insert (ptr (buf lr1)) (L - {ptr (buf (reader d))})) lr1 (length ?t) ?t"
    using descriptor_read_ok[OF assms(1,6,7), of 0 k "[NL]" r1 a1 k1 "[]" ?t eval s s] assms(8) c1 by auto
  from descriptor_read_ok[of ar1 _ "d\<lparr>reader := lr1\<rparr>" "length ?t" ?t read 0 k1 "v @ [NL]" r2 a2 k2 "[?t @ v @ [NL]]" "[]" eval s s']
    s1 assms(6,7,9,10) c2 show ?thesis by fastforce
qed

theorem lone_newline_glues_lines_witness:
  "\<exists>ar L r lr1 calls1 ar1 lr2 calls2 ar2. reader_at ar L r 2 ''ab''
     \<and> descriptor_read dynstr_arena scripted None (\<lambda>t s. Some (s @ [t])) ar (file_desc r) 0
         [Read_Bytes [NL], Read_Error, Read_Bytes (''cd'' @ [NL]), Read_Error] []
       = Some ((file_desc r)\<lparr>reader := lr1\<rparr>, calls1, ar1, [Read_Bytes (''cd'' @ [NL]), Read_Error], [])
     \<and> descriptor_read dynstr_arena scripted None (\<lambda>t s. Some (s @ [t])) ar1 ((file_desc r)\<lparr>reader := lr1\<rparr>) 0
         [Read_Bytes (''cd'' @ [NL]), Read_Error] []
       = Some ((file_desc r)\<lparr>reader := lr2\<rparr>, calls2, ar2, [], [''ab'' @ [NL] @ ''cd'' @ [NL]])"
proof -
  obtain ar L r where r: "reader_at ar L r 2 ''ab''" using reader_exists[of "''ab''" 2] by auto
  have p: "pull scripted DLOG_READ_BUF_SZ [Read_Bytes [NL], Read_Error, Read_Bytes (''cd'' @ [NL]), Read_Error]
      (DYNSTR_USABLE_SIZE DLOG_READ_MAX_CHUNK) = ([NL], - 1, False, [Read_Bytes (''cd'' @ [NL]), Read_Error])"
    "pull scripted DLOG_READ_BUF_SZ [Read_Bytes (''cd'' @ [NL]), Read_Error]
      (DYNSTR_USABLE_SIZE DLOG_READ_MAX_CHUNK) = (''cd'' @ [NL], - 1, False, [])"
    using usable_chunk by (subst pull_scripted; auto simp: DLOG_READ_BUF_SZ_def)+
  have e: "(\<lambda>t s. Some (s @ [t])) (nul_cut (''ab'' @ [NL] @ ''cd'' @ [NL])) [] = Some [''ab'' @ [NL] @ ''cd'' @ [NL]]" by code_simp
  have d: "reader_at ar L (reader (file_desc r)) (length ''ab'') ''ab''" "fd (file_desc r) > 0" using r by (simp_all add: file_desc_def numeral_2_eq_2)
  have "''ab'' \<noteq> []" "NL \<notin> set ''ab''" "''cd'' \<noteq> []" "NL \<notin> set ''cd''" by auto
  from lone_newline_glues_lines[where eval = "\<lambda>t s. Some (s @ [t])", OF d(1) this scripted_bounded d(2) p e] r show ?thesis by blast
qed

lemma write_delivers:
  assumes "queue_at ar L \<sigma> (wqueue d) ps ts" and "\<forall>t \<in> set ts. t \<noteq> []" and "length ps < DLOG_WRITE_HIGH_WM"
    and "\<sigma> p = Some x" and "ptr x = p" and "dyn_at ar L x t" and "p \<notin> set ps"
    and "d_state d = DSTATE_ACTIVE"
    and "writev (concat ts @ ended t)
       = Written (int (length (concat ts @ ended t)))"
  shows "\<exists>wq' ar' \<sigma>'. descriptor_write_direct dynstr_arena writev ar \<sigma> d (Some p) = Some (d\<lparr>wqueue := wq'\<rparr>,
       if post_line_write d then [Post_Line_Write (int (length (concat ts @ ended t))) 0] else [], ar', \<sigma>')
     \<and> queue_at ar' (L - insert p (set ps)) \<sigma>' wq' [] []"
proof -
  obtain p' wq1 c ar1 s1 where a: "end_line dynstr_arena ar \<sigma> p = Some (p', ar1, s1)" "wq_add_line (wqueue d) p' = Some (c, wq1)"
    "queue_at ar1 (insert p' (L - {p})) s1 wq1 (ps @ [p']) (ts @ [ended t])"
    using da.end_add_ok[OF assms(1), of p x t] assms(3-7) by auto
  define u where "u = ts @ [ended t]"
  have len: "length (ps @ [p']) = length u"
    using assms(1) by (auto simp: u_def queue_in_def lines_in_def dest: list_all2_lengthD)
  have u: "u \<noteq> []" "\<forall>t \<in> set u. t \<noteq> []" "concat (u @ []) = concat ts @ ended t" using assms(2) by (auto simp: u_def)
  have "writev (concat (u @ [])) = Written (int (length (concat u)))" using assms(9) u(3) by simp
  with da.write_lines_step[of ar1 "insert p' (L - {p})" s1 wq1 "ps @ [p']" "[]" u "[]" writev] a(3)[folded u_def] len u(1,2) obtain wq2 ar2 where
    w: "wq_write dynstr_arena writev ar1 s1 wq1 = Some (int (length (concat u)), 0, wq2, ar2, s1 |` (- set (ps @ [p'])))"
    "arena_ok ar2 (insert p' (L - {p}) - set (ps @ [p']))" "wq_holds wq2 []" by auto
  have inact: "\<not> (dstate_bits (d_state d) AND NOT (dstate_bits DSTATE_PENDING OR dstate_bits DSTATE_ACTIVE) \<noteq> 0)"
    unfolding inactive_bits using assms(8) by simp
  have "p' = p \<or> p' \<notin> L" using da.end_line_ok[of \<sigma> p x ar L t] assms(4-6) a(1) by auto
  moreover have "p \<in> L" using assms(5,6) by (auto simp: str_in_def)
  ultimately have L: "insert p' (L - {p}) - set (ps @ [p']) = L - insert p (set ps)" by auto
  have "queue_at ar2 (L - insert p (set ps)) (s1 |` (- set (ps @ [p']))) wq2 [] []" using w(2,3) L by (simp add: queue_in_def)
  moreover have "length (concat u) = length (concat ts @ ended t)" using u(3) by simp
  ultimately show ?thesis using a(1,2) w(1) inact by (auto simp: descriptor_write_direct_def)
qed

text \<open>Writing a line to an active descriptor whose \<^verbatim>\<open>writev\<close> takes everything hands over all that was queued before and
  then the line, ended by exactly one newline, and leaves the queue empty and the strings released.\<close>

theorem descriptor_write_delivers:
  assumes "queue_at ar L \<sigma> (wqueue d) ps ts" and "\<forall>t \<in> set ts. t \<noteq> []" and "length ps < DLOG_WRITE_HIGH_WM"
    and "\<sigma> p = Some x" and "ptr x = p" and "dyn_at ar L x t" and "p \<notin> set ps"
    and "d_state d = DSTATE_ACTIVE" and "\<not> post_line_write d"
    and "writev (concat ts @ ended t)
       = Written (int (length (concat ts @ ended t)))"
  shows "\<exists>wq' ar' \<sigma>'. descriptor_write_direct dynstr_arena writev ar \<sigma> d (Some p) = Some (d\<lparr>wqueue := wq'\<rparr>, [], ar', \<sigma>')
     \<and> queue_at ar' (L - insert p (set ps)) \<sigma>' wq' [] []"
  using write_delivers[OF assms(1-8), of writev] assms(9,10) by simp

theorem descriptor_write_delivers_witness:
  "\<exists>r ar L x wq' ar' \<sigma>'. dyn_at ar L x ''hi''
     \<and> descriptor_write_direct dynstr_arena (\<lambda>s. if s = ''hi'' @ [NL] then Written 3 else WouldBlock) ar [ptr x \<mapsto> x]
         (file_desc r) (Some (ptr x)) = Some ((file_desc r)\<lparr>wqueue := wq'\<rparr>, [], ar', \<sigma>')
     \<and> num_entries wq' = 0"
proof -
  obtain r :: linereader where "r = r" by simp
  obtain ar L x y where x: "dyn_at ar L x ''hi''" using two_strings_exist[of "''hi''" "[]"] by auto
  have "queue_at ar L [ptr x \<mapsto> x] (wqueue (file_desc r)) [] []"
    using da.own_inv[OF x] by (simp add: queue_in_def wq_new_holds file_desc_def)
  from descriptor_write_delivers[OF this _ _ _ refl x, of "\<lambda>s. if s = ''hi'' @ [NL] then Written 3 else WouldBlock"] obtain wq' ar' \<sigma>' where
    "descriptor_write_direct dynstr_arena (\<lambda>s. if s = ''hi'' @ [NL] then Written 3 else WouldBlock) ar [ptr x \<mapsto> x]
       (file_desc r) (Some (ptr x)) = Some ((file_desc r)\<lparr>wqueue := wq'\<rparr>, [], ar', \<sigma>')" "num_entries wq' = 0"
    by (auto simp: file_desc_def DLOG_WRITE_HIGH_WM_def queue_in_def wq_holds_def ended_def)
  with x show ?thesis by blast
qed

text \<open>When 32 lines are already waiting, one more line is dropped without notice: the queue stays as it is, and the
  string of the line, which nothing refers to any more, stays allocated.\<close>

theorem descriptor_write_drops:
  assumes "queue_at ar L \<sigma> (wqueue d) ps ts" and "length ps = DLOG_WRITE_HIGH_WM"
    and "\<sigma> p = Some x" and "ptr x = p" and "dyn_at ar L x t" and "p \<notin> set ps"
    and "writev (concat ts) = WouldBlock" and "d_state d = DSTATE_PENDING \<or> d_state d = DSTATE_ACTIVE"
  shows "\<exists>p' wq' ar' \<sigma>'. descriptor_write_direct dynstr_arena writev ar \<sigma> d (Some p) = Some (d\<lparr>wqueue := wq'\<rparr>, [], ar', \<sigma>')
     \<and> queue_at ar' (insert p' (L - {p})) \<sigma>' wq' ps ts \<and> p' \<notin> set ps"
proof -
  obtain p' c ar1 s1 where a: "end_line dynstr_arena ar \<sigma> p = Some (p', ar1, s1)" "wq_add_line (wqueue d) p' = Some (c, wqueue d)"
    "queue_at ar1 (insert p' (L - {p})) s1 (wqueue d) ps ts"
    using da.end_add_ok[OF assms(1), of p x t] assms(2-6) by auto
  have "ps \<noteq> []" using assms(2) by (auto simp: DLOG_WRITE_HIGH_WM_def)
  with da.write_blocked[OF a(3), of writev] assms(7) obtain wq' where
    w: "wq_write dynstr_arena writev ar1 s1 (wqueue d) = Some (- 1, 0, wq', ar1, s1)" "queue_at ar1 (insert p' (L - {p})) s1 wq' ps ts"
    by blast
  have inact: "\<not> (dstate_bits (d_state d) AND NOT (dstate_bits DSTATE_PENDING OR dstate_bits DSTATE_ACTIVE) \<noteq> 0)"
    unfolding inactive_bits using assms(8) by auto
  have "p' = p \<or> p' \<notin> L" using da.end_line_ok[of \<sigma> p x ar L t] assms(3-5) a(1) by auto
  moreover have "set ps \<subseteq> L" using da.lined_set[of ar L \<sigma> ps ts] assms(1) by (auto simp: queue_in_def)
  ultimately have "p' \<notin> set ps" using assms(6) by auto
  then show ?thesis using a(1,2) w inact by (auto simp: descriptor_write_direct_def)
qed

text \<open>A queue of any length up to the limit, and a string that is not in it.\<close>

lemma queue_of:
  assumes "n \<le> DLOG_WRITE_HIGH_WM"
  shows "\<exists>ar L \<sigma> wq ps. queue_at ar L \<sigma> wq ps (replicate n ''a'') \<and> length ps = n"
  using assms
proof (induction n)
  case 0
  obtain ar where "arena_ok ar {}" using dynstr_arena_exists by blast
  then have "queue_at ar {} (\<lambda>_. None) wq_new [] []" by (simp add: queue_in_def wq_new_holds)
  then show ?case by auto
next
  case (Suc n)
  then obtain ar L \<sigma> wq ps where q: "queue_at ar L \<sigma> wq ps (replicate n ''a'')" "length ps = n" by auto
  obtain x \<sigma>' ar' where x: "queue_at ar' (insert (ptr x) L) \<sigma>' wq ps (replicate n ''a'')" "\<sigma>' (ptr x) = Some x"
    "dyn_at ar' (insert (ptr x) L) x ''a''" "ptr x \<notin> set ps" using queue_beside[OF q(1), of "''a''"] by auto
  from da.add_line_queued[OF x(1,2) refl x(3,4)] q(2) Suc.prems obtain wq' where
    "queue_at ar' (insert (ptr x) L) \<sigma>' wq' (ps @ [ptr x]) (replicate n ''a'' @ [''a''])" by auto
  then show ?case using q(2) by (metis length_append_singleton replicate_Suc replicate_append_same)
qed

theorem descriptor_write_drops_witness:
  "\<exists>r ar L \<sigma> wq ps x p' wq' ar' \<sigma>'. queue_at ar L \<sigma> wq ps (replicate 32 ''a'') \<and> \<sigma> (ptr x) = Some x \<and> dyn_rep x ''b''
     \<and> descriptor_write_direct dynstr_arena (\<lambda>_. WouldBlock) ar \<sigma> ((file_desc r)\<lparr>wqueue := wq\<rparr>) (Some (ptr x))
       = Some ((file_desc r)\<lparr>wqueue := wq'\<rparr>, [], ar', \<sigma>')
     \<and> queue_at ar' (insert p' (L - {ptr x})) \<sigma>' wq' ps (replicate 32 ''a'')"
proof -
  obtain r :: linereader where "r = r" by simp
  obtain ar L \<sigma> wq ps where q: "queue_at ar L \<sigma> wq ps (replicate 32 ''a'')" "length ps = DLOG_WRITE_HIGH_WM"
    using queue_of[of 32] by (auto simp: DLOG_WRITE_HIGH_WM_def)
  obtain x \<sigma>' ar' where x: "queue_at ar' (insert (ptr x) L) \<sigma>' wq ps (replicate 32 ''a'')" "\<sigma>' (ptr x) = Some x"
    "dyn_at ar' (insert (ptr x) L) x ''b''" "ptr x \<notin> set ps" using queue_beside[OF q(1), of "''b''"] by auto
  let ?d = "(file_desc r)\<lparr>wqueue := wq\<rparr>"
  have w: "wqueue ?d = wq" "d_state ?d = DSTATE_PENDING \<or> d_state ?d = DSTATE_ACTIVE" by (simp_all add: file_desc_def)
  have rep: "dyn_rep x ''b''" using x(3) by (simp add: str_in_def)
  obtain p' wq' ar'' \<sigma>'' where "descriptor_write_direct dynstr_arena (\<lambda>_. WouldBlock) ar' \<sigma>' ?d (Some (ptr x)) = Some (?d\<lparr>wqueue := wq'\<rparr>, [], ar'', \<sigma>'')"
    "queue_at ar'' (insert p' (insert (ptr x) L - {ptr x})) \<sigma>'' wq' ps (replicate 32 ''a'')"
    using descriptor_write_drops[of ar' "insert (ptr x) L" \<sigma>' ?d, unfolded w(1), OF x(1) q(2) x(2) refl x(3,4), of "\<lambda>_. WouldBlock"] w(2) by blast
  then have "descriptor_write_direct dynstr_arena (\<lambda>_. WouldBlock) ar' \<sigma>' ?d (Some (ptr x)) = Some ((file_desc r)\<lparr>wqueue := wq'\<rparr>, [], ar'', \<sigma>'')
    \<and> queue_at ar'' (insert p' (insert (ptr x) L - {ptr x})) \<sigma>'' wq' ps (replicate 32 ''a'')" by simp
  with x(1,2) rep show ?thesis by blast
qed

end
