(* ===== verification/Handover.thy ===== *)
theory Handover
  imports Descriptor_IO
begin

text \<open>
  The hand-over of open descriptors to a new binary: \<^verbatim>\<open>fdxfer_send\<close> packs the symbol, the type and the unread text of a
  descriptor into a message, \<^verbatim>\<open>fdxfer_open_recv\<close> collects the messages, \<^verbatim>\<open>main\<close> attaches them to the origins of the
  configuration, and \<^verbatim>\<open>open_descriptor\<close> sets up the reader from them. The socket itself is not modelled: what
  \<^verbatim>\<open>recvmsg\<close> returns is a list of results.
\<close>

section \<open>Messages\<close>

record xfer_msg =
  in_fd :: int
  desc_type :: dtype
  buf_idx :: int
  buf_len :: int
  xbytes :: string

definition sizeof_xfer_msg :: int where "sizeof_xfer_msg = 24"

text \<open>The buffer is zeroed and has room for the two strings and their NULs; \<^verbatim>\<open>stpcpy\<close> copies the reader's text up to its
  first NUL. The file descriptor travels in the control message, \<^verbatim>\<open>in_fd\<close> is zero.\<close>

definition fdxfer_send :: "dtype \<Rightarrow> string \<Rightarrow> linereader \<Rightarrow> xfer_msg option" where
  "fdxfer_send ty symbol r = do {
     t \<leftarrow> buf_cstr (str (fst (reader_raw_buffer r)));
     let strlen = int (length symbol) + dynstr_len (fst (reader_raw_buffer r)) + 2;
     let b = symbol @ NUL # t @ [NUL];
     if int (length b) \<le> strlen then
       Some \<lparr>in_fd = 0, desc_type = ty, buf_idx = snd (reader_raw_buffer r), buf_len = strlen,
         xbytes = b @ replicate (nat strlen - length b) NUL\<rparr>
     else None
   }"

section \<open>Receiving\<close>

text \<open>The growing array of messages: the allocated slots, their number in use and the capacity.\<close>

record msg_array =
  recv_msg_bufs :: "xfer_msg option list"
  nmsg :: nat
  capmsg :: nat

definition no_msgs :: msg_array where
  "no_msgs = \<lparr>recv_msg_bufs = [], nmsg = 0, capmsg = 16\<rparr>"

definition add_new_msg :: "msg_array \<Rightarrow> xfer_msg \<Rightarrow> msg_array option" where
  "add_new_msg a msg =
     (let a = (if recv_msg_bufs a = [] then a\<lparr>recv_msg_bufs := replicate (capmsg a) None\<rparr> else a);
          a = (if nmsg a = capmsg a
               then a\<lparr>capmsg := capmsg a * 2,
                      recv_msg_bufs := recv_msg_bufs a @ replicate (capmsg a * 2 - length (recv_msg_bufs a)) None\<rparr> else a)
      in if nmsg a < length (recv_msg_bufs a)
         then Some (a\<lparr>recv_msg_bufs := (recv_msg_bufs a)[nmsg a := Some msg], nmsg := nmsg a + 1\<rparr>) else None)"

text \<open>What \<^verbatim>\<open>recvmsg\<close> returns: the end of the connection, a failure, or a number of bytes with the message and the control
  header's level, type and descriptor.\<close>

datatype recv_result = Recv_Closed | Recv_Failed | Recv_Msg int xfer_msg bool bool int

text \<open>The loop; \<open>None\<close> while it still waits, or after a fault.\<close>

fun recv_loop :: "recv_result list \<Rightarrow> msg_array \<Rightarrow> (int \<times> msg_array) option" where
  "recv_loop [] a = None"
| "recv_loop (Recv_Closed # rs) a = Some (0, a)"
| "recv_loop (Recv_Failed # rs) a = Some (- 1, a)"
| "recv_loop (Recv_Msg r msg sol_socket scm_rights newfd # rs) a =
     (if r < sizeof_xfer_msg + buf_len msg then recv_loop rs a
      else if \<not> sol_socket \<or> \<not> scm_rights then recv_loop rs a
      else (case add_new_msg a (msg\<lparr>in_fd := newfd\<rparr>) of None \<Rightarrow> None | Some a' \<Rightarrow> recv_loop rs a'))"

definition msgs_of :: "msg_array \<Rightarrow> xfer_msg list" where
  "msgs_of a = map the (take (nmsg a) (recv_msg_bufs a))"

section \<open>Attaching messages to origins\<close>

record dorigin =
  or_type :: dtype
  or_symbol :: string
  inh_buffer :: "string option"
  inh_idx :: int
  inh_fd :: int

definition DLOG_CLIENT_SOCKET_SYM :: string where "DLOG_CLIENT_SOCKET_SYM = ''TCP_SOCKET''"

definition c_string :: "string \<Rightarrow> string" where
  "c_string s = takeWhile (\<lambda>c. c \<noteq> NUL) s"

definition msg_symbol :: "xfer_msg \<Rightarrow> string" where
  "msg_symbol m = c_string (xbytes m)"

definition msg_text :: "xfer_msg \<Rightarrow> string" where
  "msg_text m = c_string (drop (Suc (length (msg_symbol m))) (xbytes m))"

fun set_inherited :: "xfer_msg \<Rightarrow> 'a dorigin_scheme list \<Rightarrow> 'a dorigin_scheme list" where
  "set_inherited m [] = []"
| "set_inherited m (x # xs) =
     (if msg_symbol m = or_symbol x \<and> or_type x = desc_type m
      then x\<lparr>inh_buffer := Some (msg_text m), inh_idx := buf_idx m, inh_fd := in_fd m\<rparr> # xs
      else x # set_inherited m xs)"

text \<open>A client socket is not in the configuration: it gets an origin of its own.\<close>

definition import_msg :: "xfer_msg \<Rightarrow> dorigin list \<Rightarrow> dorigin list" where
  "import_msg m os =
     (if msg_symbol m = DLOG_CLIENT_SOCKET_SYM
      then \<lparr>or_type = D_SOCKETR, or_symbol = msg_symbol m, inh_buffer = Some (msg_text m), inh_idx = buf_idx m, inh_fd = in_fd m\<rparr> # os
      else set_inherited m os)"

section \<open>The reader of a newly opened descriptor\<close>

text \<open>The parts of \<^verbatim>\<open>open_descriptor\<close> that concern the reader: making it, and, once the descriptor is open, emptying it
  unless the buffers are to be kept.\<close>

definition DOPEN_NOFLAGS :: int where "DOPEN_NOFLAGS = 0"

definition open_new_reader :: "'h allocator \<Rightarrow> 'h \<Rightarrow> dorigin \<Rightarrow> (linereader \<times> 'h) option" where
  "open_new_reader A h og = do {
     (r, h) \<leftarrow> reader_new A h;
     (case inh_buffer og of
        None \<Rightarrow> Some (r, h)
      | Some b \<Rightarrow> reader_reset_with_buffer A h r b (inh_idx og))
   }"

definition open_keep_reader :: "int \<Rightarrow> linereader \<Rightarrow> linereader option" where
  "open_keep_reader flags r = (if flags AND DOPEN_KEEP_BUFFERS = 0 then reader_reset r else Some r)"

section \<open>Lemmas\<close>

lemma c_string_cut: "NUL \<notin> set s \<Longrightarrow> c_string (s @ NUL # t) = s"
  by (auto simp: c_string_def takeWhile_append)

lemma send_text:
  assumes "dyn_rep (buf r) t" and "NUL \<notin> set t"
  shows "fdxfer_send ty s r = Some \<lparr>in_fd = 0, desc_type = ty, buf_idx = cur_idx r, buf_len = int (length s + length t + 2),
     xbytes = s @ NUL # t @ [NUL]\<rparr>"
proof -
  have "buf_cstr (map Some t @ Some NUL # rest) = Some t" for rest using assms(2) by (induction t) auto
  with assms(1) show ?thesis by (elim dyn_repE) (simp add: fdxfer_send_def reader_raw_buffer_def dynstr_len_def)
qed

text \<open>The array holds exactly the messages added.\<close>

definition array_ok :: "msg_array \<Rightarrow> xfer_msg list \<Rightarrow> bool" where
  "array_ok a ms \<longleftrightarrow> nmsg a = length ms \<and> nmsg a \<le> capmsg a \<and> 0 < capmsg a
     \<and> (if recv_msg_bufs a = [] then ms = [] else length (recv_msg_bufs a) = capmsg a \<and> take (nmsg a) (recv_msg_bufs a) = map Some ms)"

lemma no_msgs_ok: "array_ok no_msgs []"
  by (simp add: array_ok_def no_msgs_def)

lemma add_new_msg_ok:
  assumes "array_ok a ms"
  shows "\<exists>a'. add_new_msg a m = Some a' \<and> array_ok a' (ms @ [m])"
proof -
  have t: "take (Suc (length ms)) (xs[length ms := Some m]) = map Some (ms @ [m])"
    if "take (length ms) xs = map Some ms" "length ms < length xs" for xs
    using that by (simp add: take_Suc_conv_app_nth)
  show ?thesis
  proof (cases "recv_msg_bufs a = []")
    case True
    with assms t[of "replicate (capmsg a) None"] show ?thesis by (auto simp: add_new_msg_def array_ok_def Let_def)
  next
    case False
    with assms t[of "recv_msg_bufs a"] t[of "recv_msg_bufs a @ replicate (capmsg a) None"] show ?thesis
      by (auto simp: add_new_msg_def array_ok_def Let_def)
  qed
qed

text \<open>A complete message arrives with its descriptor.\<close>

abbreviation delivered :: "xfer_msg \<times> int \<Rightarrow> recv_result" where
  "delivered x \<equiv> Recv_Msg (sizeof_xfer_msg + buf_len (fst x)) (fst x) True True (snd x)"

lemma recv_loop_ok:
  "array_ok a ms \<Longrightarrow> \<exists>a'. recv_loop (map delivered xs @ Recv_Closed # rest) a = Some (0, a')
     \<and> array_ok a' (ms @ map (\<lambda>x. (fst x)\<lparr>in_fd := snd x\<rparr>) xs)"
proof (induction xs arbitrary: a ms)
  case (Cons x xs)
  obtain a1 where "add_new_msg a ((fst x)\<lparr>in_fd := snd x\<rparr>) = Some a1" "array_ok a1 (ms @ [(fst x)\<lparr>in_fd := snd x\<rparr>])"
    using add_new_msg_ok[OF Cons.prems] by blast
  with Cons.IH[OF this(2)] show ?case by auto
qed auto

lemma msgs_of_ok: "array_ok a ms \<Longrightarrow> msgs_of a = ms"
  by (auto simp: array_ok_def msgs_of_def comp_def split: if_splits)

lemma set_inherited_first:
  "\<forall>y \<in> set xs. \<not> (or_symbol y = msg_symbol m \<and> or_type y = desc_type m) \<Longrightarrow> or_symbol x = msg_symbol m \<Longrightarrow> or_type x = desc_type m \<Longrightarrow>
   set_inherited m (xs @ x # ys) = xs @ x\<lparr>inh_buffer := Some (msg_text m), inh_idx := buf_idx m, inh_fd := in_fd m\<rparr> # ys"
  by (induction xs) auto

lemma import_text:
  assumes "NUL \<notin> set s" and "NUL \<notin> set t" and "s \<noteq> DLOG_CLIENT_SOCKET_SYM"
    and "\<forall>y \<in> set xs. \<not> (or_symbol y = s \<and> or_type y = ty)" and "or_symbol x = s" and "or_type x = ty"
  shows "import_msg \<lparr>in_fd = newfd, desc_type = ty, buf_idx = k, buf_len = n, xbytes = s @ NUL # t @ [NUL]\<rparr> (xs @ x # ys) =
     xs @ x\<lparr>inh_buffer := Some t, inh_idx := k, inh_fd := newfd\<rparr> # ys"
proof -
  let ?m = "\<lparr>in_fd = newfd, desc_type = ty, buf_idx = k, buf_len = n, xbytes = s @ NUL # t @ [NUL]\<rparr>"
  have sym: "msg_symbol ?m = s" using c_string_cut[OF assms(1)] by (simp add: msg_symbol_def)
  have text_eq: "msg_text ?m = t" unfolding msg_text_def sym using c_string_cut[OF assms(2), of "[]"] by simp
  show ?thesis using set_inherited_first[of xs ?m x ys] assms(3-6) unfolding import_msg_def sym text_eq by simp
qed

section \<open>Properties\<close>

text \<open>C34: the receive loop ends when the sender closes the connection, and returns every complete message, with the
  descriptor that came with it, in the order sent, however many there are: the array grows as needed.\<close>

theorem fdxfer_recv_all:
  "\<exists>a. recv_loop (map delivered xs @ [Recv_Closed]) no_msgs = Some (0, a) \<and> msgs_of a = map (\<lambda>x. (fst x)\<lparr>in_fd := snd x\<rparr>) xs"
  using recv_loop_ok[OF no_msgs_ok, of xs "[]"] msgs_of_ok by fastforce

text \<open>What \<^verbatim>\<open>fdxfer_send\<close> packs, \<^verbatim>\<open>main\<close> unpacks: the first origin with the symbol and type of the descriptor gets
  exactly its unread text, its scan position and the descriptor; the other origins are untouched.\<close>

theorem handover_roundtrip:
  assumes "dyn_rep (buf r) t" and "NUL \<notin> set t" and "NUL \<notin> set s" and "s \<noteq> DLOG_CLIENT_SOCKET_SYM"
    and "\<forall>y \<in> set xs. \<not> (or_symbol y = s \<and> or_type y = ty)" and "or_symbol x = s" and "or_type x = ty"
  shows "\<exists>m. fdxfer_send ty s r = Some m
     \<and> import_msg (m\<lparr>in_fd := newfd\<rparr>) (xs @ x # ys) = xs @ x\<lparr>inh_buffer := Some t, inh_idx := cur_idx r, inh_fd := newfd\<rparr> # ys"
  using import_text[OF assms(3,2,4-7)] send_text[OF assms(1,2), of ty s] by simp

definition a_reader :: linereader where
  "a_reader = \<lparr>cur_idx = 2, buf = \<lparr>ptr = 16, len = 2, cap = 3, str = map Some ''ab'' @ [Some NUL]\<rparr>\<rparr>"

definition an_origin :: dorigin where
  "an_origin = \<lparr>or_type = D_FILER, or_symbol = ''LOG'', inh_buffer = None, inh_idx = 0, inh_fd = 0\<rparr>"

theorem handover_roundtrip_witness:
  "\<exists>m. fdxfer_send D_FILER ''LOG'' a_reader = Some m
     \<and> import_msg (m\<lparr>in_fd := 7\<rparr>) [an_origin] = [an_origin\<lparr>inh_buffer := Some ''ab'', inh_idx := 2, inh_fd := 7\<rparr>]"
  using handover_roundtrip[of a_reader "''ab''" "''LOG''" "[]" D_FILER an_origin 7 "[]"]
  by (simp add: a_reader_def an_origin_def dyn_rep_def DLOG_CLIENT_SOCKET_SYM_def)

text \<open>The text that was handed over is put into the reader of the new descriptor and then thrown away: \<^verbatim>\<open>main\<close> opens
  descriptors without \<^verbatim>\<open>DOPEN_KEEP_BUFFERS\<close>, and opening then empties the reader. The half line it held is lost.\<close>

theorem handover_text_lost:
  assumes "arena_ok ar L" and "inh_buffer og = Some t" and "NUL \<notin> set t" and "inh_idx og = int i" and "i \<le> length t"
  shows "\<exists>r ar' r'. open_new_reader dynstr_arena ar og = Some (r, ar') \<and> dyn_rep (buf r) t \<and> cur_idx r = int i
     \<and> open_keep_reader DOPEN_NOFLAGS r = Some r' \<and> dyn_rep (buf r') [] \<and> cur_idx r' = 0"
proof -
  obtain r1 ar1 where r1: "reader_new dynstr_arena ar = Some (r1, ar1)" "reader_at ar1 (insert (ptr (buf r1)) L) r1 0 []"
    using da.reader_new_ok[OF assms(1)] by blast
  obtain r2 ar2 where r2: "reader_reset_with_buffer dynstr_arena ar1 r1 t (int i) = Some (r2, ar2)"
    "dyn_rep (buf r2) t" "cur_idx r2 = int i"
    using da.reader_reset_with_buffer_ok[OF r1(2) assms(3,5)] by (auto simp: reader_in_def str_in_def)
  obtain b where "dynstr_reset (buf r2) = Some b" "dyn_rep b []" using dynstr_reset_ok[OF r2(2)] by blast
  with r1(1) r2 assms(2,4) show ?thesis
    by (simp add: open_new_reader_def open_keep_reader_def DOPEN_NOFLAGS_def reader_reset_def)
qed

theorem handover_text_lost_witness:
  "\<exists>ar r ar' r'. open_new_reader dynstr_arena ar (an_origin\<lparr>inh_buffer := Some ''ab'', inh_idx := 2\<rparr>) = Some (r, ar') \<and> dyn_rep (buf r) ''ab''
     \<and> open_keep_reader DOPEN_NOFLAGS r = Some r' \<and> dyn_rep (buf r') []"
proof -
  obtain ar where "arena_ok ar {}" using dynstr_arena_exists by blast
  from handover_text_lost[OF this, of "an_origin\<lparr>inh_buffer := Some ''ab'', inh_idx := 2\<rparr>" "''ab''" 2] show ?thesis
    by (auto simp: an_origin_def)
qed

end
