(* ===== verification/List_Interface.thy ===== *)
theory List_Interface
  imports Prelude
begin

text \<open>
  What the descriptor table expects of its list of active descriptors, the macros \<^verbatim>\<open>TAILQ_INSERT_TAIL\<close>, \<^verbatim>\<open>TAILQ_REMOVE\<close> and
  \<^verbatim>\<open>TAILQ_FOREACH\<close>. \<open>rep q xs\<close> says that \<open>q\<close> is a consistent list of the elements \<open>xs\<close>. Inserting an element that is already in
  the list, or removing one that is not, is outside the contract.
\<close>

locale member_list =
  fixes empty :: 'q
    and ins :: "'q \<Rightarrow> 'a \<Rightarrow> 'q option"
    and rem :: "'q \<Rightarrow> 'a \<Rightarrow> 'q option"
    and elems :: "'q \<Rightarrow> 'a list option"
    and rep :: "'q \<Rightarrow> 'a list \<Rightarrow> bool"
  assumes rep_empty: "rep empty []"
    and rep_distinct: "rep q xs \<Longrightarrow> distinct xs"
    and ins_law: "rep q xs \<Longrightarrow> x \<notin> set xs \<Longrightarrow> \<exists>q'. ins q x = Some q' \<and> rep q' (xs @ [x])"
    and rem_law: "rep q xs \<Longrightarrow> x \<in> set xs \<Longrightarrow> \<exists>q'. rem q x = Some q' \<and> rep q' (remove1 x xs)"
    and elems_law: "rep q xs \<Longrightarrow> elems q = Some xs"
begin

lemma rep_unique: "rep q xs \<Longrightarrow> rep q ys \<Longrightarrow> xs = ys"
  by (metis elems_law option.inject)

text \<open>An element that comes and goes leaves no trace.\<close>

lemma ins_rem:
  assumes "rep q xs" and "x \<notin> set xs"
  shows "\<exists>q' q''. ins q x = Some q' \<and> rem q' x = Some q'' \<and> elems q'' = Some xs"
proof -
  obtain q' where q': "ins q x = Some q'" "rep q' (xs @ [x])" using ins_law[OF assms] by blast
  obtain q'' where "rem q' x = Some q''" "rep q'' (remove1 x (xs @ [x]))" using rem_law[OF q'(2), of x] by auto
  with q'(1) assms(2) elems_law show ?thesis by (fastforce simp: remove1_append)
qed

text \<open>Any sequence of insertions of new elements is traversed in order.\<close>

fun ins_all :: "'q \<Rightarrow> 'a list \<Rightarrow> 'q option" where
  "ins_all q [] = Some q"
| "ins_all q (x # xs) = ins q x \<bind> (\<lambda>q'. ins_all q' xs)"

lemma ins_all_elems: "rep q ys \<Longrightarrow> distinct (ys @ xs) \<Longrightarrow> \<exists>q'. ins_all q xs = Some q' \<and> elems q' = Some (ys @ xs)"
proof (induction xs arbitrary: q ys)
  case Nil
  then show ?case by (simp add: elems_law)
next
  case (Cons x xs)
  then obtain q1 where "ins q x = Some q1" "rep q1 (ys @ [x])" using ins_law[of q ys x] by auto
  with Cons.IH[of q1 "ys @ [x]"] Cons.prems(2) show ?case by auto
qed

end

end
