(* ===== verification/Tailq.thy ===== *)
theory Tailq
  imports List_Interface
begin

text \<open>
  The tail queue of \<^verbatim>\<open>sys/queue.h\<close>, as the descriptor list uses it: every element has a pointer to the next one and a pointer
  to the place where the pointer to itself is stored, the head or the next field of its predecessor. Elements are
  numbered; an element that was never inserted has a null back pointer, since descriptors are zeroed.
\<close>

section \<open>Data and operations\<close>

datatype place = Head | Next nat

record tailq =
  tqh_first :: "nat option"
  tqh_last :: place
  tqe_next :: "nat \<Rightarrow> nat option"
  tqe_prev :: "nat \<Rightarrow> place option"

definition TAILQ_INIT :: tailq where
  "TAILQ_INIT = \<lparr>tqh_first = None, tqh_last = Head, tqe_next = (\<lambda>_. None), tqe_prev = (\<lambda>_. None)\<rparr>"

fun load :: "tailq \<Rightarrow> place \<Rightarrow> nat option" where
  "load q Head = tqh_first q"
| "load q (Next x) = tqe_next q x"

fun store :: "tailq \<Rightarrow> place \<Rightarrow> nat option \<Rightarrow> tailq" where
  "store q Head v = q\<lparr>tqh_first := v\<rparr>"
| "store q (Next x) v = q\<lparr>tqe_next := (tqe_next q)(x := v)\<rparr>"

definition TAILQ_INSERT_TAIL :: "tailq \<Rightarrow> nat \<Rightarrow> tailq option" where
  "TAILQ_INSERT_TAIL q x =
     (let q = q\<lparr>tqe_next := (tqe_next q)(x := None)\<rparr>;
          q = q\<lparr>tqe_prev := (tqe_prev q)(x := Some (tqh_last q))\<rparr>;
          q = store q (tqh_last q) (Some x)
      in Some (q\<lparr>tqh_last := Next x\<rparr>))"

definition TAILQ_REMOVE :: "tailq \<Rightarrow> nat \<Rightarrow> tailq option" where
  "TAILQ_REMOVE q x =
     (case tqe_prev q x of
        None \<Rightarrow> None
      | Some p \<Rightarrow>
          let q = (case tqe_next q x of
                     Some y \<Rightarrow> q\<lparr>tqe_prev := (tqe_prev q)(y := Some p)\<rparr>
                   | None \<Rightarrow> q\<lparr>tqh_last := p\<rparr>)
          in Some (store q p (tqe_next q x)))"

text \<open>\<^verbatim>\<open>TAILQ_FOREACH\<close>: the elements visited from a pointer on; it may not end.\<close>

partial_function (option) visit_from :: "tailq \<Rightarrow> nat option \<Rightarrow> nat list option" where
  "visit_from q cur =
     (case cur of None \<Rightarrow> Some [] | Some x \<Rightarrow> visit_from q (tqe_next q x) \<bind> (\<lambda>xs. Some (x # xs)))"

definition TAILQ_FOREACH :: "tailq \<Rightarrow> nat list option" where
  "TAILQ_FOREACH q = visit_from q (tqh_first q)"

section \<open>Consistent queues\<close>

text \<open>From the place \<open>p\<close> on, the pointers visit exactly \<open>xs\<close>, and the back pointers and the tail agree.\<close>

fun linked :: "tailq \<Rightarrow> place \<Rightarrow> nat list \<Rightarrow> bool" where
  "linked q p [] \<longleftrightarrow> load q p = None \<and> tqh_last q = p"
| "linked q p (x # xs) \<longleftrightarrow> load q p = Some x \<and> tqe_prev q x = Some p \<and> linked q (Next x) xs"

definition tq_rep :: "tailq \<Rightarrow> nat list \<Rightarrow> bool" where
  "tq_rep q xs \<longleftrightarrow> distinct xs \<and> linked q Head xs"

definition end_place :: "place \<Rightarrow> nat list \<Rightarrow> place" where
  "end_place p xs = (if xs = [] then p else Next (last xs))"

lemma end_place_simps [simp]: "end_place p [] = p" "end_place p (x # xs) = end_place (Next x) xs"
  by (auto simp: end_place_def)

lemma linked_end: "linked q p xs \<Longrightarrow> tqh_last q = end_place p xs \<and> load q (end_place p xs) = None"
  by (induction xs arbitrary: p) auto

text \<open>What the rest of the list reads is only its own pointers and the tail.\<close>

lemma linked_cong:
  assumes "linked q p xs" and "load q' p = load q p" and "tqh_last q' = tqh_last q"
    and "\<forall>x \<in> set xs. tqe_next q' x = tqe_next q x \<and> tqe_prev q' x = tqe_prev q x"
  shows "linked q' p xs"
  using assms by (induction xs arbitrary: p) auto

lemma linked_insert:
  assumes "linked q p xs" and "x \<notin> set xs" and "p \<noteq> Next x" and "p = Head \<or> (\<exists>y. p = Next y \<and> y \<notin> set xs)" and "distinct xs"
  shows "linked (the (TAILQ_INSERT_TAIL q x)) p (xs @ [x])"
  using assms
proof (induction xs arbitrary: p)
  case Nil
  then show ?case by (cases p) (auto simp: TAILQ_INSERT_TAIL_def Let_def)
next
  case (Cons y ys)
  let ?q = "the (TAILQ_INSERT_TAIL q x)"
  have l: "linked q (Next y) ys" using Cons.prems(1) by simp
  have e: "tqh_last q = end_place (Next y) ys" using linked_end[OF l] by simp
  have "tqh_last q \<noteq> p" using e Cons.prems(4) by (cases "ys = []") (auto simp: end_place_def)
  then have "load ?q p = load q p" using Cons.prems(3)
    by (cases p; cases "tqh_last q") (auto simp: TAILQ_INSERT_TAIL_def Let_def)
  moreover have "tqe_prev ?q y = tqe_prev q y" using Cons.prems(2)
    by (cases "tqh_last q") (auto simp: TAILQ_INSERT_TAIL_def Let_def)
  moreover have "linked ?q (Next y) (ys @ [x])" using Cons.IH[OF l] Cons.prems(2,5) by auto
  ultimately show ?case using Cons.prems(1) by simp
qed

lemma insert_total: "\<exists>q'. TAILQ_INSERT_TAIL q x = Some q'"
  by (simp add: TAILQ_INSERT_TAIL_def Let_def)

lemma linked_split:
  "linked q p (xs @ x # ys) \<Longrightarrow> tqe_prev q x = Some (end_place p xs) \<and> load q (end_place p xs) = Some x \<and> linked q (Next x) ys"
  by (induction xs arbitrary: p) auto

text \<open>The part of a list in front of an element.\<close>

fun chained :: "tailq \<Rightarrow> place \<Rightarrow> nat list \<Rightarrow> bool" where
  "chained q p [] \<longleftrightarrow> True"
| "chained q p (x # xs) \<longleftrightarrow> load q p = Some x \<and> tqe_prev q x = Some p \<and> chained q (Next x) xs"

lemma linked_append: "linked q p (xs @ ys) \<longleftrightarrow> chained q p xs \<and> linked q (end_place p xs) ys"
  by (induction xs arbitrary: p) auto

lemma chained_cong:
  assumes "chained q p xs" and "xs \<noteq> [] \<Longrightarrow> load q' p = load q p" and "\<forall>x \<in> set (butlast xs). tqe_next q' x = tqe_next q x"
    and "\<forall>x \<in> set xs. tqe_prev q' x = tqe_prev q x"
  shows "chained q' p xs"
  using assms by (induction xs arbitrary: p) (auto split: if_splits)

lemma end_place_notin: "distinct (xs @ ys) \<Longrightarrow> y \<in> set ys \<Longrightarrow> end_place Head xs \<noteq> Next y"
  by (cases xs rule: rev_cases) (auto simp: end_place_def)

lemma end_place_butlast: "distinct xs \<Longrightarrow> x \<in> set (butlast xs) \<Longrightarrow> end_place Head xs \<noteq> Next x"
  by (cases xs rule: rev_cases) (auto simp: end_place_def)

lemma load_store [simp]: "load (store q p v) p' = (if p' = p then v else load q p')"
  by (cases p; cases p') auto

lemma store_fields [simp]: "tqe_prev (store q p v) = tqe_prev q" "tqh_last (store q p v) = tqh_last q"
  by (cases p; simp)+

lemma next_store: "p \<noteq> Next x \<Longrightarrow> tqe_next (store q p v) x = tqe_next q x"
  by (cases p) auto

lemma load_fields [simp]:
  "load (q\<lparr>tqe_prev := f\<rparr>) p = load q p" "load (q\<lparr>tqh_last := r\<rparr>) p = load q p"
  by (cases p; simp)+

lemma linked_remove:
  assumes rep: "tq_rep q (xs @ x # ys)"
  shows "\<exists>q'. TAILQ_REMOVE q x = Some q' \<and> tq_rep q' (xs @ ys)"
proof -
  let ?p = "end_place Head xs"
  have d: "distinct (xs @ x # ys)" and c: "chained q Head xs" and lx: "linked q ?p (x # ys)"
    using rep by (auto simp: tq_rep_def linked_append)
  then have pv: "tqe_prev q x = Some ?p" and l: "linked q (Next x) ys" by auto
  let ?q = "case tqe_next q x of Some y \<Rightarrow> q\<lparr>tqe_prev := (tqe_prev q)(y := Some ?p)\<rparr> | None \<Rightarrow> q\<lparr>tqh_last := ?p\<rparr>"
  let ?q' = "store ?q ?p (tqe_next q x)"
  have r: "TAILQ_REMOVE q x = Some ?q'" by (auto simp: TAILQ_REMOVE_def pv Let_def split: option.split)
  have ld: "load ?q r = load q r" for r by (simp split: option.split)
  have nx: "tqe_next ?q y = tqe_next q y" for y by (simp split: option.split)
  have hd: "\<And>y. tqe_next q x = Some y \<Longrightarrow> \<exists>zs. ys = y # zs" using l by (cases ys) auto
  have "chained ?q' Head xs"
  proof (rule chained_cong[OF c])
    show "xs \<noteq> [] \<Longrightarrow> load ?q' Head = load q Head" using ld[of Head] by (auto simp: end_place_def)
    show "\<forall>y \<in> set (butlast xs). tqe_next ?q' y = tqe_next q y"
      using end_place_butlast[of xs] d by (auto simp: next_store nx)
    show "\<forall>y \<in> set xs. tqe_prev ?q' y = tqe_prev q y" using hd d by (auto split: option.split)
  qed
  moreover have "linked ?q' ?p ys"
  proof (cases ys)
    case Nil
    then have "tqe_next q x = None" using l by simp
    then show ?thesis using Nil by simp
  next
    case (Cons y zs)
    then have n: "tqe_next q x = Some y" and lz: "linked q (Next y) zs" using l by auto
    have pn: "?p \<noteq> Next z" if "z \<in> set ys" for z using end_place_notin[of xs ys z] d that by auto
    have "linked ?q' (Next y) zs"
    proof (rule linked_cong[OF lz])
      show "load ?q' (Next y) = load q (Next y)" using pn[of y] Cons by (simp add: n next_store)
      show "tqh_last ?q' = tqh_last q" by (simp add: n)
      show "\<forall>z \<in> set zs. tqe_next ?q' z = tqe_next q z \<and> tqe_prev ?q' z = tqe_prev q z"
        using pn d Cons by (auto simp: n next_store)
    qed
    then show ?thesis using Cons by (simp add: n)
  qed
  ultimately show ?thesis using r d by (auto simp: tq_rep_def linked_append)
qed

lemma visit_linked: "linked q p xs \<Longrightarrow> visit_from q (load q p) = Some xs"
proof (induction xs arbitrary: p)
  case Nil
  then show ?case by (simp add: visit_from.simps)
next
  case (Cons x xs)
  then have "load q p = Some x" "visit_from q (tqe_next q x) = Some xs" using Cons.IH[of "Next x"] by auto
  then show ?case by (subst visit_from.simps) simp
qed

interpretation tq: member_list TAILQ_INIT TAILQ_INSERT_TAIL TAILQ_REMOVE TAILQ_FOREACH tq_rep
proof unfold_locales
  show "tq_rep TAILQ_INIT []" by (simp add: tq_rep_def TAILQ_INIT_def)
next
  fix q xs x
  assume rep: "tq_rep q xs"
  show "distinct xs" using rep by (simp add: tq_rep_def)
  show "TAILQ_FOREACH q = Some xs" using visit_linked[of q Head xs] rep by (simp add: tq_rep_def TAILQ_FOREACH_def)
  show "x \<notin> set xs \<Longrightarrow> \<exists>q'. TAILQ_INSERT_TAIL q x = Some q' \<and> tq_rep q' (xs @ [x])"
    using linked_insert[of q Head xs x] rep insert_total[of q x] by (auto simp: tq_rep_def)
  assume "x \<in> set xs"
  then obtain as bs where s: "xs = as @ x # bs" "x \<notin> set as" by (meson split_list_first)
  then have "remove1 x xs = as @ bs" by (simp add: remove1_append)
  with linked_remove[of q as x bs] rep s(1) show "\<exists>q'. TAILQ_REMOVE q x = Some q' \<and> tq_rep q' (remove1 x xs)" by simp
qed

section \<open>Outside the contract\<close>

text \<open>An element whose next pointer leads to itself is visited forever.\<close>

lemma visit_self_loop: "tqe_next q x = Some x \<Longrightarrow> visit_from q (Some x) = None"
proof (rule ccontr)
  assume n: "tqe_next q x = Some x" and "visit_from q (Some x) \<noteq> None"
  then obtain xs where v: "visit_from q (Some x) = Some xs" by auto
  then have "visit_from q (Some x) = Some (x # xs)" by (subst visit_from.simps) (simp add: n)
  with v show False by simp
qed

lemma visit_reaches_loop:
  "chained q p xs \<Longrightarrow> load q (end_place p xs) = Some x \<Longrightarrow> tqe_next q x = Some x \<Longrightarrow> visit_from q (load q p) = None"
proof (induction xs arbitrary: p)
  case Nil
  then show ?case by (simp add: visit_self_loop)
next
  case (Cons y ys)
  then have "load q p = Some y" "visit_from q (tqe_next q y) = None" using Cons.IH[of "Next y"] by auto
  then show ?case by (subst visit_from.simps) simp
qed

text \<open>Inserting the last element once more links it to itself.\<close>

lemma insert_twice:
  assumes "tq_rep q (xs @ [x])"
  shows "\<exists>q'. TAILQ_INSERT_TAIL q x = Some q' \<and> TAILQ_FOREACH q' = None"
proof -
  have d: "distinct (xs @ [x])" and c: "chained q Head xs" and lx: "load q (end_place Head xs) = Some x" and e: "tqh_last q = Next x"
    using assms by (auto simp: tq_rep_def linked_append)
  let ?q = "the (TAILQ_INSERT_TAIL q x)"
  have q: "TAILQ_INSERT_TAIL q x = Some ?q" by (simp add: TAILQ_INSERT_TAIL_def Let_def)
  have f: "tqe_next ?q = (tqe_next q)(x := Some x)" "tqh_first ?q = tqh_first q" "\<And>y. y \<noteq> x \<Longrightarrow> tqe_prev ?q y = tqe_prev q y"
    by (auto simp: TAILQ_INSERT_TAIL_def Let_def e)
  have l: "load ?q p = load q p" if "p \<noteq> Next x" for p using that f(1,2) by (cases p) auto
  have "\<forall>y \<in> set xs. tqe_prev ?q y = tqe_prev q y" using d f(3) by (metis distinct_append disjoint_iff list.set_intros(1))
  then have "chained ?q Head xs"
    by (rule chained_cong[OF c, rotated 2]) (use d f l[of Head] in \<open>auto dest: in_set_butlastD\<close>)
  moreover have "load ?q (end_place Head xs) = Some x" using l[of "end_place Head xs"] lx end_place_notin[OF d, of x] by simp
  moreover have "tqe_next ?q x = Some x" by (simp add: f(1))
  ultimately have "visit_from ?q (load ?q Head) = None" by (rule visit_reaches_loop)
  with q show ?thesis by (auto simp: TAILQ_FOREACH_def)
qed

text \<open>Removing an element that was never inserted follows a null pointer.\<close>

lemma remove_never_inserted: "tqe_prev q x = None \<Longrightarrow> TAILQ_REMOVE q x = None"
  by (simp add: TAILQ_REMOVE_def)

end
