(* ===== verification/Pending.thy ===== *)
theory Pending
  imports Prelude
begin

text \<open>
  The table of pending reads of \<^verbatim>\<open>dlog.c\<close>: a hash table with 17 buckets from file descriptors to descriptors. A bucket is the chain of
  its elements in order; the first one is part of the table and every other one is a block of its own, with an address. Removing the first
  element moves the second one into its place and releases the block that it was in. An empty chain is a first element without a value.
\<close>

section \<open>Data\<close>

record pend_elem =
  pe_cell :: nat
  pe_fd :: int
  pe_desc :: nat

record pending =
  p_chain :: "nat \<Rightarrow> pend_elem list"
  p_next :: nat

text \<open>The address of the first element of a bucket is 0, those of the others are allocated in order.\<close>

definition no_pending :: pending where
  "no_pending = \<lparr>p_chain = (\<lambda>_. []), p_next = 1\<rparr>"

definition pend_buckets :: nat where "pend_buckets = 17"

definition pend_bucket :: "int \<Rightarrow> nat" where
  "pend_bucket n = nat (n mod 2 ^ 64) mod pend_buckets"

section \<open>Operations\<close>

fun pend_put :: "nat \<Rightarrow> int \<Rightarrow> nat \<Rightarrow> pend_elem list \<Rightarrow> pend_elem list" where
  "pend_put c n i [] = [\<lparr>pe_cell = c, pe_fd = n, pe_desc = i\<rparr>]"
| "pend_put c n i (el # els) = (if pe_fd el = n then el\<lparr>pe_desc := i\<rparr> # els else el # pend_put c n i els)"

definition desc_pending_add :: "int \<Rightarrow> nat \<Rightarrow> pending \<Rightarrow> pending" where
  "desc_pending_add n i p =
     (let b = pend_bucket n; els = p_chain p b in
      if els = [] then p\<lparr>p_chain := (p_chain p)(b := pend_put 0 n i [])\<rparr>
      else p\<lparr>p_chain := (p_chain p)(b := pend_put (p_next p) n i els), p_next := p_next p + 1\<rparr>)"

text \<open>Removing an element behind the first one releases it and then reads its next pointer: a fault. A first element with the key 0 is
  never taken to match.\<close>

definition desc_pending_remove :: "int \<Rightarrow> pending \<Rightarrow> pending option" where
  "desc_pending_remove n p =
     (let b = pend_bucket n in
      case p_chain p b of
        [] \<Rightarrow> Some p
      | el # els \<Rightarrow>
          if pe_fd el \<noteq> 0 \<and> pe_fd el = n then
            Some (p\<lparr>p_chain := (p_chain p)(b := (case els of [] \<Rightarrow> [] | e # es \<Rightarrow> e\<lparr>pe_cell := pe_cell el\<rparr> # es))\<rparr>)
          else if n \<in> pe_fd ` set els then None
          else Some p)"

section \<open>What the table holds\<close>

definition pend_of :: "pend_elem list \<Rightarrow> int \<rightharpoonup> nat" where
  "pend_of els = map_of (map (\<lambda>e. (pe_fd e, pe_desc e)) els)"

definition pending_desc :: "pending \<Rightarrow> int \<rightharpoonup> nat" where
  "pending_desc p n = pend_of (p_chain p (pend_bucket n)) n"

text \<open>Elements are in the bucket of their key, and no key is there twice.\<close>

definition pend_wf :: "pending \<Rightarrow> bool" where
  "pend_wf p \<longleftrightarrow> (\<forall>b. distinct (map pe_fd (p_chain p b)) \<and> (\<forall>e \<in> set (p_chain p b). pend_bucket (pe_fd e) = b))"

text \<open>At most one pending read in each bucket.\<close>

definition pend_flat :: "pending \<Rightarrow> bool" where
  "pend_flat p \<longleftrightarrow> (\<forall>b. length (p_chain p b) \<le> 1)"

lemma pend_bucket_less [simp]: "pend_bucket n < 17"
  by (simp add: pend_bucket_def pend_buckets_def)

lemma pend_of_put: "pend_of (pend_put c n i els) = (pend_of els)(n \<mapsto> i)"
  by (induction els) (auto simp: pend_of_def)

lemma set_pend_put: "pe_fd ` set (pend_put c n i els) = insert n (pe_fd ` set els)"
  by (induction els) auto

lemma distinct_pend_put: "distinct (map pe_fd els) \<Longrightarrow> distinct (map pe_fd (pend_put c n i els))"
proof (induction els)
  case (Cons el els)
  then show ?case using set_pend_put[of c n i els] by (auto simp flip: set_map simp del: list.set_map) 
qed simp

lemma add_chain:
  "p_chain (desc_pending_add n i p) b =
     (if b = pend_bucket n then pend_put (if p_chain p b = [] then 0 else p_next p) n i (p_chain p b) else p_chain p b)"
  by (simp add: desc_pending_add_def Let_def)

lemma pending_desc_add [simp]: "pending_desc (desc_pending_add n i p) = (pending_desc p)(n \<mapsto> i)"
  by (auto simp: pending_desc_def add_chain pend_of_put fun_eq_iff)

lemma pend_wf_add: "pend_wf p \<Longrightarrow> pend_wf (desc_pending_add n i p)"
  using set_pend_put[of _ n i] by (fastforce simp: pend_wf_def add_chain intro: distinct_pend_put)

lemma pending_desc_none: "pend_wf p \<Longrightarrow> b \<noteq> pend_bucket n \<Longrightarrow> pend_of (p_chain p b) n = None"
  by (auto simp: pend_wf_def pend_of_def map_of_eq_None_iff)

text \<open>A read can be taken out unless it is behind the first element of its bucket.\<close>

definition pend_removable :: "int \<Rightarrow> pending \<Rightarrow> bool" where
  "pend_removable n p \<longleftrightarrow> n \<notin> pe_fd ` set (tl (p_chain p (pend_bucket n)))"

lemma flat_removable: "pend_flat p \<Longrightarrow> pend_removable n p"
proof -
  assume "pend_flat p"
  then have "length (p_chain p (pend_bucket n)) \<le> 1" by (simp add: pend_flat_def)
  then show ?thesis by (cases "p_chain p (pend_bucket n)") (auto simp: pend_removable_def)
qed

lemma remove_returns:
  assumes "pend_wf p"
  shows "desc_pending_remove n p \<noteq> None \<longleftrightarrow> pend_removable n p"
proof (cases "p_chain p (pend_bucket n)")
  case (Cons el els)
  have "distinct (map pe_fd (el # els))" using assms Cons unfolding pend_wf_def by metis
  with Cons show ?thesis by (auto simp: desc_pending_remove_def pend_removable_def Let_def)
qed (simp add: desc_pending_remove_def pend_removable_def)

lemma removable_some: "pend_removable n p \<Longrightarrow> \<exists>p'. desc_pending_remove n p = Some p'"
  by (cases "p_chain p (pend_bucket n)") (auto simp: desc_pending_remove_def pend_removable_def Let_def)

lemma remove_chain:
  assumes "desc_pending_remove n p = Some p'" and "0 < n"
  shows "p_chain p' b = (if b \<noteq> pend_bucket n then p_chain p b
     else case p_chain p b of [] \<Rightarrow> [] | el # els \<Rightarrow>
       if pe_fd el = n then (case els of [] \<Rightarrow> [] | e # es \<Rightarrow> e\<lparr>pe_cell := pe_cell el\<rparr> # es) else el # els)"
  using assms by (auto simp: desc_pending_remove_def Let_def split: list.splits if_splits)

lemma pending_desc_remove:
  assumes "pend_wf p" and "0 < n" and r: "desc_pending_remove n p = Some p'"
  shows "pending_desc p' = (pending_desc p)(n := None)" and "pend_wf p'"
proof -
  let ?b = "pend_bucket n"
  have d: "distinct (map pe_fd (p_chain p ?b))" "\<forall>e \<in> set (p_chain p ?b). pend_bucket (pe_fd e) = ?b" using assms(1) by (auto simp: pend_wf_def)
  have c: "distinct (map pe_fd (p_chain p' ?b)) \<and> (\<forall>e \<in> set (p_chain p' ?b). pend_bucket (pe_fd e) = ?b)
      \<and> pend_of (p_chain p' ?b) = (pend_of (p_chain p ?b))(n := None)"
  proof (cases "p_chain p ?b")
    case Nil
    then show ?thesis using remove_chain[OF r assms(2), of ?b] by (simp add: pend_of_def)
  next
    case (Cons el els)
    have "n \<notin> pe_fd ` set els" if "pe_fd el \<noteq> n" using r Cons that by (auto simp: desc_pending_remove_def Let_def split: if_splits)
    then have "map_of (map (\<lambda>e. (pe_fd e, pe_desc e)) els) n = None" using d(1) Cons by (cases "pe_fd el = n") (auto simp: map_of_eq_None_iff)
    then show ?thesis using remove_chain[OF r assms(2), of ?b] Cons d
      by (cases els) (auto simp: pend_of_def fun_eq_iff)
  qed
  have o: "p_chain p' b = p_chain p b" if "b \<noteq> ?b" for b using remove_chain[OF r assms(2), of b] that by simp
  show "pending_desc p' = (pending_desc p)(n := None)"
  proof
    fix m
    show "pending_desc p' m = ((pending_desc p)(n := None)) m"
      using c o[of "pend_bucket m"] by (cases "pend_bucket m = ?b") (auto simp: pending_desc_def)
  qed
  show "pend_wf p'" unfolding pend_wf_def
  proof
    fix b
    show "distinct (map pe_fd (p_chain p' b)) \<and> (\<forall>e \<in> set (p_chain p' b). pend_bucket (pe_fd e) = b)"
      using c o[of b] assms(1) by (cases "b = ?b") (auto simp: pend_wf_def)
  qed
qed

lemma no_pending_wf [simp]: "pend_wf no_pending" "pend_flat no_pending" "pending_desc no_pending = Map.empty" "p_chain no_pending b = []"
  by (auto simp: pend_wf_def pend_flat_def no_pending_def pending_desc_def pend_of_def)

text \<open>The first element of a chain is at address 0, all others at different addresses that were allocated.\<close>

definition cells_ok :: "pending \<Rightarrow> bool" where
  "cells_ok p \<longleftrightarrow> 0 < p_next p \<and> (\<forall>b. distinct (map pe_cell (p_chain p b)) \<and> (\<forall>e \<in> set (p_chain p b). pe_cell e < p_next p)
     \<and> (p_chain p b \<noteq> [] \<longrightarrow> pe_cell (hd (p_chain p b)) = 0))"

lemma cells_put: "set (map pe_cell (pend_put c n i els)) \<subseteq> insert c (set (map pe_cell els))"
  by (induction els) auto

lemma distinct_cells_put: "distinct (map pe_cell els) \<Longrightarrow> c \<notin> pe_cell ` set els \<Longrightarrow> distinct (map pe_cell (pend_put c n i els))"
proof (induction els)
  case (Cons el els)
  then show ?case using cells_put[of c n i els] by auto
qed simp

lemma hd_pend_put: "els \<noteq> [] \<Longrightarrow> pe_cell (hd (pend_put c n i els)) = pe_cell (hd els)"
  by (cases els) auto

lemma cells_ok_add:
  assumes "cells_ok p"
  shows "cells_ok (desc_pending_add n i p)"
proof -
  have 0: "0 < p_next p" and p: "\<And>b. distinct (map pe_cell (p_chain p b))" "\<And>b e. e \<in> set (p_chain p b) \<Longrightarrow> pe_cell e < p_next p"
    "\<And>b. p_chain p b \<noteq> [] \<Longrightarrow> pe_cell (hd (p_chain p b)) = 0" using assms by (auto simp: cells_ok_def)
  have less: "e \<in> set (pend_put (p_next p) n i (p_chain p b)) \<Longrightarrow> pe_cell e < Suc (p_next p)" for e b
    using cells_put[of "p_next p" n i "p_chain p b"] p(2)[of _ b] less_SucI by fastforce
  have "distinct (map pe_cell (pend_put (p_next p) n i (p_chain p b)))" for b
    using p(2)[of _ b] by (intro distinct_cells_put p(1)) fastforce
  with 0 p less show ?thesis by (auto simp: cells_ok_def desc_pending_add_def Let_def hd_pend_put less_SucI)
qed

lemma cells_ok_remove:
  assumes "cells_ok p" and "desc_pending_remove n p = Some p'"
  shows "cells_ok p'"
proof (cases "p_chain p (pend_bucket n)")
  case (Cons el els)
  have c: "distinct (map pe_cell (el # els)) \<and> (\<forall>e \<in> set (el # els). pe_cell e < p_next p) \<and> pe_cell el = 0"
    using assms(1) Cons unfolding cells_ok_def by (metis list.discI list.sel(1))
  show ?thesis
  proof (cases els)
    case Nil
    then show ?thesis using assms Cons by (auto simp: desc_pending_remove_def cells_ok_def Let_def split: if_splits)
  next
    case els: (Cons e es)
    then show ?thesis using assms Cons c by (auto simp: desc_pending_remove_def cells_ok_def Let_def split: if_splits)
  qed
qed (use assms in \<open>auto simp: desc_pending_remove_def\<close>)

lemma no_pending_cells [simp]: "cells_ok no_pending"
  by (simp add: cells_ok_def no_pending_def)

end
