(* ===== verification/Descriptor_Table.thy ===== *)
theory Descriptor_Table
  imports Handover Tailq Pending
begin

text \<open>
  The descriptor table: \<^verbatim>\<open>open_descriptor\<close>, \<^verbatim>\<open>close_descriptor\<close> and \<^verbatim>\<open>reset_descriptor\<close> of \<^verbatim>\<open>coredesc.c\<close> with the functions that open
  each type, the rotating logs of \<^verbatim>\<open>rotlog.c\<close>, and the state changes \<^verbatim>\<open>main_loop\<close> makes. Descriptors are numbered in the order
  of their allocation; a released one is absent, so that using it is a fault. The results of the system calls are a record
  that the operations take as an argument. The symbol table is the map that its lookups define.
\<close>

section \<open>Data\<close>

record origin = dorigin +
  or_path :: string
  or_size :: int

text \<open>A descriptor with its origin, symbol and hooks. The reader and the queue share a union in the code; which of the two
  is meant depends on the type, and the other is not used.\<close>

record table_desc = descriptor +
  d_origin :: nat
  d_symbol :: dynstr
  on_activate :: bool
  pre_read :: bool
  size_state :: "int option"

record 'h table =
  t_heap :: 'h
  t_strs :: strings
  t_descs :: "nat \<rightharpoonup> table_desc"
  t_next :: nat
  t_origins :: "nat \<Rightarrow> origin"
  t_active :: tailq
  t_symbols :: "string \<rightharpoonup> nat"
  t_pending :: pending

fun dtype_bits :: "dtype \<Rightarrow> int" where
  "dtype_bits D_TYPEINVALID = 0"
| "dtype_bits D_FILER = 1"
| "dtype_bits D_FILEW = 2"
| "dtype_bits D_FIFOR = 4"
| "dtype_bits D_FIFOW = 8"
| "dtype_bits D_SOCKETR = 16"
| "dtype_bits D_SOCKETW = 32"
| "dtype_bits D_SOCKET_LISTEN = 64"
| "dtype_bits D_INOTIFY = 128"
| "dtype_bits D_ROTLOG = 256 + 2"

definition D_IS_WRITE_SIDE :: "dtype \<Rightarrow> bool" where
  "D_IS_WRITE_SIDE t \<longleftrightarrow> dtype_bits t AND (2 OR 8 OR 32) \<noteq> 0"

definition D_IS_READ_SIDE :: "dtype \<Rightarrow> bool" where
  "D_IS_READ_SIDE t \<longleftrightarrow> dtype_bits t AND (1 OR 4 OR 16 OR 64) \<noteq> 0"

definition D_IS_SOCKET_READ :: "dtype \<Rightarrow> bool" where
  "D_IS_SOCKET_READ t \<longleftrightarrow> dtype_bits t AND (16 OR 64) \<noteq> 0"

definition DESC_CORE_BITMASK :: int where "DESC_CORE_BITMASK = 255"

text \<open>What the system calls return. For an address: no socket, a socket that failed one of its calls, or one that is
  bound, connecting or connected, with its descriptor.\<close>

datatype addr_result =
    No_Socket
  | Fcntl_Failed int
  | Setsockopt_Failed int
  | Bind_Failed int
  | Bound int
  | Connect_Failed int
  | In_Progress int
  | Connected int

record sys =
  access_ok :: bool
  open_result :: int
  mkfifo_failed :: bool
  reg_read :: int
  st_size :: int
  rename_ok :: bool
  resolved :: bool
  addresses :: "addr_result list"
  listen_ok :: bool
  so_error :: "int option"
  inotify_result :: int

definition ECONNREFUSED :: int where "ECONNREFUSED = 111"
definition EPIPE :: int where "EPIPE = 32"

section \<open>Opening each type\<close>

text \<open>An opening function works on the descriptor \<open>i\<close>, its origin and the pending reads. On Linux a registered file is always
  added to the pending reads, since the test of the flags is \<^verbatim>\<open>flags | DOPEN_SEEKSTART\<close>.\<close>

type_synonym open_state = "table_desc \<times> origin \<times> pending"

definition open_file_r :: "sys \<Rightarrow> int \<Rightarrow> nat \<Rightarrow> open_state \<Rightarrow> open_state" where
  "open_file_r S flags i = (\<lambda>(d, og, pend).
     if inh_fd og = 0 \<and> d_state d = DSTATE_INIT \<and> \<not> access_ok S then (d\<lparr>d_state := DSTATE_PENDING\<rparr>, og, pend)
     else
       let (d, og) = (if inh_fd og = 0 then (d\<lparr>fd := open_result S\<rparr>, og) else (d\<lparr>fd := inh_fd og\<rparr>, og\<lparr>inh_fd := 0\<rparr>));
           insert_into_pending = (flags OR DOPEN_SEEKSTART \<noteq> 0)
       in if reg_read S = 0
          then (d\<lparr>d_state := DSTATE_ACTIVE\<rparr>, og, if insert_into_pending then desc_pending_add (fd d) i pend else pend)
          else (d\<lparr>d_state := DSTATE_DEAD\<rparr>, og, pend))"

definition open_file_w :: "sys \<Rightarrow> open_state \<Rightarrow> open_state" where
  "open_file_w S = (\<lambda>(d, og, pend).
     (d\<lparr>fd := open_result S, d_state := if open_result S = - 1 then DSTATE_DEAD else DSTATE_ACTIVE\<rparr>, og, pend))"

definition open_fifo_r :: "sys \<Rightarrow> nat \<Rightarrow> open_state \<Rightarrow> open_state" where
  "open_fifo_r S i = (\<lambda>(d, og, pend).
     if mkfifo_failed S then (d\<lparr>d_state := DSTATE_PENDING\<rparr>, og, pend)
     else open_file_r S DOPEN_NOFLAGS i (d, og, pend))"

definition open_fifo_w :: "sys \<Rightarrow> open_state \<Rightarrow> open_state" where
  "open_fifo_w S = (\<lambda>(d, og, pend).
     if mkfifo_failed S then (d\<lparr>d_state := DSTATE_DEAD\<rparr>, og, pend)
     else open_file_w S (d, og, pend))"

definition open_socket_read :: "sys \<Rightarrow> open_state \<Rightarrow> open_state" where
  "open_socket_read S = (\<lambda>(d, og, pend).
     (d\<lparr>fd := inh_fd og, d_state := if reg_read S = 0 then DSTATE_ACTIVE else DSTATE_DEAD\<rparr>, og\<lparr>inh_fd := 0\<rparr>, pend))"

text \<open>The loop over the addresses to connect to: the descriptor last stored, and the state if one was found.\<close>

fun connect_loop :: "addr_result list \<Rightarrow> int \<Rightarrow> int \<times> dstate option" where
  "connect_loop [] n = (n, None)"
| "connect_loop (No_Socket # as) n = connect_loop as (- 1)"
| "connect_loop (Fcntl_Failed m # as) n = connect_loop as m"
| "connect_loop (Connect_Failed m # as) n = connect_loop as m"
| "connect_loop (In_Progress m # as) n = (m, Some DSTATE_PENDING)"
| "connect_loop (Connected m # as) n = (m, Some DSTATE_ACTIVE)"
| "connect_loop (_ # as) n = connect_loop as n"

definition open_skt_w :: "sys \<Rightarrow> open_state \<Rightarrow> open_state" where
  "open_skt_w S = (\<lambda>(d, og, pend).
     let d = d\<lparr>post_line_write := True\<rparr> in
     if \<not> resolved S then (d\<lparr>d_state := DSTATE_DEAD\<rparr>, og, pend)
     else
       (case connect_loop (addresses S) (fd d) of
          (n, Some st) \<Rightarrow> (d\<lparr>fd := n, d_state := st\<rparr>, og, pend)
        | (n, None) \<Rightarrow>
            (case so_error S of
               None \<Rightarrow> (d\<lparr>fd := n\<rparr>, og, pend)
             | Some e \<Rightarrow> (d\<lparr>fd := n, d_state := if e = ECONNREFUSED then DSTATE_PENDING else DSTATE_DEAD\<rparr>, og, pend))))"

text \<open>The loop over the addresses to listen on: whether one was bound; the early returns and running out of addresses end alike.\<close>

fun bind_loop :: "addr_result list \<Rightarrow> int \<Rightarrow> int \<times> bool" where
  "bind_loop [] n = (n, False)"
| "bind_loop (No_Socket # as) n = bind_loop as (- 1)"
| "bind_loop (Setsockopt_Failed m # as) n = (m, False)"
| "bind_loop (Fcntl_Failed m # as) n = (m, False)"
| "bind_loop (Bind_Failed m # as) n = bind_loop as m"
| "bind_loop (Bound m # as) n = (m, True)"
| "bind_loop (_ # as) n = bind_loop as n"

definition open_socket_listen :: "sys \<Rightarrow> open_state \<Rightarrow> open_state" where
  "open_socket_listen S = (\<lambda>(d, og, pend).
     if \<not> resolved S then (d\<lparr>d_state := DSTATE_DEAD\<rparr>, og, pend)
     else
       (case bind_loop (addresses S) (fd d) of (n, bound) \<Rightarrow>
          if bound \<and> listen_ok S \<and> reg_read S = 0
          then (d\<lparr>fd := n, d_state := DSTATE_ACTIVE, pre_read := True\<rparr>, og, pend)
          else (d\<lparr>fd := n, d_state := DSTATE_DEAD\<rparr>, og, pend)))"

definition open_inotify :: "sys \<Rightarrow> open_state \<Rightarrow> open_state" where
  "open_inotify S = (\<lambda>(d, og, pend).
     let d = (if d_state d = DSTATE_INIT then
                (if inotify_result S \<noteq> - 1 \<and> reg_read S = 0
                 then d\<lparr>fd := inotify_result S, d_state := DSTATE_ACTIVE\<rparr> else d\<lparr>fd := inotify_result S\<rparr>)
              else d)
     in (if d_state d \<noteq> DSTATE_ACTIVE then d\<lparr>d_state := DSTATE_DEAD\<rparr> else d, og, pend))"

text \<open>The switch over the core type; \<open>None\<close> is its default.\<close>

definition open_core :: "sys \<Rightarrow> int \<Rightarrow> nat \<Rightarrow> open_state \<Rightarrow> open_state option" where
  "open_core S flags i x =
     (let t = dtype_bits (or_type (fst (snd x))) AND DESC_CORE_BITMASK in
      if t = dtype_bits D_FILER then Some (open_file_r S flags i x)
      else if t = dtype_bits D_FIFOR then Some (open_fifo_r S i x)
      else if t = dtype_bits D_INOTIFY then Some (open_inotify S x)
      else if t = dtype_bits D_FILEW then Some (open_file_w S x)
      else if t = dtype_bits D_FIFOW then Some (open_fifo_w S x)
      else if t = dtype_bits D_SOCKETW then Some (open_skt_w S x)
      else if t = dtype_bits D_SOCKETR then Some (open_socket_read S x)
      else if t = dtype_bits D_SOCKET_LISTEN then Some (open_socket_listen S x)
      else None)"

section \<open>The symbol table\<close>

text \<open>An upsert of a new key copies the key; a removal of a key that is present releases the key it is given.\<close>

definition symbol_upsert :: "'h allocator \<Rightarrow> 'h table \<Rightarrow> dynstr \<Rightarrow> nat \<Rightarrow> 'h table option" where
  "symbol_upsert A s key i = do {
     t \<leftarrow> dyn_text key;
     h \<leftarrow> (if t_symbols s t = None then map_option snd (dynstr_copy A (t_heap s) key) else Some (t_heap s));
     Some (s\<lparr>t_heap := h, t_symbols := (t_symbols s)(t \<mapsto> i)\<rparr>)
   }"

definition symbol_remove :: "'h allocator \<Rightarrow> 'h table \<Rightarrow> dynstr \<Rightarrow> 'h table option" where
  "symbol_remove A s key = do {
     t \<leftarrow> dyn_text key;
     if t_symbols s t = None then Some s
     else do {
       h \<leftarrow> dynstr_free A (t_heap s) key;
       Some (s\<lparr>t_heap := h, t_symbols := (t_symbols s)(t := None)\<rparr>)
     }
   }"

section \<open>Closing and resetting\<close>

definition release_buffers :: "'h allocator \<Rightarrow> 'h table \<Rightarrow> table_desc \<Rightarrow> ('h \<times> strings) option" where
  "release_buffers A s d =
     (if D_IS_READ_SIDE (d_type d) then map_option (\<lambda>h. (h, t_strs s)) (reader_destroy A (t_heap s) (Some (reader d)))
      else map_option snd (wq_destroy A (t_heap s) (t_strs s) (if D_IS_WRITE_SIDE (d_type d) then Some (wqueue d) else None)))"

definition close_descriptor :: "'h allocator \<Rightarrow> 'h table \<Rightarrow> nat option \<Rightarrow> 'h table option" where
  "close_descriptor A s dp =
     (case dp of
        None \<Rightarrow> Some s
      | Some i \<Rightarrow> do {
          d \<leftarrow> t_descs s i;
          if d_state d = DSTATE_DEAD then Some s
          else do {
            (h, \<sigma>) \<leftarrow> release_buffers A s d;
            q \<leftarrow> (if d_state d = DSTATE_ACTIVE then TAILQ_REMOVE (t_active s) i else Some (t_active s));
            s \<leftarrow> symbol_remove A (s\<lparr>t_heap := h, t_strs := \<sigma>, t_active := q\<rparr>) (d_symbol d);
            h \<leftarrow> dynstr_free A (t_heap s) (d_symbol d);
            Some (s\<lparr>t_heap := h, t_descs := (t_descs s)(i := None)\<rparr>)
          }
        })"

definition reset_descriptor :: "'h table \<Rightarrow> nat \<Rightarrow> 'h table option" where
  "reset_descriptor s i = do {
     d \<leftarrow> t_descs s i;
     q \<leftarrow> (if d_state d = DSTATE_ACTIVE then TAILQ_REMOVE (t_active s) i else Some (t_active s));
     Some (s\<lparr>t_active := q, t_descs := (t_descs s)(i \<mapsto> d\<lparr>d_state := DSTATE_INIT\<rparr>)\<rparr>)
   }"

section \<open>Opening\<close>

text \<open>A new descriptor in a zeroed block; \<open>rotlog\<close> says whether the hooks of the rotating logs are passed.\<close>

definition no_reader :: linereader where
  "no_reader = \<lparr>cur_idx = 0, buf = \<lparr>ptr = NULL, len = 0, cap = 0, str = []\<rparr>\<rparr>"

definition new_desc :: "'h allocator \<Rightarrow> 'h table \<Rightarrow> nat \<Rightarrow> bool \<Rightarrow> (table_desc \<times> 'h table) option" where
  "new_desc A s og rotlog = do {
     let orig = t_origins s og;
     (sym, h) \<leftarrow> dynstr_new A (t_heap s) (Some (or_symbol orig));
     (r, h) \<leftarrow> (if D_IS_READ_SIDE (or_type orig) then open_new_reader A h (dorigin.truncate orig) else Some (no_reader, h));
     Some (\<lparr>d_state = DSTATE_INIT, d_type = or_type orig, fd = 0, reader = r, wqueue = wq_new, post_line_write = rotlog,
             d_origin = og, d_symbol = sym, on_activate = rotlog, pre_read = False, size_state = None\<rparr>,
           s\<lparr>t_heap := h, t_next := t_next s + 1\<rparr>)
   }"

definition empty_buffers :: "'h allocator \<Rightarrow> 'h table \<Rightarrow> int \<Rightarrow> table_desc \<Rightarrow> (table_desc \<times> 'h table) option" where
  "empty_buffers A s flags d =
     (if flags AND DOPEN_KEEP_BUFFERS = 0 then
        (if D_IS_READ_SIDE (d_type d) then do { r \<leftarrow> reader_reset (reader d); Some (d\<lparr>reader := r\<rparr>, s) }
         else if D_IS_WRITE_SIDE (d_type d) then do {
           (wq, h, \<sigma>) \<leftarrow> wq_destroy A (t_heap s) (t_strs s) (Some (wqueue d));
           wq \<leftarrow> wq;
           Some (d\<lparr>wqueue := wq\<rparr>, s\<lparr>t_heap := h, t_strs := \<sigma>\<rparr>)
         }
         else Some (d, s))
      else Some (d, s))"

text \<open>The size of a log is an \<^verbatim>\<open>int\<close>; \<^verbatim>\<open>st_size\<close> and the sum with the bytes written, a \<^verbatim>\<open>long\<close>, are converted to it.\<close>

definition rotlog_on_activate :: "sys \<Rightarrow> table_desc \<Rightarrow> table_desc" where
  "rotlog_on_activate S d = d\<lparr>size_state := Some (to_int32 (st_size S))\<rparr>"

definition open_finish :: "'h allocator \<Rightarrow> sys \<Rightarrow> 'h table \<Rightarrow> nat \<Rightarrow> table_desc \<Rightarrow> bool \<Rightarrow> int \<Rightarrow> 'h table option" where
  "open_finish A S s i d reuse flags = do {
     (d, s) \<leftarrow> empty_buffers A s flags d;
     let d = (if d_state d = DSTATE_ACTIVE \<and> on_activate d then rotlog_on_activate S d else d);
     s \<leftarrow> (if \<not> reuse \<and> \<not> D_IS_SOCKET_READ (d_type d) then symbol_upsert A s (d_symbol d) i else Some s);
     q \<leftarrow> (if d_state d = DSTATE_ACTIVE then TAILQ_INSERT_TAIL (t_active s) i else Some (t_active s));
     Some (s\<lparr>t_descs := (t_descs s)(i \<mapsto> d), t_active := q\<rparr>)
   }"

text \<open>The returned pointer is \<open>None\<close> for \<^verbatim>\<open>NULL\<close>. A descriptor that turned out dead is closed, which does nothing for dead
  descriptors.\<close>

definition open_with :: "'h allocator \<Rightarrow> sys \<Rightarrow> 'h table \<Rightarrow> nat \<Rightarrow> nat \<Rightarrow> table_desc \<Rightarrow> bool \<Rightarrow> int
   \<Rightarrow> (nat option \<times> 'h table) option" where
  "open_with A S s og i d reuse flags =
     (case open_core S flags i (d, t_origins s og, t_pending s) of
        None \<Rightarrow> Some (None, s\<lparr>t_descs := (t_descs s)(i \<mapsto> d)\<rparr>)
      | Some (d, orig, pend) \<Rightarrow>
          let s = s\<lparr>t_origins := (t_origins s)(og := orig), t_pending := pend\<rparr> in
          if d_state d = DSTATE_DEAD
          then map_option (Pair None) (close_descriptor A (s\<lparr>t_descs := (t_descs s)(i \<mapsto> d)\<rparr>) (Some i))
          else map_option (Pair (Some i)) (open_finish A S s i d reuse flags))"

definition open_descriptor :: "'h allocator \<Rightarrow> sys \<Rightarrow> 'h table \<Rightarrow> nat \<Rightarrow> nat option \<Rightarrow> bool \<Rightarrow> int
   \<Rightarrow> (nat option \<times> 'h table) option" where
  "open_descriptor A S s og dp rotlog flags =
     (case dp of
        Some i \<Rightarrow> t_descs s i \<bind> (\<lambda>d. open_with A S s og i d True flags)
      | None \<Rightarrow>
          if or_type (t_origins s og) = D_TYPEINVALID then Some (None, s)
          else do { (d, s') \<leftarrow> new_desc A s og rotlog; open_with A S s' og (t_next s) d False flags })"

section \<open>Rotating logs\<close>

definition open_rotlog :: "'h allocator \<Rightarrow> sys \<Rightarrow> 'h table \<Rightarrow> nat \<Rightarrow> (nat option \<times> 'h table) option" where
  "open_rotlog A S s og = open_descriptor A S s og None True DOPEN_NOFLAGS"

text \<open>The file is closed and renamed; if that worked it is opened anew.\<close>

definition rotlog_rotate :: "'h allocator \<Rightarrow> sys \<Rightarrow> 'h table \<Rightarrow> nat \<Rightarrow> 'h table option" where
  "rotlog_rotate A S s i = do {
     d \<leftarrow> t_descs s i;
     if rename_ok S then map_option snd (open_descriptor A S s (d_origin d) (Some i) True DOPEN_NOFLAGS) else Some s
   }"

definition rotlog_post_line_write :: "'h allocator \<Rightarrow> sys \<Rightarrow> 'h table \<Rightarrow> nat \<Rightarrow> int \<Rightarrow> int \<Rightarrow> 'h table option" where
  "rotlog_post_line_write A S s i nbytes err = do {
     d \<leftarrow> t_descs s i;
     cur_file_size \<leftarrow> size_state d;
     let cur_file_size = to_int32 (cur_file_size + nbytes);
     let d = d\<lparr>size_state := Some cur_file_size\<rparr>;
     let s = s\<lparr>t_descs := (t_descs s)(i \<mapsto> d)\<rparr>;
     if cur_file_size < or_size (t_origins s (d_origin d)) then Some s else rotlog_rotate A S s i
   }"

section \<open>Sockets\<close>

definition sktw_post_line_write :: "'h allocator \<Rightarrow> sys \<Rightarrow> 'h table \<Rightarrow> nat \<Rightarrow> int \<Rightarrow> int \<Rightarrow> 'h table option" where
  "sktw_post_line_write A S s i nbytes err = do {
     d \<leftarrow> t_descs s i;
     if d_state d = DSTATE_PENDING \<or> err = EPIPE then do {
       s \<leftarrow> reset_descriptor s i;
       map_option snd (open_descriptor A S s (d_origin d) (Some i) False DOPEN_KEEP_BUFFERS)
     }
     else Some s
   }"

text \<open>What \<^verbatim>\<open>main_loop\<close> does with a socket at the end of its input, and with a socket that can be written to: a pending one
  has connected, or has failed and is reset if it was refused.\<close>

definition socket_eof :: "'h table \<Rightarrow> nat \<Rightarrow> 'h table option" where
  "socket_eof s i = do {
     d \<leftarrow> t_descs s i;
     Some (s\<lparr>t_descs := (t_descs s)(i \<mapsto> d\<lparr>d_state := DSTATE_DRAIN\<rparr>), t_pending := desc_pending_add (fd d) i (t_pending s)\<rparr>)
   }"

definition socket_writable :: "sys \<Rightarrow> 'h table \<Rightarrow> nat \<Rightarrow> bool \<Rightarrow> 'h table option" where
  "socket_writable S s i eof = do {
     d \<leftarrow> t_descs s i;
     if d_type d = D_SOCKETW \<and> d_state d = DSTATE_PENDING then
       (if eof then
          (if so_error S = Some ECONNREFUSED then do {
             s \<leftarrow> reset_descriptor s i;
             Some (s\<lparr>t_descs := (t_descs s)(i \<mapsto> d\<lparr>d_state := DSTATE_PENDING\<rparr>)\<rparr>)
           }
           else Some s)
        else Some (s\<lparr>t_descs := (t_descs s)(i \<mapsto> d\<lparr>d_state := DSTATE_ACTIVE\<rparr>)\<rparr>))
     else Some s
   }"

text \<open>The end of \<^verbatim>\<open>descriptor_read\<close>, once \<^verbatim>\<open>read\<close> has returned 0: the descriptor is no longer pending, a draining one is closed and
  a file that was rotated away is opened again.\<close>

definition read_eof :: "'h allocator \<Rightarrow> sys \<Rightarrow> 'h table \<Rightarrow> nat \<Rightarrow> 'h table option" where
  "read_eof A S s i = do {
     d \<leftarrow> t_descs s i;
     p \<leftarrow> desc_pending_remove (fd d) (t_pending s);
     let s = s\<lparr>t_pending := p\<rparr>;
     if d_state d = DSTATE_DRAIN then close_descriptor A s (Some i)
     else if d_type d = D_FILER \<and> d_state d = DSTATE_DRAIN_ROTATE then do {
       s \<leftarrow> reset_descriptor s i;
       map_option snd (open_descriptor A S s (d_origin d) (Some i) False (DOPEN_SEEKSTART OR DOPEN_KEEP_BUFFERS))
     }
     else Some s
   }"

section \<open>The table's invariant\<close>

text \<open>The active list holds exactly the active descriptors, and symbols lead to live descriptors that bear them.\<close>

definition active_ids :: "'h table \<Rightarrow> nat set" where
  "active_ids s = {i. \<exists>d. t_descs s i = Some d \<and> d_state d = DSTATE_ACTIVE}"

definition table_ok :: "'h table \<Rightarrow> bool" where
  "table_ok s \<longleftrightarrow> (\<exists>xs. tq_rep (t_active s) xs \<and> set xs = active_ids s) \<and> (\<forall>i \<ge> t_next s. t_descs s i = None)
     \<and> (\<forall>t i. t_symbols s t = Some i \<longrightarrow> (\<exists>d. t_descs s i = Some d \<and> dyn_text (d_symbol d) = Some t))"

lemma table_ok_cong:
  "t_active s' = t_active s \<Longrightarrow> t_descs s' = t_descs s \<Longrightarrow> t_next s' = t_next s \<Longrightarrow> t_symbols s' = t_symbols s \<Longrightarrow> table_ok s' = table_ok s"
  by (simp add: table_ok_def active_ids_def)

lemma table_ok_next: "table_ok s \<Longrightarrow> table_ok (s\<lparr>t_heap := h, t_next := t_next s + 1\<rparr>)"
  by (simp add: table_ok_def active_ids_def)

lemma table_ok_bind:
  "table_ok s \<Longrightarrow> t_descs s i = Some d \<Longrightarrow> dyn_text (d_symbol d) = Some t \<Longrightarrow> table_ok (s\<lparr>t_symbols := (t_symbols s)(t \<mapsto> i)\<rparr>)"
  by (auto simp: table_ok_def active_ids_def)

lemma table_okD:
  assumes "table_ok s" and "t_descs s i = Some d"
  shows "i < t_next s" and "t_symbols s t = Some i \<Longrightarrow> dyn_text (d_symbol d) = Some t"
  using assms unfolding table_ok_def by (metis not_le option.distinct(1), metis option.inject)

text \<open>Storing a descriptor that was not active, and listing it if it is now.\<close>

lemma table_ok_put:
  assumes ok: "table_ok s" and i: "i \<notin> active_ids s" "i < t_next s"
    and sym: "\<forall>t. t_symbols s t = Some i \<longrightarrow> dyn_text (d_symbol d) = Some t"
  shows "\<exists>q. (if d_state d = DSTATE_ACTIVE then TAILQ_INSERT_TAIL (t_active s) i else Some (t_active s)) = Some q
     \<and> table_ok (s\<lparr>t_descs := (t_descs s)(i \<mapsto> d), t_active := q\<rparr>)"
proof -
  let ?s = "\<lambda>q. s\<lparr>t_descs := (t_descs s)(i \<mapsto> d), t_active := q\<rparr>"
  obtain xs where xs: "tq_rep (t_active s) xs" "set xs = active_ids s" using ok by (auto simp: table_ok_def)
  have rest: "\<forall>j \<ge> t_next s. t_descs (?s q) j = None"
    "\<forall>t j. t_symbols s t = Some j \<longrightarrow> (\<exists>d. t_descs (?s q) j = Some d \<and> dyn_text (d_symbol d) = Some t)" for q
    using ok i(2) sym by (auto simp: table_ok_def)
  show ?thesis
  proof (cases "d_state d = DSTATE_ACTIVE")
    case True
    obtain q where q: "TAILQ_INSERT_TAIL (t_active s) i = Some q" "tq_rep q (xs @ [i])" using tq.ins_law[OF xs(1)] xs(2) i(1) by blast
    have "active_ids (?s q) = set (xs @ [i])" using True xs(2) by (auto simp: active_ids_def)
    with q True rest[of q] show ?thesis unfolding table_ok_def by auto
  next
    case False
    have "active_ids (?s (t_active s)) = set xs" using False xs(2) i(1) by (auto simp: active_ids_def)
    with xs False rest[of "t_active s"] show ?thesis unfolding table_ok_def by auto
  qed
qed

text \<open>Unlisting an active descriptor.\<close>

lemma table_unlist:
  assumes ok: "table_ok s" and d: "t_descs s i = Some d"
  shows "\<exists>q xs. (if d_state d = DSTATE_ACTIVE then TAILQ_REMOVE (t_active s) i else Some (t_active s)) = Some q
     \<and> tq_rep q xs \<and> set xs = active_ids s - {i}"
proof -
  obtain xs where xs: "tq_rep (t_active s) xs" "set xs = active_ids s" using ok by (auto simp: table_ok_def)
  show ?thesis
  proof (cases "d_state d = DSTATE_ACTIVE")
    case True
    then have "i \<in> set xs" using xs(2) d by (auto simp: active_ids_def)
    then obtain q where "TAILQ_REMOVE (t_active s) i = Some q" "tq_rep q (remove1 i xs)" using tq.rem_law[OF xs(1)] by blast
    moreover have "set (remove1 i xs) = active_ids s - {i}" using set_remove1_eq[OF tq.rep_distinct[OF xs(1)]] xs(2) by simp
    ultimately show ?thesis using True by auto
  next
    case False
    then have "i \<notin> active_ids s" using d by (auto simp: active_ids_def)
    with False xs show ?thesis by auto
  qed
qed

section \<open>What the steps keep\<close>

lemma open_core_keeps:
  assumes "open_core S flags i (d, og, p) = Some (d', og', p')"
  shows "d_type d' = d_type d \<and> d_symbol d' = d_symbol d \<and> reader d' = reader d \<and> wqueue d' = wqueue d \<and> d_origin d' = d_origin d"
  using assms
  by (auto simp: open_core_def open_file_r_def open_fifo_r_def open_inotify_def open_file_w_def open_fifo_w_def open_skt_w_def
      open_socket_read_def open_socket_listen_def Let_def split: if_splits prod.splits option.splits)

lemma empty_buffers_keeps:
  "empty_buffers A s flags d = Some (d', s') \<Longrightarrow> d_state d' = d_state d \<and> d_symbol d' = d_symbol d \<and> d_type d' = d_type d
     \<and> t_descs s' = t_descs s \<and> t_active s' = t_active s \<and> t_next s' = t_next s \<and> t_symbols s' = t_symbols s"
  by (auto simp: empty_buffers_def bind_Some_iff split: if_splits)

lemma new_desc_keeps:
  "new_desc A s og rotlog = Some (d, s') \<Longrightarrow> d_state d = DSTATE_INIT \<and> t_descs s' = t_descs s \<and> t_active s' = t_active s
     \<and> t_next s' = t_next s + 1 \<and> t_symbols s' = t_symbols s"
  by (auto simp: new_desc_def bind_Some_iff Let_def)

lemma on_activate_keeps [simp]: "d_state (rotlog_on_activate S d) = d_state d" "d_symbol (rotlog_on_activate S d) = d_symbol d"
  by (simp_all add: rotlog_on_activate_def)

lemma symbol_upsert_keeps:
  "symbol_upsert A s key i = Some s' \<Longrightarrow> \<exists>t. dyn_text key = Some t \<and> t_symbols s' = (t_symbols s)(t \<mapsto> i)
     \<and> t_descs s' = t_descs s \<and> t_active s' = t_active s \<and> t_next s' = t_next s"
  by (auto simp: symbol_upsert_def bind_Some_iff)

lemma symbol_remove_keeps:
  "symbol_remove A s key = Some s' \<Longrightarrow> \<exists>t. dyn_text key = Some t \<and> t_symbols s' = (t_symbols s)(t := None)
     \<and> t_descs s' = t_descs s \<and> t_active s' = t_active s \<and> t_next s' = t_next s"
  by (clarsimp simp: symbol_remove_def bind_Some_iff) (fastforce simp: bind_Some_iff fun_upd_idem split: if_splits)

text \<open>Finishing the opening of a descriptor that is not listed.\<close>

lemma open_finish_ok:
  assumes ok: "table_ok s" and i: "i \<notin> active_ids s" "i < t_next s" and r: "open_finish A S s i d reuse flags = Some s'"
    and sym: "\<forall>t. t_symbols s t = Some i \<longrightarrow> dyn_text (d_symbol d) = Some t"
  shows "table_ok s'"
proof -
  obtain d1 s1 where e: "empty_buffers A s flags d = Some (d1, s1)" using r by (auto simp: open_finish_def bind_Some_iff)
  note k1 = empty_buffers_keeps[OF e]
  let ?d = "if d_state d1 = DSTATE_ACTIVE \<and> on_activate d1 then rotlog_on_activate S d1 else d1"
  obtain s2 q where s2: "(if \<not> reuse \<and> \<not> D_IS_SOCKET_READ (d_type ?d) then symbol_upsert A s1 (d_symbol ?d) i else Some s1) = Some s2"
    and q: "(if d_state ?d = DSTATE_ACTIVE then TAILQ_INSERT_TAIL (t_active s2) i else Some (t_active s2)) = Some q"
    and s': "s' = s2\<lparr>t_descs := (t_descs s2)(i \<mapsto> ?d), t_active := q\<rparr>"
    using r e by (auto simp: open_finish_def bind_Some_iff Let_def)
  have f: "t_descs s2 = t_descs s" "t_active s2 = t_active s" "t_next s2 = t_next s"
    "\<exists>t. dyn_text (d_symbol ?d) = Some t \<and> t_symbols s2 = (t_symbols s)(t \<mapsto> i) \<or> t_symbols s2 = t_symbols s"
    using s2 k1 by (auto split: if_splits dest!: symbol_upsert_keeps)
  have d: "d_symbol ?d = d_symbol d" using k1 by simp
  obtain q' where p: "(if d_state ?d = DSTATE_ACTIVE then TAILQ_INSERT_TAIL (t_active s) i else Some (t_active s)) = Some q'"
    "table_ok (s\<lparr>t_descs := (t_descs s)(i \<mapsto> ?d), t_active := q'\<rparr>)"
    using table_ok_put[OF ok i, of ?d] sym d by auto
  then have "q' = q" using q[unfolded f(2)] by (metis option.inject)
  then have pq: "table_ok (s\<lparr>t_descs := (t_descs s)(i \<mapsto> ?d), t_active := q\<rparr>)" using p(2) by simp
  consider t where "dyn_text (d_symbol ?d) = Some t" "t_symbols s2 = (t_symbols s)(t \<mapsto> i)" | "t_symbols s2 = t_symbols s"
    using f(4) by blast
  then show ?thesis
  proof cases
    case 1
    have "t_descs s' = (t_descs s)(i \<mapsto> ?d)" "t_active s' = q" "t_next s' = t_next s" "t_symbols s' = (t_symbols s)(t \<mapsto> i)"
      using f 1(2) by (simp_all add: s')
    with table_ok_bind[OF pq _ 1(1), of i] show ?thesis
      by (subst table_ok_cong[where s = "s\<lparr>t_descs := (t_descs s)(i \<mapsto> ?d), t_active := q, t_symbols := (t_symbols s)(t \<mapsto> i)\<rparr>"]) simp_all
  next
    case 2
    have "t_descs s' = (t_descs s)(i \<mapsto> ?d)" "t_active s' = q" "t_next s' = t_next s" "t_symbols s' = t_symbols s"
      using f 2 by (simp_all add: s')
    with pq show ?thesis by (subst table_ok_cong[where s = "s\<lparr>t_descs := (t_descs s)(i \<mapsto> ?d), t_active := q\<rparr>"]) simp_all
  qed
qed

lemma open_with_ok:
  assumes ok: "table_ok s" and i: "i \<notin> active_ids s" "i < t_next s" and r: "open_with A S s og i d reuse flags = Some (rp, s')"
    and st: "d_state d \<noteq> DSTATE_ACTIVE" and sym: "\<forall>t. t_symbols s t = Some i \<longrightarrow> dyn_text (d_symbol d) = Some t"
  shows "table_ok s'"
proof (cases "open_core S flags i (d, t_origins s og, t_pending s)")
  case None
  with r have s': "s' = s\<lparr>t_descs := (t_descs s)(i \<mapsto> d)\<rparr>" by (simp add: open_with_def)
  from table_ok_put[OF ok i sym] st show ?thesis by (simp add: s')
next
  case (Some x)
  obtain d1 og1 p1 where x: "x = (d1, og1, p1)" by (cases x)
  note k = open_core_keeps[OF Some[unfolded x]]
  let ?s = "s\<lparr>t_origins := (t_origins s)(og := og1), t_pending := p1\<rparr>"
  have ok1: "table_ok ?s" "i \<notin> active_ids ?s" "i < t_next ?s" "\<forall>t. t_symbols ?s t = Some i \<longrightarrow> dyn_text (d_symbol d1) = Some t"
    using ok i sym k by (auto simp: table_ok_def active_ids_def)
  show ?thesis
  proof (cases "d_state d1 = DSTATE_DEAD")
    case True
    with r Some x have "s' = ?s\<lparr>t_descs := (t_descs ?s)(i \<mapsto> d1)\<rparr>" by (simp add: open_with_def close_descriptor_def Let_def)
    with table_ok_put[OF ok1] True show ?thesis by simp
  next
    case False
    with r Some x have "open_finish A S ?s i d1 reuse flags = Some s'" by (auto simp: open_with_def Let_def)
    from open_finish_ok[OF ok1(1-3) this ok1(4)] show ?thesis .
  qed
qed

lemma reset_ok:
  assumes "table_ok s" and "t_descs s i = Some d"
  shows "\<exists>s'. reset_descriptor s i = Some s' \<and> table_ok s' \<and> t_descs s' i = Some (d\<lparr>d_state := DSTATE_INIT\<rparr>) \<and> i \<notin> active_ids s'
     \<and> t_next s' = t_next s \<and> t_symbols s' = t_symbols s \<and> t_heap s' = t_heap s"
proof -
  obtain q xs where q: "(if d_state d = DSTATE_ACTIVE then TAILQ_REMOVE (t_active s) i else Some (t_active s)) = Some q"
    "tq_rep q xs" "set xs = active_ids s - {i}" using table_unlist[OF assms] by blast
  let ?s = "s\<lparr>t_active := q, t_descs := (t_descs s)(i \<mapsto> d\<lparr>d_state := DSTATE_INIT\<rparr>)\<rparr>"
  have "reset_descriptor s i = Some ?s" using q(1) assms(2) by (auto simp: reset_descriptor_def)
  moreover have a: "active_ids ?s = active_ids s - {i}" by (auto simp: active_ids_def)
  moreover have "table_ok ?s" unfolding table_ok_def a
  proof (intro conjI)
    show "\<exists>xs. tq_rep (t_active ?s) xs \<and> set xs = active_ids s - {i}" using q(2,3) by auto
    show "\<forall>j \<ge> t_next ?s. t_descs ?s j = None" using assms by (fastforce simp: table_ok_def)
    show "\<forall>t j. t_symbols ?s t = Some j \<longrightarrow> (\<exists>d. t_descs ?s j = Some d \<and> dyn_text (d_symbol d) = Some t)"
      using assms by (fastforce simp: table_ok_def)
  qed
  ultimately show ?thesis by simp
qed

lemma open_new_ok:
  assumes ok: "table_ok s" and r: "open_descriptor A S s og None rotlog flags = Some (rp, s')"
  shows "table_ok s'"
proof (cases "or_type (t_origins s og) = D_TYPEINVALID")
  case True
  with r ok show ?thesis by (simp add: open_descriptor_def)
next
  case False
  then obtain d s1 where n: "new_desc A s og rotlog = Some (d, s1)" "open_with A S s1 og (t_next s) d False flags = Some (rp, s')"
    using r by (auto simp: open_descriptor_def bind_Some_iff)
  note k = new_desc_keeps[OF n(1)]
  have new: "t_descs s (t_next s) = None" "\<forall>t. t_symbols s t \<noteq> Some (t_next s)" using ok by (fastforce simp: table_ok_def)+
  have "table_ok s1" using ok k by (auto simp: table_ok_def active_ids_def)
  from open_with_ok[OF this _ _ n(2)] k new show ?thesis by (auto simp: active_ids_def)
qed

lemma open_again_ok:
  assumes "table_ok s" and "open_descriptor A S s og (Some i) rotlog flags = Some (rp, s')"
    and "t_descs s i = Some d" and "d_state d \<noteq> DSTATE_ACTIVE"
  shows "table_ok s'"
proof -
  have a: "i \<notin> active_ids s" using assms(3,4) by (simp add: active_ids_def)
  have r: "open_with A S s og i d True flags = Some (rp, s')" using assms(2,3) by (simp add: open_descriptor_def)
  have "\<forall>t. t_symbols s t = Some i \<longrightarrow> dyn_text (d_symbol d) = Some t" using table_okD(2)[OF assms(1,3)] by blast
  with open_with_ok[OF assms(1) a table_okD(1)[OF assms(1,3)] r assms(4)] show ?thesis by blast
qed

lemma close_ok:
  assumes ok: "table_ok s" and r: "close_descriptor A s dp = Some s'"
  shows "table_ok s'"
proof (cases "\<exists>i d. dp = Some i \<and> t_descs s i = Some d \<and> d_state d \<noteq> DSTATE_DEAD")
  case False
  then have "s' = s" using r by (cases dp; cases "t_descs s (the dp)") (simp_all add: close_descriptor_def)
  with ok show ?thesis by simp
next
  case True
  then obtain i d where d: "dp = Some i" "t_descs s i = Some d" "d_state d \<noteq> DSTATE_DEAD" by blast
  obtain q xs where q: "(if d_state d = DSTATE_ACTIVE then TAILQ_REMOVE (t_active s) i else Some (t_active s)) = Some q"
    "tq_rep q xs" "set xs = active_ids s - {i}" using table_unlist[OF ok d(2)] by blast
  from r d q(1) obtain h \<sigma> s1 h1 where s1: "symbol_remove A (s\<lparr>t_heap := h, t_strs := \<sigma>, t_active := q\<rparr>) (d_symbol d) = Some s1"
    and s': "s' = s1\<lparr>t_heap := h1, t_descs := (t_descs s1)(i := None)\<rparr>"
    by (auto simp: close_descriptor_def bind_Some_iff)
  obtain t where t: "dyn_text (d_symbol d) = Some t" "t_symbols s1 = (t_symbols s)(t := None)" "t_descs s1 = t_descs s"
    "t_active s1 = q" "t_next s1 = t_next s" using symbol_remove_keeps[OF s1] by auto
  have a: "active_ids s' = active_ids s - {i}" by (auto simp: s' t active_ids_def)
  show ?thesis unfolding table_ok_def a
  proof (intro conjI)
    show "\<exists>xs. tq_rep (t_active s') xs \<and> set xs = active_ids s - {i}" using q(2,3) by (auto simp: s' t)
    show "\<forall>j \<ge> t_next s'. t_descs s' j = None" using ok by (simp add: s' t table_ok_def)
    show "\<forall>u j. t_symbols s' u = Some j \<longrightarrow> (\<exists>d. t_descs s' j = Some d \<and> dyn_text (d_symbol d) = Some u)"
    proof (intro allI impI)
      fix u j
      assume "t_symbols s' u = Some j"
      then have u: "t_symbols s u = Some j" "u \<noteq> t" by (auto simp: s' t(2) split: if_splits)
      then obtain d' where d': "t_descs s j = Some d'" "dyn_text (d_symbol d') = Some u" using ok unfolding table_ok_def by blast
      moreover have "j \<noteq> i" using d' d(2) t(1) u(2) by auto
      ultimately show "\<exists>d. t_descs s' j = Some d \<and> dyn_text (d_symbol d) = Some u" by (simp add: s' t(3))
    qed
  qed
qed

section \<open>Reachable tables\<close>

text \<open>A table without descriptors, and the steps that keep to the contract of the list: opening a new descriptor, writing
  to a socket (which may reconnect it), counting what was written to a log that need not be rotated, resetting, and
  closing.\<close>

definition table_start :: "'h table \<Rightarrow> bool" where
  "table_start s \<longleftrightarrow> t_descs s = (\<lambda>_. None) \<and> t_active s = TAILQ_INIT \<and> t_symbols s = (\<lambda>_. None)"

text \<open>The operations, with what they ask of the caller: a log is rotated, a descriptor is opened again and a socket is drained while it is
  not active. Where the code does it with an active one, or makes a descriptor active without listing it, the list and the
  states disagree from then on: \<open>rotlog_rotate_relists\<close>, \<open>read_eof_relists\<close>, \<open>drained_socket_stays_listed\<close> and \<open>connected_socket_close_faults\<close>.\<close>

inductive table_step :: "'h allocator \<Rightarrow> 'h table \<Rightarrow> 'h table \<Rightarrow> bool" for A where
  opened: "open_descriptor A S s og None rotlog flags = Some (rp, s') \<Longrightarrow> table_step A s s'"
| socket_written: "sktw_post_line_write A S s i nbytes err = Some s' \<Longrightarrow> table_step A s s'"
| opened_again: "open_descriptor A S s og (Some i) rotlog flags = Some (rp, s') \<Longrightarrow> i \<notin> active_ids s \<Longrightarrow> table_step A s s'"
| socket_refused: "socket_writable S s i True = Some s' \<Longrightarrow> table_step A s s'"
| socket_drained: "socket_eof s i = Some s' \<Longrightarrow> i \<notin> active_ids s \<Longrightarrow> table_step A s s'"
| read_to_end: "read_eof A S s i = Some s' \<Longrightarrow> table_step A s s'"
| log_rotated: "rotlog_rotate A S s i = Some s' \<Longrightarrow> i \<notin> active_ids s \<or> \<not> rename_ok S \<Longrightarrow> table_step A s s'"
| log_written: "rotlog_post_line_write A S s i nbytes err = Some s' \<Longrightarrow> \<not> rename_ok S \<Longrightarrow> table_step A s s'"
| reset: "reset_descriptor s i = Some s' \<Longrightarrow> table_step A s s'"
| closed: "close_descriptor A s dp = Some s' \<Longrightarrow> table_step A s s'"

inductive table_reach :: "'h allocator \<Rightarrow> 'h table \<Rightarrow> bool" for A where
  start: "table_start s \<Longrightarrow> table_reach A s"
| step: "table_reach A s \<Longrightarrow> table_step A s s' \<Longrightarrow> table_reach A s'"

inductive_cases table_stepE: "table_step A s s'"

lemma table_start_ok: "table_start s \<Longrightarrow> table_ok s"
  using tq.rep_empty by (auto simp: table_start_def table_ok_def active_ids_def)

lemma sktw_ok:
  assumes "table_ok s" and "sktw_post_line_write A S s i nbytes err = Some s'"
  shows "table_ok s'"
proof -
  obtain d where d: "t_descs s i = Some d" using assms(2) by (auto simp: sktw_post_line_write_def bind_Some_iff)
  obtain s1 where s1: "reset_descriptor s i = Some s1" "table_ok s1" "t_descs s1 i = Some (d\<lparr>d_state := DSTATE_INIT\<rparr>)"
    using reset_ok[OF assms(1) d] by blast
  with assms d show ?thesis
    by (auto simp: sktw_post_line_write_def intro: open_again_ok split: if_splits)
qed

lemma log_counted_ok:
  assumes "table_ok s" and "rotlog_post_line_write A S s i nbytes err = Some s'" and "\<not> rename_ok S"
  shows "table_ok s'"
proof -
  obtain d n where d: "t_descs s i = Some d" "s' = s\<lparr>t_descs := (t_descs s)(i \<mapsto> d\<lparr>size_state := Some n\<rparr>)\<rparr>"
    using assms(2,3) by (auto simp: rotlog_post_line_write_def rotlog_rotate_def bind_Some_iff Let_def split: if_splits)
  have a: "active_ids s' = active_ids s" using d(1) by (auto simp: d(2) active_ids_def)
  have "\<forall>j \<ge> t_next s'. t_descs s' j = None" using assms(1) d(1) by (fastforce simp: d(2) table_ok_def)
  moreover have "\<forall>u j. t_symbols s' u = Some j \<longrightarrow> (\<exists>d. t_descs s' j = Some d \<and> dyn_text (d_symbol d) = Some u)"
    using assms(1) d(1) by (fastforce simp: d(2) table_ok_def)
  moreover have "\<exists>xs. tq_rep (t_active s') xs \<and> set xs = active_ids s" using assms(1) by (simp add: d(2) table_ok_def)
  ultimately show ?thesis by (simp add: table_ok_def a)
qed

lemma open_idle_ok: "table_ok s \<Longrightarrow> open_descriptor A S s og (Some i) rotlog flags = Some (rp, s') \<Longrightarrow> i \<notin> active_ids s \<Longrightarrow> table_ok s'"
  by (cases "t_descs s i") (auto simp: active_ids_def intro: open_again_ok, simp add: open_descriptor_def)

lemma table_ok_idle:
  assumes "table_ok s" and "t_descs s i = Some d" and "d_state d \<noteq> DSTATE_ACTIVE" and "d_state e \<noteq> DSTATE_ACTIVE" and "d_symbol e = d_symbol d"
  shows "table_ok (s\<lparr>t_descs := (t_descs s)(i \<mapsto> e), t_pending := p\<rparr>)"
proof -
  have a: "active_ids (s\<lparr>t_descs := (t_descs s)(i \<mapsto> e), t_pending := p\<rparr>) = active_ids s" using assms(2-4) by (auto simp: active_ids_def)
  show ?thesis using assms(1,2,5) unfolding table_ok_def a by (fastforce simp: table_ok_def)
qed

lemma refused_ok:
  assumes ok: "table_ok s" and r: "socket_writable S s i True = Some s'"
  shows "table_ok s'"
proof (cases "s' = s")
  case False
  with r obtain d s1 where d: "t_descs s i = Some d" "reset_descriptor s i = Some s1"
    "s' = s1\<lparr>t_descs := (t_descs s1)(i \<mapsto> d\<lparr>d_state := DSTATE_PENDING\<rparr>)\<rparr>"
    by (auto simp: socket_writable_def bind_Some_iff split: if_splits)
  from reset_ok[OF ok d(1)] d(2) have s1: "table_ok s1" "t_descs s1 i = Some (d\<lparr>d_state := DSTATE_INIT\<rparr>)" by auto
  from table_ok_idle[OF s1, of "d\<lparr>d_state := DSTATE_PENDING\<rparr>" "t_pending s1"] d(3) show ?thesis by simp
qed (use ok in simp)

lemma drained_ok: "table_ok s \<Longrightarrow> socket_eof s i = Some s' \<Longrightarrow> i \<notin> active_ids s \<Longrightarrow> table_ok s'"
  by (auto simp: socket_eof_def active_ids_def bind_Some_iff intro: table_ok_idle)

lemma read_eof_ok:
  assumes ok: "table_ok s" and r: "read_eof A S s i = Some s'"
  shows "table_ok s'"
proof -
  obtain d p where d: "t_descs s i = Some d" "desc_pending_remove (fd d) (t_pending s) = Some p" using r by (auto simp: read_eof_def bind_Some_iff)
  let ?s = "s\<lparr>t_pending := p\<rparr>"
  have ok': "table_ok ?s" using ok by (simp add: table_ok_def active_ids_def)
  consider (closed) "close_descriptor A ?s (Some i) = Some s'"
    | (again) s1 rp where "reset_descriptor ?s i = Some s1" "open_descriptor A S s1 (d_origin d) (Some i) False (DOPEN_SEEKSTART OR DOPEN_KEEP_BUFFERS) = Some (rp, s')"
    | (same) "s' = ?s"
  proof (cases "d_state d = DSTATE_DRAIN")
    case True
    with r d that(1) show thesis by (simp add: read_eof_def Let_def)
  next
    case no_drain: False
    show thesis
    proof (cases "d_type d = D_FILER \<and> d_state d = DSTATE_DRAIN_ROTATE")
      case True
      with r d no_drain obtain s1 where s1: "reset_descriptor ?s i = Some s1"
        "map_option snd (open_descriptor A S s1 (d_origin d) (Some i) False (DOPEN_SEEKSTART OR DOPEN_KEEP_BUFFERS)) = Some s'"
        by (cases "reset_descriptor ?s i") (simp_all add: read_eof_def Let_def)
      then obtain rp where "open_descriptor A S s1 (d_origin d) (Some i) False (DOPEN_SEEKSTART OR DOPEN_KEEP_BUFFERS) = Some (rp, s')" by auto
      with s1(1) show thesis by (rule that(2))
    next
      case False
      with r d no_drain that(3) show thesis by (auto simp: read_eof_def Let_def)
    qed
  qed
  then show ?thesis
  proof cases
    case again
    with reset_ok[OF ok', of i d] d(1) show ?thesis by (auto intro: open_idle_ok)
  qed (use ok' close_ok in auto)
qed

lemma rotate_ok: "table_ok s \<Longrightarrow> rotlog_rotate A S s i = Some s' \<Longrightarrow> i \<notin> active_ids s \<or> \<not> rename_ok S \<Longrightarrow> table_ok s'"
  by (auto simp: rotlog_rotate_def bind_Some_iff split: if_splits intro: open_idle_ok)

lemma table_step_ok: "table_step A s s' \<Longrightarrow> table_ok s \<Longrightarrow> table_ok s'"
proof (erule table_stepE)
  fix i
  assume ok: "table_ok s" and r: "reset_descriptor s i = Some s'"
  then obtain d where "t_descs s i = Some d" by (auto simp: reset_descriptor_def bind_Some_iff)
  from reset_ok[OF ok this] r show "table_ok s'" by auto
qed (auto intro: open_new_ok open_idle_ok sktw_ok refused_ok drained_ok read_eof_ok rotate_ok log_counted_ok close_ok)

lemma table_reach_ok: "table_reach A s \<Longrightarrow> table_ok s"
  by (induction rule: table_reach.induct) (auto intro: table_start_ok table_step_ok)

lemma table_ok_visits: "table_ok s \<Longrightarrow> \<exists>xs. TAILQ_FOREACH (t_active s) = Some xs \<and> distinct xs \<and> set xs = active_ids s"
  using tq.elems_law tq.rep_distinct unfolding table_ok_def by blast

section \<open>Opening always returns\<close>

text \<open>The origin's strings are C strings, and an inherited scan position lies inside the inherited text.\<close>

definition origin_ok :: "origin \<Rightarrow> bool" where
  "origin_ok og \<longleftrightarrow> NUL \<notin> set (or_symbol og)
     \<and> (case inh_buffer og of None \<Rightarrow> True | Some b \<Rightarrow> NUL \<notin> set b \<and> 0 \<le> inh_idx og \<and> inh_idx og \<le> int (length b))"

text \<open>The reader of a new descriptor leaves the blocks in use alone.\<close>

lemma open_new_reader_ok:
  assumes inv: "arena_ok h L" and og: "origin_ok og"
  shows "\<exists>r h' c t. open_new_reader dynstr_arena h (dorigin.truncate og) = Some (r, h') \<and> ptr (buf r) \<notin> L
     \<and> reader_at h' (insert (ptr (buf r)) L) r c t \<and> (\<forall>q \<in> L. block_size h' q = block_size h q)"
proof -
  obtain r h1 where r: "reader_new dynstr_arena h = Some (r, h1)" "ptr (buf r) \<notin> L"
    "reader_at h1 (insert (ptr (buf r)) L) r 0 []" "\<forall>q \<in> L. block_size h1 q = block_size h q"
    using da.reader_new_ok[OF inv] by blast
  show ?thesis
  proof (cases "inh_buffer og")
    case None
    with r show ?thesis by (auto simp: open_new_reader_def dorigin.defs)
  next
    case (Some b)
    then have b: "NUL \<notin> set b" "nat (inh_idx og) \<le> length b" "inh_idx og = int (nat (inh_idx og))" using og by (auto simp: origin_ok_def)
    have own: "dyn_at h1 (insert (ptr (buf r)) L) (buf r) []" using r(3) by (simp add: reader_in_def)
    obtain h2 where h2: "dynstr_free dynstr_arena h1 (buf r) = Some h2" "arena_ok h2 L" "\<forall>q \<in> L. block_size h2 q = block_size h1 q"
      using da.free_str_ok[OF own] r(2) by auto
    obtain x h3 where x: "dynstr_new dynstr_arena h2 (Some b) = Some (x, h3)" "ptr x \<notin> L" "dyn_at h3 (insert (ptr x) L) x b"
      "\<forall>q \<in> L. block_size h3 q = block_size h2 q" using da.new_ok[OF h2(2) b(1)] by blast
    let ?r = "\<lparr>cur_idx = inh_idx og, buf = x\<rparr>"
    have "open_new_reader dynstr_arena h (dorigin.truncate og) = Some (?r, h3)" using r(1) h2(1) x(1) Some
      by (simp add: open_new_reader_def reader_reset_with_buffer_def dorigin.defs)
    moreover have "reader_at h3 (insert (ptr (buf ?r)) L) ?r (nat (inh_idx og)) b" using x(3) b by (simp add: reader_in_def)
    ultimately show ?thesis using x h2 r(4) by (intro exI[of _ ?r] exI[of _ h3]) auto
  qed
qed

text \<open>A new descriptor owns its symbol and, if it reads, its reader, in blocks that were not in use.\<close>

lemma new_desc_ok:
  assumes inv: "arena_ok (t_heap s) L" and og: "origin_ok (t_origins s og)"
  shows "\<exists>d s' M. new_desc dynstr_arena s og rotlog = Some (d, s') \<and> arena_ok (t_heap s') (L \<union> M) \<and> L \<inter> M = {}
     \<and> dyn_at (t_heap s') (L \<union> M) (d_symbol d) (or_symbol (t_origins s og)) \<and> d_type d = or_type (t_origins s og)
     \<and> (D_IS_READ_SIDE (d_type d) \<longrightarrow> (\<exists>c t. reader_at (t_heap s') (L \<union> M) (reader d) c t)) \<and> wqueue d = wq_new
     \<and> (\<forall>q \<in> L. block_size (t_heap s') q = block_size (t_heap s) q) \<and> d_origin d = og \<and> t_origins s' = t_origins s"
proof -
  let ?o = "t_origins s og"
  obtain x h1 where x: "dynstr_new dynstr_arena (t_heap s) (Some (or_symbol ?o)) = Some (x, h1)" "ptr x \<notin> L"
    "dyn_at h1 (insert (ptr x) L) x (or_symbol ?o)" "\<forall>q \<in> L. block_size h1 q = block_size (t_heap s) q"
    using da.new_ok[OF inv, of "or_symbol ?o"] og by (auto simp: origin_ok_def)
  show ?thesis
  proof (cases "D_IS_READ_SIDE (or_type ?o)")
    case False
    with x da.own_inv[OF x(3)] show ?thesis by (auto simp: new_desc_def Let_def intro!: exI[of _ "{ptr x}"])
  next
    case True
    obtain r h2 c t where r: "open_new_reader dynstr_arena h1 (dorigin.truncate ?o) = Some (r, h2)" "ptr (buf r) \<notin> insert (ptr x) L"
      "reader_at h2 (insert (ptr (buf r)) (insert (ptr x) L)) r c t" "\<forall>q \<in> insert (ptr x) L. block_size h2 q = block_size h1 q"
      using open_new_reader_ok[OF da.own_inv[OF x(3)] og] by blast
    have eq: "insert (ptr (buf r)) (insert (ptr x) L) = L \<union> {ptr x, ptr (buf r)}" by auto
    have ok: "arena_ok h2 (L \<union> {ptr x, ptr (buf r)})" using r(3) by (simp add: reader_in_def str_in_def eq)
    have "dyn_at h2 (L \<union> {ptr x, ptr (buf r)}) x (or_symbol ?o)" using da.own_frame[OF x(3) ok] r(4) by simp
    moreover have "\<exists>c t. reader_at h2 (L \<union> {ptr x, ptr (buf r)}) r c t" using r(3) unfolding eq by blast
    moreover have "\<forall>q \<in> L. block_size h2 q = block_size (t_heap s) q" using r(4) x(4) by simp
    ultimately show ?thesis using True x(1,2) r(1,2) ok
      by (intro exI[of _ "\<lparr>d_state = DSTATE_INIT, d_type = or_type ?o, fd = 0, reader = r, wqueue = wq_new, post_line_write = rotlog,
             d_origin = og, d_symbol = x, on_activate = rotlog, pre_read = False, size_state = None\<rparr>"]
          exI[of _ "s\<lparr>t_heap := h2, t_next := t_next s + 1\<rparr>"] exI[of _ "{ptr x, ptr (buf r)}"]) (simp add: new_desc_def Let_def)
  qed
qed

text \<open>Emptying the buffers of a new descriptor, and registering its symbol, keep its strings alive.\<close>

lemma empty_new_ok:
  assumes inv: "arena_ok (t_heap s) L" and r: "D_IS_READ_SIDE (d_type d) \<longrightarrow> (\<exists>c t. reader_at (t_heap s) L (reader d) c t)"
    and w: "wqueue d = wq_new"
  shows "\<exists>d' s'. empty_buffers dynstr_arena s flags d = Some (d', s') \<and> t_heap s' = t_heap s"
proof (cases "flags AND DOPEN_KEEP_BUFFERS = 0 \<and> D_IS_READ_SIDE (d_type d)")
  case True
  with r obtain c t where "dyn_rep (buf (reader d)) t" by (auto simp: reader_in_def str_in_def)
  from dynstr_reset_ok[OF this] True show ?thesis by (auto simp: empty_buffers_def reader_reset_def)
next
  case False
  then show ?thesis by (auto simp: empty_buffers_def w wq_destroy_def wq_new_def first_entries_def)
qed

lemma symbol_upsert_ok:
  assumes "dyn_at (t_heap s) L key t"
  shows "\<exists>s' L'. symbol_upsert dynstr_arena s key i = Some s' \<and> arena_ok (t_heap s') L' \<and> L \<subseteq> L' \<and> t_symbols s' = (t_symbols s)(t \<mapsto> i)
     \<and> (\<forall>q \<in> L. block_size (t_heap s') q = block_size (t_heap s) q)"
proof -
  have key: "dyn_text key = Some t" using assms by (simp add: str_in_def dyn_text_rep)
  obtain x h where "dynstr_copy dynstr_arena (t_heap s) key = Some (x, h)" "arena_ok h (insert (ptr x) L)"
    "\<forall>q \<in> L. block_size h q = block_size (t_heap s) q" using da.copy_ok[OF assms] by (auto simp: str_in_def)
  then show ?thesis using da.own_inv[OF assms] by (auto simp: symbol_upsert_def key)
qed

lemma open_finish_new_ok:
  assumes ok: "table_ok s" and i: "i \<notin> active_ids s" and key: "dyn_at (t_heap s) L (d_symbol d) t"
    and r: "D_IS_READ_SIDE (d_type d) \<longrightarrow> (\<exists>c t. reader_at (t_heap s) L (reader d) c t)" and w: "wqueue d = wq_new"
  shows "\<exists>s' L'. open_finish dynstr_arena S s i d False flags = Some s' \<and> arena_ok (t_heap s') L' \<and> L \<subseteq> L'
     \<and> (\<forall>q \<in> L. block_size (t_heap s') q = block_size (t_heap s) q)
     \<and> (\<not> D_IS_SOCKET_READ (d_type d) \<longrightarrow> t_symbols s' t = Some i) \<and> (\<exists>d'. t_descs s' i = Some d' \<and> d_state d' = d_state d)"
proof -
  obtain d1 s1 where e: "empty_buffers dynstr_arena s flags d = Some (d1, s1)" "t_heap s1 = t_heap s"
    using empty_new_ok[OF da.own_inv[OF key] r w] by blast
  note k = empty_buffers_keeps[OF e(1)]
  let ?d = "if d_state d1 = DSTATE_ACTIVE \<and> on_activate d1 then rotlog_on_activate S d1 else d1"
  have d: "d_symbol ?d = d_symbol d" "d_type ?d = d_type d" "d_state ?d = d_state d" using k by (auto simp: rotlog_on_activate_def)
  have key1: "dyn_at (t_heap s1) L (d_symbol ?d) t" using key e(2) d by simp
  obtain s2 L2 where s2: "(if \<not> D_IS_SOCKET_READ (d_type ?d) then symbol_upsert dynstr_arena s1 (d_symbol ?d) i else Some s1) = Some s2"
    "arena_ok (t_heap s2) L2" "L \<subseteq> L2" "\<forall>q \<in> L. block_size (t_heap s2) q = block_size (t_heap s) q"
    "\<not> D_IS_SOCKET_READ (d_type d) \<longrightarrow> t_symbols s2 t = Some i"
    using symbol_upsert_ok[OF key1, of i] d(2) e(2) da.own_inv[OF key1] by (cases "D_IS_SOCKET_READ (d_type d)") auto
  obtain q where q: "TAILQ_INSERT_TAIL (t_active s2) i = Some q" using insert_total by blast
  show ?thesis
  proof (cases "d_state d = DSTATE_ACTIVE")
    case True
    with e s2 q d show ?thesis by (auto simp: open_finish_def Let_def)
  next
    case False
    with e s2 d show ?thesis by (auto simp: open_finish_def Let_def)
  qed
qed

lemma open_core_total:
  assumes "or_type og \<noteq> D_TYPEINVALID"
  shows "\<exists>x. open_core S flags i (d, og, p) = Some x"
  using assms by (cases "or_type og") (simp_all add: open_core_def DESC_CORE_BITMASK_def Let_def del: split_paired_Ex)

lemma open_new_returns:
  assumes "table_ok s" and "arena_ok (t_heap s) L" and "origin_ok (t_origins s og)"
  shows "\<exists>rp s' L'. open_descriptor dynstr_arena S s og None rotlog flags = Some (rp, s')
     \<and> arena_ok (t_heap s') L' \<and> L \<subseteq> L' \<and> (\<forall>q \<in> L. block_size (t_heap s') q = block_size (t_heap s) q)
     \<and> (case rp of
          None \<Rightarrow> t_symbols s' = t_symbols s \<and> t_active s' = t_active s
        | Some i \<Rightarrow> i = t_next s \<and> (\<exists>d. t_descs s' i = Some d \<and> d_state d \<noteq> DSTATE_DEAD)
            \<and> (\<not> D_IS_SOCKET_READ (or_type (t_origins s og)) \<longrightarrow> t_symbols s' (or_symbol (t_origins s og)) = Some i))"
proof (cases "or_type (t_origins s og) = D_TYPEINVALID")
  case True
  then show ?thesis using assms by (auto simp: open_descriptor_def)
next
  case False
  obtain d s1 M where n: "new_desc dynstr_arena s og rotlog = Some (d, s1)" "arena_ok (t_heap s1) (L \<union> M)"
    "dyn_at (t_heap s1) (L \<union> M) (d_symbol d) (or_symbol (t_origins s og))" "d_type d = or_type (t_origins s og)"
    "D_IS_READ_SIDE (d_type d) \<longrightarrow> (\<exists>c t. reader_at (t_heap s1) (L \<union> M) (reader d) c t)" "wqueue d = wq_new"
    "\<forall>q \<in> L. block_size (t_heap s1) q = block_size (t_heap s) q" "t_origins s1 = t_origins s"
    using new_desc_ok[OF assms(2,3)] by blast
  note k = new_desc_keeps[OF n(1)]
  obtain d1 og1 p1 where c: "open_core S flags (t_next s) (d, t_origins s1 og, t_pending s1) = Some (d1, og1, p1)"
    using open_core_total[of "t_origins s1 og"] False n(8) by (metis prod_cases3)
  note kc = open_core_keeps[OF c]
  let ?s = "s1\<lparr>t_origins := (t_origins s1)(og := og1), t_pending := p1\<rparr>"
  have ok1: "table_ok ?s" "t_next s \<notin> active_ids ?s" using assms(1) k by (auto simp: table_ok_def active_ids_def)
  show ?thesis
  proof (cases "d_state d1 = DSTATE_DEAD")
    case True
    let ?s' = "?s\<lparr>t_descs := (t_descs ?s)(t_next s \<mapsto> d1)\<rparr>"
    have r: "open_descriptor dynstr_arena S s og None rotlog flags = Some (None, ?s')"
      using False n(1) c True by (simp add: open_descriptor_def open_with_def close_descriptor_def Let_def)
    from r n(2,7) k show ?thesis by (intro exI[of _ None] exI[of _ ?s'] exI[of _ "L \<union> M"]) auto
  next
    case not_dead: False
    have "dyn_at (t_heap ?s) (L \<union> M) (d_symbol d1) (or_symbol (t_origins s og))"
      "D_IS_READ_SIDE (d_type d1) \<longrightarrow> (\<exists>c t. reader_at (t_heap ?s) (L \<union> M) (reader d1) c t)" "wqueue d1 = wq_new"
      using n(3,5,6) kc by simp_all
    from open_finish_new_ok[OF ok1 this, of S flags] obtain s' L' where
      f: "open_finish dynstr_arena S ?s (t_next s) d1 False flags = Some s'" "arena_ok (t_heap s') L'" "L \<union> M \<subseteq> L'"
      "\<forall>q \<in> L \<union> M. block_size (t_heap s') q = block_size (t_heap ?s) q"
      "\<not> D_IS_SOCKET_READ (d_type d1) \<longrightarrow> t_symbols s' (or_symbol (t_origins s og)) = Some (t_next s)"
      "\<exists>d'. t_descs s' (t_next s) = Some d' \<and> d_state d' = d_state d1" by blast
    have r: "open_descriptor dynstr_arena S s og None rotlog flags = Some (Some (t_next s), s')"
      using False n(1) c not_dead f(1) by (simp add: open_descriptor_def open_with_def Let_def)
    from r f not_dead n(4,7) kc show ?thesis
      by (intro exI[of _ "Some (t_next s)"] exI[of _ s'] exI[of _ L']) auto
  qed
qed

section \<open>Properties\<close>

text \<open>C21: opening a new descriptor of any type, with whatever results of the system calls, returns, and neither the blocks in
  use nor the table's invariant suffer. If it returns a descriptor, that is the next new one, it is not dead, and its symbol
  leads to it unless it is a client or a listening socket, which the code does not register; if it does not, the symbol table and the active list are what they were.\<close>

theorem open_descriptor_sound:
  assumes "table_ok s" and "arena_ok (t_heap s) L" and "origin_ok (t_origins s og)"
  shows "\<exists>rp s' L'. open_descriptor dynstr_arena S s og None rotlog flags = Some (rp, s') \<and> table_ok s'
     \<and> arena_ok (t_heap s') L' \<and> L \<subseteq> L' \<and> (\<forall>q \<in> L. block_size (t_heap s') q = block_size (t_heap s) q)
     \<and> (case rp of
          None \<Rightarrow> t_symbols s' = t_symbols s \<and> t_active s' = t_active s
        | Some i \<Rightarrow> i = t_next s \<and> (\<exists>d. t_descs s' i = Some d \<and> d_state d \<noteq> DSTATE_DEAD)
            \<and> (\<not> D_IS_SOCKET_READ (or_type (t_origins s og)) \<longrightarrow> t_symbols s' (or_symbol (t_origins s og)) = Some i))"
  using open_new_returns[OF assms] open_new_ok[OF assms(1)] by blast

text \<open>A system on which everything works, an origin of a rotating log and an empty table.\<close>

definition sys0 :: sys where
  "sys0 = \<lparr>access_ok = True, open_result = 5, mkfifo_failed = False, reg_read = 0, st_size = 0, rename_ok = True, resolved = True,
     addresses = [Connected 5], listen_ok = True, so_error = None, inotify_result = 6\<rparr>"

definition log_origin :: origin where
  "log_origin = \<lparr>or_type = D_ROTLOG, or_symbol = ''LOG'', inh_buffer = None, inh_idx = 0, inh_fd = 0, or_path = ''/log'', or_size = 10\<rparr>"

definition table0 :: "'h \<Rightarrow> origin \<Rightarrow> 'h table" where
  "table0 h og = \<lparr>t_heap = h, t_strs = (\<lambda>_. None), t_descs = (\<lambda>_. None), t_next = 0, t_origins = (\<lambda>_. og), t_active = TAILQ_INIT,
     t_symbols = (\<lambda>_. None), t_pending = no_pending\<rparr>"

lemma table0_start: "table_start (table0 h og)"
  by (simp add: table_start_def table0_def)

theorem open_descriptor_sound_witness:
  "\<exists>ar rp s'. arena_ok ar {} \<and> open_descriptor dynstr_arena sys0 (table0 ar log_origin) 0 None True 0 = Some (rp, s') \<and> table_ok s'"
proof -
  obtain ar where ar: "arena_ok ar {}" using dynstr_arena_exists by blast
  have "arena_ok (t_heap (table0 ar log_origin)) {}" "origin_ok (t_origins (table0 ar log_origin) 0)"
    using ar by (simp_all add: table0_def origin_ok_def log_origin_def)
  from open_descriptor_sound[OF table_start_ok[OF table0_start] this] ar show ?thesis by blast
qed

text \<open>C14: in every table reachable by opening new descriptors and opening inactive ones again, socket writes with their reconnections, refused
  connections, ends of reads, log writes and rotations that do not reopen an active log, resets and closings, going through the active list ends and visits each active descriptor exactly once and nothing else, and every
  symbol leads to a live descriptor that bears it.\<close>

theorem table_reach_consistent:
  assumes "table_reach A s"
  shows "(\<exists>xs. TAILQ_FOREACH (t_active s) = Some xs \<and> distinct xs \<and> set xs = active_ids s)
     \<and> (\<forall>t i. t_symbols s t = Some i \<longrightarrow> (\<exists>d. t_descs s i = Some d \<and> dyn_text (d_symbol d) = Some t))"
  using table_reach_ok[OF assms] table_ok_visits unfolding table_ok_def by blast

theorem table_reach_consistent_witness:
  "\<exists>ar rp s'. open_descriptor dynstr_arena sys0 (table0 ar log_origin) 0 None True 0 = Some (rp, s') \<and> table_reach dynstr_arena s'
     \<and> (\<exists>xs. TAILQ_FOREACH (t_active s') = Some xs \<and> distinct xs \<and> set xs = active_ids s')"
proof -
  obtain ar where ar: "arena_ok ar {}" using dynstr_arena_exists by blast
  have "arena_ok (t_heap (table0 ar log_origin)) {}" "origin_ok (t_origins (table0 ar log_origin) 0)"
    using ar by (simp_all add: table0_def origin_ok_def log_origin_def)
  from open_new_returns[OF table_start_ok[OF table0_start] this] obtain rp s' where
    o: "open_descriptor dynstr_arena sys0 (table0 ar log_origin) 0 None True 0 = Some (rp, s')" by blast
  then have "table_reach dynstr_arena s'" by (meson table_reach.intros table0_start table_step.opened)
  with table_reach_consistent[OF this] o show ?thesis by blast
qed

lemma open_skt_w_connects:
  "or_type og = D_SOCKETW \<Longrightarrow> resolved S \<Longrightarrow> addresses S = Connected m # as \<Longrightarrow>
   open_core S flags i (d, og, p) = Some (d\<lparr>post_line_write := True, fd := m, d_state := DSTATE_ACTIVE\<rparr>, og, p)"
  by (simp add: open_core_def open_skt_w_def DESC_CORE_BITMASK_def Let_def)

text \<open>Opening a descriptor again with its buffers kept changes no buffer.\<close>

lemma open_keep_ok:
  assumes "t_descs s i = Some d" and "or_type (t_origins s og) \<noteq> D_TYPEINVALID"
    and "flags AND DOPEN_KEEP_BUFFERS \<noteq> 0"
  shows "\<exists>rp s' d' d1 og1 p1. open_descriptor A S s og (Some i) rotlog flags = Some (rp, s') \<and> t_heap s' = t_heap s \<and> t_strs s' = t_strs s
     \<and> t_symbols s' = t_symbols s \<and> t_descs s' i = Some d' \<and> wqueue d' = wqueue d \<and> reader d' = reader d
     \<and> open_core S flags i (d, t_origins s og, t_pending s) = Some (d1, og1, p1) \<and> d_state d' = d_state d1 \<and> fd d' = fd d1
     \<and> t_pending s' = p1 \<and> (d_state d1 = DSTATE_ACTIVE \<longrightarrow> TAILQ_INSERT_TAIL (t_active s) i = Some (t_active s'))"
proof -
  obtain d1 og1 p1 where c: "open_core S flags i (d, t_origins s og, t_pending s) = Some (d1, og1, p1)"
    using open_core_total[OF assms(2)] by (metis prod_cases3)
  obtain q where q: "TAILQ_INSERT_TAIL (t_active s) i = Some q" using insert_total by blast
  have o: "open_descriptor A S s og (Some i) rotlog flags = open_with A S s og i d True flags"
    using assms(1) by (simp add: open_descriptor_def)
  consider "d_state d1 = DSTATE_DEAD" | "d_state d1 = DSTATE_ACTIVE" | "d_state d1 \<noteq> DSTATE_DEAD" "d_state d1 \<noteq> DSTATE_ACTIVE" by blast
  then show ?thesis using open_core_keeps[OF c] c q assms(3)
    by cases (simp_all add: o open_with_def close_descriptor_def open_finish_def empty_buffers_def rotlog_on_activate_def Let_def)
qed

text \<open>C22: a socket that is still connecting, or whose peer has gone, is taken off the list, and connected again with the lines
  that wait in its queue; whatever the new connection attempt gives, the function returns, no queued line is lost and
  the table stays consistent. When the attempt succeeds the socket is active again and on the list.\<close>

theorem sktw_reconnects:
  assumes "table_ok s" and "t_descs s i = Some d" and "or_type (t_origins s (d_origin d)) = D_SOCKETW"
    and "d_state d = DSTATE_PENDING \<or> err = EPIPE"
  shows "\<exists>s' d'. sktw_post_line_write A S s i nbytes err = Some s' \<and> table_ok s' \<and> t_heap s' = t_heap s \<and> t_strs s' = t_strs s
     \<and> t_descs s' i = Some d' \<and> wqueue d' = wqueue d
     \<and> (resolved S \<and> addresses S = Connected m # as \<longrightarrow> d_state d' = DSTATE_ACTIVE \<and> fd d' = m
          \<and> (\<exists>xs. TAILQ_FOREACH (t_active s') = Some xs \<and> i \<in> set xs))"
proof -
  obtain s1 where s1: "reset_descriptor s i = Some s1" "t_descs s1 i = Some (d\<lparr>d_state := DSTATE_INIT\<rparr>)" "t_heap s1 = t_heap s"
    using reset_ok[OF assms(1,2)] by blast
  have o1: "t_origins s1 = t_origins s" "t_strs s1 = t_strs s" using s1(1) by (auto simp: reset_descriptor_def bind_Some_iff)
  have kb: "DOPEN_KEEP_BUFFERS AND DOPEN_KEEP_BUFFERS \<noteq> 0" by (simp add: DOPEN_KEEP_BUFFERS_def)
  obtain rp s' d' d1 og1 p1 where
    r: "open_descriptor A S s1 (d_origin d) (Some i) False DOPEN_KEEP_BUFFERS = Some (rp, s')" "t_heap s' = t_heap s1"
    "t_strs s' = t_strs s1" "t_descs s' i = Some d'" "wqueue d' = wqueue d"
    "open_core S DOPEN_KEEP_BUFFERS i (d\<lparr>d_state := DSTATE_INIT\<rparr>, t_origins s1 (d_origin d), t_pending s1) = Some (d1, og1, p1)"
    "d_state d' = d_state d1" "fd d' = fd d1"
    using open_keep_ok[OF s1(2) _ kb, of "d_origin d" A S False] assms(3) o1(1) by auto
  have sk: "sktw_post_line_write A S s i nbytes err = Some s'" using assms(2,4) s1(1) r(1) by (auto simp: sktw_post_line_write_def)
  have ok: "table_ok s'" by (rule sktw_ok[OF assms(1) sk])
  have act: "d_state d' = DSTATE_ACTIVE \<and> fd d' = m" if "resolved S" "addresses S = Connected m # as"
    using open_skt_w_connects[of "t_origins s1 (d_origin d)" S m as] r(6-8) that assms(3) o1(1) by auto
  have "\<exists>xs. TAILQ_FOREACH (t_active s') = Some xs \<and> i \<in> set xs" if "d_state d' = DSTATE_ACTIVE"
    using table_ok_visits[OF ok] r(4) that by (auto simp: active_ids_def)
  with sk ok act r(2-5) s1(3) o1(2) show ?thesis by auto
qed

text \<open>A table of one descriptor.\<close>

definition a_desc :: "dstate \<Rightarrow> dtype \<Rightarrow> table_desc" where
  "a_desc st ty = \<lparr>d_state = st, d_type = ty, fd = 4, reader = no_reader, wqueue = wq_new, post_line_write = True, d_origin = 0,
     d_symbol = \<lparr>ptr = 16, len = 1, cap = 2, str = [Some (CHR ''S''), Some NUL]\<rparr>, on_activate = False, pre_read = False,
     size_state = Some 0\<rparr>"

definition table1 :: "'h \<Rightarrow> origin \<Rightarrow> table_desc \<Rightarrow> 'h table" where
  "table1 h og d = (table0 h og)\<lparr>t_descs := [0 \<mapsto> d], t_next := 1\<rparr>"

lemma table1_ok: "d_state d \<noteq> DSTATE_ACTIVE \<Longrightarrow> table_ok (table1 h og d)"
  using tq.rep_empty by (auto simp: table_ok_def table1_def table0_def active_ids_def)

theorem sktw_reconnects_witness:
  "\<forall>ar. \<exists>s' d'. sktw_post_line_write dynstr_arena sys0 (table1 ar (log_origin\<lparr>or_type := D_SOCKETW\<rparr>) (a_desc DSTATE_PENDING D_SOCKETW)) 0 0 0 = Some s'
     \<and> t_descs s' 0 = Some d' \<and> d_state d' = DSTATE_ACTIVE \<and> fd d' = 5"
proof (rule allI)
  fix ar :: arena
  let ?d = "a_desc DSTATE_PENDING D_SOCKETW" and ?og = "log_origin\<lparr>or_type := D_SOCKETW\<rparr>"
  have "table_ok (table1 ar ?og ?d)" by (rule table1_ok) (simp add: a_desc_def)
  then obtain s' d' where "sktw_post_line_write dynstr_arena sys0 (table1 ar ?og ?d) 0 0 0 = Some s'" "t_descs s' 0 = Some d'"
    "resolved sys0 \<and> addresses sys0 = [Connected 5] \<longrightarrow> d_state d' = DSTATE_ACTIVE \<and> fd d' = 5"
    using sktw_reconnects[where s = "table1 ar ?og ?d" and d = ?d and i = 0 and err = 0 and A = dynstr_arena and S = sys0 and nbytes = 0
        and m = 5 and as = "[]"] by (auto simp: table1_def table0_def a_desc_def)
  then show "\<exists>s' d'. sktw_post_line_write dynstr_arena sys0 (table1 ar ?og ?d) 0 0 0 = Some s'
     \<and> t_descs s' 0 = Some d' \<and> d_state d' = DSTATE_ACTIVE \<and> fd d' = 5" by (auto simp: sys0_def)
qed

text \<open>The list with one descriptor listed, or the last of the list listed again.\<close>

lemma listed_again:
  assumes "TAILQ_FOREACH q = Some (xs @ [i])" and "tq_rep q ys"
  shows "\<exists>q'. TAILQ_INSERT_TAIL q i = Some q' \<and> TAILQ_FOREACH q' = None"
  using insert_twice[of q xs i] tq.elems_law[OF assms(2)] assms by auto

text \<open>Rotating an active log while it is the last on the active list puts it there a second time: from then on
  going through the list, as \<^verbatim>\<open>dlog_sig_rotlog\<close>, the restart and the shutdown do, never ends. The lines still queued are
  released without having been written.\<close>

theorem rotlog_rotate_relists:
  assumes "tq_rep (t_active s) ys" and "TAILQ_FOREACH (t_active s) = Some (xs @ [i])" and "t_descs s i = Some d"
    and "d_type d = D_ROTLOG" and "or_type (t_origins s (d_origin d)) = D_ROTLOG" and "rename_ok S" and "open_result S \<noteq> - 1"
    and "queue_at (t_heap s) L (t_strs s) (wqueue d) ps ts"
  shows "\<exists>s' d'. rotlog_rotate dynstr_arena S s i = Some s' \<and> TAILQ_FOREACH (t_active s') = None
     \<and> arena_ok (t_heap s') (L - set ps) \<and> t_descs s' i = Some d' \<and> wq_holds (wqueue d') []"
proof -
  obtain q where q: "TAILQ_INSERT_TAIL (t_active s) i = Some q" "TAILQ_FOREACH q = None" using listed_again[OF assms(2,1)] by blast
  obtain wq h where w: "wq_destroy dynstr_arena (t_heap s) (t_strs s) (Some (wqueue d)) = Some (Some wq, h, t_strs s |` (- set ps))"
    "arena_ok h (L - set ps)" "wq_holds wq []" using da.destroy_ok[OF assms(8)] by blast
  have ty: "\<not> D_IS_READ_SIDE D_ROTLOG" "D_IS_WRITE_SIDE D_ROTLOG" by (simp_all add: D_IS_READ_SIDE_def D_IS_WRITE_SIDE_def)
  show ?thesis using assms(3-7) q w ty
    by (cases "on_activate d")
      (simp_all add: rotlog_rotate_def open_descriptor_def open_with_def open_core_def DESC_CORE_BITMASK_def open_file_w_def
        open_finish_def empty_buffers_def DOPEN_NOFLAGS_def rotlog_on_activate_def Let_def)
qed

definition table1_listed :: "'h \<Rightarrow> origin \<Rightarrow> table_desc \<Rightarrow> 'h table" where
  "table1_listed h og d = (table1 h og d)\<lparr>t_active := the (TAILQ_INSERT_TAIL TAILQ_INIT 0)\<rparr>"

lemma table1_listed_rep: "tq_rep (t_active (table1_listed h og d)) [0]"
  using tq.ins_law[OF tq.rep_empty, of 0] by (auto simp: table1_listed_def table1_def table0_def)

theorem rotlog_rotate_relists_witness:
  "\<exists>ar s'. rotlog_rotate dynstr_arena sys0 (table1_listed ar log_origin (a_desc DSTATE_ACTIVE D_ROTLOG)) 0 = Some s'
     \<and> TAILQ_FOREACH (t_active s') = None"
proof -
  obtain ar where ar: "arena_ok ar {}" using dynstr_arena_exists by blast
  let ?s = "table1_listed ar log_origin (a_desc DSTATE_ACTIVE D_ROTLOG)"
  have "queue_at (t_heap ?s) {} (t_strs ?s) (wqueue (a_desc DSTATE_ACTIVE D_ROTLOG)) [] []"
    using ar wq_new_holds by (simp add: queue_in_def lines_in_def table1_listed_def table1_def table0_def a_desc_def)
  from rotlog_rotate_relists[OF table1_listed_rep _ _ _ _ _ _ this, of "[]" 0 sys0] tq.elems_law[OF table1_listed_rep]
  show ?thesis by (auto simp: table1_listed_def table1_def table0_def a_desc_def log_origin_def sys0_def)
qed

text \<open>A file that was rotated away and read to its end is opened again while it is still on the active list, since the
  reset takes only active descriptors off it and this one is draining; if it was the last of the list, going through
  the list never ends from then on.\<close>

theorem read_eof_relists:
  assumes "tq_rep (t_active s) ys" and "TAILQ_FOREACH (t_active s) = Some (xs @ [i])" and "t_descs s i = Some d"
    and "d_type d = D_FILER" and "d_state d = DSTATE_DRAIN_ROTATE" and "or_type (t_origins s (d_origin d)) = D_FILER"
    and "access_ok S" and "reg_read S = 0" and "pend_removable (fd d) (t_pending s)"
  shows "\<exists>s' d'. read_eof A S s i = Some s' \<and> t_descs s' i = Some d' \<and> d_state d' = DSTATE_ACTIVE \<and> reader d' = reader d
     \<and> TAILQ_FOREACH (t_active s') = None"
proof -
  obtain q where q: "TAILQ_INSERT_TAIL (t_active s) i = Some q" "TAILQ_FOREACH q = None" using listed_again[OF assms(2,1)] by blast
  have kb: "(DOPEN_SEEKSTART OR DOPEN_KEEP_BUFFERS) AND DOPEN_KEEP_BUFFERS \<noteq> 0" by (simp add: DOPEN_KEEP_BUFFERS_def DOPEN_SEEKSTART_def)
  obtain p where "desc_pending_remove (fd d) (t_pending s) = Some p" using removable_some[OF assms(9)] by blast
  then show ?thesis using assms(3-8) q kb
    by (cases "on_activate d"; cases "inh_fd (t_origins s (d_origin d)) = 0")
      (simp_all add: read_eof_def reset_descriptor_def open_descriptor_def open_with_def open_core_def DESC_CORE_BITMASK_def
        open_file_r_def open_finish_def empty_buffers_def rotlog_on_activate_def Let_def)
qed

theorem read_eof_relists_witness:
  "\<forall>ar. \<exists>s'. read_eof dynstr_arena sys0 (table1_listed ar (log_origin\<lparr>or_type := D_FILER\<rparr>) (a_desc DSTATE_DRAIN_ROTATE D_FILER)) 0 = Some s'
     \<and> TAILQ_FOREACH (t_active s') = None"
proof (rule allI)
  fix ar :: arena
  let ?d = "a_desc DSTATE_DRAIN_ROTATE D_FILER" and ?og = "log_origin\<lparr>or_type := D_FILER\<rparr>"
  let ?s = "table1_listed ar ?og ?d"
  have "t_descs ?s 0 = Some ?d" "d_type ?d = D_FILER" "d_state ?d = DSTATE_DRAIN_ROTATE" "or_type (t_origins ?s (d_origin ?d)) = D_FILER"
    "access_ok sys0" "reg_read sys0 = 0" "pend_removable (fd ?d) (t_pending ?s)"
    by (simp_all add: table1_listed_def table1_def table0_def a_desc_def sys0_def flat_removable)
  from read_eof_relists[OF table1_listed_rep _ this, of "[]"] tq.elems_law[OF table1_listed_rep]
  show "\<exists>s'. read_eof dynstr_arena sys0 ?s 0 = Some s' \<and> TAILQ_FOREACH (t_active s') = None" by fastforce
qed

text \<open>Closing a descriptor whose symbol is registered releases the block of that symbol twice: removing the entry
  releases the key it is given, which is the descriptor's own string and not the copy that the table holds, and then
  the descriptor releases it. After the buffers and the list, these are the two releases of the heap.\<close>

theorem close_releases_symbol_twice:
  assumes "t_descs s i = Some d" and "d_state d \<noteq> DSTATE_DEAD" and "dyn_text (d_symbol d) = Some t" and "t_symbols s t = Some j"
    and "ptr (d_symbol d) \<noteq> NULL"
  shows "close_descriptor A s (Some i) = do {
     (h, \<sigma>) \<leftarrow> release_buffers A s d;
     q \<leftarrow> (if d_state d = DSTATE_ACTIVE then TAILQ_REMOVE (t_active s) i else Some (t_active s));
     h \<leftarrow> al_free A h (ptr (d_symbol d));
     h \<leftarrow> al_free A h (ptr (d_symbol d));
     Some (s\<lparr>t_heap := h, t_strs := \<sigma>, t_active := q, t_symbols := (t_symbols s)(t := None), t_descs := (t_descs s)(i := None)\<rparr>)
   }"
proof -
  have "symbol_remove A (s\<lparr>t_heap := h, t_strs := \<sigma>, t_active := q\<rparr>) (d_symbol d) =
    al_free A h (ptr (d_symbol d)) \<bind> (\<lambda>h. Some (s\<lparr>t_heap := h, t_strs := \<sigma>, t_active := q, t_symbols := (t_symbols s)(t := None)\<rparr>))" for h \<sigma> q
    using assms(3-5) by (cases s) (simp add: symbol_remove_def dynstr_free_def)
  then show ?thesis using assms(1,2,5) by (cases s) (simp add: close_descriptor_def dynstr_free_def)
qed

theorem close_releases_symbol_twice_witness:
  "\<forall>ar. map_option t_heap (close_descriptor dynstr_arena
        ((table1 ar log_origin (a_desc DSTATE_PENDING D_SOCKETW))\<lparr>t_symbols := [''S'' \<mapsto> 0]\<rparr>) (Some 0)) =
     (al_free dynstr_arena ar 16 \<bind> (\<lambda>h. al_free dynstr_arena h 16))"
proof (rule allI)
  fix ar :: arena
  let ?d = "a_desc DSTATE_PENDING D_SOCKETW"
  let ?s = "(table1 ar log_origin ?d)\<lparr>t_symbols := [''S'' \<mapsto> 0]\<rparr>"
  have "t_descs ?s 0 = Some ?d" "d_state ?d \<noteq> DSTATE_DEAD" "dyn_text (d_symbol ?d) = Some ''S''" "t_symbols ?s ''S'' = Some 0"
    "ptr (d_symbol ?d) \<noteq> NULL" by (simp_all add: table1_def table0_def a_desc_def dyn_text_def buf_get_def)
  note c = close_releases_symbol_twice[OF this, of dynstr_arena]
  have "release_buffers dynstr_arena ?s ?d = Some (ar, \<lambda>_. None)"
    by (simp add: release_buffers_def a_desc_def D_IS_READ_SIDE_def D_IS_WRITE_SIDE_def wq_destroy_def wq_new_def first_entries_def table1_def table0_def)
  then show "map_option t_heap (close_descriptor dynstr_arena ?s (Some 0)) = (al_free dynstr_arena ar 16 \<bind> (\<lambda>h. al_free dynstr_arena h 16))"
    unfolding c by (auto simp: a_desc_def split: Option.bind_split)
qed

text \<open>A socket at the end of its input is drained and then closed without being taken off the active list: closing unlists
  active descriptors only. The list then leads to a descriptor that no longer exists.\<close>

theorem drained_socket_stays_listed:
  assumes "table_ok s" and "t_descs s i = Some d" and "d_state d = DSTATE_ACTIVE" and "socket_eof s i = Some s1" and "read_eof A S s1 i = Some s2"
  shows "\<exists>xs. TAILQ_FOREACH (t_active s2) = Some xs \<and> i \<in> set xs \<and> t_descs s2 i = None"
proof -
  have s1: "t_descs s1 i = Some (d\<lparr>d_state := DSTATE_DRAIN\<rparr>)" "t_active s1 = t_active s" using assms(2,4) by (auto simp: socket_eof_def)
  from assms(5) s1(1) obtain p where c: "close_descriptor A (s1\<lparr>t_pending := p\<rparr>) (Some i) = Some s2"
    by (auto simp: read_eof_def Let_def bind_Some_iff)
  then have "t_active s2 = t_active s" "t_descs s2 i = None" using s1
    by (auto simp: close_descriptor_def bind_Some_iff dest!: symbol_remove_keeps)
  moreover obtain xs where "TAILQ_FOREACH (t_active s) = Some xs" "set xs = active_ids s" using table_ok_visits[OF assms(1)] by blast
  ultimately show ?thesis using assms(2,3) by (auto simp: active_ids_def)
qed

text \<open>A pending socket that has connected becomes active without being put on the list; closing it then follows the null
  back pointer of an element that was never inserted.\<close>

theorem connected_socket_close_faults:
  assumes "t_descs s i = Some d" and "d_type d = D_SOCKETW" and "d_state d = DSTATE_PENDING" and "tqe_prev (t_active s) i = None"
    and "socket_writable S s i False = Some s'"
  shows "close_descriptor A s' (Some i) = None"
proof -
  have "t_descs s' i = Some (d\<lparr>d_state := DSTATE_ACTIVE\<rparr>)" "t_active s' = t_active s" using assms by (auto simp: socket_writable_def)
  then show ?thesis using remove_never_inserted[OF assms(4)]
    by (cases "release_buffers A s' (d\<lparr>d_state := DSTATE_ACTIVE\<rparr>)") (simp_all add: close_descriptor_def split: prod.split)
qed

end
