(* ===== verification/Watchers.thy ===== *)
theory Watchers
  imports Descriptor_Table
begin

text \<open>
  The file watchers of \<^verbatim>\<open>evt_inotify.c\<close>: directories are watched for files that do not exist yet, files for modification and
  deletion. The lists of watchers only ever get new elements at their end and lose elements found in them, so they are
  lists here, as the tail queue promises for such use. What inotify, epoll and the file system return is a record
  of functions. A write outside the array of files to read is a fault.
\<close>

section \<open>Data\<close>

record filew =
  fw_wd :: int
  link_count :: int
  fw_d :: nat
  fw_basename :: string

record dirw =
  dw_wd :: int
  dirname :: string
  dw_files :: "filew list"

record watchers =
  dirwatchers :: "dirw list"
  filewatchers :: "filew list"

text \<open>\<^verbatim>\<open>inotify_add_watch\<close> for a path, the link count \<^verbatim>\<open>fstat\<close> gives for a descriptor, whether \<^verbatim>\<open>access\<close> finds a path, and
  whether \<^verbatim>\<open>epoll_ctl\<close> succeeds for a descriptor.\<close>

record notify =
  inotify_add_watch :: "string \<Rightarrow> int"
  fstat_nlink :: "int \<Rightarrow> int option"
  access_found :: "string \<Rightarrow> bool"
  epoll_ctl :: "int \<Rightarrow> int"

record inotify_event =
  ev_wd :: int
  ev_mask :: int
  ev_name :: string

definition DLOG_MAX_FILES :: nat where "DLOG_MAX_FILES = 1024"
definition IN_MODIFY :: int where "IN_MODIFY = 2"
definition IN_ATTRIB :: int where "IN_ATTRIB = 4"
definition IN_MOVED_TO :: int where "IN_MOVED_TO = 128"
definition IN_CREATE :: int where "IN_CREATE = 256"
definition IN_IGNORED :: int where "IN_IGNORED = 32768"

definition D_IS_FILE :: "dtype \<Rightarrow> bool" where
  "D_IS_FILE t \<longleftrightarrow> dtype_bits t AND (2 OR 1 OR 4 OR 8) \<noteq> 0"

definition D_IS_SOCKET_WRITE :: "dtype \<Rightarrow> bool" where
  "D_IS_SOCKET_WRITE t \<longleftrightarrow> dtype_bits t AND 32 \<noteq> 0"

section \<open>Path names\<close>

text \<open>\<^verbatim>\<open>basename\<close> and \<^verbatim>\<open>dirname\<close> of the C library: trailing slashes do not count.\<close>

definition chop_slashes :: "string \<Rightarrow> string" where
  "chop_slashes p = rev (dropWhile (\<lambda>c. c = CHR ''/'') (rev p))"

definition c_basename :: "string \<Rightarrow> string" where
  "c_basename p =
     (if p = [] then ''.'' else if chop_slashes p = [] then ''/''
      else rev (takeWhile (\<lambda>c. c \<noteq> CHR ''/'') (rev (chop_slashes p))))"

definition c_dirname :: "string \<Rightarrow> string" where
  "c_dirname p =
     (let q = rev (dropWhile (\<lambda>c. c \<noteq> CHR ''/'') (rev (chop_slashes p)))
      in if p \<noteq> [] \<and> chop_slashes p = [] then ''/'' else if q = [] then ''.''
         else if chop_slashes q = [] then ''/'' else chop_slashes q)"

section \<open>Finding and removing\<close>

fun find_dir :: "dirw list \<Rightarrow> int \<Rightarrow> dirw option" where
  "find_dir [] wd = None"
| "find_dir (dr # drs) wd = (if wd = dw_wd dr then Some dr else find_dir drs wd)"

fun find_file_in :: "filew list \<Rightarrow> string \<Rightarrow> filew option" where
  "find_file_in [] base_filename = None"
| "find_file_in (file # fs) base_filename = (if base_filename = fw_basename file then Some file else find_file_in fs base_filename)"

fun find_watched_file :: "filew list \<Rightarrow> int \<Rightarrow> filew option" where
  "find_watched_file [] filewd = None"
| "find_watched_file (file # fs) filewd = (if filewd = fw_wd file then Some file else find_watched_file fs filewd)"

text \<open>Changing the files of the directory that \<^verbatim>\<open>find_dir\<close> finds.\<close>

fun update_dir :: "dirw list \<Rightarrow> int \<Rightarrow> (filew list \<Rightarrow> filew list) \<Rightarrow> dirw list" where
  "update_dir [] wd f = []"
| "update_dir (dr # drs) wd f = (if wd = dw_wd dr then dr\<lparr>dw_files := f (dw_files dr)\<rparr> # drs else dr # update_dir drs wd f)"

definition remove_watch_file_from_dir :: "watchers \<Rightarrow> dirw \<Rightarrow> filew \<Rightarrow> watchers" where
  "remove_watch_file_from_dir w dr f = w\<lparr>dirwatchers := update_dir (dirwatchers w) (dw_wd dr) (remove1 f)\<rparr>"

definition remove_watch_file :: "watchers \<Rightarrow> filew \<Rightarrow> watchers" where
  "remove_watch_file w f = w\<lparr>filewatchers := remove1 f (filewatchers w)\<rparr>"

definition file_link_count :: "notify \<Rightarrow> int \<Rightarrow> int" where
  "file_link_count N n = (case fstat_nlink N n of Some k \<Rightarrow> k | None \<Rightarrow> - 1)"

section \<open>Registering\<close>

text \<open>\<open>-1\<close>: the directory cannot be watched; \<open>0\<close>: a watcher was added; \<open>1\<close>: it was there already.\<close>

definition evt_watch_vnode :: "notify \<Rightarrow> nat \<Rightarrow> string \<Rightarrow> watchers \<Rightarrow> int \<times> watchers" where
  "evt_watch_vnode N i path w =
     (let dirn = c_dirname path; basen = c_basename path; ifd = inotify_add_watch N dirn in
      if ifd = - 1 then (- 1, w)
      else
        let w = (if find_dir (dirwatchers w) ifd = None
                 then w\<lparr>dirwatchers := dirwatchers w @ [\<lparr>dw_wd = ifd, dirname = dirn, dw_files = []\<rparr>]\<rparr> else w)
        in if (case find_dir (dirwatchers w) ifd of None \<Rightarrow> False | Some dr \<Rightarrow> list_ex (\<lambda>file. fw_d file = i) (dw_files dr)) then (1, w)
           else (0, w\<lparr>dirwatchers := update_dir (dirwatchers w) ifd
                   (\<lambda>fs. fs @ [\<lparr>fw_wd = - 1, link_count = 0, fw_d = i, fw_basename = basen\<rparr>])\<rparr>))"

definition evt_reg_read :: "notify \<Rightarrow> nat \<Rightarrow> dtype \<Rightarrow> int \<Rightarrow> string \<Rightarrow> watchers \<Rightarrow> int \<times> watchers" where
  "evt_reg_read N i ty n path w =
     (if \<not> D_IS_FILE ty then (if epoll_ctl N n = - 1 then (- 1, w) else (0, w))
      else
        let wd = inotify_add_watch N path in
        if wd = - 1 then (- 1, w)
        else (0, w\<lparr>filewatchers := filewatchers w @
                [\<lparr>fw_wd = wd, link_count = (if n \<noteq> - 1 then file_link_count N n else - 1), fw_d = i, fw_basename = path\<rparr>]\<rparr>))"

definition evt_reg_write :: "notify \<Rightarrow> dtype \<Rightarrow> int \<Rightarrow> int" where
  "evt_reg_write N ty n = (if D_IS_SOCKET_WRITE ty then (if epoll_ctl N n = - 1 then - 1 else 0) else 0)"

definition evt_reg_remove :: "notify \<Rightarrow> int \<Rightarrow> int" where
  "evt_reg_remove N n = epoll_ctl N n"

section \<open>Opening, with the watchers\<close>

text \<open>What opening a file or a FIFO to read asks of the watchers: the descriptor waits for one that is not there, or registers
  the one it opened. The result is what \<^verbatim>\<open>evt_reg_read\<close> returned, which decides how the opening goes on.\<close>

definition open_file_watch :: "notify \<Rightarrow> sys \<Rightarrow> nat \<Rightarrow> table_desc \<Rightarrow> origin \<Rightarrow> watchers \<Rightarrow> int \<times> watchers" where
  "open_file_watch N S i d og w =
     (if or_type og = D_FIFOR \<and> mkfifo_failed S then (0, snd (evt_watch_vnode N i (or_path og) w))
      else if inh_fd og = 0 \<and> d_state d = DSTATE_INIT \<and> \<not> access_ok S then (0, snd (evt_watch_vnode N i (or_path og) w))
      else evt_reg_read N i (d_type d) (if inh_fd og = 0 then open_result S else inh_fd og) (or_path og) w)"

definition reopen_file :: "'h allocator \<Rightarrow> notify \<Rightarrow> sys \<Rightarrow> 'h table \<times> watchers \<Rightarrow> nat \<Rightarrow> ('h table \<times> watchers) option" where
  "reopen_file A N S = (\<lambda>(s, w) i. do {
     d \<leftarrow> t_descs s i;
     let (r, w) = open_file_watch N S i d (t_origins s (d_origin d)) w;
     (_, s) \<leftarrow> open_descriptor A (S\<lparr>reg_read := r\<rparr>) s (d_origin d) (Some i) False (DOPEN_SEEKSTART OR DOPEN_KEEP_BUFFERS);
     Some (s, w)
   })"

section \<open>Events\<close>

text \<open>One event; the state holds the table, the watchers and the files to read so far. \<open>S i\<close> is what the system calls return
  when descriptor \<open>i\<close> is opened.\<close>

type_synonym 'h vnode_state = "'h table \<times> watchers \<times> nat list"

definition dir_event :: "'h allocator \<Rightarrow> notify \<Rightarrow> (nat \<Rightarrow> sys) \<Rightarrow> 'h vnode_state \<Rightarrow> dirw \<Rightarrow> inotify_event \<Rightarrow> 'h vnode_state option" where
  "dir_event A N S = (\<lambda>(s, w, descarr) dr ev.
     if ev_mask ev AND (IN_CREATE OR IN_MOVED_TO) \<noteq> 0 then
       (case find_file_in (dw_files dr) (ev_name ev) of
          None \<Rightarrow> Some (s, w, descarr)
        | Some file \<Rightarrow> do {
            (s, w) \<leftarrow> reopen_file A N (S (fw_d file)) (s, remove_watch_file_from_dir w dr file) (fw_d file);
            Some (s, w, descarr)
          })
     else Some (s, w, descarr))"

definition file_event :: "notify \<Rightarrow> 'h vnode_state \<Rightarrow> inotify_event \<Rightarrow> 'h vnode_state option" where
  "file_event N = (\<lambda>(s, w, descarr) ev.
     if ev_mask ev AND IN_IGNORED \<noteq> 0 then Some (s, w, descarr)
     else
       (case find_watched_file (filewatchers w) (ev_wd ev) of
          None \<Rightarrow> Some (s, w, descarr)
        | Some file \<Rightarrow>
            if ev_mask ev AND IN_MODIFY \<noteq> 0 then
              (if length descarr < DLOG_MAX_FILES then Some (s, w, descarr @ [fw_d file]) else None)
            else if ev_mask ev AND IN_ATTRIB \<noteq> 0 then do {
              d \<leftarrow> t_descs s (fw_d file);
              if file_link_count N (fd d) < link_count file \<and> \<not> access_found N (or_path (t_origins s (d_origin d)))
              then Some (s\<lparr>t_descs := (t_descs s)(fw_d file \<mapsto> d\<lparr>d_state := DSTATE_DRAIN_ROTATE\<rparr>)\<rparr>, remove_watch_file w file, descarr)
              else Some (s, w, descarr)
            }
            else Some (s, w, descarr)))"

definition vnode_event :: "'h allocator \<Rightarrow> notify \<Rightarrow> (nat \<Rightarrow> sys) \<Rightarrow> 'h vnode_state \<Rightarrow> inotify_event \<Rightarrow> 'h vnode_state option" where
  "vnode_event A N S x ev =
     (case find_dir (dirwatchers (fst (snd x))) (ev_wd ev) of
        Some dr \<Rightarrow> dir_event A N S x dr ev
      | None \<Rightarrow> file_event N x ev)"

fun vnode_events :: "'h allocator \<Rightarrow> notify \<Rightarrow> (nat \<Rightarrow> sys) \<Rightarrow> inotify_event list \<Rightarrow> 'h vnode_state \<Rightarrow> 'h vnode_state option" where
  "vnode_events A N S [] x = Some x"
| "vnode_events A N S (ev # evs) x = vnode_event A N S x ev \<bind> vnode_events A N S evs"

text \<open>What \<^verbatim>\<open>read\<close> on the inotify descriptor returns: events, or nothing (an error, or none left).\<close>

datatype inotify_read = No_Events | Events "inotify_event list"

fun vnode_reads :: "'h allocator \<Rightarrow> notify \<Rightarrow> (nat \<Rightarrow> sys) \<Rightarrow> inotify_read list \<Rightarrow> 'h vnode_state \<Rightarrow> 'h vnode_state option" where
  "vnode_reads A N S [] x = Some x"
| "vnode_reads A N S (No_Events # rs) x = Some x"
| "vnode_reads A N S (Events evs # rs) x = (if evs = [] then Some x else vnode_events A N S evs x \<bind> vnode_reads A N S rs)"

definition evt_process_vnode :: "'h allocator \<Rightarrow> notify \<Rightarrow> (nat \<Rightarrow> sys) \<Rightarrow> inotify_read list \<Rightarrow> 'h table \<Rightarrow> watchers \<Rightarrow> 'h vnode_state option" where
  "evt_process_vnode A N S reads s w = vnode_reads A N S reads (s, w, [])"

section \<open>Lemmas\<close>

lemma find_update_dir:
  "find_dir (update_dir drs wd f) wd' =
     (if wd' = wd then map_option (\<lambda>dr. dr\<lparr>dw_files := f (dw_files dr)\<rparr>) (find_dir drs wd) else find_dir drs wd')"
  by (induction drs) auto

lemma find_dir_append: "find_dir (drs @ drs') wd = (case find_dir drs wd of None \<Rightarrow> find_dir drs' wd | Some dr \<Rightarrow> Some dr)"
  by (induction drs) auto

lemma find_dir_wd: "find_dir drs wd = Some dr \<Longrightarrow> dw_wd dr = wd"
  by (induction drs) (auto split: if_splits)

lemma remove1_last: "x \<notin> set xs \<Longrightarrow> remove1 x (xs @ [x]) = xs"
  by (simp add: remove1_append)

lemma find_watched_in: "find_watched_file fs wd = Some f \<Longrightarrow> f \<in> set fs"
  by (induction fs) (auto split: if_splits)

lemma find_file_in_append: "\<forall>f \<in> set fs. fw_basename f \<noteq> b \<Longrightarrow> find_file_in (fs @ gs) b = find_file_in gs b"
  by (induction fs) auto

text \<open>After \<^verbatim>\<open>evt_watch_vnode\<close> the directory's files are the ones before and the new one.\<close>

lemma evt_watch_vnode_adds:
  assumes "inotify_add_watch N (c_dirname path) = wd" and "wd \<noteq> - 1" and "evt_watch_vnode N i path w = (r, w')"
    and "\<forall>dr. find_dir (dirwatchers w) wd = Some dr \<longrightarrow> (\<forall>f \<in> set (dw_files dr). fw_d f \<noteq> i)"
  shows "r = 0 \<and> (\<exists>dr. find_dir (dirwatchers w') wd = Some dr \<and> filewatchers w' = filewatchers w
     \<and> dw_files dr = (case find_dir (dirwatchers w) wd of None \<Rightarrow> [] | Some dr \<Rightarrow> dw_files dr)
          @ [\<lparr>fw_wd = - 1, link_count = 0, fw_d = i, fw_basename = c_basename path\<rparr>])"
  using assms(3) unfolding evt_watch_vnode_def Let_def assms(1) using assms(2,4)
  by (cases "find_dir (dirwatchers w) wd") (auto simp: find_dir_append find_update_dir list_ex_iff)

text \<open>Modifications of watched files are collected in order.\<close>

lemma modify_events:
  assumes "\<forall>ev \<in> set evs. ev_mask ev = IN_MODIFY \<and> find_dir (dirwatchers w) (ev_wd ev) = None
      \<and> find_watched_file (filewatchers w) (ev_wd ev) = Some (g ev)" and "length ds \<le> DLOG_MAX_FILES"
  shows "vnode_events A N S evs (s, w, ds) =
     (if length ds + length evs \<le> DLOG_MAX_FILES then Some (s, w, ds @ map (\<lambda>ev. fw_d (g ev)) evs) else None)"
  using assms
proof (induction evs arbitrary: ds)
  case (Cons ev evs)
  then have "vnode_event A N S (s, w, ds) ev = (if length ds < DLOG_MAX_FILES then Some (s, w, ds @ [fw_d (g ev)]) else None)"
    by (simp add: vnode_event_def file_event_def IN_MODIFY_def IN_IGNORED_def)
  with Cons show ?case by (auto simp: not_less)
qed simp

section \<open>Properties\<close>

text \<open>C18: a file that did not exist when its descriptor was opened, and whose base name no other descriptor waits for in its directory, is opened when it
  appears: after the directory was put
  under watch, the event that reports the file's creation makes the descriptor active, puts it on the active list and on
  the table of pending reads, watches the file for changes and no longer waits for it.\<close>

theorem missing_file_opened:
  assumes "table_ok s" and "t_descs s i = Some d" and "d_type d = D_FILER" and "d_state d = DSTATE_PENDING"
    and "t_origins s (d_origin d) = og" and "or_type og = D_FILER" and "inh_fd og = 0"
    and "inotify_add_watch N (c_dirname (or_path og)) = wd" and "wd \<noteq> - 1" and "inotify_add_watch N (or_path og) \<noteq> - 1"
    and "evt_watch_vnode N i (or_path og) w = (r, w')"
    and "\<forall>dr. find_dir (dirwatchers w) wd = Some dr \<longrightarrow> (\<forall>f \<in> set (dw_files dr). fw_d f \<noteq> i \<and> fw_basename f \<noteq> c_basename (or_path og))"
    and "ev_wd ev = wd" and "ev_name ev = c_basename (or_path og)" and "ev_mask ev AND IN_CREATE \<noteq> 0"
  shows "\<exists>s' w'' d' xs. evt_process_vnode A N S [Events [ev]] s w' = Some (s', w'', [])
     \<and> table_ok s' \<and> t_descs s' i = Some d' \<and> d_state d' = DSTATE_ACTIVE \<and> fd d' = open_result (S i) \<and> reader d' = reader d
     \<and> TAILQ_FOREACH (t_active s') = Some xs \<and> i \<in> set xs \<and> pending_desc (t_pending s') (open_result (S i)) = Some i
     \<and> (\<exists>f \<in> set (filewatchers w''). fw_d f = i \<and> fw_wd f = inotify_add_watch N (or_path og))
     \<and> (\<forall>dr. find_dir (dirwatchers w'') wd = Some dr \<longrightarrow> i \<notin> fw_d ` set (dw_files dr))"
proof -
  let ?f = "\<lparr>fw_wd = - 1, link_count = 0, fw_d = i, fw_basename = c_basename (or_path og)\<rparr>"
  let ?fs = "case find_dir (dirwatchers w) wd of None \<Rightarrow> [] | Some dr \<Rightarrow> dw_files dr"
  obtain dr where dr: "find_dir (dirwatchers w') wd = Some dr" "dw_files dr = ?fs @ [?f]"
    using evt_watch_vnode_adds[OF assms(8,9,11)] assms(12) by blast
  have fs: "\<forall>f \<in> set ?fs. fw_d f \<noteq> i \<and> fw_basename f \<noteq> c_basename (or_path og)" using assms(12) by (cases "find_dir (dirwatchers w) wd") auto
  then have fnd: "find_file_in (dw_files dr) (ev_name ev) = Some ?f" using assms(14) by (simp add: dr(2) find_file_in_append)
  let ?w = "remove_watch_file_from_dir w' dr ?f"
  let ?S = "(S i)\<lparr>reg_read := 0\<rparr>"
  let ?n = "\<lparr>fw_wd = inotify_add_watch N (or_path og), link_count = (if open_result (S i) \<noteq> - 1 then file_link_count N (open_result (S i)) else - 1),
     fw_d = i, fw_basename = or_path og\<rparr>"
  have reg: "open_file_watch N (S i) i d og ?w = (0, ?w\<lparr>filewatchers := filewatchers ?w @ [?n]\<rparr>)"
    using assms(3,4,6,7,10) by (simp add: open_file_watch_def evt_reg_read_def D_IS_FILE_def Let_def)
  have core: "open_core ?S (DOPEN_SEEKSTART OR DOPEN_KEEP_BUFFERS) i (d, og, t_pending s) =
      Some (d\<lparr>fd := open_result (S i), d_state := DSTATE_ACTIVE\<rparr>, og, desc_pending_add (open_result (S i)) i (t_pending s))"
    using assms(4,6,7) by (simp add: open_core_def DESC_CORE_BITMASK_def open_file_r_def DOPEN_SEEKSTART_def DOPEN_KEEP_BUFFERS_def Let_def)
  obtain rp s' d' where o: "open_descriptor A ?S s (d_origin d) (Some i) False (DOPEN_SEEKSTART OR DOPEN_KEEP_BUFFERS) = Some (rp, s')"
    "t_descs s' i = Some d'" "reader d' = reader d" "d_state d' = DSTATE_ACTIVE" "fd d' = open_result (S i)"
    "t_pending s' = desc_pending_add (open_result (S i)) i (t_pending s)"
    using open_keep_ok[OF assms(2), of "d_origin d" "DOPEN_SEEKSTART OR DOPEN_KEEP_BUFFERS" A ?S False] assms(5,6) core
    by (fastforce simp: DOPEN_SEEKSTART_def DOPEN_KEEP_BUFFERS_def)
  have ok: "table_ok s'" using open_again_ok[OF assms(1) o(1) assms(2)] assms(4) by simp
  obtain xs where xs: "TAILQ_FOREACH (t_active s') = Some xs" "i \<in> set xs"
    using table_ok_visits[OF ok] o(2,4) by (auto simp: active_ids_def)
  have m: "ev_mask ev AND (IN_CREATE OR IN_MOVED_TO) \<noteq> 0" using assms(15) by (simp add: bit.conj_disj_distrib or_eq_0_iff)
  let ?w2 = "?w\<lparr>filewatchers := filewatchers ?w @ [?n]\<rparr>"
  have "evt_process_vnode A N S [Events [ev]] s w' = Some (s', ?w2, [])"
    using assms(2,5,13) dr(1) fnd reg o(1) m
    by (simp add: evt_process_vnode_def vnode_event_def dir_event_def reopen_file_def)
  moreover have "find_dir (dirwatchers ?w2) wd = Some (dr\<lparr>dw_files := remove1 ?f (?fs @ [?f])\<rparr>)"
    using dr find_dir_wd[OF dr(1)] by (simp add: remove_watch_file_from_dir_def find_update_dir)
  moreover have "?f \<notin> set ?fs" using fs by auto
  then have "remove1 ?f (?fs @ [?f]) = ?fs" by (rule remove1_last)
  ultimately show ?thesis using ok o xs fs by (intro exI[of _ s'] exI[of _ ?w2] exI[of _ d'] exI[of _ xs]) auto
qed

definition notify0 :: notify where
  "notify0 = \<lparr>inotify_add_watch = (\<lambda>p. if p = ''/'' then 1 else 2), fstat_nlink = (\<lambda>_. Some 0), access_found = (\<lambda>_. False), epoll_ctl = (\<lambda>_. 0)\<rparr>"

theorem missing_file_opened_witness:
  "\<forall>ar. \<exists>s' w'' d'. evt_process_vnode dynstr_arena notify0 (\<lambda>_. sys0) [Events [\<lparr>ev_wd = 1, ev_mask = 256, ev_name = ''log''\<rparr>]]
        (table1 ar (log_origin\<lparr>or_type := D_FILER\<rparr>) (a_desc DSTATE_PENDING D_FILER))
        (snd (evt_watch_vnode notify0 0 ''/log'' \<lparr>dirwatchers = [], filewatchers = []\<rparr>)) = Some (s', w'', [])
     \<and> t_descs s' 0 = Some d' \<and> d_state d' = DSTATE_ACTIVE"
proof (rule allI)
  fix ar :: arena
  let ?d = "a_desc DSTATE_PENDING D_FILER" and ?og = "log_origin\<lparr>or_type := D_FILER\<rparr>" and ?w = "\<lparr>dirwatchers = [], filewatchers = []\<rparr>"
  let ?ev = "\<lparr>ev_wd = 1, ev_mask = 256, ev_name = ''log''\<rparr>"
  have ok: "table_ok (table1 ar ?og ?d)" by (rule table1_ok) (simp add: a_desc_def)
  have path: "or_path ?og = ''/log''" "c_dirname ''/log'' = ''/''" "c_basename ''/log'' = ''log''"
    by (simp_all add: log_origin_def c_dirname_def c_basename_def chop_slashes_def Let_def)
  have d: "t_descs (table1 ar ?og ?d) 0 = Some ?d" "d_type ?d = D_FILER" "d_state ?d = DSTATE_PENDING"
    "t_origins (table1 ar ?og ?d) (d_origin ?d) = ?og" "or_type ?og = D_FILER" "inh_fd ?og = 0"
    by (simp_all add: table1_def table0_def a_desc_def log_origin_def)
  have n: "inotify_add_watch notify0 (c_dirname (or_path ?og)) = 1" "(1 :: int) \<noteq> - 1" "inotify_add_watch notify0 (or_path ?og) \<noteq> - 1"
    by (simp_all add: path notify0_def)
  have w: "\<forall>dr. find_dir (dirwatchers ?w) 1 = Some dr \<longrightarrow> (\<forall>f \<in> set (dw_files dr). fw_d f \<noteq> 0 \<and> fw_basename f \<noteq> c_basename (or_path ?og))"
    by simp
  have e: "ev_wd ?ev = 1" "ev_name ?ev = c_basename (or_path ?og)" "ev_mask ?ev AND IN_CREATE \<noteq> 0"
    by (simp_all add: path IN_CREATE_def)
  from missing_file_opened[OF ok d n surjective_pairing w e, of dynstr_arena "\<lambda>_. sys0"]
  show "\<exists>s' w'' d'. evt_process_vnode dynstr_arena notify0 (\<lambda>_. sys0) [Events [?ev]] (table1 ar ?og ?d) (snd (evt_watch_vnode notify0 0 ''/log'' ?w))
      = Some (s', w'', []) \<and> t_descs s' 0 = Some d' \<and> d_state d' = DSTATE_ACTIVE"
    unfolding path by blast
qed

text \<open>C38: the modification events of watched files are collected in order in the caller's array of \<^verbatim>\<open>DLOG_MAX_FILES\<close>, however
  they are spread over reads; one more of them, and the function writes past the end of the array.\<close>

theorem modify_events_bound:
  assumes "\<forall>evs \<in> set evss. evs \<noteq> []"
    and "\<forall>ev \<in> set (concat evss). ev_mask ev = IN_MODIFY \<and> find_dir (dirwatchers w) (ev_wd ev) = None
      \<and> find_watched_file (filewatchers w) (ev_wd ev) = Some (g ev)"
  shows "evt_process_vnode A N S (map Events evss) s w =
     (if length (concat evss) \<le> DLOG_MAX_FILES then Some (s, w, map (\<lambda>ev. fw_d (g ev)) (concat evss)) else None)"
proof -
  have "vnode_reads A N S (map Events evss) (s, w, ds) =
     (if length ds + length (concat evss) \<le> DLOG_MAX_FILES then Some (s, w, ds @ map (\<lambda>ev. fw_d (g ev)) (concat evss)) else None)"
    if "length ds \<le> DLOG_MAX_FILES" for ds
    using assms that
  proof (induction evss arbitrary: ds)
    case (Cons evs evss)
    have "vnode_events A N S evs (s, w, ds) =
       (if length ds + length evs \<le> DLOG_MAX_FILES then Some (s, w, ds @ map (\<lambda>ev. fw_d (g ev)) evs) else None)"
      by (rule modify_events) (use Cons.prems in auto)
    with Cons show ?case by auto
  qed simp
  from this[of "[]"] show ?thesis by (simp add: evt_process_vnode_def)
qed

theorem modify_events_bound_witness:
  "\<forall>s. evt_process_vnode dynstr_arena notify0 (\<lambda>_. sys0) (map Events (replicate 1025 [\<lparr>ev_wd = 2, ev_mask = 2, ev_name = []\<rparr>])) s
     \<lparr>dirwatchers = [], filewatchers = [\<lparr>fw_wd = 2, link_count = 1, fw_d = 0, fw_basename = ''/log''\<rparr>]\<rparr> = None"
proof (rule allI)
  fix s :: "arena table"
  let ?ev = "\<lparr>ev_wd = 2, ev_mask = 2, ev_name = []\<rparr>" and ?f = "\<lparr>fw_wd = 2, link_count = 1, fw_d = 0, fw_basename = ''/log''\<rparr>"
  have c: "concat (replicate n [x]) = replicate n x" for n and x :: inotify_event by (induction n) auto
  have "\<forall>evs \<in> set (replicate 1025 [?ev]). evs \<noteq> []" "\<forall>ev \<in> set (concat (replicate 1025 [?ev])). ev_mask ev = IN_MODIFY
      \<and> find_dir (dirwatchers \<lparr>dirwatchers = [], filewatchers = [?f]\<rparr>) (ev_wd ev) = None
      \<and> find_watched_file (filewatchers \<lparr>dirwatchers = [], filewatchers = [?f]\<rparr>) (ev_wd ev) = Some ?f"
    unfolding c by (auto simp: IN_MODIFY_def dest: in_set_replicate[THEN iffD1])
  note b = modify_events_bound[OF this, of dynstr_arena notify0 "\<lambda>_. sys0" s]
  have "\<not> length (concat (replicate 1025 [?ev])) \<le> DLOG_MAX_FILES" unfolding c length_replicate DLOG_MAX_FILES_def by simp
  with b
  show "evt_process_vnode dynstr_arena notify0 (\<lambda>_. sys0) (map Events (replicate 1025 [?ev])) s \<lparr>dirwatchers = [], filewatchers = [?f]\<rparr> = None"
    by (simp only: if_False)
qed

text \<open>When a watched file is deleted, the attribute event puts its descriptor into the draining state and takes the watcher
  away, but makes nobody read it: it is not among the files to read, and the table of pending reads, which the
  idle loop drains, is what it was. Unless a modification was reported as well, the descriptor is never drained and
  the file that replaces the deleted one is never opened.\<close>

theorem deleted_file_forgotten:
  assumes "find_dir (dirwatchers w) (ev_wd ev) = None" and "find_watched_file (filewatchers w) (ev_wd ev) = Some f" and "ev_mask ev = IN_ATTRIB"
    and "t_descs s (fw_d f) = Some d" and "file_link_count N (fd d) < link_count f" and "\<not> access_found N (or_path (t_origins s (d_origin d)))"
    and "distinct (map fw_d (filewatchers w))"
  shows "\<exists>s' w'. evt_process_vnode A N S [Events [ev]] s w = Some (s', w', [])
     \<and> t_descs s' (fw_d f) = Some (d\<lparr>d_state := DSTATE_DRAIN_ROTATE\<rparr>) \<and> t_pending s' = t_pending s \<and> t_active s' = t_active s
     \<and> fw_d f \<notin> fw_d ` set (filewatchers w') \<and> dirwatchers w' = dirwatchers w"
proof -
  have "f \<in> set (filewatchers w)" by (rule find_watched_in[OF assms(2)])
  then obtain as bs where fw: "filewatchers w = as @ f # bs" "f \<notin> set as" by (meson split_list_first)
  then have "fw_d f \<notin> fw_d ` set (remove1 f (filewatchers w))" using assms(7) by (auto simp: remove1_append)
  with assms(1-6) show ?thesis
    by (simp add: evt_process_vnode_def vnode_event_def file_event_def IN_ATTRIB_def IN_IGNORED_def IN_MODIFY_def remove_watch_file_def)
qed

theorem deleted_file_forgotten_witness:
  "\<forall>ar. \<exists>s' w'. evt_process_vnode dynstr_arena notify0 (\<lambda>_. sys0) [Events [\<lparr>ev_wd = 2, ev_mask = 4, ev_name = []\<rparr>]]
       (table1 ar (log_origin\<lparr>or_type := D_FILER\<rparr>) (a_desc DSTATE_ACTIVE D_FILER))
       \<lparr>dirwatchers = [], filewatchers = [\<lparr>fw_wd = 2, link_count = 1, fw_d = 0, fw_basename = ''/log''\<rparr>]\<rparr> = Some (s', w', [])
     \<and> t_pending s' = no_pending"
proof (rule allI)
  fix ar :: arena
  let ?f = "\<lparr>fw_wd = 2, link_count = 1, fw_d = 0, fw_basename = ''/log''\<rparr>"
  let ?s = "table1 ar (log_origin\<lparr>or_type := D_FILER\<rparr>) (a_desc DSTATE_ACTIVE D_FILER)" and ?ev = "\<lparr>ev_wd = 2, ev_mask = 4, ev_name = []\<rparr>"
  have "t_pending ?s = no_pending" by (simp add: table1_def table0_def)
  with deleted_file_forgotten[where w = "\<lparr>dirwatchers = [], filewatchers = [?f]\<rparr>" and ev = ?ev and f = ?f and s = ?s and N = notify0
      and d = "a_desc DSTATE_ACTIVE D_FILER" and A = dynstr_arena and S = "\<lambda>_. sys0"]
  show "\<exists>s' w'. evt_process_vnode dynstr_arena notify0 (\<lambda>_. sys0) [Events [?ev]] ?s \<lparr>dirwatchers = [], filewatchers = [?f]\<rparr> = Some (s', w', [])
     \<and> t_pending s' = no_pending"
    by (auto simp: IN_ATTRIB_def table1_def table0_def a_desc_def log_origin_def notify0_def file_link_count_def)
qed

end
