(* ===== verification/Main_Loop.thy ===== *)
theory Main_Loop
  imports Watchers
begin

text \<open>
  The parts of \<^verbatim>\<open>dlog.c\<close> that drive the descriptor table: opening the configured descriptors at the start, accepting clients
  (\<^verbatim>\<open>coredesc.c\<close>), writing a line to the descriptor its symbol names, with the hook that runs after the write, and the loops
  over the active list that rotate the logs and drain the writers. Loops that may not end are partial functions:
  \<open>None\<close> is a fault or a loop that never ends.
\<close>

section \<open>Starting up\<close>

text \<open>The loop over the origins; \<open>S k\<close> is what the system calls return at the \<open>k\<close>th attempt. When a descriptor cannot be opened,
  the loop continues with the same origin.\<close>

definition open_origin :: "'h allocator \<Rightarrow> sys \<Rightarrow> 'h table \<Rightarrow> nat \<Rightarrow> (nat option \<times> 'h table) option" where
  "open_origin A S s og =
     (if or_type (t_origins s og) = D_ROTLOG then open_rotlog A S s og else open_descriptor A S s og None False DOPEN_NOFLAGS)"

partial_function (option) open_origins :: "'h allocator \<Rightarrow> (nat \<Rightarrow> sys) \<Rightarrow> nat \<Rightarrow> nat list \<Rightarrow> 'h table \<Rightarrow> 'h table option" where
  "open_origins A S k ogs s =
     (case ogs of
        [] \<Rightarrow> Some s
      | og # rest \<Rightarrow>
          open_origin A (S k) s og \<bind> (\<lambda>(dp, s'). if dp = None then open_origins A S (k + 1) ogs s' else open_origins A S (k + 1) rest s'))"

section \<open>Accepting clients\<close>

datatype accept_result = Accept_Failed | Stays_Blocking int | Accepted int

text \<open>The loop of the listening socket's \<^verbatim>\<open>pre_read\<close>, with the results of \<^verbatim>\<open>accept\<close>; \<open>sk\<close> is the one origin all clients share.\<close>

fun socket_listen_pre_read :: "'h allocator \<Rightarrow> (int \<Rightarrow> sys) \<Rightarrow> nat \<Rightarrow> accept_result list \<Rightarrow> 'h table \<Rightarrow> 'h table option" where
  "socket_listen_pre_read A S sk [] s = Some s"
| "socket_listen_pre_read A S sk (Accept_Failed # rs) s = Some s"
| "socket_listen_pre_read A S sk (Stays_Blocking n # rs) s = Some s"
| "socket_listen_pre_read A S sk (Accepted n # rs) s = do {
     let s = s\<lparr>t_origins := (t_origins s)(sk := (t_origins s sk)\<lparr>inh_fd := n, inh_buffer := None\<rparr>)\<rparr>;
     (_, s) \<leftarrow> open_descriptor A (S n) s sk None False 0;
     socket_listen_pre_read A S sk rs s
   }"

section \<open>Writing through the table\<close>

text \<open>The calls into the table that reading and writing a descriptor ask for. The hook after a write is that of the rotating logs, or
  that of the sockets.\<close>

fun run_call :: "'h allocator \<Rightarrow> sys \<Rightarrow> nat \<Rightarrow> dtype \<Rightarrow> table_call \<Rightarrow> 'h table \<Rightarrow> 'h table option" where
  "run_call A S i ty (Desc_Pending_Add n) s = Some (s\<lparr>t_pending := desc_pending_add n i (t_pending s)\<rparr>)"
| "run_call A S i ty (Desc_Pending_Remove n) s = map_option (\<lambda>p. s\<lparr>t_pending := p\<rparr>) (desc_pending_remove n (t_pending s))"
| "run_call A S i ty Close_Descriptor s = close_descriptor A s (Some i)"
| "run_call A S i ty Reset_Descriptor s = reset_descriptor s i"
| "run_call A S i ty (Open_Descriptor flags) s =
     t_descs s i \<bind> (\<lambda>d. map_option snd (open_descriptor A S s (d_origin d) (Some i) False flags))"
| "run_call A S i ty (Post_Line_Write n err) s =
     (if ty = D_ROTLOG then rotlog_post_line_write A S s i n err else sktw_post_line_write A S s i n err)"

fun run_calls :: "'h allocator \<Rightarrow> sys \<Rightarrow> nat \<Rightarrow> dtype \<Rightarrow> table_call list \<Rightarrow> 'h table \<Rightarrow> 'h table option" where
  "run_calls A S i ty [] s = Some s"
| "run_calls A S i ty (c # cs) s = run_call A S i ty c s \<bind> run_calls A S i ty cs"

definition write_direct :: "'h allocator \<Rightarrow> sys \<Rightarrow> (string \<Rightarrow> write_result) \<Rightarrow> 'h table \<Rightarrow> nat \<Rightarrow> addr option \<Rightarrow> 'h table option" where
  "write_direct A S writev s i ln = do {
     d \<leftarrow> t_descs s i;
     (d', calls, h, \<sigma>) \<leftarrow> descriptor_write_direct A writev (t_heap s) (t_strs s) (descriptor.truncate d) ln;
     run_calls A S i (d_type d) calls (s\<lparr>t_heap := h, t_strs := \<sigma>, t_descs := (t_descs s)(i \<mapsto> d\<lparr>wqueue := wqueue d'\<rparr>)\<rparr>)
   }"

definition write_symbol :: "'h allocator \<Rightarrow> sys \<Rightarrow> (string \<Rightarrow> write_result) \<Rightarrow> 'h table \<Rightarrow> string \<Rightarrow> addr \<Rightarrow> 'h table option" where
  "write_symbol A S writev s symbol ln =
     (case t_symbols s symbol of None \<Rightarrow> Some s | Some i \<Rightarrow> write_direct A S writev s i (Some ln))"

section \<open>Reading through the table\<close>

text \<open>The kernel and the evaluation are as in \<open>descriptor_read\<close>. A listening socket accepts its clients instead; \<open>accepts\<close> are the
  results of \<^verbatim>\<open>accept\<close> and \<open>sk\<close> is the clients' origin.\<close>

record ('k, 'x) outside =
  o_read :: "'k kernel_read"
  o_eval :: "string \<Rightarrow> 'x \<Rightarrow> 'x option"
  o_sys :: "nat \<Rightarrow> sys"
  o_client :: "int \<Rightarrow> sys"
  o_accepts :: "accept_result list"
  o_sk :: nat
  o_notify :: notify

definition read_table :: "'h allocator \<Rightarrow> ('k, 'x) outside \<Rightarrow> nat \<Rightarrow> int \<Rightarrow> 'h table \<times> 'k \<times> 'x \<Rightarrow> ('h table \<times> 'k \<times> 'x) option" where
  "read_table A X i size_hint = (\<lambda>(s, k, x). do {
     d \<leftarrow> t_descs s i;
     if pre_read d then map_option (\<lambda>s. (s, k, x)) (socket_listen_pre_read A (o_client X) (o_sk X) (o_accepts X) s)
     else do {
       (d', calls, h, k, x) \<leftarrow> descriptor_read A (o_read X) None (o_eval X) (t_heap s) (descriptor.truncate d) size_hint k x;
       s \<leftarrow> run_calls A (o_sys X i) i (d_type d) calls (s\<lparr>t_heap := h, t_descs := (t_descs s)(i \<mapsto> d\<lparr>reader := reader d'\<rparr>)\<rparr>);
       Some (s, k, x)
     }
   })"

section \<open>Dispatching events\<close>

text \<open>The events of the Linux event system: an error, the inotify descriptor with what it reads, readable and writable
  descriptors with the end-of-file flag, or none of these.\<close>

datatype event = Evt_Error | Evt_Vnode "inotify_read list" | Evt_Read nat bool | Evt_Write nat bool | Evt_None

record ('h, 'k, 'x) loop_state =
  l_table :: "'h table"
  l_watch :: watchers
  l_kernel :: 'k
  l_eval :: 'x
  read_files :: "nat list"

definition read_event :: "'h allocator \<Rightarrow> ('k, 'x) outside \<Rightarrow> nat \<Rightarrow> bool \<Rightarrow> ('h, 'k, 'x) loop_state \<Rightarrow> ('h, 'k, 'x) loop_state option" where
  "read_event A X i eof l = do {
     d \<leftarrow> t_descs (l_table l) i;
     s \<leftarrow> (if eof \<and> dtype_bits (d_type d) AND 255 = dtype_bits D_SOCKETR then socket_eof (l_table l) i else Some (l_table l));
     if dtype_bits (d_type d) AND (dtype_bits D_FILER OR dtype_bits D_FIFOR) \<noteq> 0 then
       (if length (read_files l) < DLOG_MAX_FILES then Some (l\<lparr>l_table := s, read_files := read_files l @ [i]\<rparr>) else None)
     else do {
       (s, k, x) \<leftarrow> read_table A X i 0 (s, l_kernel l, l_eval l);
       Some (l\<lparr>l_table := s, l_kernel := k, l_eval := x\<rparr>)
     }
   }"

fun dispatch :: "'h allocator \<Rightarrow> ('k, 'x) outside \<Rightarrow> event \<Rightarrow> ('h, 'k, 'x) loop_state \<Rightarrow> ('h, 'k, 'x) loop_state option" where
  "dispatch A X Evt_Error l = Some l"
| "dispatch A X (Evt_Vnode reads) l = do {
     (s, w, fs) \<leftarrow> evt_process_vnode A (o_notify X) (o_sys X) reads (l_table l) (l_watch l);
     Some (l\<lparr>l_table := s, l_watch := w, read_files := fs\<rparr>)
   }"
| "dispatch A X (Evt_Read i eof) l = read_event A X i eof l"
| "dispatch A X (Evt_Write i eof) l = map_option (\<lambda>s. l\<lparr>l_table := s\<rparr>) (socket_writable (o_sys X i) (l_table l) i eof)"
| "dispatch A X Evt_None l = Some l"

fun dispatch_all :: "'h allocator \<Rightarrow> ('k, 'x) outside \<Rightarrow> event list \<Rightarrow> ('h, 'k, 'x) loop_state \<Rightarrow> ('h, 'k, 'x) loop_state option" where
  "dispatch_all A X [] l = Some l"
| "dispatch_all A X (e # es) l = dispatch A X e l \<bind> dispatch_all A X es"

text \<open>After the events, the files that were collected are read; a rotated one is added to the pending reads first.\<close>

fun read_collected :: "'h allocator \<Rightarrow> ('k, 'x) outside \<Rightarrow> nat list \<Rightarrow> 'h table \<times> 'k \<times> 'x \<Rightarrow> ('h table \<times> 'k \<times> 'x) option" where
  "read_collected A X [] z = Some z"
| "read_collected A X (i # is) (s, k, x) = do {
     d \<leftarrow> t_descs s i;
     let s = (if d_state d = DSTATE_DRAIN_ROTATE then s\<lparr>t_pending := desc_pending_add (fd d) i (t_pending s)\<rparr> else s);
     z \<leftarrow> read_table A X i 0 (s, k, x);
     read_collected A X is z
   }"

text \<open>One turn of the main loop that got events.\<close>

definition main_turn :: "'h allocator \<Rightarrow> ('k, 'x) outside \<Rightarrow> event list \<Rightarrow> ('h, 'k, 'x) loop_state \<Rightarrow> ('h, 'k, 'x) loop_state option" where
  "main_turn A X evts l = do {
     l \<leftarrow> dispatch_all A X evts (l\<lparr>read_files := []\<rparr>);
     (s, k, x) \<leftarrow> read_collected A X (read_files l) (l_table l, l_kernel l, l_eval l);
     Some (l\<lparr>l_table := s, l_kernel := k, l_eval := x\<rparr>)
   }"

section \<open>Loops over the active list\<close>

text \<open>\<^verbatim>\<open>TAILQ_FOREACH\<close> reads the next pointer from the element after the body: the element must still exist then.\<close>

partial_function (option) rotate_from :: "'h allocator \<Rightarrow> sys \<Rightarrow> 'h table \<Rightarrow> nat option \<Rightarrow> 'h table option" where
  "rotate_from A S s cur =
     (case cur of
        None \<Rightarrow> Some s
      | Some i \<Rightarrow>
          t_descs s i \<bind> (\<lambda>d. (if d_type d = D_ROTLOG then rotlog_rotate A S s i else Some s) \<bind> (\<lambda>s'.
          t_descs s' i \<bind> (\<lambda>_. rotate_from A S s' (tqe_next (t_active s') i)))))"

definition dlog_sig_rotlog :: "'h allocator \<Rightarrow> sys \<Rightarrow> 'h table \<Rightarrow> 'h table option" where
  "dlog_sig_rotlog A S s = rotate_from A S s (tqh_first (t_active s))"

partial_function (option) drain_from :: "'h allocator \<Rightarrow> sys \<Rightarrow> (string \<Rightarrow> write_result) \<Rightarrow> bool \<Rightarrow> 'h table \<Rightarrow> nat option \<Rightarrow> nat option \<Rightarrow> 'h table option" where
  "drain_from A S writev also_close_fds s cur prev =
     (case cur of
        None \<Rightarrow> Some s
      | Some i \<Rightarrow>
          t_descs s i \<bind> (\<lambda>d. (if D_IS_WRITE_SIDE (d_type d) then write_direct A S writev s i None else Some s) \<bind> (\<lambda>s.
          (if prev \<noteq> None \<and> also_close_fds then close_descriptor A s (Some i) else Some s) \<bind> (\<lambda>s.
          t_descs s i \<bind> (\<lambda>_. drain_from A S writev also_close_fds s (tqe_next (t_active s) i) (Some i))))))"

definition desc_active_writes_drain :: "'h allocator \<Rightarrow> sys \<Rightarrow> (string \<Rightarrow> write_result) \<Rightarrow> bool \<Rightarrow> 'h table \<Rightarrow> 'h table option" where
  "desc_active_writes_drain A S writev also_close_fds s = drain_from A S writev also_close_fds s (tqh_first (t_active s)) None"

section \<open>Pending reads\<close>

definition D_CORE_READ_TYPES :: int where "D_CORE_READ_TYPES = 1 OR 4 OR 16"

text \<open>Whether the visitor of the pending reads reads a descriptor.\<close>

definition read_pending :: "int \<Rightarrow> 'a descriptor_scheme \<Rightarrow> bool" where
  "read_pending bitmask d \<longleftrightarrow> dtype_bits (d_type d) AND bitmask \<noteq> 0
     \<and> dstate_bits (d_state d) AND (dstate_bits DSTATE_ACTIVE OR dstate_bits DSTATE_DRAIN OR dstate_bits DSTATE_DRAIN_ROTATE) \<noteq> 0"

section \<open>What opening keeps\<close>

text \<open>Opening changes only the inherited descriptor of an origin.\<close>

definition same_origin :: "origin \<Rightarrow> origin \<Rightarrow> bool" where
  "same_origin x y \<longleftrightarrow> x\<lparr>inh_fd := 0\<rparr> = y\<lparr>inh_fd := 0\<rparr>"

lemma same_originD:
  assumes "same_origin x y"
  shows "or_type x = or_type y" and "or_symbol x = or_symbol y" and "inh_buffer x = inh_buffer y" and "inh_idx x = inh_idx y"
  using arg_cong[OF assms[unfolded same_origin_def], of or_type] arg_cong[OF assms[unfolded same_origin_def], of or_symbol]
    arg_cong[OF assms[unfolded same_origin_def], of inh_buffer] arg_cong[OF assms[unfolded same_origin_def], of inh_idx] by simp_all

lemma same_origin_ok: "same_origin x y \<Longrightarrow> origin_ok y \<Longrightarrow> origin_ok x"
  by (cases "inh_buffer y") (simp_all add: origin_ok_def same_originD)

lemma same_origin_refl [simp]: "same_origin x x"
  by (simp add: same_origin_def)

lemma same_origin_trans: "same_origin x y \<Longrightarrow> same_origin y z \<Longrightarrow> same_origin x z"
  by (simp add: same_origin_def)

lemma open_core_origin: "open_core S flags i (d, og, p) = Some (d', og', p') \<Longrightarrow> same_origin og' og"
  by (auto simp: open_core_def open_file_r_def open_fifo_r_def open_inotify_def open_file_w_def open_fifo_w_def open_skt_w_def
      open_socket_read_def open_socket_listen_def Let_def same_origin_def split: if_splits prod.splits option.splits)

lemma open_finish_frame:
  assumes "open_finish A S s i d reuse flags = Some s'"
  shows "t_next s' = t_next s \<and> t_origins s' = t_origins s
     \<and> (t_symbols s' = t_symbols s \<or> (\<exists>t. dyn_text (d_symbol d) = Some t \<and> t_symbols s' = (t_symbols s)(t \<mapsto> i)))"
proof -
  obtain d1 s1 where e: "empty_buffers A s flags d = Some (d1, s1)" using assms by (auto simp: open_finish_def bind_Some_iff)
  have o: "t_origins s1 = t_origins s" using e by (auto simp: empty_buffers_def bind_Some_iff split: if_splits)
  note k = empty_buffers_keeps[OF e]
  let ?d = "if d_state d1 = DSTATE_ACTIVE \<and> on_activate d1 then rotlog_on_activate S d1 else d1"
  have d: "d_symbol ?d = d_symbol d" using k by simp
  obtain s2 q where s2: "(if \<not> reuse \<and> \<not> D_IS_SOCKET_READ (d_type ?d) then symbol_upsert A s1 (d_symbol ?d) i else Some s1) = Some s2"
    and s': "s' = s2\<lparr>t_descs := (t_descs s2)(i \<mapsto> ?d), t_active := q\<rparr>"
    using assms e by (auto simp: open_finish_def bind_Some_iff Let_def)
  from s2 show ?thesis unfolding s' d using k o by (auto simp: symbol_upsert_def bind_Some_iff split: if_splits)
qed

text \<open>A new descriptor, once its core was opened.\<close>

lemma open_new_frame:
  assumes "open_descriptor A S s og None rotlog flags = Some (rp, s')" and "or_type (t_origins s og) \<noteq> D_TYPEINVALID"
  shows "\<exists>d s1 d1 og1 p1. new_desc A s og rotlog = Some (d, s1) \<and> open_core S flags (t_next s) (d, t_origins s og, t_pending s) = Some (d1, og1, p1)
     \<and> rp = (if d_state d1 = DSTATE_DEAD then None else Some (t_next s)) \<and> t_next s' = t_next s + 1
     \<and> (\<forall>x. same_origin (t_origins s' x) (t_origins s x))
     \<and> (t_symbols s' = t_symbols s \<or> (\<exists>t. dyn_text (d_symbol d) = Some t \<and> t_symbols s' = (t_symbols s)(t \<mapsto> t_next s)))"
proof -
  obtain d s1 where n: "new_desc A s og rotlog = Some (d, s1)" "open_with A S s1 og (t_next s) d False flags = Some (rp, s')"
    using assms by (auto simp: open_descriptor_def bind_Some_iff)
  note k = new_desc_keeps[OF n(1)]
  have o: "t_origins s1 = t_origins s" "t_pending s1 = t_pending s" using n(1) by (auto simp: new_desc_def bind_Some_iff Let_def)
  obtain d1 og1 p1 where c: "open_core S flags (t_next s) (d, t_origins s og, t_pending s) = Some (d1, og1, p1)"
    using open_core_total[OF assms(2)] by (metis prod_cases3)
  note same = open_core_origin[OF c]
  show ?thesis
  proof (cases "d_state d1 = DSTATE_DEAD")
    case True
    with n(2) c o have "rp = None" "s' = s1\<lparr>t_origins := (t_origins s1)(og := og1), t_pending := p1, t_descs := (t_descs s1)(t_next s \<mapsto> d1)\<rparr>"
      by (simp_all add: open_with_def close_descriptor_def Let_def)
    with True n(1) c k o same show ?thesis by auto
  next
    case False
    with n(2) c o have f: "rp = Some (t_next s)"
      "open_finish A S (s1\<lparr>t_origins := (t_origins s1)(og := og1), t_pending := p1\<rparr>) (t_next s) d1 False flags = Some s'"
      by (auto simp: open_with_def Let_def)
    from open_finish_frame[OF f(2)] False n(1) c k o same f(1) open_core_keeps[OF c] show ?thesis by auto
  qed
qed

section \<open>Starting up\<close>

text \<open>A system that lets a descriptor of the type be opened, or wait.\<close>

definition sys_serves :: "sys \<Rightarrow> dtype \<Rightarrow> bool" where
  "sys_serves S ty \<longleftrightarrow>
     (if ty \<in> {D_FILER, D_FIFOR, D_SOCKETR} then reg_read S = 0
      else if ty \<in> {D_FILEW, D_ROTLOG} then open_result S \<noteq> - 1
      else if ty = D_FIFOW then \<not> mkfifo_failed S \<and> open_result S \<noteq> - 1
      else if ty = D_SOCKETW then resolved S \<and> so_error S \<in> {None, Some ECONNREFUSED}
      else False)"

lemma connect_loop_state: "connect_loop as n = (m, Some st) \<Longrightarrow> st \<in> {DSTATE_PENDING, DSTATE_ACTIVE}"
  by (induction as n rule: connect_loop.induct) auto

lemma serves_alive:
  assumes "sys_serves S (or_type og)" and "d_state d = DSTATE_INIT" and "open_core S flags i (d, og, p) = Some (d', og', p')"
  shows "d_state d' \<noteq> DSTATE_DEAD"
  using assms
  by (cases "or_type og")
    (auto simp: sys_serves_def open_core_def DESC_CORE_BITMASK_def open_file_r_def open_fifo_r_def open_file_w_def open_fifo_w_def
      open_socket_read_def open_skt_w_def Let_def split: if_splits prod.splits option.splits dest!: connect_loop_state)

lemma open_origin_ok:
  assumes "table_ok s" and "arena_ok (t_heap s) L" and "origin_ok (t_origins s og)" and "or_type (t_origins s og) \<noteq> D_TYPEINVALID"
    and "sys_serves S (or_type (t_origins s og))"
  shows "\<exists>s' L'. open_origin dynstr_arena S s og = Some (Some (t_next s), s') \<and> table_ok s' \<and> arena_ok (t_heap s') L' \<and> t_next s' = t_next s + 1
     \<and> (\<forall>x. same_origin (t_origins s' x) (t_origins s x))
     \<and> (\<forall>t. t \<noteq> or_symbol (t_origins s og) \<longrightarrow> t_symbols s' t = t_symbols s t)
     \<and> (\<not> D_IS_SOCKET_READ (or_type (t_origins s og)) \<longrightarrow> t_symbols s' (or_symbol (t_origins s og)) = Some (t_next s))"
proof -
  define rl where "rl \<longleftrightarrow> or_type (t_origins s og) = D_ROTLOG"
  have o: "open_origin dynstr_arena S s og = open_descriptor dynstr_arena S s og None rl DOPEN_NOFLAGS"
    by (simp add: open_origin_def open_rotlog_def rl_def)
  obtain rp s' L' where r: "open_descriptor dynstr_arena S s og None rl DOPEN_NOFLAGS = Some (rp, s')" "arena_ok (t_heap s') L'"
    "case rp of None \<Rightarrow> True | Some i \<Rightarrow> (\<not> D_IS_SOCKET_READ (or_type (t_origins s og)) \<longrightarrow> t_symbols s' (or_symbol (t_origins s og)) = Some i)"
    using open_new_returns[OF assms(1-3), of S rl DOPEN_NOFLAGS] by (fastforce split: option.splits)
  obtain d s1 d1 og1 p1 where f: "new_desc dynstr_arena s og rl = Some (d, s1)"
    "open_core S DOPEN_NOFLAGS (t_next s) (d, t_origins s og, t_pending s) = Some (d1, og1, p1)"
    "rp = (if d_state d1 = DSTATE_DEAD then None else Some (t_next s))" "t_next s' = t_next s + 1"
    "\<forall>x. same_origin (t_origins s' x) (t_origins s x)"
    "t_symbols s' = t_symbols s \<or> (\<exists>t. dyn_text (d_symbol d) = Some t \<and> t_symbols s' = (t_symbols s)(t \<mapsto> t_next s))"
    using open_new_frame[OF r(1) assms(4)] by blast
  have "rp = Some (t_next s)" using serves_alive[OF assms(5) _ f(2)] new_desc_keeps[OF f(1)] f(3) by simp
  moreover have "dyn_text (d_symbol d) = Some (or_symbol (t_origins s og))"
    using new_desc_ok[OF assms(2,3), of rl] f(1) by (auto simp: str_in_def dyn_text_rep)
  ultimately show ?thesis using o r f(4-6) open_new_ok[OF assms(1) r(1)] by auto
qed

section \<open>Properties of the start\<close>

lemma open_origins_all:
  assumes "table_ok s" and "arena_ok (t_heap s) L"
    and "\<forall>og \<in> set ogs. origin_ok (t_origins s og) \<and> or_type (t_origins s og) \<noteq> D_TYPEINVALID \<and> (\<forall>k. sys_serves (S k) (or_type (t_origins s og)))"
    and "distinct (map (\<lambda>og. or_symbol (t_origins s og)) ogs)"
  shows "\<exists>s' L'. open_origins dynstr_arena S k ogs s = Some s' \<and> table_ok s' \<and> arena_ok (t_heap s') L' \<and> t_next s' = t_next s + length ogs
     \<and> (\<forall>j < length ogs. D_IS_SOCKET_READ (or_type (t_origins s (ogs ! j))) \<or> t_symbols s' (or_symbol (t_origins s (ogs ! j))) = Some (t_next s + j))
     \<and> (\<forall>t. t \<notin> set (map (\<lambda>og. or_symbol (t_origins s og)) ogs) \<longrightarrow> t_symbols s' t = t_symbols s t)"
  using assms
proof (induction ogs arbitrary: s L k)
  case Nil
  then show ?case by (subst open_origins.simps) auto
next
  case (Cons og ogs)
  obtain s1 L1 where s1: "open_origin dynstr_arena (S k) s og = Some (Some (t_next s), s1)" "table_ok s1" "arena_ok (t_heap s1) L1"
    "t_next s1 = t_next s + 1" "\<forall>x. same_origin (t_origins s1 x) (t_origins s x)"
    "\<forall>t. t \<noteq> or_symbol (t_origins s og) \<longrightarrow> t_symbols s1 t = t_symbols s t"
    "\<not> D_IS_SOCKET_READ (or_type (t_origins s og)) \<longrightarrow> t_symbols s1 (or_symbol (t_origins s og)) = Some (t_next s)"
    using open_origin_ok[OF Cons.prems(1,2), of og "S k"] Cons.prems(3) by auto
  have o: "or_type (t_origins s1 x) = or_type (t_origins s x)" "or_symbol (t_origins s1 x) = or_symbol (t_origins s x)"
    "origin_ok (t_origins s x) \<Longrightarrow> origin_ok (t_origins s1 x)" for x
    using same_originD[OF s1(5)[rule_format, of x]] same_origin_ok[OF s1(5)[rule_format, of x]] by auto
  have "\<forall>og \<in> set ogs. origin_ok (t_origins s1 og) \<and> or_type (t_origins s1 og) \<noteq> D_TYPEINVALID \<and> (\<forall>k. sys_serves (S k) (or_type (t_origins s1 og)))"
    "distinct (map (\<lambda>og. or_symbol (t_origins s1 og)) ogs)" using Cons.prems(3,4) o by auto
  from Cons.IH[OF s1(2,3) this, of "k + 1"] obtain s' L' where s': "open_origins dynstr_arena S (k + 1) ogs s1 = Some s'" "table_ok s'"
    "arena_ok (t_heap s') L'" "t_next s' = t_next s1 + length ogs"
    "\<forall>j < length ogs. D_IS_SOCKET_READ (or_type (t_origins s (ogs ! j))) \<or> t_symbols s' (or_symbol (t_origins s (ogs ! j))) = Some (t_next s1 + j)"
    "\<forall>t. t \<notin> set (map (\<lambda>og. or_symbol (t_origins s og)) ogs) \<longrightarrow> t_symbols s' t = t_symbols s1 t"
    unfolding o by blast
  have "open_origins dynstr_arena S k (og # ogs) s = Some s'" using s1(1) s'(1) by (subst open_origins.simps) simp
  moreover have "D_IS_SOCKET_READ (or_type (t_origins s ((og # ogs) ! j))) \<or> t_symbols s' (or_symbol (t_origins s ((og # ogs) ! j))) = Some (t_next s + j)"
    if "j < length (og # ogs)" for j
    using that s'(5,6) s1(4,7) Cons.prems(4) by (cases j) auto
  moreover have "t_symbols s' t = t_symbols s t" if "t \<notin> set (map (\<lambda>og. or_symbol (t_origins s og)) (og # ogs))" for t
    using that s'(6) s1(6) by auto
  ultimately show ?case using s'(2-4) s1(4) by auto
qed

text \<open>When the system lets every configured descriptor be opened, or wait for its file or peer, the loop over the origins
  ends, and leaves a consistent table in which the symbol of every origin leads to its descriptor, in the order of the
  configuration.\<close>

theorem startup_opens_all:
  assumes "table_ok s" and "arena_ok (t_heap s) L"
    and "\<forall>og \<in> set ogs. origin_ok (t_origins s og) \<and> or_type (t_origins s og) \<noteq> D_TYPEINVALID \<and> (\<forall>k. sys_serves (S k) (or_type (t_origins s og)))"
    and "distinct (map (\<lambda>og. or_symbol (t_origins s og)) ogs)"
  shows "\<exists>s' L'. open_origins dynstr_arena S k ogs s = Some s' \<and> table_ok s' \<and> arena_ok (t_heap s') L' \<and> t_next s' = t_next s + length ogs
     \<and> (\<forall>j < length ogs. D_IS_SOCKET_READ (or_type (t_origins s (ogs ! j))) \<or> t_symbols s' (or_symbol (t_origins s (ogs ! j))) = Some (t_next s + j))
     \<and> (\<forall>t. t \<notin> set (map (\<lambda>og. or_symbol (t_origins s og)) ogs) \<longrightarrow> t_symbols s' t = t_symbols s t)"
  by (rule open_origins_all[OF assms])

theorem startup_opens_all_witness:
  "\<exists>ar s'. open_origins dynstr_arena (\<lambda>_. sys0) 0 [0] (table0 ar log_origin) = Some s' \<and> t_symbols s' ''LOG'' = Some 0"
proof -
  obtain ar where ar: "arena_ok ar {}" using dynstr_arena_exists by blast
  have "arena_ok (t_heap (table0 ar log_origin)) {}" "\<forall>og \<in> set [0]. origin_ok (t_origins (table0 ar log_origin) og)
      \<and> or_type (t_origins (table0 ar log_origin) og) \<noteq> D_TYPEINVALID \<and> (\<forall>k :: nat. sys_serves sys0 (or_type (t_origins (table0 ar log_origin) og)))"
    "distinct (map (\<lambda>og. or_symbol (t_origins (table0 ar log_origin) og)) [0])"
    using ar by (simp_all add: table0_def log_origin_def origin_ok_def sys_serves_def sys0_def)
  from startup_opens_all[OF table_start_ok[OF table0_start] this, of 0] show ?thesis
    by (auto simp: table0_def log_origin_def D_IS_SOCKET_READ_def)
qed

lemma write_only_dead:
  assumes "or_type og \<in> {D_FILEW, D_ROTLOG}" and "open_result S = - 1" and "open_core S flags i (d, og, p) = Some (d', og', p')"
  shows "d_state d' = DSTATE_DEAD"
  using assms by (auto simp: open_core_def DESC_CORE_BITMASK_def open_file_w_def Let_def)

lemma open_origin_fails:
  assumes "or_type (t_origins s og) \<in> {D_FILEW, D_ROTLOG}" and "open_result S = - 1" and "open_origin A S s og = Some (dp, s')"
  shows "dp = None \<and> or_type (t_origins s' og) = or_type (t_origins s og)"
proof -
  obtain rl where "open_descriptor A S s og None rl DOPEN_NOFLAGS = Some (dp, s')"
    using assms(3) by (auto simp: open_origin_def open_rotlog_def split: if_splits)
  from open_new_frame[OF this] assms(1) obtain d d1 og1 p1 where
    "open_core S DOPEN_NOFLAGS (t_next s) (d, t_origins s og, t_pending s) = Some (d1, og1, p1)"
    "dp = (if d_state d1 = DSTATE_DEAD then None else Some (t_next s))" "\<forall>x. same_origin (t_origins s' x) (t_origins s x)" by auto
  with write_only_dead[OF assms(1,2)] same_originD(1) show ?thesis by auto
qed

lemma open_origins_stuck:
  assumes "open_origins A S k (og # rest) s = Some y" and "\<forall>k. open_result (S k) = - 1"
  shows "or_type (t_origins s og) \<notin> {D_FILEW, D_ROTLOG}"
proof -
  let ?P = "\<lambda>A S k ogs s (y :: 'a table). (\<forall>k. open_result (S k) = - 1) \<longrightarrow>
     (\<forall>og rest. ogs = og # rest \<longrightarrow> or_type (t_origins s og) \<notin> {D_FILEW, D_ROTLOG})"
  have "?P A S k (og # rest) s y"
  proof (rule open_origins.raw_induct[of ?P, OF _ assms(1)], intro impI allI notI)
    fix f and A :: "'a allocator" and S k ogs s y og rest
    assume IH: "\<And>A S k ogs s y. f A S k ogs s = Some y \<Longrightarrow> ?P A S k ogs s y"
      and body: "(case ogs of [] \<Rightarrow> Some s | og # rest \<Rightarrow> open_origin A (S k) s og \<bind>
         (\<lambda>(dp, s'). if dp = None then f A S (k + 1) ogs s' else f A S (k + 1) rest s')) = Some y"
      and S: "\<forall>k. open_result (S k) = - 1" and ogs: "ogs = og # rest" and ty: "or_type (t_origins s og) \<in> {D_FILEW, D_ROTLOG}"
    obtain dp s' where o: "open_origin A (S k) s og = Some (dp, s')" using body ogs by (auto simp: bind_Some_iff)
    note fails = open_origin_fails[OF ty S[rule_format] o]
    then have "f A S (k + 1) ogs s' = Some y" using body o ogs by simp
    from IH[OF this] S ogs ty fails show False by simp
  qed
  with assms(2) show ?thesis by blast
qed

text \<open>When a file cannot be opened for writing, the start never gets past it: the loop tries the same origin forever,
  and every attempt leaves a dead descriptor behind.\<close>

theorem startup_stuck:
  assumes "or_type (t_origins s og) \<in> {D_FILEW, D_ROTLOG}" and "\<forall>k. open_result (S k) = - 1"
  shows "open_origins A S k (og # ogs) s = None"
  using open_origins_stuck[of A S k og ogs s] assms by (meson not_Some_eq)

theorem startup_stuck_witness:
  "\<forall>ar. open_origins dynstr_arena (\<lambda>_. sys0\<lparr>open_result := - 1\<rparr>) 0 [0] (table0 ar log_origin) = None"
  using startup_stuck[of "table0 _ log_origin" 0 "\<lambda>_. sys0\<lparr>open_result := - 1\<rparr>" dynstr_arena 0 "[]"] by (simp add: table0_def log_origin_def)

section \<open>Accepting clients\<close>

lemma accept_one:
  assumes "table_ok s" and "arena_ok (t_heap s) L" and "or_type (t_origins s sk) = D_SOCKETR" and "NUL \<notin> set (or_symbol (t_origins s sk))"
    and "reg_read (S n) = 0"
  shows "\<exists>s' L' d. open_descriptor dynstr_arena (S n) (s\<lparr>t_origins := (t_origins s)(sk := (t_origins s sk)\<lparr>inh_fd := n, inh_buffer := None\<rparr>)\<rparr>) sk None False 0
       = Some (Some (t_next s), s')
     \<and> table_ok s' \<and> arena_ok (t_heap s') L' \<and> t_next s' = t_next s + 1 \<and> t_descs s' = (t_descs s)(t_next s \<mapsto> d)
     \<and> d_state d = DSTATE_ACTIVE \<and> fd d = n \<and> d_type d = D_SOCKETR
     \<and> or_type (t_origins s' sk) = D_SOCKETR \<and> or_symbol (t_origins s' sk) = or_symbol (t_origins s sk)"
proof -
  let ?s = "s\<lparr>t_origins := (t_origins s)(sk := (t_origins s sk)\<lparr>inh_fd := n, inh_buffer := None\<rparr>)\<rparr>"
  have pre: "table_ok ?s" "arena_ok (t_heap ?s) L" "origin_ok (t_origins ?s sk)" "or_type (t_origins ?s sk) \<noteq> D_TYPEINVALID"
    using assms by (auto simp: table_ok_def active_ids_def origin_ok_def)
  obtain rp s' L' where r: "open_descriptor dynstr_arena (S n) ?s sk None False 0 = Some (rp, s')" "arena_ok (t_heap s') L'"
    using open_new_returns[OF pre(1-3), of "S n" False 0] by blast
  obtain d s1 d1 og1 p1 where f: "new_desc dynstr_arena ?s sk False = Some (d, s1)"
    "open_core (S n) 0 (t_next ?s) (d, t_origins ?s sk, t_pending ?s) = Some (d1, og1, p1)"
    "rp = (if d_state d1 = DSTATE_DEAD then None else Some (t_next ?s))" "t_next s' = t_next ?s + 1"
    "\<forall>x. same_origin (t_origins s' x) (t_origins ?s x)" using open_new_frame[OF r(1) pre(4)] by blast
  have d1: "d1 = d\<lparr>fd := n, d_state := DSTATE_ACTIVE\<rparr>" using f(2) assms(3,5)
    by (simp add: open_core_def DESC_CORE_BITMASK_def open_socket_read_def Let_def)
  have ty: "d_type d = D_SOCKETR" "on_activate d = False" using f(1) assms(3) by (auto simp: new_desc_def bind_Some_iff Let_def)
  obtain s2 where w: "open_finish dynstr_arena (S n) s2 (t_next s) d1 False 0 = Some s'" "t_descs s2 = t_descs s"
    using r(1) f(1,2) d1 assms(3) new_desc_keeps[OF f(1)]
    by (auto simp: open_descriptor_def open_with_def Let_def new_desc_def bind_Some_iff)
  have "\<exists>d'. t_descs s' = (t_descs s)(t_next s \<mapsto> d') \<and> d_state d' = DSTATE_ACTIVE \<and> fd d' = n \<and> d_type d' = D_SOCKETR"
    using w d1 ty by (auto simp: open_finish_def empty_buffers_def bind_Some_iff Let_def D_IS_READ_SIDE_def D_IS_SOCKET_READ_def split: if_splits)
  then show ?thesis using r f(3,4) d1 open_new_ok[OF pre(1) r(1)] same_originD[OF f(5)[rule_format, of sk]] assms(3) by auto
qed

text \<open>C24: each client that was accepted and can be registered gets a descriptor of its own, active and reading from its socket,
  in the order of their arrival; the descriptors that were there stay, and the table stays consistent.\<close>

theorem clients_accepted:
  assumes "table_ok s" and "arena_ok (t_heap s) L" and "or_type (t_origins s sk) = D_SOCKETR" and "NUL \<notin> set (or_symbol (t_origins s sk))"
    and "\<forall>n \<in> set ns. reg_read (S n) = 0"
  shows "\<exists>s' L'. socket_listen_pre_read dynstr_arena S sk (map Accepted ns @ [Accept_Failed]) s = Some s' \<and> table_ok s' \<and> arena_ok (t_heap s') L'
     \<and> t_next s' = t_next s + length ns \<and> (\<forall>i < t_next s. t_descs s' i = t_descs s i)
     \<and> (\<forall>j < length ns. \<exists>d. t_descs s' (t_next s + j) = Some d \<and> d_state d = DSTATE_ACTIVE \<and> fd d = ns ! j \<and> d_type d = D_SOCKETR)"
  using assms
proof (induction ns arbitrary: s L)
  case Nil
  then show ?case by auto
next
  case (Cons n ns)
  obtain s1 L1 d where o: "open_descriptor dynstr_arena (S n) (s\<lparr>t_origins := (t_origins s)(sk := (t_origins s sk)\<lparr>inh_fd := n, inh_buffer := None\<rparr>)\<rparr>)
       sk None False 0 = Some (Some (t_next s), s1)"
    "table_ok s1" "arena_ok (t_heap s1) L1" "t_next s1 = t_next s + 1" "t_descs s1 = (t_descs s)(t_next s \<mapsto> d)"
    "d_state d = DSTATE_ACTIVE" "fd d = n" "d_type d = D_SOCKETR" "or_type (t_origins s1 sk) = D_SOCKETR"
    "NUL \<notin> set (or_symbol (t_origins s1 sk))"
    using accept_one[OF Cons.prems(1-4), of S n] Cons.prems(4,5) by auto
  from Cons.IH[OF o(2,3,9,10)] Cons.prems(5) obtain s' L' where
    s': "socket_listen_pre_read dynstr_arena S sk (map Accepted ns @ [Accept_Failed]) s1 = Some s'" "table_ok s'" "arena_ok (t_heap s') L'"
    "t_next s' = t_next s1 + length ns" "\<forall>i < t_next s1. t_descs s' i = t_descs s1 i"
    "\<forall>j < length ns. \<exists>d. t_descs s' (t_next s1 + j) = Some d \<and> d_state d = DSTATE_ACTIVE \<and> fd d = ns ! j \<and> d_type d = D_SOCKETR"
    by auto
  have "\<exists>d. t_descs s' (t_next s + j) = Some d \<and> d_state d = DSTATE_ACTIVE \<and> fd d = (n # ns) ! j \<and> d_type d = D_SOCKETR"
    if "j < length (n # ns)" for j
    using that s'(5,6) o(4-8) by (cases j) auto
  moreover have "\<forall>i < t_next s. t_descs s' i = t_descs s i" using s'(5) o(4,5) by auto
  moreover have "socket_listen_pre_read dynstr_arena S sk (map Accepted (n # ns) @ [Accept_Failed]) s = Some s'" using o(1) s'(1) by (simp add: Let_def)
  ultimately show ?case using s'(2-4) o(4) by auto
qed

theorem clients_accepted_witness:
  "\<exists>ar s' d. socket_listen_pre_read dynstr_arena (\<lambda>_. sys0) 0 [Accepted 7, Accepted 8, Accept_Failed]
       (table0 ar (log_origin\<lparr>or_type := D_SOCKETR\<rparr>)) = Some s' \<and> t_descs s' 1 = Some d \<and> fd d = 8"
proof -
  obtain ar where ar: "arena_ok ar {}" using dynstr_arena_exists by blast
  let ?s = "table0 ar (log_origin\<lparr>or_type := D_SOCKETR\<rparr>)"
  have "arena_ok (t_heap ?s) {}" "or_type (t_origins ?s 0) = D_SOCKETR" "NUL \<notin> set (or_symbol (t_origins ?s 0))"
    "\<forall>n \<in> set [7, 8]. reg_read sys0 = 0" "t_next ?s = 0"
    using ar by (simp_all add: table0_def log_origin_def sys0_def)
  with clients_accepted[OF table_start_ok[OF table0_start] this(1-4)] show ?thesis by fastforce
qed

section \<open>Rotating all logs\<close>

text \<open>Rotating a log at the tail of the list keeps it there, and its next pointer leads to itself.\<close>

definition tail_log :: "nat \<Rightarrow> arena table \<Rightarrow> bool" where
  "tail_log i s \<longleftrightarrow> tqh_last (t_active s) = Next i \<and> (\<exists>d L ps ts. t_descs s i = Some d \<and> d_type d = D_ROTLOG
     \<and> or_type (t_origins s (d_origin d)) = D_ROTLOG \<and> queue_at (t_heap s) L (t_strs s) (wqueue d) ps ts)"

lemma rotate_tail:
  assumes "tail_log i s" and "rename_ok S" and "open_result S \<noteq> - 1"
  shows "\<exists>s'. rotlog_rotate dynstr_arena S s i = Some s' \<and> tail_log i s' \<and> tqe_next (t_active s') i = Some i \<and> t_descs s' i \<noteq> None"
proof -
  obtain d L ps ts where d: "t_descs s i = Some d" "d_type d = D_ROTLOG" "or_type (t_origins s (d_origin d)) = D_ROTLOG"
    "queue_at (t_heap s) L (t_strs s) (wqueue d) ps ts" "tqh_last (t_active s) = Next i" using assms(1) by (auto simp: tail_log_def)
  obtain wq h where w: "wq_destroy dynstr_arena (t_heap s) (t_strs s) (Some (wqueue d)) = Some (Some wq, h, t_strs s |` (- set ps))"
    "arena_ok h (L - set ps)" "wq_holds wq []" using da.destroy_ok[OF d(4)] by blast
  have qu: "queue_at h (L - set ps) (t_strs s |` (- set ps)) wq [] []" using w(2,3) by (simp add: queue_in_def)
  have ty: "\<not> D_IS_READ_SIDE D_ROTLOG" "D_IS_WRITE_SIDE D_ROTLOG" by (simp_all add: D_IS_READ_SIDE_def D_IS_WRITE_SIDE_def)
  obtain q where qi: "TAILQ_INSERT_TAIL (t_active s) i = Some q" "tqh_last q = Next i" "tqe_next q i = Some i"
    using d(5) by (simp add: TAILQ_INSERT_TAIL_def Let_def)
  let ?d = "d\<lparr>fd := open_result S, d_state := DSTATE_ACTIVE, wqueue := wq\<rparr>"
  let ?d' = "if on_activate d then rotlog_on_activate S ?d else ?d"
  let ?s = "s\<lparr>t_origins := (t_origins s)(d_origin d := t_origins s (d_origin d)), t_pending := t_pending s, t_heap := h,
    t_strs := t_strs s |` (- set ps), t_descs := (t_descs s)(i \<mapsto> ?d'), t_active := q\<rparr>"
  have r: "rotlog_rotate dynstr_arena S s i = Some ?s" using d(1-3) w(1) ty qi(1) assms(2,3)
    by (cases "on_activate d")
      (simp_all add: rotlog_rotate_def open_descriptor_def open_with_def open_core_def DESC_CORE_BITMASK_def open_file_w_def
        open_finish_def empty_buffers_def DOPEN_NOFLAGS_def rotlog_on_activate_def Let_def)
  have "d_type ?d' = D_ROTLOG" "d_origin ?d' = d_origin d" "wqueue ?d' = wq" using d(2) by (simp_all add: rotlog_on_activate_def)
  then have "tail_log i ?s" using qi(2) qu d(3) unfolding tail_log_def by auto
  with r qi(3) show ?thesis by auto
qed

lemma rotate_from_stuck:
  assumes "rotate_from dynstr_arena S s (Some i) = Some y" and "rename_ok S" and "open_result S \<noteq> - 1"
  shows "\<not> tail_log i s"
proof -
  let ?P = "\<lambda>A S s cur (y :: arena table). A = dynstr_arena \<longrightarrow> rename_ok S \<longrightarrow> open_result S \<noteq> - 1 \<longrightarrow> (\<forall>i. cur = Some i \<longrightarrow> \<not> tail_log i s)"
  have "?P dynstr_arena S s (Some i) y"
  proof (rule rotate_from.raw_induct[of ?P, OF _ assms(1)], intro impI allI notI)
    fix f and A :: "arena allocator" and S s cur y i
    assume IH: "\<And>A S s cur y. f A S s cur = Some y \<Longrightarrow> ?P A S s cur y"
      and body: "(case cur of None \<Rightarrow> Some s | Some i \<Rightarrow> t_descs s i \<bind> (\<lambda>d. (if d_type d = D_ROTLOG then rotlog_rotate A S s i else Some s)
         \<bind> (\<lambda>s'. t_descs s' i \<bind> (\<lambda>_. f A S s' (tqe_next (t_active s') i))))) = Some y"
      and A: "A = dynstr_arena" and S: "rename_ok S" "open_result S \<noteq> - 1" and cur: "cur = Some i" and t: "tail_log i s"
    obtain s' where r: "rotlog_rotate dynstr_arena S s i = Some s'" "tail_log i s'" "tqe_next (t_active s') i = Some i" "t_descs s' i \<noteq> None"
      using rotate_tail[OF t S] by blast
    from t obtain d where "t_descs s i = Some d" "d_type d = D_ROTLOG" by (auto simp: tail_log_def)
    then have "f A S s' (Some i) = Some y" using body r A cur by auto
    from IH[OF this] A S r(2) show False by blast
  qed
  with assms(2,3) show ?thesis by blast
qed

text \<open>The signal that asks for the rotation of all logs hangs the daemon when there is only one active descriptor and it is a
  rotating log: rotating it lists it again, and the loop over the list comes back to it forever.\<close>

theorem sig_rotlog_hangs:
  assumes "tq_rep (t_active s) [i]" and "t_descs s i = Some d" and "d_type d = D_ROTLOG" and "or_type (t_origins s (d_origin d)) = D_ROTLOG"
    and "queue_at (t_heap s) L (t_strs s) (wqueue d) ps ts" and "rename_ok S" and "open_result S \<noteq> - 1"
  shows "dlog_sig_rotlog dynstr_arena S s = None"
proof -
  have "tqh_first (t_active s) = Some i" "tail_log i s" using assms(1-5) by (auto simp: tq_rep_def tail_log_def)
  then show ?thesis using rotate_from_stuck[OF _ assms(6,7)] unfolding dlog_sig_rotlog_def by (metis not_Some_eq)
qed

theorem sig_rotlog_hangs_witness:
  "\<exists>ar. dlog_sig_rotlog dynstr_arena sys0 (table1_listed ar log_origin (a_desc DSTATE_ACTIVE D_ROTLOG)) = None"
proof -
  obtain ar where ar: "arena_ok ar {}" using dynstr_arena_exists by blast
  let ?d = "a_desc DSTATE_ACTIVE D_ROTLOG"
  let ?s = "table1_listed ar log_origin ?d"
  have "t_descs ?s 0 = Some ?d" "d_type ?d = D_ROTLOG" "or_type (t_origins ?s (d_origin ?d)) = D_ROTLOG"
    "queue_at (t_heap ?s) {} (t_strs ?s) (wqueue ?d) [] []" "rename_ok sys0" "open_result sys0 \<noteq> - 1"
    using ar wq_new_holds by (simp_all add: table1_listed_def table1_def table0_def a_desc_def log_origin_def queue_in_def lines_in_def sys0_def)
  from sig_rotlog_hangs[OF table1_listed_rep this] show ?thesis by blast
qed

section \<open>Draining the writers\<close>

text \<open>Draining the writers with closing, as the restart and the shutdown do, uses a released descriptor whenever at least two
  descriptors are active: the loop reads the next pointer of the second one after closing it.\<close>

theorem drain_uses_released:
  assumes "tq_rep (t_active s) (i # j # xs)" and "t_descs s i = Some d" and "t_descs s j = Some e"
    and "\<not> D_IS_WRITE_SIDE (d_type d)" and "\<not> D_IS_WRITE_SIDE (d_type e)" and "d_state e \<noteq> DSTATE_DEAD"
  shows "desc_active_writes_drain A S writev True s = None"
proof -
  have l: "tqh_first (t_active s) = Some i" "tqe_next (t_active s) i = Some j" using assms(1) by (auto simp: tq_rep_def)
  have "\<exists>s'. close_descriptor A s (Some j) = Some s' \<Longrightarrow> close_descriptor A s (Some j) \<bind> (\<lambda>s. t_descs s j) = None"
    using assms(3,6) by (auto simp: close_descriptor_def bind_Some_iff)
  then have c: "close_descriptor A s (Some j) \<bind> (\<lambda>s. t_descs s j \<bind> g s) = None" for g
    by (cases "close_descriptor A s (Some j)") auto
  have "drain_from A S writev True s (Some j) (Some i) = None"
    using assms(3,5) c by (subst drain_from.simps) simp
  then have "drain_from A S writev True s (Some i) None = None" using assms(2,4) l(2) by (subst drain_from.simps) simp
  then show ?thesis using l(1) by (simp add: desc_active_writes_drain_def)
qed

definition table2_listed :: "'h \<Rightarrow> origin \<Rightarrow> table_desc \<Rightarrow> table_desc \<Rightarrow> 'h table" where
  "table2_listed h og d e = (table1_listed h og d)\<lparr>t_descs := [0 \<mapsto> d, 1 \<mapsto> e], t_next := 2,
     t_active := the (TAILQ_INSERT_TAIL (t_active (table1_listed h og d)) 1)\<rparr>"

theorem drain_uses_released_witness:
  "\<forall>ar. desc_active_writes_drain dynstr_arena sys0 (\<lambda>_. WouldBlock) True
     (table2_listed ar log_origin (a_desc DSTATE_ACTIVE D_FILER) (a_desc DSTATE_ACTIVE D_FILER)) = None"
proof (rule allI)
  fix ar :: arena
  let ?d = "a_desc DSTATE_ACTIVE D_FILER"
  let ?s = "table2_listed ar log_origin ?d ?d"
  have "tq_rep (t_active ?s) [0, 1]" using tq.ins_law[OF table1_listed_rep[of ar log_origin ?d], of 1] by (auto simp: table2_listed_def)
  moreover have "t_descs ?s 0 = Some ?d" "t_descs ?s 1 = Some ?d" "\<not> D_IS_WRITE_SIDE (d_type ?d)" "d_state ?d \<noteq> DSTATE_DEAD"
    by (simp_all add: table2_listed_def a_desc_def D_IS_WRITE_SIDE_def)
  ultimately show "desc_active_writes_drain dynstr_arena sys0 (\<lambda>_. WouldBlock) True ?s = None"
    using drain_uses_released[of ?s 0 1 "[]" ?d ?d] by blast
qed

section \<open>Pending reads\<close>

text \<open>The idle loop reads exactly the pending files, FIFOs and clients that are active or draining.\<close>

theorem read_pending_iff:
  "read_pending D_CORE_READ_TYPES d \<longleftrightarrow> d_type d \<in> {D_FILER, D_FIFOR, D_SOCKETR} \<and> d_state d \<in> {DSTATE_ACTIVE, DSTATE_DRAIN, DSTATE_DRAIN_ROTATE}"
  by (cases "d_type d"; cases "d_state d") (simp_all add: read_pending_def D_CORE_READ_TYPES_def)

section \<open>Writing through the table\<close>

lemma table_ok_update:
  assumes "table_ok s" and "t_descs s i = Some d" and "d_state d' = d_state d" and "d_symbol d' = d_symbol d"
  shows "table_ok (s\<lparr>t_heap := h, t_strs := \<sigma>, t_descs := (t_descs s)(i \<mapsto> d')\<rparr>)"
proof -
  let ?s = "s\<lparr>t_heap := h, t_strs := \<sigma>, t_descs := (t_descs s)(i \<mapsto> d')\<rparr>"
  have a: "active_ids ?s = active_ids s" using assms(2,3) by (auto simp: active_ids_def)
  have "\<forall>j \<ge> t_next ?s. t_descs ?s j = None" using assms(1,2) table_okD(1)[OF assms(1,2)] by (simp add: table_ok_def)
  moreover have "\<exists>e. t_descs ?s j = Some e \<and> dyn_text (d_symbol e) = Some t" if "t_symbols ?s t = Some j" for t j
    using that assms(1,4) table_okD(2)[OF assms(1,2), of t] unfolding table_ok_def by (cases "j = i") auto
  moreover have "\<exists>xs. tq_rep (t_active ?s) xs \<and> set xs = active_ids s" using assms(1) by (simp add: table_ok_def)
  ultimately show ?thesis by (simp add: table_ok_def a)
qed

text \<open>C23: a line written to a symbol that leads to an active rotating log whose queue is not full, with everything taken by \<^verbatim>\<open>writev\<close> and the log still
  below its size limit, a number of 31 bits: what was queued and the line are handed over and released, the log's size counts them, and the
  table stays consistent.\<close>

theorem log_write_counts:
  assumes "table_ok s" and "t_symbols s symbol = Some i" and "t_descs s i = Some d" and "d_type d = D_ROTLOG" and "d_state d = DSTATE_ACTIVE"
    and "post_line_write d" and "size_state d = Some n" and "queue_at (t_heap s) L (t_strs s) (wqueue d) ps ts" and "\<forall>t \<in> set ts. t \<noteq> []"
    and "length ps < DLOG_WRITE_HIGH_WM" and "t_strs s p = Some x" and "ptr x = p" and "dyn_at (t_heap s) L x t" and "p \<notin> set ps"
    and "writev (concat ts @ ended t) = Written (int (length (concat ts @ ended t)))"
    and "n + int (length (concat ts @ ended t)) < or_size (t_origins s (d_origin d))" and "0 \<le> n" and "or_size (t_origins s (d_origin d)) < 2 ^ 31"
  shows "\<exists>s' d'. write_symbol dynstr_arena S writev s symbol p = Some s' \<and> table_ok s' \<and> t_descs s' i = Some d'
     \<and> size_state d' = Some (n + int (length (concat ts @ ended t)))
     \<and> queue_at (t_heap s') (L - insert p (set ps)) (t_strs s') (wqueue d') [] []"
proof -
  let ?d = "descriptor.truncate d"
  have tr: "wqueue ?d = wqueue d" "d_state ?d = d_state d" "post_line_write ?d = post_line_write d" by (simp_all add: descriptor.defs)
  obtain wq' ar' \<sigma>' where w: "descriptor_write_direct dynstr_arena writev (t_heap s) (t_strs s) ?d (Some p) =
      Some (?d\<lparr>wqueue := wq'\<rparr>, [Post_Line_Write (int (length (concat ts @ ended t))) 0], ar', \<sigma>')"
    "queue_at ar' (L - insert p (set ps)) \<sigma>' wq' [] []"
    using write_delivers[of "t_heap s" L "t_strs s" ?d ps ts p x t writev] assms(5,6,8-15) tr by auto
  let ?e = "d\<lparr>wqueue := wq', size_state := Some (n + int (length (concat ts @ ended t)))\<rparr>"
  let ?s = "s\<lparr>t_heap := ar', t_strs := \<sigma>', t_descs := (t_descs s)(i \<mapsto> ?e)\<rparr>"
  have "to_int32 (n + int (length (concat ts @ ended t))) = n + int (length (concat ts @ ended t))"
    using assms(16-18) by (intro to_int32_id) linarith+
  then have "write_symbol dynstr_arena S writev s symbol p = Some ?s" using assms(2-4,7,16) w(1)
    by (simp add: write_symbol_def write_direct_def rotlog_post_line_write_def Let_def)
  moreover have "table_ok ?s" by (rule table_ok_update[OF assms(1,3)]) simp_all
  ultimately show ?thesis using w(2) by auto
qed

theorem log_write_counts_witness:
  "\<exists>ar x s' d'. write_symbol dynstr_arena sys0 (\<lambda>v. Written (int (length v)))
       ((table1_listed ar log_origin (a_desc DSTATE_ACTIVE D_ROTLOG))\<lparr>t_strs := [ptr x \<mapsto> x], t_symbols := [''S'' \<mapsto> 0]\<rparr>) ''S'' (ptr x) = Some s'
     \<and> t_descs s' 0 = Some d' \<and> size_state d' = Some 3"
proof -
  obtain ar L x y where x: "dyn_at ar L x ''hi''" using two_strings_exist[of "''hi''" "[]"] by auto
  let ?d = "a_desc DSTATE_ACTIVE D_ROTLOG"
  let ?s = "(table1_listed ar log_origin ?d)\<lparr>t_strs := [ptr x \<mapsto> x], t_symbols := [''S'' \<mapsto> 0]\<rparr>"
  have act: "active_ids ?s = {0}" by (auto simp: active_ids_def table1_listed_def table1_def table0_def a_desc_def)
  have "table_ok ?s" unfolding table_ok_def act using table1_listed_rep[of ar log_origin ?d]
    by (auto simp: table1_listed_def table1_def table0_def a_desc_def dyn_text_def buf_get_def intro!: exI[of _ "[0]"] split: if_splits)
  moreover have "t_symbols ?s ''S'' = Some 0" "t_descs ?s 0 = Some ?d" "d_type ?d = D_ROTLOG" "d_state ?d = DSTATE_ACTIVE" "post_line_write ?d"
    "size_state ?d = Some 0" "queue_at (t_heap ?s) L (t_strs ?s) (wqueue ?d) [] []" "\<forall>t \<in> set []. t \<noteq> []" "length [] < DLOG_WRITE_HIGH_WM"
    "t_strs ?s (ptr x) = Some x" "ptr x = ptr x" "dyn_at (t_heap ?s) L x ''hi''" "ptr x \<notin> set []"
    using x da.own_inv[OF x] wq_new_holds
    by (simp_all add: table1_listed_def table1_def table0_def a_desc_def queue_in_def lines_in_def DLOG_WRITE_HIGH_WM_def)
  moreover have "0 + int (length (concat [] @ ended ''hi'')) < or_size (t_origins ?s (d_origin ?d))" "length (ended ''hi'') = 3"
    "(0::int) \<le> 0" "or_size (t_origins ?s (d_origin ?d)) < 2 ^ 31"
    by (simp_all add: ended_def table1_listed_def table1_def table0_def log_origin_def)
  ultimately show ?thesis using log_write_counts[of ?s "''S''" 0 ?d 0 L "[]" "[]" "ptr x" x "''hi''" "\<lambda>v. Written (int (length v))" sys0]
    by fastforce
qed

section \<open>From a modified file to its lines\<close>

lemma bind_run_nil [simp]: "m \<bind> run_calls A S i ty [] = m"
  by (cases m) auto

text \<open>The calls that a read asks for at the end of its input are what the end of \<^verbatim>\<open>descriptor_read\<close> does to the table.\<close>

lemma read_calls_eof:
  assumes "t_descs s i = Some d"
  shows "run_calls A S i (d_type d) (read_calls (descriptor.truncate d) 0 False) s = read_eof A S s i"
proof -
  have tr: "d_state (descriptor.truncate d) = d_state d" "d_type (descriptor.truncate d) = d_type d" "fd (descriptor.truncate d) = fd d"
    by (simp_all add: descriptor.defs)
  have fl: "DOPEN_SEEKSTART + DOPEN_KEEP_BUFFERS = (DOPEN_SEEKSTART OR DOPEN_KEEP_BUFFERS)"
    by (simp add: DOPEN_SEEKSTART_def DOPEN_KEEP_BUFFERS_def)
  have o: "t_descs s' i \<bind> (\<lambda>e. map_option snd (open_descriptor A S s' (d_origin e) (Some i) False fl)) =
      map_option snd (open_descriptor A S s' (d_origin d) (Some i) False fl)"
    if "reset_descriptor s0 i = Some s'" "t_descs s0 i = Some d" for s0 s' fl
    using that by (auto simp: reset_descriptor_def bind_Some_iff)
  show ?thesis
  proof (cases "desc_pending_remove (fd d) (t_pending s)")
    case None
    then show ?thesis using assms by (simp add: read_calls_def read_eof_def tr)
  next
    case (Some p)
    let ?s = "s\<lparr>t_pending := p\<rparr>"
    have s: "t_descs ?s i = Some d" using assms by simp
    show ?thesis
    proof (cases "reset_descriptor ?s i")
      case None
      then show ?thesis using assms Some by (simp add: read_calls_def read_eof_def tr fl Let_def)
    next
      case (Some s')
      from o[OF Some s] Some assms \<open>desc_pending_remove _ _ = _\<close> show ?thesis by (simp add: read_calls_def read_eof_def tr fl Let_def)
    qed
  qed
qed

lemma table_ok_pending [simp]: "table_ok (s\<lparr>t_pending := p\<rparr>) = table_ok s"
  by (simp add: table_ok_def active_ids_def)

text \<open>What reading an active descriptor makes of the pending reads.\<close>

definition pend_read :: "int \<Rightarrow> nat \<Rightarrow> int \<Rightarrow> bool \<Rightarrow> pending \<Rightarrow> pending option" where
  "pend_read n i ret again p =
     (if again then Some (desc_pending_add n i p) else if ret = 0 then desc_pending_remove n p else Some p)"

lemma pull_again: "pull read rs k mc = (data, ret, True, k') \<Longrightarrow> 0 < ret"
proof (induction read rs k mc arbitrary: data rule: pull.induct)
  case (1 read rs k mc)
  obtain res k1 where rd: "read k rs = (res, k1)" by fastforce
  show ?case
  proof (cases "res = Read_Error \<or> res = Read_Bytes []")
    case True
    with 1(2) rd show ?thesis by (auto simp: pull.simps[of read rs k mc])
  next
    case False
    then obtain bs where bs: "res = Read_Bytes bs" "bs \<noteq> []" by (cases res) auto
    show ?thesis
    proof (cases "mc - int (length bs) \<le> 0")
      case True
      with rd bs 1(2) show ?thesis by (auto simp: pull.simps[of read rs k])
    next
      case mc: False
      obtain data1 where "pull read rs k1 (mc - int (length bs)) = (data1, ret, True, k')"
        using 1(2) rd bs mc by (auto simp: pull.simps[of read rs k] split: prod.splits)
      from 1(1)[OF rd[symmetric] bs mc this] show ?thesis .
    qed
  qed
qed

lemma run_read_calls:
  assumes "d_state d = DSTATE_ACTIVE" and "again \<Longrightarrow> ret \<noteq> 0" and "pend_read (fd d) i ret again (t_pending s) = Some p"
  shows "run_calls A S i ty (read_calls (descriptor.truncate d) ret again) s = Some (s\<lparr>t_pending := p\<rparr>)"
proof -
  have tr: "fd (descriptor.truncate d) = fd d" "d_state (descriptor.truncate d) = DSTATE_ACTIVE" using assms(1) by (simp_all add: descriptor.defs)
  show ?thesis using assms(2,3) by (cases s) (auto simp: read_calls_def tr pend_read_def split: if_splits)
qed

text \<open>Reading an active file through the table.\<close>

lemma read_table_runs:
  assumes d: "t_descs s i = Some d" "d_state d = DSTATE_ACTIVE" "\<not> pre_read d" "fd d > 0"
    and r: "reader_at (t_heap s) L (reader d) c t" and b: "read_bounded (o_read X)"
    and p: "pull (o_read X) DLOG_READ_BUF_SZ k (DYNSTR_USABLE_SIZE DLOG_READ_MAX_CHUNK) = (data, ret, again, k')"
    and c: "cut_lines c (t @ data) = (ls, u)" and e: "eval_lines (o_eval X) (map nul_cut ls) x = Some x'"
    and pd: "pend_read (fd d) i ret again (t_pending s) = Some pd"
  shows "\<exists>ar' lr. read_table dynstr_arena X i 0 (s, k, x) =
       Some (s\<lparr>t_heap := ar', t_descs := (t_descs s)(i \<mapsto> d\<lparr>reader := lr\<rparr>), t_pending := pd\<rparr>, k', x')
     \<and> reader_at ar' (insert (ptr (buf lr)) (L - {ptr (buf (reader d))})) lr (length u) u"
proof -
  let ?d = "descriptor.truncate d"
  have tr: "reader ?d = reader d" "fd ?d = fd d" by (simp_all add: descriptor.defs)
  have again: "ret \<noteq> 0" if again using that p pull_again[of "o_read X" DLOG_READ_BUF_SZ k _ data ret k'] by auto
  obtain lr ar' where q: "descriptor_read dynstr_arena (o_read X) None (o_eval X) (t_heap s) ?d 0 k x =
      Some (?d\<lparr>reader := lr\<rparr>, read_calls ?d ret again, ar', k', x')"
    "reader_at ar' (insert (ptr (buf lr)) (L - {ptr (buf (reader d))})) lr (length u) u"
    using descriptor_read_calls[of "t_heap s" L ?d c t "o_read X" 0 k data ret again k' ls u "o_eval X" x x'] r b d(4) p c e tr by auto
  let ?s = "s\<lparr>t_heap := ar', t_descs := (t_descs s)(i \<mapsto> d\<lparr>reader := lr\<rparr>)\<rparr>"
  have "run_calls dynstr_arena (o_sys X i) i (d_type d) (read_calls ?d ret again) ?s = Some (?s\<lparr>t_pending := pd\<rparr>)"
    using pd again by (intro run_read_calls[OF d(2)]) auto
  then show ?thesis using d(1,3) q by (auto simp: read_table_def)
qed

text \<open>When inotify reports that a watched file was modified, one turn of the main loop reads the file and evaluates exactly
  the lines that are then complete, in order; the rest stays in the descriptor's buffer, and the table stays consistent.\<close>

theorem modified_file_evaluated:
  assumes "table_ok (l_table l)" and "t_descs (l_table l) i = Some d" and "d_state d = DSTATE_ACTIVE" and "\<not> pre_read d" and "fd d > 0"
    and "reader_at (t_heap (l_table l)) L (reader d) c t" and "read_bounded (o_read X)"
    and "pull (o_read X) DLOG_READ_BUF_SZ (l_kernel l) (DYNSTR_USABLE_SIZE DLOG_READ_MAX_CHUNK) = (data, ret, again, k')"
    and "eval_lines (o_eval X) (map nul_cut (fst (cut_lines c (t @ data)))) (l_eval l) = Some x'"
    and "find_dir (dirwatchers (l_watch l)) (ev_wd ev) = None" and "find_watched_file (filewatchers (l_watch l)) (ev_wd ev) = Some f"
    and "fw_d f = i" and "ev_mask ev = IN_MODIFY" and "ret = 0 \<longrightarrow> pend_removable (fd d) (t_pending (l_table l))"
  shows "\<exists>l' d'. main_turn dynstr_arena X [Evt_Vnode [Events [ev]]] l = Some l' \<and> l_eval l' = x' \<and> l_kernel l' = k' \<and> table_ok (l_table l')
     \<and> t_descs (l_table l') i = Some d' \<and> d_state d' = DSTATE_ACTIVE
     \<and> dyn_rep (buf (reader d')) (snd (cut_lines c (t @ data)))"
proof -
  obtain ls u where c: "cut_lines c (t @ data) = (ls, u)" by fastforce
  have v: "evt_process_vnode dynstr_arena (o_notify X) (o_sys X) [Events [ev]] (l_table l) (l_watch l) = Some (l_table l, l_watch l, [i])"
    using modify_events[of "[ev]" "l_watch l" "\<lambda>_. f" "[]" dynstr_arena "o_notify X" "o_sys X" "l_table l"] assms(10-13)
    by (simp add: evt_process_vnode_def DLOG_MAX_FILES_def)
  obtain pd where pd: "pend_read (fd d) i ret again (t_pending (l_table l)) = Some pd"
    using assms(14) removable_some by (cases again; cases "ret = 0") (auto simp: pend_read_def)
  obtain ar' lr where r: "read_table dynstr_arena X i 0 (l_table l, l_kernel l, l_eval l) =
      Some ((l_table l)\<lparr>t_heap := ar', t_descs := (t_descs (l_table l))(i \<mapsto> d\<lparr>reader := lr\<rparr>), t_pending := pd\<rparr>, k', x')"
    "reader_at ar' (insert (ptr (buf lr)) (L - {ptr (buf (reader d))})) lr (length u) u"
    using read_table_runs[OF assms(2-8) c, of "l_eval l" x' pd] assms(9) c pd by auto
  let ?s = "(l_table l)\<lparr>t_heap := ar', t_descs := (t_descs (l_table l))(i \<mapsto> d\<lparr>reader := lr\<rparr>)\<rparr>"
  have "table_ok ?s" using table_ok_update[OF assms(1,2), where d' = "d\<lparr>reader := lr\<rparr>" and h = ar' and \<sigma> = "t_strs (l_table l)"] by simp
  moreover have "main_turn dynstr_arena X [Evt_Vnode [Events [ev]]] l =
      Some (l\<lparr>read_files := [i], l_table := ?s\<lparr>t_pending := pd\<rparr>, l_watch := l_watch l, l_kernel := k', l_eval := x'\<rparr>)"
    using v r(1) assms(2,3) by (cases l) (simp add: main_turn_def)
  ultimately show ?thesis using r(2) assms(3) by (auto simp: c reader_in_def str_in_def)
qed

definition outside0 :: "(read_result list, string list) outside" where
  "outside0 = \<lparr>o_read = scripted, o_eval = (\<lambda>t s. Some (s @ [t])), o_sys = (\<lambda>_. sys0), o_client = (\<lambda>_. sys0), o_accepts = [], o_sk = 0, o_notify = notify0\<rparr>"

theorem modified_file_evaluated_witness:
  "\<exists>ar r l'. main_turn dynstr_arena outside0 [Evt_Vnode [Events [\<lparr>ev_wd = 2, ev_mask = 2, ev_name = []\<rparr>]]]
       \<lparr>l_table = table1_listed ar (log_origin\<lparr>or_type := D_FILER\<rparr>) ((a_desc DSTATE_ACTIVE D_FILER)\<lparr>reader := r\<rparr>),
        l_watch = \<lparr>dirwatchers = [], filewatchers = [\<lparr>fw_wd = 2, link_count = 1, fw_d = 0, fw_basename = ''/log''\<rparr>]\<rparr>,
        l_kernel = [Read_Bytes (''b'' @ [NL] @ ''c''), Read_Error], l_eval = [], read_files = []\<rparr> = Some l'
     \<and> l_eval l' = [''ab'' @ [NL]]"
proof -
  obtain ar L r where r: "reader_at ar L r 0 ''a''" using reader_exists[of "''a''" 0] by auto
  let ?d = "(a_desc DSTATE_ACTIVE D_FILER)\<lparr>reader := r\<rparr>"
  let ?s = "table1_listed ar (log_origin\<lparr>or_type := D_FILER\<rparr>) ?d"
  let ?f = "\<lparr>fw_wd = 2, link_count = 1, fw_d = 0, fw_basename = ''/log''\<rparr>"
  let ?l = "\<lparr>l_table = ?s, l_watch = \<lparr>dirwatchers = [], filewatchers = [?f]\<rparr>, l_kernel = [Read_Bytes (''b'' @ [NL] @ ''c''), Read_Error],
    l_eval = [], read_files = []\<rparr>"
  have act: "active_ids ?s = {0}" by (auto simp: active_ids_def table1_listed_def table1_def table0_def a_desc_def)
  have "table_ok ?s" unfolding table_ok_def act using table1_listed_rep[of ar "log_origin\<lparr>or_type := D_FILER\<rparr>" ?d]
    by (auto simp: table1_listed_def table1_def table0_def intro!: exI[of _ "[0]"] split: if_splits)
  then have "table_ok (l_table ?l)" by simp
  moreover have "t_descs (l_table ?l) 0 = Some ?d" "d_state ?d = DSTATE_ACTIVE" "\<not> pre_read ?d" "fd ?d > 0"
    "reader_at (t_heap (l_table ?l)) L (reader ?d) 0 ''a''" "read_bounded (o_read outside0)"
    using r scripted_bounded by (simp_all add: table1_listed_def table1_def table0_def a_desc_def outside0_def)
  moreover have "pull (o_read outside0) DLOG_READ_BUF_SZ (l_kernel ?l) (DYNSTR_USABLE_SIZE DLOG_READ_MAX_CHUNK) = (''b'' @ [NL] @ ''c'', - 1, False, [])"
    using pull_scripted[of "''b'' @ [NL] @ ''c''" DLOG_READ_BUF_SZ "DYNSTR_USABLE_SIZE DLOG_READ_MAX_CHUNK" "[]"] usable_chunk
    by (simp add: outside0_def DLOG_READ_BUF_SZ_def)
  moreover have "cut_lines 0 (''a'' @ ''b'' @ [NL] @ ''c'') = ([''ab'' @ [NL]], ''c'')" "nul_cut (''ab'' @ [NL]) = ''ab'' @ [NL]" by code_simp+
  then have "eval_lines (o_eval outside0) (map nul_cut (fst (cut_lines 0 (''a'' @ ''b'' @ [NL] @ ''c'')))) (l_eval ?l) = Some [''ab'' @ [NL]]"
    by (simp add: outside0_def)
  ultimately show ?thesis
    using modified_file_evaluated[where l = ?l and i = 0 and d = ?d and L = L and c = 0 and t = "''a''" and X = outside0 and f = ?f
        and ev = "\<lparr>ev_wd = 2, ev_mask = 2, ev_name = []\<rparr>"] by (fastforce simp: IN_MODIFY_def)
qed

end
