(* ===== verification/Patterns.thy ===== *)
theory Patterns
  imports Prelude
begin

text \<open>
  The Lua-style pattern matcher of \<^verbatim>\<open>patterns.c\<close>. A pointer into the pattern is the suffix it points to (so
  \<^verbatim>\<open>p_end\<close> is the empty list and \<^verbatim>\<open>p < q\<close> compares lengths); a pointer into the subject is an index. The
  backtracking functions take the matcher of the rest of the pattern as an argument, which ties the mutual
  recursion of the C functions to one recursion on the pattern. The subject and the pattern are C strings.
\<close>

section \<open>Data\<close>

definition CAP_UNFINISHED :: int where "CAP_UNFINISHED = - 1"
definition CAP_POSITION :: int where "CAP_POSITION = - 2"
definition MAXCAPTURES :: nat where "MAXCAPTURES = 32"
definition MAXCCALLS :: int where "MAXCCALLS = 200"
definition MAXREPETITION :: int where "MAXREPETITION = 0xfffff"
definition SPECIALS :: string where "SPECIALS = ''^$*+?.([%-''"

abbreviation L_ESC :: char where "L_ESC \<equiv> CHR ''%''"

type_synonym capt = "nat \<times> int" \<comment> \<open>start and length\<close>

record match_state =
  matchdepth :: int
  repetitioncounter :: int
  maxcaptures :: int
  error :: "string option"
  level :: nat
  capture :: "capt list"

text \<open>The character at a pointer into a C string.\<close>

fun peek :: "string \<Rightarrow> char" where
  "peek [] = NUL"
| "peek (c # _) = c"

definition uchar :: "char \<Rightarrow> nat" where "uchar c = of_char c"

section \<open>Character classes of the C locale\<close>

definition isdigit :: "nat \<Rightarrow> bool" where "isdigit c \<longleftrightarrow> 48 \<le> c \<and> c \<le> 57"
definition isupper :: "nat \<Rightarrow> bool" where "isupper c \<longleftrightarrow> 65 \<le> c \<and> c \<le> 90"
definition islower :: "nat \<Rightarrow> bool" where "islower c \<longleftrightarrow> 97 \<le> c \<and> c \<le> 122"
definition isalpha :: "nat \<Rightarrow> bool" where "isalpha c \<longleftrightarrow> isupper c \<or> islower c"
definition isalnum :: "nat \<Rightarrow> bool" where "isalnum c \<longleftrightarrow> isalpha c \<or> isdigit c"
definition isxdigit :: "nat \<Rightarrow> bool" where
  "isxdigit c \<longleftrightarrow> isdigit c \<or> 65 \<le> c \<and> c \<le> 70 \<or> 97 \<le> c \<and> c \<le> 102"
definition isspace :: "nat \<Rightarrow> bool" where "isspace c \<longleftrightarrow> c = 32 \<or> 9 \<le> c \<and> c \<le> 13"
definition iscntrl :: "nat \<Rightarrow> bool" where "iscntrl c \<longleftrightarrow> c < 32 \<or> c = 127"
definition isgraph :: "nat \<Rightarrow> bool" where "isgraph c \<longleftrightarrow> 33 \<le> c \<and> c \<le> 126"
definition ispunct :: "nat \<Rightarrow> bool" where "ispunct c \<longleftrightarrow> isgraph c \<and> \<not> isalnum c"
definition tolower :: "nat \<Rightarrow> nat" where "tolower c = (if isupper c then c + 32 else c)"

lemmas ctype_defs = isdigit_def isupper_def islower_def isalpha_def isalnum_def isxdigit_def
  isspace_def iscntrl_def isgraph_def ispunct_def tolower_def

section \<open>Errors, captures and classes\<close>

definition match_error :: "match_state \<Rightarrow> string \<Rightarrow> match_state" where
  "match_error ms err = ms\<lparr>error := (case error ms of None \<Rightarrow> Some err | Some e \<Rightarrow> Some e)\<rparr>"

text \<open>\<open>None\<close> stands for the returned \<open>-1\<close>.\<close>

definition check_capture :: "match_state \<Rightarrow> nat \<Rightarrow> match_state \<times> nat option" where
  "check_capture ms l =
     (if l < uchar (CHR ''1'') \<or> level ms \<le> l - uchar (CHR ''1'')
         \<or> snd (capture ms ! (l - uchar (CHR ''1''))) = CAP_UNFINISHED
      then (match_error ms ''invalid capture index'', None)
      else (ms, Some (l - uchar (CHR ''1''))))"

fun last_unfinished :: "capt list \<Rightarrow> nat \<Rightarrow> nat option" where
  "last_unfinished cs 0 = None"
| "last_unfinished cs (Suc l) = (if snd (cs ! l) = CAP_UNFINISHED then Some l else last_unfinished cs l)"

definition capture_to_close :: "match_state \<Rightarrow> match_state \<times> nat option" where
  "capture_to_close ms =
     (case last_unfinished (capture ms) (level ms) of
        Some l \<Rightarrow> (ms, Some l)
      | None \<Rightarrow> (match_error ms ''invalid pattern capture'', None))"

text \<open>The loop of \<^verbatim>\<open>classend\<close> that looks for the closing bracket; \<open>None\<close> when the pattern ends first.\<close>

fun bracket_end :: "string \<Rightarrow> string option" where
  "bracket_end [] = None"
| "bracket_end (c # p) =
     (let q = (if c = L_ESC \<and> p \<noteq> [] then tl p else p)
      in if peek q = CHR '']'' then Some (tl q) else bracket_end q)"

text \<open>After an error the returned pointer is not used: it is then the end of the pattern.\<close>

definition classend :: "match_state \<Rightarrow> string \<Rightarrow> match_state \<times> string" where
  "classend ms p =
     (case p of
        [] \<Rightarrow> (ms, [])
      | c # p \<Rightarrow>
          if c = L_ESC then
            (if p = [] then (match_error ms ''malformed pattern (ends with '%')'', []) else (ms, tl p))
          else if c = CHR ''['' then
            (case bracket_end (if peek p = CHR ''^'' then tl p else p) of
               None \<Rightarrow> (match_error ms ''malformed pattern (missing ']')'', [])
             | Some ep \<Rightarrow> (ms, ep))
          else (ms, p))"

definition match_class :: "nat \<Rightarrow> nat \<Rightarrow> bool" where
  "match_class c cl =
     (let k = tolower cl; neg = (\<lambda>res. if islower cl then res else \<not> res) in
      if k = uchar (CHR ''a'') then neg (isalpha c)
      else if k = uchar (CHR ''c'') then neg (iscntrl c)
      else if k = uchar (CHR ''d'') then neg (isdigit c)
      else if k = uchar (CHR ''g'') then neg (isgraph c)
      else if k = uchar (CHR ''l'') then neg (islower c)
      else if k = uchar (CHR ''p'') then neg (ispunct c)
      else if k = uchar (CHR ''s'') then neg (isspace c)
      else if k = uchar (CHR ''u'') then neg (isupper c)
      else if k = uchar (CHR ''w'') then neg (isalnum c)
      else if k = uchar (CHR ''x'') then neg (isxdigit c)
      else cl = c)"

text \<open>The loop of \<^verbatim>\<open>matchbracketclass\<close>, with \<open>p\<close> after its increment and \<open>n\<close> the distance from \<^verbatim>\<open>ec\<close> to the
  end of the pattern, so that \<^verbatim>\<open>p < ec\<close> is \<open>n < length p\<close>.\<close>

function bracket_has :: "nat \<Rightarrow> nat \<Rightarrow> string \<Rightarrow> bool" where
  "bracket_has c n p =
     (if length p \<le> n then False
      else if peek p = L_ESC then
        match_class c (uchar (peek (tl p))) \<or> bracket_has c n (drop 2 p)
      else if peek (tl p) = CHR ''-'' \<and> n < length (drop 2 p) then
        uchar (peek p) \<le> c \<and> c \<le> uchar (peek (drop 2 p)) \<or> bracket_has c n (drop 3 p)
      else uchar (peek p) = c \<or> bracket_has c n (tl p))"
  by pat_completeness auto

termination bracket_has
  by (relation "measure (\<lambda>(c, n, p). length p)") auto

declare bracket_has.simps [simp del]

definition matchbracketclass :: "nat \<Rightarrow> string \<Rightarrow> nat \<Rightarrow> bool" where
  "matchbracketclass c p n =
     (if peek (tl p) = CHR ''^'' then \<not> bracket_has c n (drop 2 p) else bracket_has c n (tl p))"

definition singlematch :: "string \<Rightarrow> nat \<Rightarrow> string \<Rightarrow> string \<Rightarrow> bool" where
  "singlematch src s p ep =
     (if length src \<le> s then False
      else let c = uchar (src ! s) in
        if peek p = CHR ''.'' then True
        else if peek p = L_ESC then match_class c (uchar (peek (tl p)))
        else if peek p = CHR ''['' then matchbracketclass c p (length ep + 1)
        else uchar (peek p) = c)"

text \<open>The loop of \<^verbatim>\<open>matchbalance\<close>, with \<open>s\<close> after its increment.\<close>

function balance_loop :: "string \<Rightarrow> char \<Rightarrow> char \<Rightarrow> nat \<Rightarrow> int \<Rightarrow> nat option" where
  "balance_loop src b e s cont =
     (if length src \<le> s then None
      else if src ! s = e then (if cont - 1 = 0 then Some (s + 1) else balance_loop src b e (s + 1) (cont - 1))
      else if src ! s = b then balance_loop src b e (s + 1) (cont + 1)
      else balance_loop src b e (s + 1) cont)"
  by pat_completeness auto

termination balance_loop
  by (relation "measure (\<lambda>(src, b, e, s, cont). length src - s)") auto

declare balance_loop.simps [simp del]

type_synonym match_result = "match_state \<times> nat option"

definition matchbalance :: "string \<Rightarrow> match_state \<Rightarrow> nat \<Rightarrow> string \<Rightarrow> match_result" where
  "matchbalance src ms s p =
     (if length p < 2 then (match_error ms ''malformed pattern (missing arguments to '%b')'', None)
      else if peek (drop s src) \<noteq> peek p then (ms, None)
      else (ms, balance_loop src (p ! 0) (p ! 1) (s + 1) 1))"

section \<open>Backtracking\<close>

text \<open>The number of times the item matches from \<open>s\<close> on.\<close>

function count_single :: "string \<Rightarrow> nat \<Rightarrow> string \<Rightarrow> string \<Rightarrow> nat" where
  "count_single src s p ep = (if singlematch src s p ep then Suc (count_single src (Suc s) p ep) else 0)"
  by pat_completeness auto

termination count_single
  by (relation "measure (\<lambda>(src, s, p, ep). length src - s)") (auto simp: singlematch_def split: if_splits)

declare count_single.simps [simp del]

fun try_down :: "(match_state \<Rightarrow> nat \<Rightarrow> match_result) \<Rightarrow> match_state \<Rightarrow> nat \<Rightarrow> nat \<Rightarrow> match_result" where
  "try_down m ms s i =
     (case m ms (s + i) of
        (ms', Some r) \<Rightarrow> (ms', Some r)
      | (ms', None) \<Rightarrow> (case i of 0 \<Rightarrow> (ms', None) | Suc j \<Rightarrow> try_down m ms' s j))"

declare try_down.simps [simp del]

definition max_expand ::
  "(match_state \<Rightarrow> nat \<Rightarrow> match_result) \<Rightarrow> string \<Rightarrow> match_state \<Rightarrow> nat \<Rightarrow> string \<Rightarrow> string \<Rightarrow> match_result" where
  "max_expand m src ms s p ep = try_down m ms s (count_single src s p ep)"

function min_expand ::
  "(match_state \<Rightarrow> nat \<Rightarrow> match_result) \<Rightarrow> string \<Rightarrow> match_state \<Rightarrow> nat \<Rightarrow> string \<Rightarrow> string \<Rightarrow> match_result" where
  "min_expand m src ms s p ep =
     (case m ms s of
        (ms', Some r) \<Rightarrow> (ms', Some r)
      | (ms', None) \<Rightarrow> if singlematch src s p ep then min_expand m src ms' (Suc s) p ep else (ms', None))"
  by pat_completeness auto

termination min_expand
  by (relation "measure (\<lambda>(m, src, ms, s, p, ep). length src - s)") (auto simp: singlematch_def split: if_splits)

declare min_expand.simps [simp del]

definition start_capture ::
  "(match_state \<Rightarrow> nat \<Rightarrow> match_result) \<Rightarrow> match_state \<Rightarrow> nat \<Rightarrow> int \<Rightarrow> match_result" where
  "start_capture m ms s what =
     (if maxcaptures ms \<le> int (level ms) then (match_error ms ''too many captures'', None)
      else case m (ms\<lparr>capture := (capture ms)[level ms := (s, what)], level := level ms + 1\<rparr>) s of
             (ms', None) \<Rightarrow> (ms'\<lparr>level := level ms' - 1\<rparr>, None)
           | (ms', Some r) \<Rightarrow> (ms', Some r))"

definition end_capture ::
  "(match_state \<Rightarrow> nat \<Rightarrow> match_result) \<Rightarrow> match_state \<Rightarrow> nat \<Rightarrow> match_result" where
  "end_capture m ms s =
     (case capture_to_close ms of
        (ms, None) \<Rightarrow> (ms, None)
      | (ms, Some l) \<Rightarrow>
          let init = fst (capture ms ! l) in
          (case m (ms\<lparr>capture := (capture ms)[l := (init, int s - int init)]\<rparr>) s of
             (ms', None) \<Rightarrow>
               (ms'\<lparr>capture := (capture ms')[l := (fst (capture ms' ! l), CAP_UNFINISHED)]\<rparr>, None)
           | (ms', Some r) \<Rightarrow> (ms', Some r)))"

text \<open>A negative length, as of a position capture, is an enormous \<^verbatim>\<open>size_t\<close>.\<close>

definition match_capture :: "string \<Rightarrow> match_state \<Rightarrow> nat \<Rightarrow> nat \<Rightarrow> match_result" where
  "match_capture src ms s l =
     (case check_capture ms l of
        (ms, None) \<Rightarrow> (ms, None)
      | (ms, Some l) \<Rightarrow>
          let (init, n) = capture ms ! l in
          if 0 \<le> n \<and> n \<le> int (length src) - int s \<and> take (nat n) (drop init src) = take (nat n) (drop s src)
          then (ms, Some (s + nat n)) else (ms, None))"

text \<open>Entry and exit of \<^verbatim>\<open>match\<close> around its body, the part from the label \<^verbatim>\<open>init\<close> on.\<close>

definition enter_match :: "(match_state \<Rightarrow> nat \<Rightarrow> match_result) \<Rightarrow> match_state \<Rightarrow> nat \<Rightarrow> match_result" where
  "enter_match body ms s =
     (let ms1 = ms\<lparr>matchdepth := matchdepth ms - 1\<rparr> in
      if matchdepth ms = 0 then (match_error ms1 ''pattern too complex'', None)
      else case body ms1 s of (ms2, r) \<Rightarrow> (ms2\<lparr>matchdepth := matchdepth ms2 + 1\<rparr>, r))"

lemma bracket_end_shorter: "bracket_end p = Some q \<Longrightarrow> length q < length p"
proof (induction p rule: bracket_end.induct)
  case (2 c p)
  let ?x = "if c = L_ESC \<and> p \<noteq> [] then tl p else p"
  show ?case
  proof (cases "peek ?x = CHR '']''")
    case True
    with 2(2) have "q = tl ?x" by (simp add: Let_def)
    then show ?thesis by (auto split: if_splits)
  next
    case False
    with 2(2) have "bracket_end ?x = Some q" by (simp add: Let_def split: if_splits)
    from 2(1)[OF refl False this] show ?thesis by (auto split: if_splits)
  qed
qed simp

lemma classend_shorter: "p \<noteq> [] \<Longrightarrow> length (snd (classend ms p)) < length p"
  by (auto simp: classend_def split: list.splits option.splits if_splits dest!: bracket_end_shorter)

text \<open>The body of \<^verbatim>\<open>match\<close>. The result \<open>Some s\<close> with an error recorded is what the code returns when it breaks
  out of the switch after an error.\<close>

function match_init :: "string \<Rightarrow> match_state \<Rightarrow> nat \<Rightarrow> string \<Rightarrow> match_result" where
  "match_init src ms s p =
     (if p = [] then (ms, Some s)
      else if peek p = CHR ''('' then
          (if peek (tl p) = CHR '')''
           then start_capture (enter_match (\<lambda>ms s. match_init src ms s (drop 2 p))) ms s CAP_POSITION
           else start_capture (enter_match (\<lambda>ms s. match_init src ms s (drop 1 p))) ms s CAP_UNFINISHED)
        else if peek p = CHR '')'' then
          end_capture (enter_match (\<lambda>ms s. match_init src ms s (drop 1 p))) ms s
        else if peek p = CHR ''$'' \<and> tl p = [] then
          (ms, if s = length src then Some s else None)
        else if peek p = L_ESC \<and> peek (tl p) = CHR ''b'' then
          (case matchbalance src ms s (drop 2 p) of
             (ms, None) \<Rightarrow> (ms, None)
           | (ms, Some s) \<Rightarrow> match_init src ms s (drop 4 p))
        else if peek p = L_ESC \<and> peek (tl p) = CHR ''f'' then
          (let p2 = drop 2 p in
           if peek p2 \<noteq> CHR ''['' then (match_error ms ''missing '[' after '%f' in pattern'', Some s)
           else
             (case classend ms p2 of (ms, ep) \<Rightarrow>
                if error ms \<noteq> None then (ms, Some s)
                else
                  let previous = (if s = 0 then NUL else src ! (s - 1)) in
                  if \<not> matchbracketclass (uchar previous) p2 (length ep + 1)
                     \<and> matchbracketclass (uchar (peek (drop s src))) p2 (length ep + 1)
                  then match_init src ms s ep
                  else (ms, None)))
        else if peek p = L_ESC \<and> isdigit (uchar (peek (tl p))) then
          (case match_capture src ms s (uchar (peek (tl p))) of
             (ms, None) \<Rightarrow> (ms, None)
           | (ms, Some s) \<Rightarrow> match_init src ms s (drop 2 p))
        else
        (case classend ms p of (ms, ep) \<Rightarrow>
           if error ms \<noteq> None then (ms, Some s)
           else if \<not> singlematch src s p ep then
             (if repetitioncounter ms = 0 then
                (match_error (ms\<lparr>repetitioncounter := repetitioncounter ms - 1\<rparr>) ''max repetition items'', None)
              else
                let ms = ms\<lparr>repetitioncounter := repetitioncounter ms - 1\<rparr> in
                if peek ep = CHR ''*'' \<or> peek ep = CHR ''?'' \<or> peek ep = CHR ''-''
                then match_init src ms s (tl ep)
                else (ms, None))
           else if peek ep = CHR ''?'' then
             (case enter_match (\<lambda>ms s. match_init src ms s (tl ep)) ms (s + 1) of
                (ms', Some r) \<Rightarrow> (ms', Some r)
              | (ms', None) \<Rightarrow> match_init src ms' s (tl ep))
           else if peek ep = CHR ''+'' then
             max_expand (enter_match (\<lambda>ms s. match_init src ms s (tl ep))) src ms (s + 1) p ep
           else if peek ep = CHR ''*'' then
             max_expand (enter_match (\<lambda>ms s. match_init src ms s (tl ep))) src ms s p ep
           else if peek ep = CHR ''-'' then
             min_expand (enter_match (\<lambda>ms s. match_init src ms s (tl ep))) src ms s p ep
           else match_init src ms (s + 1) ep))"
  by pat_completeness auto

lemma classend_after: "(ms', ep) = classend ms p \<Longrightarrow> p \<noteq> [] \<Longrightarrow> length ep < length p"
  by (metis classend_shorter snd_conv)

lemma classend_after_tl: "(ms', ep) = classend ms p \<Longrightarrow> p \<noteq> [] \<Longrightarrow> length ep - Suc 0 < length p"
  using classend_after[of ms' ep ms p] by linarith

lemma classend_bracket:
  "(ms', ep) = classend ms (drop 2 p) \<Longrightarrow> peek (drop 2 p) = CHR ''['' \<Longrightarrow> length ep < length p"
  using classend_after[of ms' ep ms "drop 2 p"] by (cases "drop 2 p = []") auto

termination match_init
  by (relation "measure (\<lambda>(src, ms, s, p). length p)")
    (auto dest: classend_after classend_after_tl classend_bracket)

declare match_init.simps [simp del]

definition match :: "string \<Rightarrow> match_state \<Rightarrow> nat \<Rightarrow> string \<Rightarrow> match_result" where
  "match src ms s p = enter_match (\<lambda>ms s. match_init src ms s p) ms s"

section \<open>Searching\<close>

text \<open>The loop of \<^verbatim>\<open>lmemfind\<close>: \<open>i\<close> is the offset of \<^verbatim>\<open>s1\<close> and \<open>l1\<close> the number of places still to try.\<close>

function lmem_loop :: "string \<Rightarrow> string \<Rightarrow> nat \<Rightarrow> nat \<Rightarrow> nat option" where
  "lmem_loop s1 s2 i l1 =
     (if l1 = 0 then None
      else case find_char (peek s2) (take l1 (drop i s1)) of
        None \<Rightarrow> None
      | Some k \<Rightarrow>
          if take (length s2 - 1) (drop (i + k + 1) s1) = tl s2 then Some (i + k)
          else lmem_loop s1 s2 (i + k + 1) (l1 - (k + 1)))"
  by pat_completeness auto

termination lmem_loop
  by (relation "measure (\<lambda>(s1, s2, i, l1). l1)") auto

declare lmem_loop.simps [simp del]

definition lmemfind :: "string \<Rightarrow> string \<Rightarrow> nat option" where
  "lmemfind s1 s2 =
     (if length s2 = 0 then Some 0
      else if length s1 < length s2 then None
      else lmem_loop s1 s2 0 (length s1 - (length s2 - 1)))"

text \<open>A span of the subject: its start and end offset.\<close>

type_synonym str_span = "int \<times> int"

definition push_onecapture :: "match_state \<Rightarrow> nat \<Rightarrow> nat \<Rightarrow> nat \<Rightarrow> match_state \<times> str_span option" where
  "push_onecapture ms i s e =
     (let clamp = (\<lambda>(so, eo). (so, if eo < so then so else eo)) in
      if level ms \<le> i then
        (if i = 0 \<or> level ms = 0 then (ms, Some (clamp (int s, (int e - int s) + int s)))
         else (match_error ms ''invalid capture index'', None))
      else
        let (init, l) = capture ms ! i in
        if l = CAP_UNFINISHED then (match_error ms ''unfinished capture'', None)
        else (ms, Some (clamp (int init, int init + l))))"

fun push_loop :: "match_state \<Rightarrow> nat \<Rightarrow> nat \<Rightarrow> nat \<Rightarrow> nat \<Rightarrow> str_span list \<Rightarrow> match_state \<times> str_span list" where
  "push_loop ms i 0 s e sm = (ms, sm)"
| "push_loop ms i (Suc n) s e sm =
     (case push_onecapture ms i s e of
        (ms', None) \<Rightarrow> (ms', sm)
      | (ms', Some x) \<Rightarrow> push_loop ms' (i + 1) n s e (sm[i := x]))"

definition push_captures ::
  "match_state \<Rightarrow> nat \<Rightarrow> nat \<Rightarrow> str_span list \<Rightarrow> nat \<times> match_state \<times> str_span list" where
  "push_captures ms s e sm =
     (let nlevels = min (if level ms = 0 then 1 else level ms) (length sm)
      in case push_loop ms 0 nlevels s e sm of (ms', sm') \<Rightarrow> (nlevels, ms', sm'))"

text \<open>A C string holds no NUL, so the loop over the parts between NULs runs once.\<close>

definition nospecials :: "string \<Rightarrow> bool" where
  "nospecials p \<longleftrightarrow> list_all (\<lambda>c. c \<notin> set SPECIALS) p"

text \<open>The search loop of \<^verbatim>\<open>str_find_aux\<close>; \<open>sm\<close> is the array of \<^verbatim>\<open>nsm\<close> spans, which must not be empty.\<close>

function find_from ::
  "string \<Rightarrow> match_state \<Rightarrow> nat \<Rightarrow> string \<Rightarrow> bool \<Rightarrow> str_span list \<Rightarrow> (int \<times> match_state \<times> str_span list) option" where
  "find_from src ms s1 p anchor sm =
     (case match src (ms\<lparr>level := 0\<rparr>) s1 p of
        (ms', Some res) \<Rightarrow>
          (case sm of
             [] \<Rightarrow> None
           | _ # sm1 \<Rightarrow>
               (case push_captures ms' s1 res sm1 of (n, ms'', sm2) \<Rightarrow>
                  Some (int n + 1, ms'', (0, int (length src)) # sm2)))
      | (ms', None) \<Rightarrow>
          if error ms' \<noteq> None then Some (0, ms', sm)
          else if s1 < length src \<and> \<not> anchor then find_from src ms' (s1 + 1) p anchor sm
          else Some (0, ms', sm))"
  by pat_completeness auto

termination find_from
  by (relation "measure (\<lambda>(src, ms, s1, p, anchor, sm). length src - s1)") auto

declare find_from.simps [simp del]

definition str_find_aux ::
  "match_state \<Rightarrow> string \<Rightarrow> string \<Rightarrow> str_span list \<Rightarrow> int \<Rightarrow> (int \<times> match_state \<times> str_span list) option" where
  "str_find_aux ms pattern string sm init =
     (let ls = length string; init = (if init < 0 then 0 else init); nsm = length sm in
      if init > int ls then Some (- 1, match_error ms ''starting after string's end'', sm)
      else if nospecials pattern then
        (case lmemfind (drop (nat init) string) pattern of
           None \<Rightarrow> Some (0, ms, sm)
         | Some k \<Rightarrow>
             if nsm = 0 then None
             else if 1 < nsm then
               Some (2, ms, sm[0 := (0, int ls), 1 := (init + int k, init + int k + int (length pattern))])
             else Some (1, ms, sm[0 := (0, int ls)]))
      else
        let anchor = (peek pattern = CHR ''^'');
            p = (if anchor then tl pattern else pattern);
            ms = ms\<lparr>maxcaptures := int (min nsm MAXCAPTURES) - 1, matchdepth := MAXCCALLS,
                     repetitioncounter := MAXREPETITION\<rparr>
        in find_from string ms (nat init) p anchor sm)"

definition zero_state :: match_state where
  "zero_state = \<lparr>matchdepth = 0, repetitioncounter = 0, maxcaptures = 0, error = None, level = 0,
     capture = replicate MAXCAPTURES (0, 0)\<rparr>"

definition str_find :: "string \<Rightarrow> string \<Rightarrow> nat \<Rightarrow> (int \<times> str_span list \<times> string option) option" where
  "str_find string pattern nsm =
     (case str_find_aux zero_state pattern string (replicate nsm (0, 0)) 0 of
        None \<Rightarrow> None
      | Some (ret, ms, sm) \<Rightarrow>
          if error ms \<noteq> None then Some (0, sm, error ms) else Some (ret, sm, None))"

text \<open>The matched strings, \<open>None\<close> for a null pointer. Allocation failure is not modelled.\<close>

type_synonym str_match = "string option list"

definition str_match :: "string \<Rightarrow> string \<Rightarrow> (int \<times> str_match \<times> string option) option" where
  "str_match string pattern =
     (case str_find_aux zero_state pattern string (replicate MAXCAPTURES (0, 0)) 0 of
        None \<Rightarrow> None
      | Some (ret, ms, sm) \<Rightarrow>
          if ret \<le> 0 \<or> error ms \<noteq> None then Some (- 1, [], error ms)
          else Some (0, map (\<lambda>(so, eo). if so > eo then None
                              else Some (take (nat (eo - so)) (drop (nat so) string)))
                            (take (nat ret) sm), None))"

definition str_match_free :: "str_match \<Rightarrow> str_match" where
  "str_match_free m = []"

end
