(* ===== verification/Strpartial.thy ===== *)
theory Strpartial
  imports Dynstr Patterns
begin

text \<open>
  Format strings of \<^verbatim>\<open>strpartial.c\<close>: a string is split into verbatim text and \<^verbatim>\<open>%{...}\<close> references. The
  strings of the list elements are their texts; the linked list is a list, and the null pointer that reports a syntax
  error is \<open>None\<close>.
\<close>

section \<open>Data\<close>

datatype strpartial =
    STR_INVALID
  | STR_VERBATIM string
  | STR_VAR string
  | STR_ENV string
  | STR_CAPTURE_GROUP int
  | STR_DATETIME
  | STR_FRACTSECOND
  | STR_DATETIMEFRACT
  | STR_SOURCE
  | STR_LOGLINE

section \<open>C library functions used here\<close>

text \<open>Decimal digits read by \<^verbatim>\<open>strtol\<close>: the value, clamped to the range of \<^verbatim>\<open>long\<close>, and the rest.\<close>

definition digit_val :: "char \<Rightarrow> int" where "digit_val c = int (uchar c) - 48"

fun dec_value :: "int \<Rightarrow> string \<Rightarrow> int" where
  "dec_value acc [] = acc"
| "dec_value acc (c # cs) = dec_value (10 * acc + digit_val c) cs"

definition LONG_MAX :: int where "LONG_MAX = 2 ^ 63 - 1"

definition strtol10 :: "string \<Rightarrow> int \<times> string" where
  "strtol10 s = (let ds = takeWhile (\<lambda>c. isdigit (uchar c)) s
     in (min LONG_MAX (dec_value 0 ds), drop (length ds) s))"

fun strstr :: "string \<Rightarrow> string \<Rightarrow> nat option" where
  "strstr [] t = (if t = [] then Some 0 else None)"
| "strstr (c # s) t = (if take (length t) (c # s) = t then Some 0 else map_option Suc (strstr s t))"

section \<open>Operations\<close>

text \<open>The list element is zeroed before the call, so that an empty symbol leaves it \<open>STR_INVALID\<close>.\<close>

definition strpartial_from_format :: "string \<Rightarrow> strpartial" where
  "strpartial_from_format nm =
     (if length nm > 0 then
        (if isdigit (uchar (peek nm)) then
           (case strtol10 nm of (num, endp) \<Rightarrow>
              if endp = [] then STR_CAPTURE_GROUP (to_int32 num) else STR_INVALID)
         else if length nm = 1 \<and> isalpha (uchar (peek nm)) then
           (if peek nm = CHR ''s'' then STR_SOURCE
            else if peek nm = CHR ''d'' then STR_DATETIME
            else if peek nm = CHR ''m'' then STR_LOGLINE
            else if peek nm = CHR ''t'' then STR_FRACTSECOND
            else if peek nm = CHR ''T'' then STR_DATETIMEFRACT
            else STR_INVALID)
         else if take 4 nm = ''env:'' then STR_ENV (drop 4 nm)
         else STR_VAR nm)
      else STR_INVALID)"

function split_loop :: "string \<Rightarrow> strpartial list option" where
  "split_loop left =
     (if left = [] then Some []
      else case strstr left ''%{'' of
        None \<Rightarrow> Some [STR_VERBATIM left]
      | Some k \<Rightarrow>
          (case find_char (CHR ''}'') (drop k left) of
             None \<Rightarrow> None
           | Some e \<Rightarrow>
               let cur = strpartial_from_format (take (e - 2) (drop (k + 2) left)) in
               if cur = STR_INVALID then None
               else map_option ((@) ((if 1 \<le> k then [STR_VERBATIM (take k left)] else []) @ [cur]))
                      (split_loop (drop (k + e + 1) left))))"
  by pat_completeness auto

termination split_loop
  by (relation "measure length") auto

declare split_loop.simps [simp del]

definition strpartial_split :: "string \<Rightarrow> strpartial list option" where
  "strpartial_split nm = (if length nm < 4 then Some [STR_VERBATIM nm] else split_loop nm)"

text \<open>The strings released, last element first; a null list is dereferenced.\<close>

fun raw_strings :: "strpartial \<Rightarrow> string list" where
  "raw_strings (STR_VERBATIM s) = [s]"
| "raw_strings (STR_VAR s) = [s]"
| "raw_strings (STR_ENV s) = [s]"
| "raw_strings _ = []"

fun strpartial_del :: "strpartial list \<Rightarrow> string list option" where
  "strpartial_del [] = None"
| "strpartial_del [p] = Some (raw_strings p)"
| "strpartial_del (p # q # ps) = map_option (\<lambda>rs. rs @ raw_strings p) (strpartial_del (q # ps))"

section \<open>Splitting and printing\<close>

text \<open>\<open>renders p w\<close>: the piece \<open>w\<close> of the source is what \<open>p\<close> stands for.\<close>

definition renders :: "strpartial \<Rightarrow> string \<Rightarrow> bool" where
  "renders p w \<longleftrightarrow> p = STR_VERBATIM w \<or>
     p \<noteq> STR_INVALID \<and> (\<exists>nm. CHR ''}'' \<notin> set nm \<and> w = ''%{'' @ nm @ ''}'' \<and> strpartial_from_format nm = p)"

lemma strstr_Some: "strstr s t = Some k \<Longrightarrow> take (length t) (drop k s) = t \<and> k + length t \<le> length s"
  by (induction s t arbitrary: k rule: strstr.induct) (auto split: if_splits dest: arg_cong[of _ _ length])

text \<open>One reference at the front, after the text \<open>u\<close>.\<close>

lemma split_loop_ref:
  assumes "strstr (u @ ''%{'' @ nm @ ''}'' @ v) ''%{'' = Some (length u)" and "CHR ''}'' \<notin> set nm"
  shows "split_loop (u @ ''%{'' @ nm @ ''}'' @ v) =
     (let cur = strpartial_from_format nm in
      if cur = STR_INVALID then None
      else map_option ((@) ((if u \<noteq> [] then [STR_VERBATIM u] else []) @ [cur])) (split_loop v))"
proof -
  have "find_char (CHR ''}'') (''%{'' @ nm @ ''}'' @ v) = Some (length nm + 2)"
    using find_char_append[OF assms(2), of v] by simp
  moreover have "drop (3 + length nm) (''%{'' @ nm @ ''}'' @ v) = v" by (simp add: numeral_3_eq_3)
  ultimately show ?thesis using assms(1) by (subst split_loop.simps) (auto simp: Let_def Suc_le_eq)
qed

lemma split_loop_text: "left \<noteq> [] \<Longrightarrow> strstr left ''%{'' = None \<Longrightarrow> split_loop left = Some [STR_VERBATIM left]"
  by (subst split_loop.simps) simp

lemma split_loop_Nil [simp]: "split_loop [] = Some []"
  by (subst split_loop.simps) simp

lemma split_loop_open:
  "left \<noteq> [] \<Longrightarrow> strstr left ''%{'' = Some k \<Longrightarrow> CHR ''}'' \<notin> set (drop k left) \<Longrightarrow> split_loop left = None"
  by (subst split_loop.simps) (simp add: find_char_None[THEN iffD2])

lemma strstr_cut:
  assumes "strstr left ''%{'' = Some k" and "CHR ''}'' \<in> set (drop k left)"
  obtains u nm v where "left = u @ ''%{'' @ nm @ ''}'' @ v" "length u = k" "CHR ''}'' \<notin> set nm"
proof -
  from strstr_Some[OF assms(1)] have k: "take 2 (drop k left) = ''%{''" "k + 2 \<le> length left"
    by (simp_all add: numeral_2_eq_2)
  let ?r = "drop 2 (drop k left)"
  have dk: "drop k left = ''%{'' @ ?r" using append_take_drop_id[of 2 "drop k left"] k(1) by simp
  have "set (drop k left) = set (''%{'' @ ?r)" using arg_cong[OF dk, of set] .
  then have "CHR ''}'' \<in> set ?r" using assms(2) by simp
  then obtain nm v where r: "?r = nm @ CHR ''}'' # v" "CHR ''}'' \<notin> set nm" using split_list_first by fastforce
  have "left = take k left @ ''%{'' @ nm @ ''}'' @ v" using dk r(1) append_take_drop_id[of k left] by simp
  with that[of "take k left" nm v] r(2) k(2) show ?thesis by simp
qed

text \<open>A successful split cuts the source into pieces, in order, and each element stands for its piece.\<close>

lemma split_loop_renders:
  "split_loop left = Some ps \<Longrightarrow> \<exists>ws. concat ws = left \<and> list_all2 renders ps ws"
proof (induction "length left" arbitrary: left ps rule: less_induct)
  case less
  show ?case
  proof (cases "left = [] \<or> strstr left ''%{'' = None")
    case True
    with less.prems have "left = [] \<and> ps = [] \<or> ps = [STR_VERBATIM left]"
      using split_loop_text[of left] by (cases "left = []") auto
    then show ?thesis by (auto simp: renders_def intro: exI[of _ "[left]"])
  next
    case False
    then obtain k where k: "strstr left ''%{'' = Some k" and ne: "left \<noteq> []" by auto
    then have "CHR ''}'' \<in> set (drop k left)" using split_loop_open less.prems by fastforce
    then obtain u nm v where l: "left = u @ ''%{'' @ nm @ ''}'' @ v" "length u = k" "CHR ''}'' \<notin> set nm"
      using strstr_cut[OF k] by blast
    let ?cur = "strpartial_from_format nm"
    have run: "split_loop left = (let cur = ?cur in if cur = STR_INVALID then None
        else map_option ((@) ((if u \<noteq> [] then [STR_VERBATIM u] else []) @ [cur])) (split_loop v))"
      using split_loop_ref[of u nm v] k l by simp
    then obtain qs where qs: "split_loop v = Some qs" "?cur \<noteq> STR_INVALID"
      "ps = (if u \<noteq> [] then [STR_VERBATIM u] else []) @ ?cur # qs"
      using less.prems by (cases "split_loop v") (auto simp: Let_def split: if_splits)
    from less.hyps[OF _ qs(1)] l obtain ws where ws: "concat ws = v" "list_all2 renders qs ws" by auto
    have "renders ?cur (''%{'' @ nm @ ''}'')" using qs(2) l(3) by (auto simp: renders_def)
    with qs(3) ws l(1) show ?thesis
      by (intro exI[of _ "(if u \<noteq> [] then [u] else []) @ (''%{'' @ nm @ ''}'') # ws"]) (auto simp: renders_def)
  qed
qed

text \<open>Printing, and the lists that printing can reproduce.\<close>

fun ref_name :: "strpartial \<Rightarrow> string" where
  "ref_name (STR_VAR v) = v"
| "ref_name (STR_ENV v) = ''env:'' @ v"
| "ref_name (STR_CAPTURE_GROUP n) = dec_of_int n"
| "ref_name STR_SOURCE = ''s''"
| "ref_name STR_DATETIME = ''d''"
| "ref_name STR_LOGLINE = ''m''"
| "ref_name STR_FRACTSECOND = ''t''"
| "ref_name STR_DATETIMEFRACT = ''T''"
| "ref_name _ = []"

fun is_verbatim :: "strpartial \<Rightarrow> bool" where
  "is_verbatim (STR_VERBATIM w) = True"
| "is_verbatim _ = False"

fun show_partial :: "strpartial \<Rightarrow> string" where
  "show_partial (STR_VERBATIM w) = w"
| "show_partial p = ''%{'' @ ref_name p @ ''}''"

fun wf_partial :: "strpartial \<Rightarrow> bool" where
  "wf_partial STR_INVALID = False"
| "wf_partial (STR_VERBATIM w) = (w \<noteq> [] \<and> strstr w ''%{'' = None)"
| "wf_partial (STR_VAR v) = (v \<noteq> [] \<and> CHR ''}'' \<notin> set v \<and> \<not> isdigit (uchar (peek v))
     \<and> \<not> (length v = 1 \<and> isalpha (uchar (peek v))) \<and> take 4 v \<noteq> ''env:'')"
| "wf_partial (STR_ENV v) = (CHR ''}'' \<notin> set v)"
| "wf_partial (STR_CAPTURE_GROUP n) = (0 \<le> n \<and> n < 2 ^ 31)"
| "wf_partial _ = True"

fun wf_partials :: "strpartial list \<Rightarrow> bool" where
  "wf_partials [] = True"
| "wf_partials [p] = wf_partial p"
| "wf_partials (p # q # ps) = (wf_partial p \<and> \<not> (is_verbatim p \<and> is_verbatim q) \<and> wf_partials (q # ps))"

lemma uchar_of: "n < 256 \<Longrightarrow> uchar (char_of n) = n"
  by (simp add: uchar_def)

lemma dec_value_append: "dec_value acc (xs @ ys) = dec_value (dec_value acc xs) ys"
  by (induction xs arbitrary: acc) auto

lemma dec_of_nat_digits: "c \<in> set (dec_of_nat n) \<Longrightarrow> isdigit (uchar c)"
  by (induction n rule: dec_of_nat.induct)
    (subst (asm) (2) dec_of_nat.simps, auto simp: uchar_of isdigit_def split: if_splits)

lemma dec_of_nat_value: "dec_value 0 (dec_of_nat n) = int n"
proof (induction n rule: dec_of_nat.induct)
  case (1 n)
  show ?case
  proof (cases "n < 10")
    case True
    then show ?thesis by (subst dec_of_nat.simps) (simp add: digit_val_def uchar_of)
  next
    case False
    with 1 show ?thesis
      by (subst dec_of_nat.simps) (simp add: dec_value_append digit_val_def uchar_of, presburger)
  qed
qed

lemma dec_of_nat_ne: "dec_of_nat n \<noteq> []"
  by (subst dec_of_nat.simps) simp

lemma strtol10_dec: "int n < 2 ^ 31 \<Longrightarrow> strtol10 (dec_of_nat n) = (int n, [])"
  using dec_of_nat_digits[of _ n]
  by (simp add: strtol10_def takeWhile_eq_all_conv[THEN iffD2] dec_of_nat_value LONG_MAX_def Let_def)

lemma from_format_name:
  assumes "wf_partial p" and "\<not> is_verbatim p"
  shows "strpartial_from_format (ref_name p) = p \<and> CHR ''}'' \<notin> set (ref_name p) \<and> p \<noteq> STR_INVALID"
proof (cases p)
  case (STR_CAPTURE_GROUP n)
  with assms have n: "0 \<le> n" "n < 2 ^ 31" by auto
  then have dn: "dec_of_int n = dec_of_nat (nat n)" by (simp add: dec_of_int_def)
  have d: "isdigit (uchar (peek (dec_of_nat (nat n))))"
    using dec_of_nat_digits[of "peek (dec_of_nat (nat n))" "nat n"] dec_of_nat_ne[of "nat n"]
    by (cases "dec_of_nat (nat n)") auto
  have b: "CHR ''}'' \<notin> set (dec_of_nat (nat n))"
    using dec_of_nat_digits[of "CHR ''}''" "nat n"] by (auto simp: isdigit_def uchar_def)
  show ?thesis using n d b strtol10_dec[of "nat n"] dec_of_nat_ne[of "nat n"]
    by (simp add: STR_CAPTURE_GROUP dn strpartial_from_format_def to_int32_def)
qed (use assms in \<open>auto simp: strpartial_from_format_def isdigit_def isalpha_def isupper_def islower_def uchar_def\<close>)

lemma strstr_after: "strstr u ''%{'' = None \<Longrightarrow> strstr (u @ ''%{'' @ r) ''%{'' = Some (length u)"
proof (induction u)
  case (Cons c u)
  then show ?case by (cases u) (auto split: if_splits)
qed simp

lemma show_ref: "\<not> is_verbatim p \<Longrightarrow> show_partial p = ''%{'' @ ref_name p @ ''}''"
  by (cases p) auto

lemma split_show_ref:
  assumes p: "wf_partial p" "\<not> is_verbatim p" and u: "strstr u ''%{'' = None" and r: "split_loop rest = Some ps"
  shows "split_loop (u @ show_partial p @ rest) = Some ((if u \<noteq> [] then [STR_VERBATIM u] else []) @ p # ps)"
  using split_loop_ref[of u "ref_name p" rest] from_format_name[OF p] strstr_after[OF u, of "ref_name p @ ''}'' @ rest"] r
  by (simp add: show_ref[OF p(2)] Let_def)

lemma split_loop_show: "wf_partials ps \<Longrightarrow> split_loop (concat (map show_partial ps)) = Some ps"
proof (induction ps rule: induct_list012)
  case (2 p)
  show ?case
  proof (cases "is_verbatim p")
    case True
    with 2 show ?thesis by (cases p) (auto intro: split_loop_text)
  next
    case False
    with split_show_ref[of p "[]" "[]" "[]"] 2 show ?thesis by simp
  qed
next
  case (3 p q ps)
  show ?case
  proof (cases p)
    case (STR_VERBATIM w)
    with 3(3) have w: "w \<noteq> []" "strstr w ''%{'' = None" "wf_partial q" "\<not> is_verbatim q" "wf_partials ps"
      by (cases ps; auto)+
    with split_show_ref[OF w(3,4,2) 3(1)[OF w(5)]] STR_VERBATIM show ?thesis by simp
  qed (use split_show_ref[of p "[]" "concat (map show_partial (q # ps))" "q # ps"] 3 in auto)
qed simp

section \<open>Properties\<close>

text \<open>C33: splitting the printed form of a format list gives the list back.\<close>

theorem strpartial_split_show:
  assumes "wf_partials ps" and "ps \<noteq> []"
  shows "strpartial_split (concat (map show_partial ps)) = Some ps"
proof (cases "length (concat (map show_partial ps)) < 4")
  case True
  have "is_verbatim p \<and> wf_partial p" if "p \<in> set ps" "wf_partials ps" for p
  proof -
    have "wf_partial p" using that by (induction ps rule: wf_partials.induct) auto
    moreover have "length (show_partial p) \<le> length (concat (map show_partial ps))"
      using that(1) by (induction ps) auto
    moreover have "ref_name p \<noteq> []" if "\<not> is_verbatim p" "wf_partial p"
      using from_format_name[OF that(2,1)] by (auto simp: strpartial_from_format_def)
    ultimately have "\<not> is_verbatim p \<Longrightarrow> 4 \<le> length (show_partial p)"
      using show_ref[of p] by (cases "ref_name p") auto
    with \<open>length (show_partial p) \<le> _\<close> \<open>wf_partial p\<close> True show ?thesis by linarith
  qed
  then have all: "\<forall>p \<in> set ps. is_verbatim p" using assms(1) by blast
  have "tl ps = []"
  proof (rule ccontr)
    assume "tl ps \<noteq> []"
    then obtain p q qs where "ps = p # q # qs" using assms(2) by (metis list.exhaust_sel)
    with all assms(1) show False by simp
  qed
  with assms(2) obtain p where "ps = [p]" by (cases ps) auto
  with all obtain w where "ps = [STR_VERBATIM w]" by (cases p) auto
  then show ?thesis using True by (simp add: strpartial_split_def)
next
  case False
  with split_loop_show[OF assms(1)] show ?thesis by (simp add: strpartial_split_def)
qed

lemma dec_of_int_one: "dec_of_int 1 = ''1''"
  by code_simp

theorem strpartial_split_show_witness:
  "strpartial_split ''%{d} [%{s}] %{1}'' = Some [STR_DATETIME, STR_VERBATIM '' ['', STR_SOURCE, STR_VERBATIM ''] '', STR_CAPTURE_GROUP 1]"
  using strpartial_split_show[of "[STR_DATETIME, STR_VERBATIM '' ['', STR_SOURCE, STR_VERBATIM ''] '', STR_CAPTURE_GROUP 1]"]
    dec_of_int_one by simp

text \<open>A successful split loses nothing: the source is the concatenation of pieces, one for each element, in order,
  and each element is the verbatim text of its piece or what the reference in it stands for.\<close>

theorem strpartial_split_pieces:
  assumes "strpartial_split nm = Some ps"
  shows "ps \<noteq> [] \<and> (\<exists>ws. concat ws = nm \<and> list_all2 renders ps ws)"
proof (cases "length nm < 4")
  case True
  then show ?thesis using assms by (auto simp: strpartial_split_def renders_def intro!: exI[of _ "[nm]"])
next
  case False
  with assms split_loop_renders[of nm ps] show ?thesis by (fastforce simp: strpartial_split_def)
qed

theorem strpartial_split_pieces_witness:
  "\<exists>ws. concat ws = ''x%{env:HOME}'' \<and> list_all2 renders [STR_VERBATIM ''x'', STR_ENV ''HOME''] ws"
proof -
  have "strpartial_split ''x%{env:HOME}'' = Some [STR_VERBATIM ''x'', STR_ENV ''HOME'']" by code_simp
  from strpartial_split_pieces[OF this] show ?thesis by blast
qed

text \<open>A reference that is not closed, and one with a bad name, are reported by a null result.\<close>

theorem strpartial_split_errors:
  assumes "strstr u ''%{'' = None"
  shows "(CHR ''}'' \<notin> set r \<longrightarrow> 2 \<le> length (u @ r) \<longrightarrow> strpartial_split (u @ ''%{'' @ r) = None)
     \<and> (CHR ''}'' \<notin> set nm \<longrightarrow> strpartial_from_format nm = STR_INVALID
          \<longrightarrow> 1 \<le> length (u @ nm @ v) \<longrightarrow> strpartial_split (u @ ''%{'' @ nm @ ''}'' @ v) = None)"
proof (intro conjI impI)
  assume "CHR ''}'' \<notin> set r" and "2 \<le> length (u @ r)"
  then show "strpartial_split (u @ ''%{'' @ r) = None"
    using split_loop_open[of "u @ ''%{'' @ r" "length u"] strstr_after[OF assms, of r]
    by (simp add: strpartial_split_def)
next
  assume "CHR ''}'' \<notin> set nm" and "strpartial_from_format nm = STR_INVALID" and "1 \<le> length (u @ nm @ v)"
  then show "strpartial_split (u @ ''%{'' @ nm @ ''}'' @ v) = None"
    using split_loop_ref[of u nm v] strstr_after[OF assms, of "nm @ ''}'' @ v"]
    by (cases u; cases nm; cases v) (auto simp: strpartial_split_def)
qed

theorem strpartial_split_errors_witness:
  "strpartial_split ''a%{bc'' = None \<and> strpartial_split ''a%{1x}'' = None"
proof -
  have "strpartial_from_format ''1x'' = STR_INVALID" by code_simp
  with strpartial_split_errors[of "''a''" "''bc''" "''1x''" "[]"] show ?thesis by simp
qed

text \<open>The number of a capture group is stored in 32 bits: a large one in the configuration becomes a negative
  index.\<close>

theorem capture_group_truncated:
  "strpartial_split ''%{4294967295}'' = Some [STR_CAPTURE_GROUP (- 1)]"
  by code_simp

end
