(* ===== verification/Options.thy ===== *)
theory Options
  imports Strpartial
begin

text \<open>
  The command line of \<^verbatim>\<open>dlog.c\<close>: \<^verbatim>\<open>get_opts\<close> and the parts of the configuration it fills. An argument is an option
  by its first two characters; \<^verbatim>\<open>-c\<close> and \<^verbatim>\<open>-l\<close> take the next argument. Whether \<^verbatim>\<open>strtol\<close> left \<^verbatim>\<open>errno\<close> at \<^verbatim>\<open>EINVAL\<close> differs
  between C libraries and is a parameter.
\<close>

record cmdopt =
  testconfig :: bool
  newbinary :: bool
  nodaemon :: bool
  listen_port :: "string option"
  configfile :: "string option"

definition no_options :: cmdopt where
  "no_options = \<lparr>testconfig = False, newbinary = False, nodaemon = False, listen_port = None, configfile = None\<rparr>"

text \<open>\<^verbatim>\<open>strtol(s, NULL, 10)\<close>: white space, a sign, digits, clamped to the range of \<^verbatim>\<open>long\<close>.\<close>

definition strtol :: "string \<Rightarrow> int" where
  "strtol s =
     (case dropWhile (\<lambda>c. isspace (uchar c)) s of
        [] \<Rightarrow> 0
      | c # t \<Rightarrow>
          if c = CHR ''-'' then max (- LONG_MAX - 1) (- dec_value 0 (takeWhile (\<lambda>c. isdigit (uchar c)) t))
          else if c = CHR ''+'' then fst (strtol10 t)
          else fst (strtol10 (c # t)))"

text \<open>The cases of the \<^verbatim>\<open>switch\<close> over the option's character.\<close>

datatype opt = Opt_Help | Opt_Test | Opt_Config | Opt_Listen | Opt_New | Opt_Nodaemon | Opt_Unknown

definition opt_of :: "char \<Rightarrow> opt" where
  "opt_of c =
     (if c = CHR ''v'' \<or> c = CHR ''?'' then Opt_Help
      else if c = CHR ''t'' then Opt_Test
      else if c = CHR ''c'' then Opt_Config
      else if c = CHR ''l'' then Opt_Listen
      else if c = CHR ''x'' then Opt_New
      else if c = CHR ''n'' then Opt_Nodaemon
      else Opt_Unknown)"

text \<open>The loop over the arguments after the program's name. It returns 0, or 1 or \<open>-1\<close> for a failure. A missing argument
  of \<^verbatim>\<open>-l\<close> is ignored, and ends the loop.\<close>

fun get_opts_loop :: "(string \<Rightarrow> bool) \<Rightarrow> string list \<Rightarrow> cmdopt \<Rightarrow> bool \<Rightarrow> int \<times> cmdopt" where
  "get_opts_loop einval [] opts config_missing = (if config_missing then 1 else 0, opts)"
| "get_opts_loop einval (a # as) opts config_missing =
     (if peek a \<noteq> CHR ''-'' then (1, opts)
      else
        (case opt_of (peek (tl a)) of
           Opt_Help \<Rightarrow> (- 1, opts)
         | Opt_Test \<Rightarrow> get_opts_loop einval as (opts\<lparr>testconfig := True\<rparr>) config_missing
         | Opt_Config \<Rightarrow>
             (case as of
                [] \<Rightarrow> (1, opts)
              | f # as' \<Rightarrow> get_opts_loop einval as' (opts\<lparr>configfile := Some f\<rparr>) False)
         | Opt_Listen \<Rightarrow>
             (case as of
                [] \<Rightarrow> (if config_missing then 1 else 0, opts)
              | p # as' \<Rightarrow>
                  if to_int32 (strtol p) = 0 \<and> einval p \<or> to_int32 (strtol p) > 65535 then (- 1, opts)
                  else get_opts_loop einval as' (opts\<lparr>listen_port := Some p\<rparr>) config_missing)
         | Opt_New \<Rightarrow> get_opts_loop einval as (opts\<lparr>newbinary := True\<rparr>) config_missing
         | Opt_Nodaemon \<Rightarrow> get_opts_loop einval as (opts\<lparr>nodaemon := True\<rparr>) config_missing
         | Opt_Unknown \<Rightarrow> (1, opts)))"

definition get_opts :: "(string \<Rightarrow> bool) \<Rightarrow> string list \<Rightarrow> int \<times> cmdopt" where
  "get_opts einval args = get_opts_loop einval args no_options True"

section \<open>Properties\<close>

lemma get_opts_loop_config:
  "get_opts_loop einval args opts cm = (0, opts') \<Longrightarrow> cm \<or> configfile opts \<noteq> None \<Longrightarrow> configfile opts' \<noteq> None"
proof (induction einval args opts cm rule: get_opts_loop.induct)
  case (2 einval a as opts cm)
  have d: "peek a = CHR ''-''" using 2(6) by (simp split: if_splits)
  show ?case
  proof (cases "opt_of (peek (tl a))")
    case Opt_Config
    with 2(2)[of "hd as" "tl as"] 2(6-) d show ?thesis by (cases as) simp_all
  next
    case Opt_Listen
    with 2(3)[of "hd as" "tl as"] 2(6-) d show ?thesis by (cases as) (auto split: if_splits)
  qed (use 2(1) 2(4-) d in simp_all)
qed (simp split: if_splits)

text \<open>A sequence of options in which each is known and has its argument, as the manual describes them.\<close>

fun well_formed :: "string list \<Rightarrow> bool" where
  "well_formed [] = True"
| "well_formed (a # as) =
     (peek a = CHR ''-'' \<and>
      (case opt_of (peek (tl a)) of
         Opt_Config \<Rightarrow> (case as of [] \<Rightarrow> False | f # as' \<Rightarrow> well_formed as')
       | Opt_Listen \<Rightarrow> (case as of [] \<Rightarrow> False | p # as' \<Rightarrow> to_int32 (strtol p) \<le> 65535 \<and> well_formed as')
       | Opt_Test \<Rightarrow> well_formed as
       | Opt_New \<Rightarrow> well_formed as
       | Opt_Nodaemon \<Rightarrow> well_formed as
       | _ \<Rightarrow> False))"

text \<open>The last argument asks for the port but the port is missing.\<close>

definition port_missing :: "string list \<Rightarrow> bool" where
  "port_missing args \<longleftrightarrow> args \<noteq> [] \<and> peek (last args) = CHR ''-'' \<and> opt_of (peek (tl (last args))) = Opt_Listen"

lemma get_opts_loop_well_formed:
  "get_opts_loop einval args opts cm = (0, opts') \<Longrightarrow> well_formed args \<or> port_missing args \<and> well_formed (butlast args)"
proof (induction einval args opts cm rule: get_opts_loop.induct)
  case (2 einval a as opts cm)
  have d: "peek a = CHR ''-''" using 2(6) by (simp split: if_splits)
  show ?case
  proof (cases "opt_of (peek (tl a))")
    case Opt_Config
    with 2(2)[of "hd as" "tl as"] 2(6-) d show ?thesis by (cases as) (auto simp: port_missing_def)
  next
    case Opt_Listen
    with 2(3)[of "hd as" "tl as"] 2(6-) d show ?thesis by (cases as) (auto simp: port_missing_def split: if_splits)
  qed (use 2(1) 2(4-) d in \<open>auto simp: port_missing_def\<close>)
qed (simp split: if_splits)

lemma get_opts_loop_missing:
  "get_opts_loop einval args opts cm = (0, opts') \<Longrightarrow> port_missing args \<Longrightarrow> well_formed (butlast args)
   \<Longrightarrow> get_opts_loop einval (butlast args) opts cm = (0, opts')"
proof (induction einval args opts cm rule: get_opts_loop.induct)
  case (2 einval a as opts cm)
  have d: "peek a = CHR ''-''" using 2(6) by (simp split: if_splits)
  show ?case
  proof (cases "opt_of (peek (tl a))")
    case Opt_Config
    with 2(2)[of "hd as" "tl as"] 2(6-) d show ?thesis by (cases as) (auto simp: port_missing_def)
  next
    case Opt_Listen
    with 2(3)[of "hd as" "tl as"] 2(6-) d show ?thesis by (cases as) (auto simp: port_missing_def split: if_splits)
  qed (use 2(1) 2(4-) d in \<open>auto simp: port_missing_def\<close>)
qed simp



text \<open>The check of the port compares it with the upper limit only, after the conversion to \<^verbatim>\<open>int\<close>: negative ports and numbers
  that wrap around are accepted.\<close>

theorem get_opts_negative_port:
  "fst (get_opts einval [''-c'', f, ''-l'', ''-1'']) = 0 \<and> fst (get_opts einval [''-c'', f, ''-l'', ''4294967295'']) = 0"
proof -
  have "to_int32 (strtol ''-1'') = - 1" "to_int32 (strtol ''4294967295'') = - 1" by code_simp+
  then show ?thesis by (simp add: get_opts_def opt_of_def)
qed

end
