(* ===== verification/Process.thy ===== *)
theory Process
  imports Options
begin

text \<open>
  Process control, from \<^verbatim>\<open>proc.c\<close>, and \<^verbatim>\<open>process_signals\<close> of \<^verbatim>\<open>dlog.c\<close>: the table of signals with the flags that the handler sets
  and the main loop clears, the pid file, and the saved command line that a restart passes on. The handler may interrupt
  the main loop between any two of its steps: the interleaving is a step relation. Arrays have cells that may be
  uninitialised; a store outside an array is a fault.
\<close>

section \<open>Signals\<close>

definition SIGHUP :: int where "SIGHUP = 1"
definition SIGQUIT :: int where "SIGQUIT = 3"
definition SIGUSR1 :: int where "SIGUSR1 = 10"

record sig_s =
  signo :: int
  flag :: bool

record sig_state =
  signals :: "sig_s list"
  sig_delivered :: bool

text \<open>The table ends with an entry without number and handler, which is not in the list.\<close>

definition signals_init :: "sig_s list" where
  "signals_init = [\<lparr>signo = SIGHUP, flag = False\<rparr>, \<lparr>signo = SIGUSR1, flag = False\<rparr>, \<lparr>signo = SIGQUIT, flag = False\<rparr>]"

definition sig_init_state :: sig_state where
  "sig_init_state = \<lparr>signals = signals_init, sig_delivered = False\<rparr>"

fun set_flag :: "int \<Rightarrow> sig_s list \<Rightarrow> sig_s list" where
  "set_flag n [] = []"
| "set_flag n (sig # sigs) = (if signo sig = n then sig\<lparr>flag := True\<rparr> # sigs else sig # set_flag n sigs)"

definition sig_handler :: "int \<Rightarrow> sig_state \<Rightarrow> sig_state" where
  "sig_handler n st =
     (if n \<in> signo ` set (signals st) then st\<lparr>signals := set_flag n (signals st), sig_delivered := True\<rparr> else st)"

text \<open>\<^verbatim>\<open>process_signals\<close> undisturbed: the signals handled in order, the table, and whether the process exited, which the restart and
  the shutdown do.\<close>

definition exits :: "int \<Rightarrow> bool" where
  "exits n \<longleftrightarrow> n = SIGHUP \<or> n = SIGQUIT"

fun signal_loop :: "sig_s list \<Rightarrow> int list \<times> sig_s list \<times> bool" where
  "signal_loop [] = ([], [], False)"
| "signal_loop (sig # sigs) =
     (if flag sig then
        (if exits (signo sig) then ([signo sig], sig # sigs, True)
         else (case signal_loop sigs of (ns, sigs', ex) \<Rightarrow> (signo sig # ns, sig\<lparr>flag := False\<rparr> # sigs', ex)))
      else (case signal_loop sigs of (ns, sigs', ex) \<Rightarrow> (ns, sig # sigs', ex)))"

definition process_signals :: "sig_state \<Rightarrow> int list \<times> sig_state \<times> bool" where
  "process_signals st =
     (if sig_delivered st then
        (case signal_loop (signals st) of (ns, sigs, ex) \<Rightarrow>
           (ns, if ex then st\<lparr>signals := sigs\<rparr> else st\<lparr>signals := sigs, sig_delivered := False\<rparr>, ex))
      else ([], st, False))"

section \<open>The handler interrupts the main loop\<close>

text \<open>Where the main loop stands: outside \<^verbatim>\<open>process_signals\<close>, before the test of an entry, before its handler, before its flag is
  cleared, before \<^verbatim>\<open>sig_delivered\<close> is cleared, or gone. The history counts what arrived and what was handled.\<close>

datatype sig_pc = Outside | Scan nat | Handle nat | Clear nat | Reset | Gone

record sig_run =
  pc :: sig_pc
  st :: sig_state
  arrived :: "int list"
  handled :: "int list"

inductive main_step :: "sig_run \<Rightarrow> sig_run \<Rightarrow> bool" where
  idle: "pc r = Outside \<Longrightarrow> \<not> sig_delivered (st r) \<Longrightarrow> main_step r r"
| enter: "pc r = Outside \<Longrightarrow> sig_delivered (st r) \<Longrightarrow> main_step r (r\<lparr>pc := Scan 0\<rparr>)"
| skip: "pc r = Scan i \<Longrightarrow> i < length (signals (st r)) \<Longrightarrow> \<not> flag (signals (st r) ! i) \<Longrightarrow> main_step r (r\<lparr>pc := Scan (i + 1)\<rparr>)"
| found: "pc r = Scan i \<Longrightarrow> i < length (signals (st r)) \<Longrightarrow> flag (signals (st r) ! i) \<Longrightarrow> main_step r (r\<lparr>pc := Handle i\<rparr>)"
| handle: "pc r = Handle i \<Longrightarrow> n = signo (signals (st r) ! i) \<Longrightarrow>
    main_step r (r\<lparr>pc := (if exits n then Gone else Clear i), handled := handled r @ [n]\<rparr>)"
| clear: "pc r = Clear i \<Longrightarrow>
    main_step r (r\<lparr>pc := Scan (i + 1), st := (st r)\<lparr>signals := (signals (st r))[i := (signals (st r) ! i)\<lparr>flag := False\<rparr>]\<rparr>\<rparr>)"
| scanned: "pc r = Scan i \<Longrightarrow> i = length (signals (st r)) \<Longrightarrow> main_step r (r\<lparr>pc := Reset\<rparr>)"
| leave: "pc r = Reset \<Longrightarrow> main_step r (r\<lparr>pc := Outside, st := (st r)\<lparr>sig_delivered := False\<rparr>\<rparr>)"

definition interrupt :: "int \<Rightarrow> sig_run \<Rightarrow> sig_run" where
  "interrupt n r = r\<lparr>st := sig_handler n (st r), arrived := arrived r @ [n]\<rparr>"

inductive sig_reach :: "sig_run \<Rightarrow> bool" where
  start: "sig_reach \<lparr>pc = Outside, st = sig_init_state, arrived = [], handled = []\<rparr>"
| main: "sig_reach r \<Longrightarrow> main_step r r' \<Longrightarrow> sig_reach r'"
| signal: "sig_reach r \<Longrightarrow> pc r \<noteq> Gone \<Longrightarrow> sig_reach (interrupt n r)"

inductive_cases main_stepE: "main_step r r'"

section \<open>The pid file\<close>

text \<open>\<^verbatim>\<open>fscanf("%d")\<close>: white space, a sign, at least one digit.\<close>

definition scan_digits :: "string \<Rightarrow> int option" where
  "scan_digits s = (let ds = takeWhile (\<lambda>c. isdigit (uchar c)) s in if ds = [] then None else Some (dec_value 0 ds))"

definition fscanf_d :: "string \<Rightarrow> int option" where
  "fscanf_d s =
     (case dropWhile (\<lambda>c. isspace (uchar c)) s of
        [] \<Rightarrow> None
      | c # t \<Rightarrow> if c = CHR ''-'' then map_option uminus (scan_digits t) else if c = CHR ''+'' then scan_digits t else scan_digits (c # t))"

text \<open>The file is \<open>None\<close> when it is absent. A file that cannot be deleted or opened is the caller's to say.\<close>

definition pidfile_delete :: "bool \<Rightarrow> string option \<Rightarrow> string option" where
  "pidfile_delete unlink_ok file = (if file \<noteq> None \<and> unlink_ok then None else file)"

definition pidfile_create :: "bool \<Rightarrow> bool \<Rightarrow> bool \<Rightarrow> int \<Rightarrow> string option \<Rightarrow> int \<times> string option" where
  "pidfile_create unlink_ok open_ok write_ok pid file =
     (let file = pidfile_delete unlink_ok file in
      if \<not> open_ok then (- 1, file)
      else if \<not> write_ok then (1, Some [])
      else (0, Some (dec_of_int pid)))"

definition pidfile_read :: "string option \<Rightarrow> int" where
  "pidfile_read file = (case file of None \<Rightarrow> - 1 | Some s \<Rightarrow> (case fscanf_d s of None \<Rightarrow> - 1 | Some n \<Rightarrow> n))"

text \<open>The result, and the process that was sent the signal.\<close>

definition sig_send_to_pid :: "(int \<Rightarrow> bool) \<Rightarrow> string option \<Rightarrow> int \<times> int option" where
  "sig_send_to_pid kill_ok file =
     (let proc_pid = pidfile_read file in
      if proc_pid > 1 then (if kill_ok proc_pid then (0, Some proc_pid) else (- 1, None)) else (- 1, None))"

section \<open>The saved command line\<close>

datatype cell = Uninit | Null | Str string

record env_param =
  argc :: int
  envc :: int
  argv :: "cell list"
  envp :: "cell list"

definition no_env_param :: env_param where
  "no_env_param = \<lparr>argc = 0, envc = 0, argv = [], envp = []\<rparr>"

definition put :: "cell list \<Rightarrow> int \<Rightarrow> cell \<Rightarrow> cell list option" where
  "put xs i v = (if 0 \<le> i \<and> i < int (length xs) then Some (xs[nat i := v]) else None)"

definition realloc_cells :: "cell list \<Rightarrow> int \<Rightarrow> cell list" where
  "realloc_cells xs n = take (nat n) (xs @ replicate (nat n) Uninit)"

definition proc_addparam :: "string \<Rightarrow> env_param \<Rightarrow> env_param option" where
  "proc_addparam param e = do {
     let e = e\<lparr>argc := argc e + 1\<rparr>;
     let a = realloc_cells (argv e) (argc e + 1);
     a \<leftarrow> put a (argc e - 1) (Str param);
     a \<leftarrow> put a (argc e) Null;
     Some (e\<lparr>argv := a\<rparr>)
   }"

definition proc_addenv :: "string \<Rightarrow> env_param \<Rightarrow> env_param option" where
  "proc_addenv penv e = do {
     let e = e\<lparr>envc := envc e + 1\<rparr>;
     let a = realloc_cells (envp e) (envc e + 1);
     a \<leftarrow> put a (envc e) (Str penv);
     a \<leftarrow> put a (envc e + 1) Null;
     Some (e\<lparr>envp := a\<rparr>)
   }"

text \<open>The loops over the arguments, which runs at least once, and over the environment. The arguments end with a null
  pointer, as the environment does.\<close>

fun copy_args :: "cell list \<Rightarrow> nat \<Rightarrow> nat \<Rightarrow> cell list \<Rightarrow> cell list option" where
  "copy_args src 0 i a = Some a"
| "copy_args src (Suc k) i a = do {
     v \<leftarrow> (if i < length src then Some (src ! i) else None);
     a \<leftarrow> put a (int i) v;
     copy_args src k (i + 1) a
   }"

fun copy_env :: "string list \<Rightarrow> nat \<Rightarrow> cell list \<Rightarrow> cell list option" where
  "copy_env [] i a = Some a"
| "copy_env (s # ss) i a = do {
     a \<leftarrow> put a (int i) (Str s);
     a \<leftarrow> put (realloc_cells a (int i + 2)) (int i + 1) Null;
     copy_env ss (i + 1) a
   }"

definition proc_savecmd :: "string list \<Rightarrow> string list \<Rightarrow> env_param \<Rightarrow> env_param option" where
  "proc_savecmd args envs e = do {
     let n = length args;
     let e = e\<lparr>argc := int n\<rparr>;
     a \<leftarrow> copy_args (map Str args @ [Null]) (max n 1) 0 (replicate (n + 1) Uninit);
     a \<leftarrow> put a (int n) Null;
     v \<leftarrow> copy_env envs 0 [Uninit];
     proc_addparam ''-x'' (e\<lparr>argv := a, envp := v\<rparr>)
   }"

section \<open>Lemmas on signals\<close>

lemma set_flag_signo [simp]: "map signo (set_flag n sigs) = map signo sigs" "length (set_flag n sigs) = length sigs"
  by (induction sigs) auto

lemma set_flag_nth:
  assumes "distinct (map signo sigs)" and "i < length sigs"
  shows "set_flag n sigs ! i = (if signo (sigs ! i) = n then (sigs ! i)\<lparr>flag := True\<rparr> else sigs ! i)"
  using assms
proof (induction sigs arbitrary: i)
  case (Cons sig sigs)
  show ?case
  proof (cases i)
    case (Suc j)
    moreover have "sigs ! j \<in> set sigs" using Cons.prems(2) Suc by simp
    moreover have "signo (sigs ! j) \<noteq> signo sig" using Cons.prems(1) calculation(2) by (metis distinct.simps(2) imageI list.simps(9) set_map)
    ultimately show ?thesis using Cons by auto
  qed simp
qed simp

lemma sig_arrivals:
  "fold sig_handler ns sig_init_state = \<lparr>signals = [\<lparr>signo = SIGHUP, flag = (SIGHUP \<in> set ns)\<rparr>, \<lparr>signo = SIGUSR1, flag = (SIGUSR1 \<in> set ns)\<rparr>,
     \<lparr>signo = SIGQUIT, flag = (SIGQUIT \<in> set ns)\<rparr>], sig_delivered = (SIGHUP \<in> set ns \<or> SIGUSR1 \<in> set ns \<or> SIGQUIT \<in> set ns)\<rparr>"
  by (induction ns rule: rev_induct)
    (auto simp: sig_init_state_def signals_init_def sig_handler_def SIGHUP_def SIGUSR1_def SIGQUIT_def)

text \<open>A signal that is flagged, and not just now being cleared.\<close>

definition pending :: "sig_run \<Rightarrow> int \<Rightarrow> bool" where
  "pending r n \<longleftrightarrow> (\<exists>i < length (signals (st r)). signo (signals (st r) ! i) = n \<and> flag (signals (st r) ! i) \<and> pc r \<noteq> Clear i \<and> pc r \<noteq> Gone)"

definition sig_inv :: "sig_run \<Rightarrow> bool" where
  "sig_inv r \<longleftrightarrow> map signo (signals (st r)) = [SIGHUP, SIGUSR1, SIGQUIT]
     \<and> (\<forall>i. pc r = Handle i \<longrightarrow> i < length (signals (st r)) \<and> flag (signals (st r) ! i))
     \<and> (\<forall>n. count_list (handled r) n + of_bool (pending r n) \<le> count_list (arrived r) n)"

lemma sig_inv_distinct: "sig_inv r \<Longrightarrow> distinct (map signo (signals (st r)))"
  by (simp add: sig_inv_def SIGHUP_def SIGUSR1_def SIGQUIT_def)

lemma sig_inv_count: "sig_inv r \<Longrightarrow> count_list (handled r) n + of_bool (pending r n) \<le> count_list (arrived r) n"
  by (simp add: sig_inv_def)

lemma sig_inv_handle: "sig_inv r \<Longrightarrow> pc r = Handle i \<Longrightarrow> i < length (signals (st r)) \<and> flag (signals (st r) ! i)"
  by (simp add: sig_inv_def)

lemma sig_inv_step:
  assumes "sig_inv r" and "map signo (signals (st r')) = map signo (signals (st r))"
    and "\<And>i. pc r' = Handle i \<Longrightarrow> i < length (signals (st r')) \<and> flag (signals (st r') ! i)"
    and "\<And>n. count_list (handled r') n + of_bool (pending r' n) \<le> count_list (arrived r') n"
  shows "sig_inv r'"
  using assms by (simp add: sig_inv_def)

text \<open>A step that handles nothing and flags nothing.\<close>

lemma sig_count_step:
  assumes "sig_inv r" and "handled r' = handled r" and "arrived r' = arrived r" and "pending r' n \<Longrightarrow> pending r n"
  shows "count_list (handled r') n + of_bool (pending r' n) \<le> count_list (arrived r') n"
  using sig_inv_count[OF assms(1), of n] assms(2-4) by (cases "pending r' n") auto

lemma pending_main:
  assumes "main_step r r'" and "pending r' n"
  shows "pending r n"
  using assms(1)
proof (cases rule: main_step.cases)
  case (clear i)
  let ?sigs = "signals (st r)"
  obtain j where j: "j < length ?sigs" "signo (?sigs[i := (?sigs ! i)\<lparr>flag := False\<rparr>] ! j) = n" "flag (?sigs[i := (?sigs ! i)\<lparr>flag := False\<rparr>] ! j)"
    using assms(2) clear(1) by (auto simp: pending_def)
  then have "j \<noteq> i" by auto
  with j clear(2) show ?thesis by (auto simp: pending_def)
qed (use assms(2) in \<open>auto simp: pending_def\<close>)

lemma sig_inv_main:
  assumes inv: "sig_inv r" and s: "main_step r r'"
  shows "sig_inv r'"
  using s
proof (cases rule: main_step.cases)
  case (handle i n)
  let ?sigs = "signals (st r)"
  have i: "i < length ?sigs" "flag (?sigs ! i)" using sig_inv_handle[OF inv handle(2)] by auto
  have p: "pending r n" using i handle(2,3) by (auto simp: pending_def)
  have np: "\<not> pending r' n"
  proof
    assume "pending r' n"
    then obtain j where j: "j < length ?sigs" "signo (?sigs ! j) = n" "pc r' \<noteq> Clear j" "pc r' \<noteq> Gone"
      using handle(1) by (auto simp: pending_def)
    have "j = i" using sig_inv_distinct[OF inv] i(1) j(1,2) handle(3) by (auto simp: distinct_conv_nth)
    with j handle(1) show False by (auto split: if_splits)
  qed
  show ?thesis
  proof (rule sig_inv_step[OF inv])
    fix m
    show "count_list (handled r') m + of_bool (pending r' m) \<le> count_list (arrived r') m"
      using sig_inv_count[OF inv, of m] p np pending_main[OF s, of m] handle(1) by (cases "m = n"; cases "pending r' m") auto
  qed (use handle(1) in \<open>auto split: if_splits\<close>)
next
  case (clear i)
  have "map signo (signals (st r')) = map signo (signals (st r))" using clear(1)
    by (cases "i < length (signals (st r))") (simp_all add: map_update list_update_same_conv list_update_beyond)
  with clear(1) show ?thesis by (intro sig_inv_step[OF inv] sig_count_step[OF inv] pending_main[OF s]) auto
qed (intro sig_inv_step[OF inv] sig_count_step[OF inv] pending_main[OF s], auto)+

lemma sig_inv_interrupt:
  assumes inv: "sig_inv r"
  shows "sig_inv (interrupt n r)"
proof (rule sig_inv_step[OF inv])
  note nth = set_flag_nth[OF sig_inv_distinct[OF inv]]
  show "map signo (signals (st (interrupt n r))) = map signo (signals (st r))" by (simp add: interrupt_def sig_handler_def)
  fix i
  show "pc (interrupt n r) = Handle i \<Longrightarrow> i < length (signals (st (interrupt n r))) \<and> flag (signals (st (interrupt n r)) ! i)"
    using sig_inv_handle[OF inv, of i] by (auto simp: interrupt_def sig_handler_def nth)
  fix m
  have "pending (interrupt n r) m \<Longrightarrow> m = n \<or> pending r m"
    by (auto simp: pending_def interrupt_def sig_handler_def nth split: if_splits)
  then show "count_list (handled (interrupt n r)) m + of_bool (pending (interrupt n r) m) \<le> count_list (arrived (interrupt n r)) m"
    using sig_inv_count[OF inv, of m] by (cases "m = n"; cases "pending (interrupt n r) m") (auto simp: interrupt_def)
qed

lemma sig_inv_start: "sig_inv \<lparr>pc = Outside, st = sig_init_state, arrived = [], handled = []\<rparr>"
proof -
  have "\<not> flag (signals_init ! i)" if "i < length signals_init" for i using that
    by (auto simp: signals_init_def less_Suc_eq)
  then show ?thesis by (simp add: sig_inv_def pending_def sig_init_state_def) (simp add: signals_init_def)
qed

lemma sig_reach_inv: "sig_reach r \<Longrightarrow> sig_inv r"
  by (induction rule: sig_reach.induct) (simp_all add: sig_inv_start sig_inv_main sig_inv_interrupt)

section \<open>Lemmas on the command line\<close>

lemma put_at: "i = int (length xs) \<Longrightarrow> put (xs @ y # ys) i v = Some (xs @ v # ys)"
  by (simp add: put_def)

lemma realloc_grow_cells: "int (length xs) \<le> n \<Longrightarrow> realloc_cells xs n = xs @ replicate (nat n - length xs) Uninit"
  by (simp add: realloc_cells_def)

lemma addparam_appends:
  assumes "argv e = as @ [Null]" and "argc e = int (length as)"
  shows "\<exists>e'. proc_addparam p e = Some e' \<and> argv e' = as @ [Str p, Null] \<and> argc e' = int (length as) + 1 \<and> envp e' = envp e \<and> envc e' = envc e"
proof -
  have "realloc_cells (argv e) (argc e + 2) = as @ [Null, Uninit]" using assms by (simp add: realloc_grow_cells nat_add_distrib)
  then show ?thesis using put_at[of "int (length as)" as Null "[Uninit]" "Str p"] put_at[of "int (length as) + 1" "as @ [Str p]" Uninit "[]" Null] assms(2)
    by (simp add: proc_addparam_def Let_def add.commute)
qed

lemma copy_args_ok:
  "as = take i src \<Longrightarrow> i + k \<le> length src \<Longrightarrow> copy_args src k i (as @ replicate (k + m) Uninit) = Some (take (i + k) src @ replicate m Uninit)"
proof (induction k arbitrary: i as)
  case (Suc k)
  then have l: "length as = i" "i < length src" by auto
  have "put (as @ replicate (Suc k + m) Uninit) (int i) (src ! i) = Some (take (Suc i) src @ replicate (k + m) Uninit)"
    using put_at[of "int i" as Uninit "replicate (k + m) Uninit" "src ! i"] l Suc.prems(1) by (simp add: take_Suc_conv_app_nth)
  with Suc.IH[of "take (Suc i) src" "Suc i"] Suc.prems(2) l(2) show ?case by simp
qed simp

lemma copy_env_ok: "length as = i \<Longrightarrow> copy_env ss i (as @ [c]) = Some (as @ map Str ss @ [if ss = [] then c else Null])"
proof (induction ss arbitrary: i as c)
  case (Cons s ss)
  have "put (as @ [c]) (int i) (Str s) = Some (as @ [Str s])" using put_at[of "int i" as c "[]"] Cons.prems by simp
  moreover have "put (realloc_cells (as @ [Str s]) (int i + 2)) (int i + 1) Null = Some ((as @ [Str s]) @ [Null])"
    using put_at[of "int i + 1" "as @ [Str s]" Uninit "[]" Null] Cons.prems by (simp add: realloc_grow_cells nat_add_distrib)
  ultimately show ?case using Cons.IH[of "as @ [Str s]" "Suc i" Null] Cons.prems by simp
qed simp

section \<open>Lemmas on the pid file\<close>

lemma digits_not_space: "isdigit n \<Longrightarrow> \<not> isspace n"
  by (simp add: isdigit_def isspace_def)

lemma scan_digits_dec: "scan_digits (dec_of_nat n) = Some (int n)"
  using dec_of_nat_digits[of _ n] dec_of_nat_ne[of n]
  by (simp add: scan_digits_def takeWhile_eq_all_conv[THEN iffD2] dec_of_nat_value Let_def)

lemma fscanf_dec: "fscanf_d (dec_of_int i) = Some i"
proof (cases "i < 0")
  case True
  then show ?thesis by (simp add: fscanf_d_def dec_of_int_def scan_digits_dec isspace_def uchar_def)
next
  case False
  obtain c t where c: "dec_of_nat (nat i) = c # t" using dec_of_nat_ne by (meson list.exhaust)
  then have "isdigit (uchar c)" using dec_of_nat_digits[of c "nat i"] by simp
  then have "\<not> isspace (uchar c)" "c \<noteq> CHR ''-''" "c \<noteq> CHR ''+''" by (auto simp: isdigit_def isspace_def uchar_def)
  with False c scan_digits_dec[of "nat i"] show ?thesis by (simp add: fscanf_d_def dec_of_int_def)
qed

text \<open>A run in which a restart signal arrives while the entry behind its own is being handled.\<close>

definition left_behind :: sig_run where
  "left_behind = \<lparr>pc = Outside, st = \<lparr>signals = [\<lparr>signo = SIGHUP, flag = True\<rparr>, \<lparr>signo = SIGUSR1, flag = False\<rparr>, \<lparr>signo = SIGQUIT, flag = False\<rparr>],
     sig_delivered = False\<rparr>, arrived = [SIGUSR1, SIGHUP], handled = [SIGUSR1]\<rparr>"

lemma left_behind_reach: "sig_reach left_behind"
proof -
  let ?sig = "\<lambda>a b. [\<lparr>signo = SIGHUP, flag = a\<rparr>, \<lparr>signo = SIGUSR1, flag = b\<rparr>, \<lparr>signo = SIGQUIT, flag = False\<rparr>]"
  let ?r = "\<lambda>p a b dl ar ha. \<lparr>pc = p, st = \<lparr>signals = ?sig a b, sig_delivered = dl\<rparr>, arrived = ar, handled = ha\<rparr>"
  note defs = SIGHUP_def SIGQUIT_def SIGUSR1_def
  have "sig_reach (?r Outside False False False [] [])" using sig_reach.start by (simp add: sig_init_state_def signals_init_def)
  from sig_reach.signal[OF this, of SIGUSR1] have "sig_reach (?r Outside False True True [SIGUSR1] [])"
    by (simp add: interrupt_def sig_handler_def defs)
  from sig_reach.main[OF this main_step.enter] have "sig_reach (?r (Scan 0) False True True [SIGUSR1] [])" by simp
  from sig_reach.main[OF this main_step.skip[of _ 0]] have "sig_reach (?r (Scan 1) False True True [SIGUSR1] [])" by simp
  from sig_reach.signal[OF this, of SIGHUP] have "sig_reach (?r (Scan 1) True True True [SIGUSR1, SIGHUP] [])"
    by (simp add: interrupt_def sig_handler_def defs)
  from sig_reach.main[OF this main_step.found[of _ 1]] have "sig_reach (?r (Handle 1) True True True [SIGUSR1, SIGHUP] [])" by simp
  from sig_reach.main[OF this main_step.handle[of _ 1 SIGUSR1]] have "sig_reach (?r (Clear 1) True True True [SIGUSR1, SIGHUP] [SIGUSR1])"
    by (simp add: exits_def defs)
  from sig_reach.main[OF this main_step.clear[of _ 1]] have "sig_reach (?r (Scan 2) True False True [SIGUSR1, SIGHUP] [SIGUSR1])"
    by (simp add: numeral_2_eq_2)
  from sig_reach.main[OF this main_step.skip[of _ 2]] have "sig_reach (?r (Scan 3) True False True [SIGUSR1, SIGHUP] [SIGUSR1])" by simp
  from sig_reach.main[OF this main_step.scanned[of _ 3]] have "sig_reach (?r Reset True False True [SIGUSR1, SIGHUP] [SIGUSR1])" by simp
  from sig_reach.main[OF this main_step.leave] show ?thesis by (simp add: left_behind_def)
qed

section \<open>Properties\<close>

text \<open>C26: whatever signals have arrived since the last time, in whatever order and number, \<^verbatim>\<open>process_signals\<close> runs the handler of
  each registered one of them exactly once, in the order of the table, up to the first that ends the process, and if
  none does, clears all flags.\<close>

theorem process_signals_handles:
  "process_signals (fold sig_handler ns sig_init_state) =
     (if SIGHUP \<in> set ns then ([SIGHUP], fold sig_handler ns sig_init_state, True)
      else if SIGQUIT \<in> set ns then
        (filter (\<lambda>n. n \<in> set ns) [SIGUSR1, SIGQUIT], fold sig_handler (filter (\<lambda>n. n = SIGQUIT) ns) sig_init_state, True)
      else (filter (\<lambda>n. n \<in> set ns) [SIGUSR1], sig_init_state, False))"
  by (simp add: sig_arrivals) (auto simp: process_signals_def exits_def SIGHUP_def SIGQUIT_def SIGUSR1_def sig_init_state_def signals_init_def)

text \<open>C27: with the handler interrupting the main loop anywhere, no signal is handled more often than it arrived.\<close>

theorem handled_at_most_arrived:
  assumes "sig_reach r"
  shows "count_list (handled r) n \<le> count_list (arrived r) n"
  using sig_inv_count[OF sig_reach_inv[OF assms], of n] by simp

theorem handled_at_most_arrived_witness:
  "count_list (handled left_behind) SIGUSR1 \<le> count_list (arrived left_behind) SIGUSR1 \<and> handled left_behind = [SIGUSR1]"
  using handled_at_most_arrived[OF left_behind_reach, of SIGUSR1] by (simp add: left_behind_def)

text \<open>A restart signal can be left behind. If it arrives while \<^verbatim>\<open>process_signals\<close> is past its entry, its flag is set, but
  \<^verbatim>\<open>sig_delivered\<close> is cleared at the end nevertheless; the main loop then never looks at the flags again, until another
  signal arrives.\<close>

theorem restart_left_behind:
  "sig_reach left_behind \<and> SIGHUP \<in> set (arrived left_behind) \<and> SIGHUP \<notin> set (handled left_behind) \<and> {r. main_step left_behind r} = {left_behind}"
proof -
  have "main_step left_behind r \<longleftrightarrow> r = left_behind" for r
    by (auto simp: left_behind_def elim: main_stepE intro: main_step.idle)
  then show ?thesis using left_behind_reach by (simp add: left_behind_def SIGHUP_def SIGUSR1_def)
qed

text \<open>The process that \<^verbatim>\<open>pidfile_create\<close> recorded is the one that \<^verbatim>\<open>sig_send_to_pid\<close> sends the signal to, whatever the file held
  before.\<close>

theorem pidfile_roundtrip:
  assumes "pidfile_create u True True pid file = (r, file')" and "1 < pid"
  shows "r = 0 \<and> pidfile_read file' = pid \<and> sig_send_to_pid (\<lambda>_. True) file' = (0, Some pid)"
  using assms by (auto simp: pidfile_create_def pidfile_read_def sig_send_to_pid_def fscanf_dec Let_def)

theorem pidfile_roundtrip_witness:
  "sig_send_to_pid (\<lambda>_. True) (snd (pidfile_create True True True 4711 (Some ''1''))) = (0, Some 4711)"
  using pidfile_roundtrip[of True 4711 "Some ''1''", OF surjective_pairing] by simp

text \<open>The command line saved for a restart is the one given, followed by \<^verbatim>\<open>-x\<close> and a null pointer; no store leaves the
  arrays. The environment is copied with its null pointer, except that an empty one is left uninitialised.\<close>

theorem savecmd_appends:
  "\<exists>e. proc_savecmd args envs no_env_param = Some e \<and> argv e = map Str args @ [Str ''-x'', Null] \<and> argc e = int (length args) + 1
     \<and> envp e = map Str envs @ [if envs = [] then Uninit else Null]"
proof -
  let ?n = "length args"
  have "copy_args (map Str args @ [Null]) (max ?n 1) 0 (replicate (?n + 1) Uninit) =
      Some (if args = [] then [Null] else map Str args @ [Uninit])"
    using copy_args_ok[of "[]" 0 "map Str args @ [Null]" "max ?n 1" "?n + 1 - max ?n 1"] by (cases args) auto
  moreover have "put (if args = [] then [Null] else map Str args @ [Uninit]) (int ?n) Null = Some (map Str args @ [Null])"
    using put_at[of "int ?n" "map Str args" Uninit "[]" Null] by (cases args) (auto simp: put_def)
  moreover have "copy_env envs 0 [Uninit] = Some (map Str envs @ [if envs = [] then Uninit else Null])"
    using copy_env_ok[of "[]" 0 envs Uninit] by simp
  ultimately show ?thesis
    using addparam_appends[of "no_env_param\<lparr>argc := int ?n, argv := map Str args @ [Null], envp := map Str envs @ [if envs = [] then Uninit else Null]\<rparr>" "map Str args" "''-x''"]
    by (cases "envs = []") (auto simp: proc_savecmd_def Let_def)
qed

text \<open>Adding to the environment always stores past the end of the array: the array is given room for one element less than
  the index of the null pointer needs.\<close>

theorem addenv_overflows: "proc_addenv s e = None"
  by (auto simp: proc_addenv_def put_def realloc_cells_def Let_def)

end
