(* ===== verification/Pattern_Search.thy ===== *)
theory Pattern_Search
  imports Patterns
begin

text \<open>
  What a pattern means, and that the backtracking matcher decides it. \<open>pm src mc cs s p cs' e\<close> is the declarative
  meaning: from position \<open>s\<close> of the subject, with the captures \<open>cs\<close>, the pattern \<open>p\<close> can match up to \<open>e\<close>, leaving the
  captures \<open>cs'\<close>. It has no search order, no recursion limit and no repetition counter. The matcher's answer, when
  it records no error, is a match in this sense, and when it is \<open>None\<close> there is none; the captures of a failed
  attempt are undone.
\<close>

section \<open>The meaning of patterns\<close>

definition class_end :: "string \<Rightarrow> string option" where
  "class_end p =
     (if peek p = L_ESC then (if length p < 2 then None else Some (drop 2 p))
      else if peek p = CHR ''['' then bracket_end (if peek (tl p) = CHR ''^'' then drop 2 p else tl p)
      else Some (tl p))"

definition is_item :: "string \<Rightarrow> bool" where
  "is_item p \<longleftrightarrow> p \<noteq> [] \<and> peek p \<noteq> CHR ''('' \<and> peek p \<noteq> CHR '')'' \<and> p \<noteq> ''$''
     \<and> \<not> (peek p = L_ESC \<and> (peek (tl p) = CHR ''b'' \<or> peek (tl p) = CHR ''f'' \<or> isdigit (uchar (peek (tl p)))))"

text \<open>How often an item may match, by the character after it; \<open>None\<close> when it is not a suffix.\<close>

definition repeats :: "char \<Rightarrow> (nat \<Rightarrow> bool) option" where
  "repeats c =
     (if c = CHR ''?'' then Some (\<lambda>k. k \<le> 1) else if c = CHR ''+'' then Some (\<lambda>k. 1 \<le> k)
      else if c = CHR ''*'' \<or> c = CHR ''-'' then Some (\<lambda>k. True) else None)"

text \<open>A back reference to the closed capture \<open>l\<close> (counted from 0) matches a copy of its text.\<close>

definition backref :: "string \<Rightarrow> capt list \<Rightarrow> nat \<Rightarrow> nat \<Rightarrow> nat \<Rightarrow> bool" where
  "backref src cs l s s' \<longleftrightarrow> l < length cs \<and> snd (cs ! l) \<noteq> CAP_UNFINISHED \<and> 0 \<le> snd (cs ! l)
     \<and> s' = s + nat (snd (cs ! l)) \<and> s' \<le> length src
     \<and> take (nat (snd (cs ! l))) (drop (fst (cs ! l)) src) = take (nat (snd (cs ! l))) (drop s src)"

definition at_frontier :: "string \<Rightarrow> nat \<Rightarrow> string \<Rightarrow> string \<Rightarrow> bool" where
  "at_frontier src s q ep \<longleftrightarrow>
     \<not> matchbracketclass (uchar (if s = 0 then NUL else src ! (s - 1))) q (length ep + 1)
     \<and> matchbracketclass (uchar (peek (drop s src))) q (length ep + 1)"

inductive pm :: "string \<Rightarrow> int \<Rightarrow> capt list \<Rightarrow> nat \<Rightarrow> string \<Rightarrow> capt list \<Rightarrow> nat \<Rightarrow> bool"
  for src mc where
  pm_end: "pm src mc cs s [] cs s"
| pm_position: "int (length cs) < mc \<Longrightarrow> pm src mc (cs @ [(s, CAP_POSITION)]) s p cs' e
    \<Longrightarrow> pm src mc cs s (CHR ''('' # CHR '')'' # p) cs' e"
| pm_open: "int (length cs) < mc \<Longrightarrow> peek p \<noteq> CHR '')'' \<Longrightarrow> pm src mc (cs @ [(s, CAP_UNFINISHED)]) s p cs' e
    \<Longrightarrow> pm src mc cs s (CHR ''('' # p) cs' e"
| pm_close: "last_unfinished cs (length cs) = Some l
    \<Longrightarrow> pm src mc (cs[l := (fst (cs ! l), int s - int (fst (cs ! l)))]) s p cs' e
    \<Longrightarrow> pm src mc cs s (CHR '')'' # p) cs' e"
| pm_dollar: "pm src mc cs (length src) ''$'' cs (length src)"
| pm_balance: "s < length src \<Longrightarrow> src ! s = b \<Longrightarrow> balance_loop src b c (s + 1) 1 = Some s'
    \<Longrightarrow> pm src mc cs s' p cs' e \<Longrightarrow> pm src mc cs s (L_ESC # CHR ''b'' # b # c # p) cs' e"
| pm_frontier: "class_end (CHR ''['' # q) = Some ep \<Longrightarrow> at_frontier src s (CHR ''['' # q) ep
    \<Longrightarrow> pm src mc cs s ep cs' e \<Longrightarrow> pm src mc cs s (L_ESC # CHR ''f'' # CHR ''['' # q) cs' e"
| pm_backref: "isdigit (uchar d) \<Longrightarrow> uchar d = l + 49 \<Longrightarrow> backref src cs l s s' \<Longrightarrow> pm src mc cs s' p cs' e
    \<Longrightarrow> pm src mc cs s (L_ESC # d # p) cs' e"
| pm_one: "is_item p \<Longrightarrow> class_end p = Some ep \<Longrightarrow> repeats (peek ep) = None \<Longrightarrow> singlematch src s p ep
    \<Longrightarrow> pm src mc cs (s + 1) ep cs' e \<Longrightarrow> pm src mc cs s p cs' e"
| pm_repeat: "is_item p \<Longrightarrow> class_end p = Some ep \<Longrightarrow> repeats (peek ep) = Some ok \<Longrightarrow> ok k
    \<Longrightarrow> (\<And>i. i < k \<Longrightarrow> singlematch src (s + i) p ep) \<Longrightarrow> pm src mc cs (s + k) (tl ep) cs' e
    \<Longrightarrow> pm src mc cs s p cs' e"

section \<open>Good states and results\<close>

definition caps :: "match_state \<Rightarrow> capt list" where
  "caps ms = take (level ms) (capture ms)"

definition ms_wf :: "string \<Rightarrow> match_state \<Rightarrow> nat \<Rightarrow> bool" where
  "ms_wf src ms s \<longleftrightarrow> s \<le> length src \<and> length (capture ms) = MAXCAPTURES \<and> maxcaptures ms < int MAXCAPTURES
     \<and> level ms \<le> MAXCAPTURES \<and> int (level ms) \<le> max 0 (maxcaptures ms)
     \<and> (\<forall>(i, n) \<in> set (caps ms). i \<le> s \<and> CAP_POSITION \<le> n \<and> int i + n \<le> int s)"

text \<open>\<open>decides src ms s R res\<close>: from a good state, \<open>res\<close> is an answer to the question whether there are captures and an
  end position with \<open>R\<close>; it may instead have recorded an error.\<close>

definition decides :: "string \<Rightarrow> match_state \<Rightarrow> nat \<Rightarrow> (capt list \<Rightarrow> nat \<Rightarrow> bool) \<Rightarrow> match_result \<Rightarrow> bool" where
  "decides src ms s R res \<longleftrightarrow> (case res of (ms', r) \<Rightarrow>
     length (capture ms') = length (capture ms) \<and> maxcaptures ms' = maxcaptures ms
     \<and> (error ms' = None \<longrightarrow> error ms = None)
     \<and> (case r of
          None \<Rightarrow> level ms' = level ms \<and> caps ms' = caps ms \<and> (error ms' = None \<longrightarrow> (\<forall>cs e. \<not> R cs e))
        | Some e \<Rightarrow> s \<le> e \<and> ms_wf src ms' e \<and> (error ms' = None \<longrightarrow> R (caps ms') e)))"

definition realises :: "string \<Rightarrow> string \<Rightarrow> (match_state \<Rightarrow> nat \<Rightarrow> match_result) \<Rightarrow> bool" where
  "realises src p m \<longleftrightarrow>
     (\<forall>ms s. ms_wf src ms s \<longrightarrow> decides src ms s (pm src (maxcaptures ms) (caps ms) s p) (m ms s))"

lemma realisesD:
  "realises src p m \<Longrightarrow> ms_wf src ms s \<Longrightarrow> decides src ms s (pm src (maxcaptures ms) (caps ms) s p) (m ms s)"
  by (simp add: realises_def)

lemma decides_None:
  "decides src ms s R (ms', None) \<longleftrightarrow> length (capture ms') = length (capture ms) \<and> maxcaptures ms' = maxcaptures ms
     \<and> (error ms' = None \<longrightarrow> error ms = None) \<and> level ms' = level ms \<and> caps ms' = caps ms
     \<and> (error ms' = None \<longrightarrow> (\<forall>cs e. \<not> R cs e))"
  by (simp add: decides_def)

lemma decides_Some:
  "decides src ms s R (ms', Some e) \<longleftrightarrow> length (capture ms') = length (capture ms) \<and> maxcaptures ms' = maxcaptures ms
     \<and> (error ms' = None \<longrightarrow> error ms = None) \<and> s \<le> e \<and> ms_wf src ms' e \<and> (error ms' = None \<longrightarrow> R (caps ms') e)"
  by (simp add: decides_def)

lemmas decides_simps = decides_None decides_Some

lemma match_error_simps [simp]:
  "error (match_error ms e) \<noteq> None" "capture (match_error ms e) = capture ms" "level (match_error ms e) = level ms"
  "maxcaptures (match_error ms e) = maxcaptures ms" "caps (match_error ms e) = caps ms"
  "ms_wf src (match_error ms e) s = ms_wf src ms s"
  by (auto simp: match_error_def caps_def ms_wf_def split: option.splits)

lemma match_error_Some [simp]: "\<exists>y. error (match_error ms e) = Some y"
  by (simp add: match_error_def split: option.split)

lemma counters_irrelevant [simp]:
  "caps (ms\<lparr>matchdepth := d\<rparr>) = caps ms" "caps (ms\<lparr>repetitioncounter := d\<rparr>) = caps ms"
  "ms_wf src (ms\<lparr>matchdepth := d\<rparr>) s = ms_wf src ms s" "ms_wf src (ms\<lparr>repetitioncounter := d\<rparr>) s = ms_wf src ms s"
  by (auto simp: caps_def ms_wf_def)

lemma ms_wf_later: "ms_wf src ms s \<Longrightarrow> s \<le> s' \<Longrightarrow> s' \<le> length src \<Longrightarrow> ms_wf src ms s'"
  by (fastforce simp: ms_wf_def)

text \<open>A failed attempt leaves a state as good as the one before.\<close>

lemma ms_wf_undone:
  "ms_wf src ms s \<Longrightarrow> decides src ms s0 R (ms', None) \<Longrightarrow> ms_wf src ms' s"
  by (auto simp: ms_wf_def decides_None)

lemma decides_later:
  "decides src ms s' R res \<Longrightarrow> s \<le> s' \<Longrightarrow> decides src ms s R res"
  by (auto simp: decides_def split: option.splits)

lemma decides_cong:
  assumes "decides src ms s R res" and "\<And>cs e. R cs e \<longleftrightarrow> Q cs e"
  shows "decides src ms s Q res"
proof -
  have "R = Q" using assms(2) by blast
  with assms(1) show ?thesis by simp
qed

lemma decides_error: "ms_wf src ms s \<Longrightarrow> decides src ms s R (match_error ms e, None)"
  by (simp add: decides_None)

lemma decides_fail: "(\<And>cs e. \<not> R cs e) \<Longrightarrow> decides src ms s R (ms, None)"
  by (simp add: decides_None)

lemma decides_counters [simp]:
  "decides src (ms\<lparr>repetitioncounter := d\<rparr>) s R res = decides src ms s R res"
  by (cases res; cases "snd res") (auto simp: decides_simps)

text \<open>Trying something else after a failed attempt.\<close>

lemma decides_orelse:
  assumes "decides src ms s R (ms', None)" and "decides src ms' s' Q res" and "s \<le> s'"
  shows "decides src ms s (\<lambda>cs e. R cs e \<or> Q cs e) res"
  using assms by (cases res; cases "snd res") (auto simp: decides_simps)

lemma decides_first:
  "decides src ms s R (ms', Some r) \<Longrightarrow> decides src ms s (\<lambda>cs e. R cs e \<or> Q cs e) (ms', Some r)"
  by (auto simp: decides_simps)

section \<open>The building blocks decide their part\<close>

lemma enter_match_realises:
  assumes "realises src p body"
  shows "realises src p (enter_match body)"
  unfolding realises_def
proof (intro allI impI)
  fix ms s
  assume wf: "ms_wf src ms s"
  obtain ms2 r where b: "body (ms\<lparr>matchdepth := matchdepth ms - 1\<rparr>) s = (ms2, r)" by fastforce
  have "decides src (ms\<lparr>matchdepth := matchdepth ms - 1\<rparr>) s (pm src (maxcaptures ms) (caps ms) s p) (ms2, r)"
    using realisesD[OF assms, of "ms\<lparr>matchdepth := matchdepth ms - 1\<rparr>" s] wf b by simp
  then have "decides src ms s (pm src (maxcaptures ms) (caps ms) s p) (ms2\<lparr>matchdepth := matchdepth ms2 + 1\<rparr>, r)"
    by (cases r) (auto simp: decides_simps)
  then show "decides src ms s (pm src (maxcaptures ms) (caps ms) s p) (enter_match body ms s)"
    using wf b by (auto simp: enter_match_def Let_def decides_None)
qed

lemma count_single_le:
  "k \<le> count_single src s p ep \<longleftrightarrow> (\<forall>i < k. singlematch src (s + i) p ep)"
proof (induction src s p ep arbitrary: k rule: count_single.induct)
  case (1 src s p ep)
  show ?case
  proof (cases k)
    case (Suc j)
    have "(\<forall>i < Suc j. singlematch src (s + i) p ep) \<longleftrightarrow>
        singlematch src s p ep \<and> (\<forall>i < j. singlematch src (Suc s + i) p ep)"
      by (auto simp: less_Suc_eq_0_disj)
    with Suc 1 show ?thesis by (subst count_single.simps) auto
  qed simp
qed

lemma singlematch_in: "singlematch src s p ep \<Longrightarrow> s < length src"
  by (auto simp: singlematch_def split: if_splits)

lemma count_single_in: "s \<le> length src \<Longrightarrow> s + count_single src s p ep \<le> length src"
proof (induction src s p ep rule: count_single.induct)
  case (1 src s p ep)
  then show ?case using singlematch_in[of src s p ep] by (subst count_single.simps) auto
qed

lemma try_down_decides:
  assumes m: "realises src p m" and "ms_wf src ms s" and "s + i \<le> length src"
  shows "decides src ms s (\<lambda>cs e. \<exists>k \<le> i. pm src (maxcaptures ms) (caps ms) (s + k) p cs e) (try_down m ms s i)"
  using assms(2,3)
proof (induction i arbitrary: ms)
  case 0
  from realisesD[OF m 0(1)] show ?case by (subst try_down.simps) (auto split: prod.split option.split)
next
  case (Suc j)
  let ?P = "\<lambda>k. pm src (maxcaptures ms) (caps ms) (s + k) p"
  obtain ms' r where b: "m ms (s + Suc j) = (ms', r)" by fastforce
  have d: "decides src ms s (?P (Suc j)) (ms', r)"
    using realisesD[OF m ms_wf_later[OF Suc.prems(1)], of "s + Suc j"] Suc.prems b decides_later by auto
  have eq: "(\<lambda>cs e. \<exists>k \<le> Suc j. ?P k cs e) = (\<lambda>cs e. ?P (Suc j) cs e \<or> (\<exists>k \<le> j. ?P k cs e))"
    by (auto simp: fun_eq_iff le_Suc_eq)
  show ?case
  proof (cases r)
    case None
    have "decides src ms' s (\<lambda>cs e. \<exists>k \<le> j. ?P k cs e) (try_down m ms' s j)"
      using Suc.IH[of ms'] ms_wf_undone[OF Suc.prems(1)] d Suc.prems(2) None by (auto simp: decides_None)
    with decides_orelse[OF d[unfolded None] this] show ?thesis
      unfolding eq using b None by (subst try_down.simps) simp
  next
    case (Some e)
    with decides_first[OF d[unfolded Some]] show ?thesis
      unfolding eq using b by (subst try_down.simps) simp
  qed
qed

lemma max_expand_decides:
  assumes "realises src (tl ep) m" and "ms_wf src ms s"
  shows "decides src ms s (\<lambda>cs e. \<exists>k. (\<forall>i < k. singlematch src (s + i) p ep)
      \<and> pm src (maxcaptures ms) (caps ms) (s + k) (tl ep) cs e) (max_expand m src ms s p ep)"
proof -
  have "s + count_single src s p ep \<le> length src" using assms(2) count_single_in by (simp add: ms_wf_def)
  from try_down_decides[OF assms this] show ?thesis
    unfolding max_expand_def by (rule decides_cong) (simp add: count_single_le)
qed

lemma min_expand_decides:
  assumes m: "realises src (tl ep) m" and wf: "ms_wf src ms s"
  shows "decides src ms s (\<lambda>cs e. \<exists>k. (\<forall>i < k. singlematch src (s + i) p ep)
      \<and> pm src (maxcaptures ms) (caps ms) (s + k) (tl ep) cs e) (min_expand m src ms s p ep)"
  using wf
proof (induction "length src - s" arbitrary: ms s rule: less_induct)
  case less
  let ?P = "\<lambda>s. pm src (maxcaptures ms) (caps ms) s (tl ep)"
  obtain ms' r where b: "m ms s = (ms', r)" by fastforce
  have d: "decides src ms s (?P s) (ms', r)" using realisesD[OF m less.prems] b by simp
  have eq: "(\<exists>k. (\<forall>i < k. singlematch src (s + i) p ep) \<and> ?P (s + k) cs e)
      \<longleftrightarrow> ?P s cs e \<or> singlematch src s p ep \<and>
        (\<exists>k. (\<forall>i < k. singlematch src (Suc s + i) p ep) \<and> ?P (Suc s + k) cs e)" (is "?l \<longleftrightarrow> ?r") for cs e
  proof
    assume ?l
    then obtain k where k: "\<forall>i < k. singlematch src (s + i) p ep" "?P (s + k) cs e" by blast
    show ?r
    proof (cases k)
      case (Suc j)
      from k(1) Suc have "singlematch src s p ep" "\<forall>i < j. singlematch src (Suc s + i) p ep" by auto
      with k(2) Suc show ?thesis by auto
    qed (use k in simp)
  next
    assume ?r
    then show ?l
    proof
      assume "singlematch src s p ep \<and> (\<exists>k. (\<forall>i < k. singlematch src (Suc s + i) p ep) \<and> ?P (Suc s + k) cs e)"
      then obtain k where "singlematch src s p ep" "\<forall>i < k. singlematch src (Suc s + i) p ep" "?P (Suc s + k) cs e"
        by blast
      then show ?l by (intro exI[of _ "Suc k"]) (auto simp: less_Suc_eq_0_disj)
    qed (auto intro: exI[of _ 0])
  qed
  show ?case
  proof (cases r)
    case (Some e)
    with decides_first[OF d[unfolded Some]] show ?thesis
      unfolding eq using b by (subst min_expand.simps) simp
  next
    case None
    have wf': "ms_wf src ms' s" using ms_wf_undone[OF less.prems] d None by auto
    show ?thesis
    proof (cases "singlematch src s p ep")
      case True
      then have s: "s < length src" by (rule singlematch_in)
      then have "decides src ms' (Suc s) (\<lambda>cs e. \<exists>k. (\<forall>i < k. singlematch src (Suc s + i) p ep) \<and> ?P (Suc s + k) cs e)
          (min_expand m src ms' (Suc s) p ep)"
        using less.hyps[of "Suc s" ms'] ms_wf_later[OF wf', of "Suc s"] d None by (auto simp: decides_None)
      from decides_orelse[OF d[unfolded None] this] show ?thesis
        unfolding eq using b None True by (subst min_expand.simps) simp
    next
      case False
      then show ?thesis unfolding eq using b None d by (subst min_expand.simps) simp
    qed
  qed
qed

section \<open>Captures\<close>

lemma caps_length: "ms_wf src ms s \<Longrightarrow> length (caps ms) = level ms"
  by (simp add: caps_def ms_wf_def)

lemma start_capture_decides:
  assumes m: "realises src p m" and wf: "ms_wf src ms s" and w: "what = CAP_POSITION \<or> what = CAP_UNFINISHED"
  shows "decides src ms s (\<lambda>cs e. int (length (caps ms)) < maxcaptures ms
      \<and> pm src (maxcaptures ms) (caps ms @ [(s, what)]) s p cs e) (start_capture m ms s what)"
proof (cases "maxcaptures ms \<le> int (level ms)")
  case True
  with wf show ?thesis by (simp add: start_capture_def decides_None)
next
  case False
  define ms1 where "ms1 = ms\<lparr>capture := (capture ms)[level ms := (s, what)], level := level ms + 1\<rparr>"
  have lt: "level ms < length (capture ms)" using False wf by (auto simp: ms_wf_def)
  then have c1: "caps ms1 = caps ms @ [(s, what)]"
    by (simp add: ms1_def caps_def take_Suc_conv_app_nth)
  have "ms_wf src ms1 s" using wf w lt False unfolding ms_wf_def c1
    by (auto simp: ms1_def CAP_POSITION_def CAP_UNFINISHED_def)
  from realisesD[OF m this] have d: "decides src ms1 s (pm src (maxcaptures ms) (caps ms @ [(s, what)]) s p) (m ms1 s)"
    by (simp add: c1) (simp add: ms1_def)
  have f1: "error ms1 = error ms" "maxcaptures ms1 = maxcaptures ms" "level ms1 = level ms + 1"
    "length (capture ms1) = length (capture ms)" by (simp_all add: ms1_def)
  obtain ms' r where b: "m ms1 s = (ms', r)" by fastforce
  have L: "int (length (caps ms)) < maxcaptures ms" using caps_length[OF wf] False by simp
  have run: "start_capture m ms s what = (case r of None \<Rightarrow> (ms'\<lparr>level := level ms' - 1\<rparr>, None) | Some e \<Rightarrow> (ms', Some e))"
    using False b by (simp add: start_capture_def ms1_def split: option.split)
  show ?thesis
  proof (cases r)
    case None
    have "caps (ms'\<lparr>level := level ms' - 1\<rparr>) = butlast (caps ms')"
      using d b None lt f1 by (simp add: caps_def decides_None butlast_take)
    also have "\<dots> = caps ms" using d b None c1 by (simp add: decides_None)
    finally show ?thesis using d b None L f1 unfolding run by (auto simp: decides_None)
  next
    case (Some e)
    then show ?thesis using d b L f1 unfolding run by (auto simp: decides_Some)
  qed
qed

lemma last_unfinished_caps:
  "l \<le> length cs \<Longrightarrow> last_unfinished (take l cs) k = last_unfinished cs k" if "k \<le> l"
  using that by (induction k) auto

lemma last_unfinished_Some:
  "last_unfinished cs k = Some l \<Longrightarrow> l < k \<and> snd (cs ! l) = CAP_UNFINISHED"
  by (induction k) (auto split: if_splits)

lemma end_capture_decides:
  assumes m: "realises src p m" and wf: "ms_wf src ms s"
  shows "decides src ms s (\<lambda>cs e. \<exists>l. last_unfinished (caps ms) (length (caps ms)) = Some l
      \<and> pm src (maxcaptures ms) ((caps ms)[l := (fst (caps ms ! l), int s - int (fst (caps ms ! l)))]) s p cs e)
      (end_capture m ms s)"
proof -
  have L: "length (caps ms) = level ms" "level ms \<le> length (capture ms)"
    using caps_length[OF wf] wf by (auto simp: ms_wf_def)
  have lu: "last_unfinished (caps ms) (length (caps ms)) = last_unfinished (capture ms) (level ms)"
    using last_unfinished_caps[of "level ms" "level ms" "capture ms"] L by (simp add: caps_def)
  show ?thesis
  proof (cases "last_unfinished (capture ms) (level ms)")
    case None
    with wf show ?thesis by (simp add: end_capture_def capture_to_close_def lu decides_None)
  next
    case (Some l)
    from last_unfinished_Some[OF Some] have l: "l < level ms" "snd (capture ms ! l) = CAP_UNFINISHED" by auto
    define i where "i = fst (capture ms ! l)"
    define ms1 where "ms1 = ms\<lparr>capture := (capture ms)[l := (i, int s - int i)]\<rparr>"
    have f1: "error ms1 = error ms" "maxcaptures ms1 = maxcaptures ms" "level ms1 = level ms"
      "length (capture ms1) = length (capture ms)" by (simp_all add: ms1_def)
    have cl: "caps ms ! l = capture ms ! l" using l by (simp add: caps_def)
    have c1: "caps ms1 = (caps ms)[l := (i, int s - int i)]" by (simp add: ms1_def caps_def take_update_swap)
    have "caps ms ! l \<in> set (caps ms)" using l L by simp
    then have i_s: "i \<le> s" using wf cl by (auto simp: ms_wf_def i_def)
    then have wf1: "ms_wf src ms1 s" using wf unfolding ms_wf_def c1
      by (auto simp: ms1_def CAP_POSITION_def dest!: set_update_subset_insert[THEN subsetD])
    obtain ms' r where b: "m ms1 s = (ms', r)" by fastforce
    have d: "decides src ms1 s (pm src (maxcaptures ms) ((caps ms)[l := (i, int s - int i)]) s p) (ms', r)"
      using realisesD[OF m wf1] b by (simp add: c1) (simp add: ms1_def)
    have run: "end_capture m ms s = (case r of
        None \<Rightarrow> (ms'\<lparr>capture := (capture ms')[l := (fst (capture ms' ! l), CAP_UNFINISHED)]\<rparr>, None)
      | Some e \<Rightarrow> (ms', Some e))"
      using Some b by (simp add: end_capture_def capture_to_close_def ms1_def i_def Let_def split: option.split)
    show ?thesis
    proof (cases r)
      case None
      have c': "caps ms' = (caps ms)[l := (i, int s - int i)]" "level ms' = level ms" "length (capture ms') = length (capture ms)"
        using d None c1 by (auto simp: decides_None ms1_def)
      have "capture ms' ! l = caps ms' ! l" using l c'(2) by (simp add: caps_def)
      then have f: "fst (capture ms' ! l) = i" using l L c'(1) by simp
      have "caps (ms'\<lparr>capture := (capture ms')[l := (i, CAP_UNFINISHED)]\<rparr>) = (caps ms')[l := (i, CAP_UNFINISHED)]"
        by (simp add: caps_def take_update_swap)
      also have "\<dots> = caps ms"
        using c'(1) cl l L by (simp add: i_def list_update_same_conv prod_eq_iff)
      finally show ?thesis using d None Some lu cl f c' f1 unfolding run
        by (auto simp: decides_None i_def[symmetric])
    next
      case (Some e)
      then show ?thesis using d lu cl f1 \<open>last_unfinished _ _ = Some l\<close> unfolding run
        by (auto simp: decides_Some i_def[symmetric])
    qed
  qed
qed

lemma check_capture_backref:
  assumes wf: "ms_wf src ms s" and d: "isdigit d"
  shows "decides src ms s (\<lambda>cs e. \<exists>l. d = l + 49 \<and> cs = caps ms \<and> backref src (caps ms) l s e) (match_capture src ms s d)"
proof -
  have L: "length (caps ms) = level ms" using caps_length[OF wf] .
  have u: "uchar (CHR ''1'') = 49" by (simp add: uchar_def)
  show ?thesis
  proof (cases "d < 49 \<or> level ms \<le> d - 49 \<or> snd (capture ms ! (d - 49)) = CAP_UNFINISHED")
    case True
    then show ?thesis using wf by (simp add: match_capture_def check_capture_def u decides_None)
  next
    case False
    then have l: "d - 49 < level ms" "caps ms ! (d - 49) = capture ms ! (d - 49)" "d = (d - 49) + 49"
      by (auto simp: caps_def)
    obtain i n where c: "capture ms ! (d - 49) = (i, n)" by fastforce
    have sl: "s \<le> length src" using wf by (simp add: ms_wf_def)
    have br: "(\<exists>l. d = l + 49 \<and> cs = caps ms \<and> backref src (caps ms) l s e) \<longleftrightarrow>
        cs = caps ms \<and> e = s + nat n \<and> 0 \<le> n \<and> n \<le> int (length src) - int s
        \<and> take (nat n) (drop i src) = take (nat n) (drop s src)" for cs e
      using l False c L unfolding backref_def by (auto simp: nat_le_iff)
    show ?thesis unfolding br
      using False c wf ms_wf_later[OF wf, of "s + nat n"]
      by (auto simp: match_capture_def check_capture_def u decides_simps)
  qed
qed

section \<open>Unfolding the meaning at the head of the pattern\<close>

lemma pm_Nil_iff: "pm src mc cs s [] cs' e \<longleftrightarrow> cs' = cs \<and> e = s"
  by (subst pm.simps) (auto simp: is_item_def)

lemma pm_paren_iff:
  "pm src mc cs s (CHR ''('' # q) cs' e \<longleftrightarrow> int (length cs) < mc \<and>
     (if peek q = CHR '')'' then pm src mc (cs @ [(s, CAP_POSITION)]) s (tl q) cs' e
      else pm src mc (cs @ [(s, CAP_UNFINISHED)]) s q cs' e)"
proof (cases "peek q = CHR '')''")
  case True
  then obtain r where "q = CHR '')'' # r" by (cases q) auto
  then show ?thesis by (subst pm.simps) (auto simp: is_item_def)
qed (subst pm.simps, auto simp: is_item_def)

lemma pm_close_iff:
  "pm src mc cs s (CHR '')'' # q) cs' e \<longleftrightarrow> (\<exists>l. last_unfinished cs (length cs) = Some l
     \<and> pm src mc (cs[l := (fst (cs ! l), int s - int (fst (cs ! l)))]) s q cs' e)"
  by (subst pm.simps) (auto simp: is_item_def)

lemma pm_dollar_iff: "pm src mc cs s ''$'' cs' e \<longleftrightarrow> s = length src \<and> cs' = cs \<and> e = s"
  by (subst pm.simps) (auto simp: is_item_def)

lemma pm_balance_iff:
  "pm src mc cs s (L_ESC # CHR ''b'' # q) cs' e \<longleftrightarrow> 2 \<le> length q \<and> s < length src \<and> src ! s = q ! 0
     \<and> (\<exists>s'. balance_loop src (q ! 0) (q ! 1) (s + 1) 1 = Some s' \<and> pm src mc cs s' (drop 2 q) cs' e)" (is "?l \<longleftrightarrow> ?r")
proof -
  have nd: "\<not> isdigit (uchar (CHR ''b''))" by (simp add: isdigit_def uchar_def)
  have sh: "2 \<le> length q \<longleftrightarrow> (\<exists>b c p. q = b # c # p)" by (cases q; cases "tl q") auto
  show ?thesis using nd unfolding sh by (subst pm.simps) (auto simp: is_item_def)
qed

lemma pm_frontier_iff:
  "pm src mc cs s (L_ESC # CHR ''f'' # q) cs' e \<longleftrightarrow> peek q = CHR ''['' \<and>
     (\<exists>ep. class_end q = Some ep \<and> at_frontier src s q ep \<and> pm src mc cs s ep cs' e)"
proof -
  have nd: "\<not> isdigit (uchar (CHR ''f''))" by (simp add: isdigit_def uchar_def)
  have sh: "peek q = CHR ''['' \<longleftrightarrow> (\<exists>r. q = CHR ''['' # r)" by (cases q) auto
  show ?thesis using nd unfolding sh by (subst pm.simps) (auto simp: is_item_def)
qed

lemma pm_backref_iff:
  assumes "isdigit (uchar d)"
  shows "pm src mc cs s (L_ESC # d # q) cs' e \<longleftrightarrow>
     (\<exists>l s'. uchar d = l + 49 \<and> backref src cs l s s' \<and> pm src mc cs s' q cs' e)"
proof -
  have "d \<noteq> CHR ''b''" "d \<noteq> CHR ''f''" using assms by (auto simp: isdigit_def uchar_def)
  with assms show ?thesis by (subst pm.simps) (auto simp: is_item_def)
qed

lemma pm_item_iff:
  assumes it: "is_item p"
  shows "pm src mc cs s p cs' e \<longleftrightarrow> (\<exists>ep. class_end p = Some ep \<and>
     (case repeats (peek ep) of
        None \<Rightarrow> singlematch src s p ep \<and> pm src mc cs (s + 1) ep cs' e
      | Some ok \<Rightarrow> \<exists>k. ok k \<and> (\<forall>i < k. singlematch src (s + i) p ep) \<and> pm src mc cs (s + k) (tl ep) cs' e))"
    (is "?l \<longleftrightarrow> ?r")
proof
  assume ?l
  then show ?r using it by cases (auto simp: is_item_def)
next
  assume ?r
  then obtain ep where ep: "class_end p = Some ep" and alt: "case repeats (peek ep) of
        None \<Rightarrow> singlematch src s p ep \<and> pm src mc cs (s + 1) ep cs' e
      | Some ok \<Rightarrow> \<exists>k. ok k \<and> (\<forall>i < k. singlematch src (s + i) p ep) \<and> pm src mc cs (s + k) (tl ep) cs' e" by blast
  show ?l
  proof (cases "repeats (peek ep)")
    case None
    with alt pm_one[OF it ep None] show ?thesis by auto
  next
    case (Some ok)
    with alt pm_repeat[OF it ep Some] show ?thesis by auto
  qed
qed

lemma classend_class_end:
  assumes "p \<noteq> []"
  shows "case class_end p of
           Some ep \<Rightarrow> classend ms p = (ms, ep)
         | None \<Rightarrow> \<exists>err. classend ms p = (match_error ms err, [])"
proof -
  obtain c q where p: "p = c # q" using assms by (cases p) auto
  show ?thesis
    by (cases q) (auto simp: p class_end_def classend_def drop_Suc split: option.split)
qed

lemma balance_loop_in: "balance_loop src b c s n = Some s' \<Longrightarrow> s \<le> s' \<and> s' \<le> length src"
proof (induction src b c s n rule: balance_loop.induct)
  case (1 src b c s n)
  from 1(4) show ?case
    by (subst (asm) balance_loop.simps) (auto split: if_splits dest: 1(1) 1(2) 1(3))
qed

section \<open>The matcher decides the meaning\<close>

text \<open>Items with a suffix.\<close>

lemma match_init_item:
  assumes it: "is_item p"
  shows "match_init src ms s p =
     (case classend ms p of (ms, ep) \<Rightarrow>
        if error ms \<noteq> None then (ms, Some s)
        else if \<not> singlematch src s p ep then
          (if repetitioncounter ms = 0 then
             (match_error (ms\<lparr>repetitioncounter := repetitioncounter ms - 1\<rparr>) ''max repetition items'', None)
           else
             let ms = ms\<lparr>repetitioncounter := repetitioncounter ms - 1\<rparr> in
             if peek ep = CHR ''*'' \<or> peek ep = CHR ''?'' \<or> peek ep = CHR ''-''
             then match_init src ms s (tl ep)
             else (ms, None))
        else if peek ep = CHR ''?'' then
          (case enter_match (\<lambda>ms s. match_init src ms s (tl ep)) ms (s + 1) of
             (ms', Some r) \<Rightarrow> (ms', Some r)
           | (ms', None) \<Rightarrow> match_init src ms' s (tl ep))
        else if peek ep = CHR ''+'' then
          max_expand (enter_match (\<lambda>ms s. match_init src ms s (tl ep))) src ms (s + 1) p ep
        else if peek ep = CHR ''*'' then
          max_expand (enter_match (\<lambda>ms s. match_init src ms s (tl ep))) src ms s p ep
        else if peek ep = CHR ''-'' then
          min_expand (enter_match (\<lambda>ms s. match_init src ms s (tl ep))) src ms s p ep
        else match_init src ms (s + 1) ep)"
proof -
  have no: "p \<noteq> []" "peek p \<noteq> CHR ''(''" "peek p \<noteq> CHR '')''"
    "(peek p = L_ESC \<and> peek (tl p) = CHR ''b'') = False" "(peek p = L_ESC \<and> peek (tl p) = CHR ''f'') = False"
    "(peek p = L_ESC \<and> isdigit (uchar (peek (tl p)))) = False"
    using it by (auto simp: is_item_def)
  have nd: "(peek p = CHR ''$'' \<and> tl p = []) = False" using it by (cases p) (auto simp: is_item_def)
  show ?thesis by (subst match_init.simps) (simp only: no nd if_False if_True)
qed

lemma repeats_cases:
  obtains "c = CHR ''?''" | "c = CHR ''+''" | "c = CHR ''*''" | "c = CHR ''-''" | "repeats c = None"
    "c \<noteq> CHR ''?''" "c \<noteq> CHR ''+''" "c \<noteq> CHR ''*''" "c \<noteq> CHR ''-''"
  by (cases "c = CHR ''?'' \<or> c = CHR ''+'' \<or> c = CHR ''*'' \<or> c = CHR ''-''") (auto simp: repeats_def)

text \<open>What the rest of the item means once the item is known to match at \<open>s\<close>, or not to.\<close>

lemma pm_item_none:
  assumes "is_item p" and "class_end p = Some ep" and "\<not> singlematch src s p ep"
  shows "pm src mc cs s p cs' e \<longleftrightarrow> (peek ep = CHR ''*'' \<or> peek ep = CHR ''?'' \<or> peek ep = CHR ''-'')
     \<and> pm src mc cs s (tl ep) cs' e"
proof -
  have "(\<forall>i < k. singlematch src (s + i) p ep) \<longleftrightarrow> k = 0" for k
    using assms(3) by (cases k) auto
  with assms show ?thesis by (subst pm_item_iff) (auto simp: repeats_def)
qed

lemma pm_item_optional:
  assumes "is_item p" and "class_end p = Some ep" and "singlematch src s p ep" and "peek ep = CHR ''?''"
  shows "pm src mc cs (s + 1) (tl ep) cs' e \<or> pm src mc cs s (tl ep) cs' e \<longleftrightarrow> pm src mc cs s p cs' e"
proof -
  have "(\<exists>k \<le> 1. (\<forall>i < k. singlematch src (s + i) p ep) \<and> pm src mc cs (s + k) (tl ep) cs' e)
      \<longleftrightarrow> pm src mc cs (s + 1) (tl ep) cs' e \<or> pm src mc cs s (tl ep) cs' e"
    using assms(3) by (auto simp: le_Suc_eq)
  with pm_item_iff[OF assms(1), of src mc cs s cs' e] assms(2,4) show ?thesis by (simp add: repeats_def)
qed

lemma pm_item_plus:
  assumes "is_item p" and "class_end p = Some ep" and "singlematch src s p ep" and "peek ep = CHR ''+''"
  shows "(\<exists>k. (\<forall>i < k. singlematch src (s + 1 + i) p ep) \<and> pm src mc cs (s + 1 + k) (tl ep) cs' e)
     \<longleftrightarrow> pm src mc cs s p cs' e" (is "?l \<longleftrightarrow> ?r")
proof
  assume ?l
  then obtain k where "\<forall>i < k. singlematch src (s + 1 + i) p ep" "pm src mc cs (s + 1 + k) (tl ep) cs' e" by blast
  then show ?r using assms
    by (subst pm_item_iff) (auto simp: repeats_def less_Suc_eq_0_disj intro!: exI[of _ "Suc k"])
next
  assume ?r
  with assms obtain k where k: "1 \<le> k" "\<forall>i < k. singlematch src (s + i) p ep" "pm src mc cs (s + k) (tl ep) cs' e"
    by (subst (asm) pm_item_iff) (auto simp: repeats_def)
  have "singlematch src (s + 1 + i) p ep" if "i < k - 1" for i
    using k(2)[rule_format, of "i + 1"] that by (simp add: add.commute add.left_commute)
  with k(1,3) show ?l by (intro exI[of _ "k - 1"]) auto
qed

lemma pm_item_star:
  assumes "is_item p" and "class_end p = Some ep" and "peek ep = CHR ''*'' \<or> peek ep = CHR ''-''"
  shows "(\<exists>k. (\<forall>i < k. singlematch src (s + i) p ep) \<and> pm src mc cs (s + k) (tl ep) cs' e) \<longleftrightarrow> pm src mc cs s p cs' e"
  using assms by (subst (2) pm_item_iff) (auto simp: repeats_def)

lemma optional_decides:
  assumes m: "realises src q m" and body: "realises src q b" and wf: "ms_wf src ms s" "ms_wf src ms (s + 1)"
  shows "decides src ms s (\<lambda>cs e. pm src (maxcaptures ms) (caps ms) (s + 1) q cs e \<or> pm src (maxcaptures ms) (caps ms) s q cs e)
     (case m ms (s + 1) of (ms', Some r) \<Rightarrow> (ms', Some r) | (ms', None) \<Rightarrow> b ms' s)"
proof -
  obtain ms' r where r: "m ms (s + 1) = (ms', r)" by fastforce
  have d: "decides src ms s (pm src (maxcaptures ms) (caps ms) (s + 1) q) (ms', r)"
    using decides_later[OF realisesD[OF m wf(2)], of s] r by simp
  show ?thesis
  proof (cases r)
    case None
    have "decides src ms' s (pm src (maxcaptures ms) (caps ms) s q) (b ms' s)"
      using realisesD[OF body ms_wf_undone[OF wf(1) d[unfolded None]]] d None by (auto simp: decides_None)
    from decides_orelse[OF d[unfolded None] this] show ?thesis using r None by simp
  qed (use decides_first d r in auto)
qed

lemma item_decides:
  assumes it: "is_item p" and wf: "ms_wf src ms s" and ce: "class_end p = Some ep" and noerr: "error ms = None"
    and tl: "realises src (tl ep) (\<lambda>ms s. match_init src ms s (tl ep))"
    and ep: "realises src ep (\<lambda>ms s. match_init src ms s ep)"
  shows "decides src ms s (pm src (maxcaptures ms) (caps ms) s p) (match_init src ms s p)"
proof -
  let ?R = "pm src (maxcaptures ms) (caps ms)" and ?m = "enter_match (\<lambda>ms s. match_init src ms s (tl ep))"
  let ?dec = "ms\<lparr>repetitioncounter := repetitioncounter ms - 1\<rparr>"
  have "p \<noteq> []" using it by (simp add: is_item_def)
  then have cl: "classend ms p = (ms, ep)" using classend_class_end[of p ms] ce by simp
  note run = match_init_item[OF it, of src ms s, unfolded cl prod.case]
  have m: "realises src (tl ep) ?m" by (rule enter_match_realises[OF tl])
  show ?thesis
  proof (cases "singlematch src s p ep")
    case False
    have "decides src ?dec s (?R s (tl ep)) (match_init src ?dec s (tl ep))"
      using realisesD[OF tl, of ?dec s] wf by simp
    then have "decides src ms s (?R s (tl ep)) (match_init src ?dec s (tl ep))" by simp
    then show ?thesis using False noerr unfolding run
      by (auto simp: pm_item_none[OF it ce False, abs_def] decides_None Let_def)
  next
    case True
    note wf1 = ms_wf_later[OF wf, of "s + 1"]
    have wf1: "ms_wf src ms (s + 1)" using ms_wf_later[OF wf, of "s + 1"] singlematch_in[OF True] by simp
    show ?thesis
    proof (cases "peek ep" rule: repeats_cases)
      case 1
      with decides_cong[OF optional_decides[OF m tl wf wf1] pm_item_optional[OF it ce True]] True noerr
      show ?thesis unfolding run by simp
    next
      case 2
      with decides_later[OF decides_cong[OF max_expand_decides[OF m wf1] pm_item_plus[OF it ce True]], of s] True noerr
      show ?thesis unfolding run by simp
    next
      case 3
      with decides_cong[OF max_expand_decides[OF m wf] pm_item_star[OF it ce]] True noerr
      show ?thesis unfolding run by simp
    next
      case 4
      with decides_cong[OF min_expand_decides[OF m wf] pm_item_star[OF it ce]] True noerr
      show ?thesis unfolding run by simp
    next
      case 5
      have "?R (s + 1) ep cs e \<longleftrightarrow> ?R s p cs e" for cs e
        using 5(1) True ce pm_item_iff[OF it, of src "maxcaptures ms" "caps ms" s cs e] by simp
      from decides_later[OF decides_cong[OF realisesD[OF ep wf1] this], of s] 5 True noerr
      show ?thesis unfolding run by simp
    qed
  qed
qed

text \<open>Balanced strings, frontiers and back references.\<close>

lemma balance_decides:
  assumes wf: "ms_wf src ms s" and body: "realises src (drop 2 q) (\<lambda>ms s. match_init src ms s (drop 2 q))"
  shows "decides src ms s (pm src (maxcaptures ms) (caps ms) s (L_ESC # CHR ''b'' # q))
     (case matchbalance src ms s q of (ms, None) \<Rightarrow> (ms, None) | (ms, Some s) \<Rightarrow> match_init src ms s (drop 2 q))"
proof (cases "2 \<le> length q \<and> s < length src \<and> src ! s = q ! 0")
  case True
  have pk: "peek (drop s src) = peek q" using True by (cases q) (auto simp: Cons_nth_drop_Suc[symmetric])
  show ?thesis
  proof (cases "balance_loop src (q ! 0) (q ! 1) (s + 1) 1")
    case None
    with True pk show ?thesis by (simp add: matchbalance_def decides_None pm_balance_iff)
  next
    case (Some s')
    from balance_loop_in[OF Some] have s': "s \<le> s'" "s' \<le> length src" by auto
    have "pm src (maxcaptures ms) (caps ms) s' (drop 2 q) cs e
        \<longleftrightarrow> pm src (maxcaptures ms) (caps ms) s (L_ESC # CHR ''b'' # q) cs e" for cs e
      using True Some by (simp add: pm_balance_iff)
    from decides_later[OF decides_cong[OF realisesD[OF body ms_wf_later[OF wf s']] this] s'(1)] True pk Some
    show ?thesis by (simp add: matchbalance_def)
  qed
next
  case False
  have "balance_loop src b c (s + 1) n = None" if "\<not> s < length src" for b c n
    using that by (subst balance_loop.simps) simp
  moreover have "peek (drop s src) \<noteq> peek q" if "2 \<le> length q" "s < length src" "src ! s \<noteq> q ! 0"
    using that by (cases q) (auto simp: Cons_nth_drop_Suc[symmetric])
  ultimately show ?thesis using False wf
    by (cases "s < length src") (auto simp: matchbalance_def decides_None pm_balance_iff)
qed

lemma frontier_decides:
  assumes wf: "ms_wf src ms s" and noerr: "error ms = None" and q: "peek q = CHR ''[''"
    and body: "\<And>ep. class_end q = Some ep \<Longrightarrow> realises src ep (\<lambda>ms s. match_init src ms s ep)"
  shows "decides src ms s (pm src (maxcaptures ms) (caps ms) s (L_ESC # CHR ''f'' # q))
     (case classend ms q of (ms, ep) \<Rightarrow>
        if error ms \<noteq> None then (ms, Some s)
        else if at_frontier src s q ep then match_init src ms s ep else (ms, None))"
proof -
  have ne: "q \<noteq> []" using q by auto
  show ?thesis
  proof (cases "class_end q")
    case None
    then obtain err where "classend ms q = (match_error ms err, [])"
      using classend_class_end[OF ne, of ms] by auto
    then show ?thesis using wf by (simp add: decides_Some del: not_None_eq)
  next
    case (Some ep)
    then have cl: "classend ms q = (ms, ep)" using classend_class_end[OF ne, of ms] by simp
    show ?thesis
    proof (cases "at_frontier src s q ep")
      case True
      have "pm src (maxcaptures ms) (caps ms) s ep cs e
          \<longleftrightarrow> pm src (maxcaptures ms) (caps ms) s (L_ESC # CHR ''f'' # q) cs e" for cs e
        using True Some q by (simp add: pm_frontier_iff)
      from decides_cong[OF realisesD[OF body[OF Some] wf] this] True cl noerr show ?thesis by simp
    next
      case False
      with Some cl noerr show ?thesis by (simp add: decides_None pm_frontier_iff)
    qed
  qed
qed

lemma backref_decides:
  assumes wf: "ms_wf src ms s" and d: "isdigit (uchar d)"
    and body: "realises src q (\<lambda>ms s. match_init src ms s q)"
  shows "decides src ms s (pm src (maxcaptures ms) (caps ms) s (L_ESC # d # q))
     (case match_capture src ms s (uchar d) of (ms, None) \<Rightarrow> (ms, None) | (ms, Some s) \<Rightarrow> match_init src ms s q)"
proof -
  obtain ms' r where b: "match_capture src ms s (uchar d) = (ms', r)" by fastforce
  have dec: "decides src ms s (\<lambda>cs e. \<exists>l. uchar d = l + 49 \<and> cs = caps ms \<and> backref src (caps ms) l s e) (ms', r)"
    using check_capture_backref[OF wf d] b by simp
  show ?thesis
  proof (cases r)
    case None
    with dec b show ?thesis by (auto simp: decides_None pm_backref_iff[OF d])
  next
    case (Some s')
    have ms': "ms' = ms" using b Some
      by (auto simp: match_capture_def check_capture_def Let_def split: if_splits prod.splits)
    have wf': "ms_wf src ms s'" "s \<le> s'" using dec Some ms' by (auto simp: decides_Some)
    have uniq: "(\<exists>l t. uchar d = l + 49 \<and> backref src (caps ms) l s t \<and> P t) \<longleftrightarrow> P s'"
      if "error ms = None" for P
      using dec Some ms' that by (auto simp: decides_Some backref_def)
    have "decides src ms s' (pm src (maxcaptures ms) (caps ms) s' q) (match_init src ms s' q)"
      using realisesD[OF body wf'(1)] .
    then have "decides src ms s (pm src (maxcaptures ms) (caps ms) s (L_ESC # d # q)) (match_init src ms s' q)"
      using wf'(2) uniq
      by (cases "match_init src ms s' q"; cases "snd (match_init src ms s' q)") (auto simp: decides_simps pm_backref_iff[OF d])
    then show ?thesis using b Some ms' by simp
  qed
qed

text \<open>The body of \<^verbatim>\<open>match\<close> by the head of the pattern.\<close>

lemma head_cases:
  obtains "p = []" | q where "p = CHR ''('' # q" | q where "p = CHR '')'' # q" | "p = ''$''"
    | q where "p = L_ESC # CHR ''b'' # q" | q where "p = L_ESC # CHR ''f'' # q"
    | d q where "p = L_ESC # d # q" "isdigit (uchar d)" | "is_item p"
proof (cases p)
  case (Cons c q)
  have nd: "\<not> isdigit (uchar NUL)" by (simp add: isdigit_def uchar_def)
  show ?thesis
  proof (cases "is_item p")
    case False
    with Cons consider "c = CHR ''(''" | "c = CHR '')''" | "p = ''$''"
      | "c = L_ESC" "peek q = CHR ''b'' \<or> peek q = CHR ''f'' \<or> isdigit (uchar (peek q))"
      by (auto simp: is_item_def)
    then show ?thesis using that Cons nd by cases (cases q; auto)+
  qed (use that in blast)
qed (use that in blast)

lemma drop_heads: "drop 2 (a # b # q) = q" "drop 4 (a # b # q) = drop 2 q"
  by (simp_all add: numeral_eq_Suc)

lemma classend_frame:
  "ms_wf src (fst (classend ms p)) s = ms_wf src ms s" "capture (fst (classend ms p)) = capture ms"
  "maxcaptures (fst (classend ms p)) = maxcaptures ms"
  by (auto simp: classend_def split: list.split option.split)

lemma classend_error: "p \<noteq> [] \<Longrightarrow> class_end p = None \<or> error ms \<noteq> None \<Longrightarrow> error (fst (classend ms p)) \<noteq> None"
  using classend_class_end[of p ms] by (auto split: option.splits simp del: not_None_eq)

lemma match_init_realises: "realises src p (\<lambda>ms s. match_init src ms s p)"
proof (induction "length p" arbitrary: p rule: less_induct)
  case less
  have IH: "realises src q (\<lambda>ms s. match_init src ms s q)" if "length q < length p" for q
    using less that by blast
  show ?case
    unfolding realises_def
  proof (intro allI impI)
    fix ms s
    assume wf: "ms_wf src ms s"
    let ?R = "pm src (maxcaptures ms) (caps ms) s p"
    show "decides src ms s ?R (match_init src ms s p)"
    proof (cases p rule: head_cases)
      case 1
      then show ?thesis using wf by (subst match_init.simps) (simp add: decides_Some pm_Nil_iff)
    next
      case (2 q)
      let ?w = "if peek q = CHR '')'' then CAP_POSITION else CAP_UNFINISHED"
      let ?q = "if peek q = CHR '')'' then tl q else q"
      have "realises src ?q (enter_match (\<lambda>ms s. match_init src ms s ?q))"
        using IH[of ?q] 2 by (intro enter_match_realises) auto
      from start_capture_decides[OF this wf, of ?w] have "decides src ms s ?R
          (start_capture (enter_match (\<lambda>ms s. match_init src ms s ?q)) ms s ?w)"
        by (auto simp: 2 pm_paren_iff elim!: decides_cong)
      then show ?thesis by (subst match_init.simps) (auto simp: 2 drop_Suc)
    next
      case (3 q)
      have "realises src q (enter_match (\<lambda>ms s. match_init src ms s q))"
        using IH[of q] 3 by (intro enter_match_realises) auto
      from end_capture_decides[OF this wf] have "decides src ms s ?R (end_capture (enter_match (\<lambda>ms s. match_init src ms s q)) ms s)"
        by (rule decides_cong) (simp add: 3 pm_close_iff)
      then show ?thesis by (subst match_init.simps) (simp add: 3)
    next
      case 4
      then show ?thesis using wf by (subst match_init.simps) (auto simp: decides_simps pm_dollar_iff)
    next
      case (5 q)
      from balance_decides[OF wf IH[of "drop 2 q"]] 5 show ?thesis
        by (subst match_init.simps) (simp add: drop_heads)
    next
      case (6 q)
      have body: "realises src ep (\<lambda>ms s. match_init src ms s ep)" if "class_end q = Some ep" "peek q = CHR ''[''" for ep
        using IH[of ep] classend_class_end[of q ms] classend_shorter[of q ms] that 6 by (cases q) auto
      show ?thesis
      proof (cases "peek q = CHR ''['' \<and> error ms = None")
        case True
        then have "match_init src ms s p = (case classend ms q of (ms, ep) \<Rightarrow>
            if error ms \<noteq> None then (ms, Some s)
            else if at_frontier src s q ep then match_init src ms s ep else (ms, None))"
          by (subst match_init.simps, cases "classend ms q") (simp add: 6 drop_heads at_frontier_def Let_def)
        with frontier_decides[OF wf, of q] True body 6 show ?thesis by simp
      next
        case False
        have "error (fst (classend ms q)) \<noteq> None" if "peek q = CHR ''[''"
          using classend_error[of q ms] that False by (cases q) auto
        then have "match_init src ms s p = (if peek q = CHR ''['' then (fst (classend ms q), Some s)
            else (match_error ms ''missing '[' after '%f' in pattern'', Some s))"
          by (subst match_init.simps) (auto simp: 6 drop_heads Let_def split: prod.split)
        then show ?thesis using wf False classend_error[of q ms]
          by (cases q) (auto simp: decides_Some classend_frame)
      qed
    next
      case (7 d q)
      then have "d \<noteq> CHR ''b''" "d \<noteq> CHR ''f''" by (auto simp: isdigit_def uchar_def)
      with backref_decides[OF wf 7(2) IH[of q]] 7 show ?thesis
        by (subst match_init.simps) (simp add: drop_heads)
    next
      case 8
      then have ne: "p \<noteq> []" by (simp add: is_item_def)
      show ?thesis
      proof (cases "class_end p = None \<or> error ms \<noteq> None")
        case True
        then have err: "error (fst (classend ms p)) \<noteq> None" using classend_error[OF ne] by blast
        then have "match_init src ms s p = (fst (classend ms p), Some s)"
          by (cases "classend ms p") (simp add: match_init_item[OF 8])
        with err wf show ?thesis by (auto simp: decides_Some classend_frame)
      next
        case False
        then obtain ep where ep: "class_end p = Some ep" by auto
        have "length ep < length p" using classend_class_end[OF ne, of ms] classend_shorter[OF ne, of ms] ep by simp
        with item_decides[OF 8 wf ep _ IH IH] False show ?thesis by fastforce
      qed
    qed
  qed
qed

section \<open>Searching a subject\<close>

lemma match_realises: "realises src p (\<lambda>ms s. match src ms s p)"
  unfolding match_def using enter_match_realises[OF match_init_realises] by (simp add: eta_contract_eq)

definition occurs_at :: "string \<Rightarrow> string \<Rightarrow> nat \<Rightarrow> bool" where
  "occurs_at s1 s2 i \<longleftrightarrow> take (length s2) (drop i s1) = s2"

lemma occurs_at_Cons:
  "occurs_at s1 (c # cs) i \<longleftrightarrow> i < length s1 \<and> s1 ! i = c \<and> take (length cs) (drop (Suc i) s1) = cs"
  by (cases "i < length s1") (auto simp: occurs_at_def Cons_nth_drop_Suc[symmetric])

lemma occurs_at_bound:
  assumes "occurs_at s1 s2 i" and "s2 \<noteq> []"
  shows "i + length s2 \<le> length s1"
proof -
  have "length (take (length s2) (drop i s1)) = length s2" using assms(1) by (simp add: occurs_at_def)
  then have "length s2 \<le> length s1 - i" by (simp add: min_def split: if_splits)
  moreover have "0 < length s2" using assms(2) by simp
  ultimately show ?thesis by linarith
qed

lemma lmem_loop_spec:
  assumes "s2 = c # cs" and "i + l1 = length s1 - length cs" and "length cs \<le> length s1"
  shows "case lmem_loop s1 s2 i l1 of
           Some j \<Rightarrow> i \<le> j \<and> occurs_at s1 s2 j \<and> (\<forall>k. i \<le> k \<and> k < j \<longrightarrow> \<not> occurs_at s1 s2 k)
         | None \<Rightarrow> \<forall>k \<ge> i. \<not> occurs_at s1 s2 k"
  using assms
proof (induction s1 s2 i l1 rule: lmem_loop.induct)
  case (1 s1 s2 i l1)
  have beyond: "\<not> occurs_at s1 s2 k" if "i + l1 \<le> k" for k
    using occurs_at_bound[of s1 s2 k] 1(2,3,4) that by auto
  show ?case
  proof (cases "find_char c (take l1 (drop i s1))")
    case None
    then have "c \<notin> set (take l1 (drop i s1))" by (simp add: find_char_None)
    then have "s1 ! k \<noteq> c" if "i \<le> k" "k < i + l1" "k < length s1" for k
    proof -
      have "k - i < length s1 - i \<and> k - i < l1" using that by linarith
      with that \<open>c \<notin> _\<close> nth_mem[of "k - i" "take l1 (drop i s1)"] show ?thesis by auto
    qed
    then have no: "\<forall>k \<ge> i. \<not> occurs_at s1 s2 k" using beyond 1(2) occurs_at_Cons[of s1 c cs] by (meson not_le)
    have "lmem_loop s1 s2 i l1 = None" using None 1(2) by (subst lmem_loop.simps) simp
    with no show ?thesis by simp
  next
    case (Some n)
    from find_char_Some[OF Some] have n: "n < l1" "i + n < length s1" "s1 ! (i + n) = c" "c \<notin> set (take n (take l1 (drop i s1)))"
      by auto
    have before: "\<not> occurs_at s1 s2 k" if "i \<le> k" "k < i + n" for k
    proof -
      have "s1 ! k \<in> set (take n (take l1 (drop i s1)))"
        using that n(1,2) by (auto simp: in_set_conv_nth intro!: exI[of _ "k - i"])
      with n(4) show ?thesis using 1(2) by (auto simp: occurs_at_Cons)
    qed
    show ?thesis
    proof (cases "take (length cs) (drop (Suc (i + n)) s1) = cs")
      case True
      then have "lmem_loop s1 s2 i l1 = Some (i + n)" using Some n 1(2) by (subst lmem_loop.simps) auto
      moreover have "occurs_at s1 s2 (i + n)" using True n 1(2) by (simp add: occurs_at_Cons)
      ultimately show ?thesis using before by simp
    next
      case False
      then have run: "lmem_loop s1 s2 i l1 = lmem_loop s1 s2 (i + n + 1) (l1 - (n + 1))"
        using Some n 1(2) by (subst lmem_loop.simps) auto
      have here: "\<not> occurs_at s1 s2 (i + n)" using False 1(2) by (simp add: occurs_at_Cons)
      have sofar: "\<not> occurs_at s1 s2 k" if "i \<le> k" "k < i + n + 1" for k
        using that before[of k] here by (cases "k = i + n") auto
      have IH: "case lmem_loop s1 s2 (i + n + 1) (l1 - (n + 1)) of
           Some j \<Rightarrow> i + n + 1 \<le> j \<and> occurs_at s1 s2 j \<and> (\<forall>k. i + n + 1 \<le> k \<and> k < j \<longrightarrow> \<not> occurs_at s1 s2 k)
         | None \<Rightarrow> \<forall>k \<ge> i + n + 1. \<not> occurs_at s1 s2 k"
        using 1(1)[of n] 1(2,3,4) n(1) Some False by auto
      show ?thesis unfolding run using IH sofar by (auto split: option.splits) (meson not_le)+
    qed
  qed
qed

lemma lmemfind_spec:
  "case lmemfind s1 s2 of
     Some j \<Rightarrow> occurs_at s1 s2 j \<and> (\<forall>k < j. \<not> occurs_at s1 s2 k)
   | None \<Rightarrow> \<forall>k. \<not> occurs_at s1 s2 k"
proof (cases s2)
  case Nil
  then show ?thesis by (simp add: lmemfind_def occurs_at_def)
next
  case (Cons c cs)
  show ?thesis
  proof (cases "length s1 < length s2")
    case True
    then have "\<not> occurs_at s1 s2 k" for k using occurs_at_bound[of s1 s2 k] Cons by auto
    with True Cons show ?thesis by (simp add: lmemfind_def)
  next
    case False
    with lmem_loop_spec[OF Cons, of 0 "length s1 - length cs" s1] Cons show ?thesis
      by (simp add: lmemfind_def split: option.splits)
  qed
qed

text \<open>The spans pushed for the captures.\<close>

definition span_of :: "capt \<Rightarrow> str_span" where
  "span_of c = (int (fst c), max (int (fst c)) (int (fst c) + snd c))"

definition match_spans :: "nat \<Rightarrow> nat \<Rightarrow> capt list \<Rightarrow> str_span list" where
  "match_spans s e cs = (if cs = [] then [(int s, int e)] else map span_of cs)"

lemma push_one_capture:
  assumes "i < level ms"
  shows "push_onecapture ms i s e = (if snd (capture ms ! i) = CAP_UNFINISHED
     then (match_error ms ''unfinished capture'', None) else (ms, Some (span_of (capture ms ! i))))"
  using assms by (auto simp: push_onecapture_def span_of_def Let_def max_def split: prod.split)

lemma push_loop_spans:
  assumes "push_loop ms i n s e sm = (ms', sm')" and "error ms' = None" and "i + n \<le> level ms" and "i + n \<le> length sm"
  shows "ms' = ms \<and> length sm' = length sm \<and> (\<forall>k < i. sm' ! k = sm ! k)
     \<and> (\<forall>k. i \<le> k \<and> k < i + n \<longrightarrow> snd (capture ms ! k) \<noteq> CAP_UNFINISHED \<and> sm' ! k = span_of (capture ms ! k))"
  using assms
proof (induction n arbitrary: i sm)
  case (Suc n)
  have u: "snd (capture ms ! i) \<noteq> CAP_UNFINISHED"
    using Suc.prems push_one_capture[of i ms s e] by (auto split: if_splits)
  then have run: "push_loop ms (i + 1) n s e (sm[i := span_of (capture ms ! i)]) = (ms', sm')"
    using Suc.prems push_one_capture[of i ms s e] by simp
  have IH: "ms' = ms" "length sm' = length sm" "\<forall>k < i + 1. sm' ! k = (sm[i := span_of (capture ms ! i)]) ! k"
    "\<forall>k. i + 1 \<le> k \<and> k < i + 1 + n \<longrightarrow> snd (capture ms ! k) \<noteq> CAP_UNFINISHED \<and> sm' ! k = span_of (capture ms ! k)"
    using Suc.IH[OF run Suc.prems(2)] Suc.prems(3,4) by auto
  have "snd (capture ms ! k) \<noteq> CAP_UNFINISHED \<and> sm' ! k = span_of (capture ms ! k)" if "i \<le> k" "k < i + Suc n" for k
    using that IH(3,4) u Suc.prems(4) by (cases "k = i") auto
  with IH show ?case by auto
qed auto

lemma push_captures_spans:
  assumes p: "push_captures ms s e sm = (n, ms', sm')" and err: "error ms' = None"
    and l: "level ms \<le> length sm" "sm \<noteq> []" "level ms \<le> length (capture ms)" and se: "s \<le> e"
  shows "ms' = ms \<and> n = length (match_spans s e (caps ms)) \<and> take n sm' = match_spans s e (caps ms)
     \<and> (\<forall>c \<in> set (caps ms). snd c \<noteq> CAP_UNFINISHED)"
proof (cases "level ms = 0")
  case True
  moreover have "min 1 (length sm) = 1" using l(2) by (cases sm) auto
  ultimately show ?thesis using p se l(2)
    by (cases sm) (auto simp: push_captures_def push_onecapture_def match_spans_def caps_def Let_def)
next
  case False
  then have run: "push_loop ms 0 (level ms) s e sm = (ms', sm')" "n = level ms"
    using p l(1) by (auto simp: push_captures_def Let_def min_def split: prod.splits)
  have P: "ms' = ms" "length sm' = length sm"
    "\<And>k. k < level ms \<Longrightarrow> snd (capture ms ! k) \<noteq> CAP_UNFINISHED \<and> sm' ! k = span_of (capture ms ! k)"
    using push_loop_spans[OF run(1) err] l(1) by auto
  have "take n sm' = map span_of (caps ms)"
    using P l run(2) by (intro nth_equalityI) (auto simp: caps_def)
  moreover have "caps ms \<noteq> []" "length (caps ms) = level ms" using False l by (auto simp: caps_def)
  moreover have "\<forall>c \<in> set (caps ms). snd c \<noteq> CAP_UNFINISHED"
    using P(3) l(3) by (fastforce simp: caps_def in_set_conv_nth)
  ultimately show ?thesis using P run(2) by (simp add: match_spans_def)
qed

text \<open>\<open>found src p s1 anchor s e cs\<close>: searching from \<open>s1\<close>, the pattern first matches at \<open>s\<close>, up to \<open>e\<close>, with the captures
  \<open>cs\<close>, all of them closed and inside the match's prefix of the subject.\<close>

definition matches_at :: "string \<Rightarrow> string \<Rightarrow> nat \<Rightarrow> bool" where
  "matches_at src p s \<longleftrightarrow> (\<exists>cs e. pm src (int MAXCAPTURES - 1) [] s p cs e)"

definition found :: "string \<Rightarrow> string \<Rightarrow> nat \<Rightarrow> bool \<Rightarrow> nat \<Rightarrow> nat \<Rightarrow> capt list \<Rightarrow> bool" where
  "found src p s1 anchor s e cs \<longleftrightarrow> pm src (int MAXCAPTURES - 1) [] s p cs e \<and> s1 \<le> s \<and> s \<le> e \<and> e \<le> length src
     \<and> (anchor \<longrightarrow> s = s1) \<and> (\<forall>t \<ge> s1. t < s \<longrightarrow> \<not> matches_at src p t)
     \<and> (\<forall>(i, n) \<in> set cs. i \<le> e \<and> int i + n \<le> int e \<and> n \<noteq> CAP_UNFINISHED)"

lemma find_from_ok:
  assumes "find_from src ms s1 p anchor sm = Some (ret, ms', sm')" and "error ms' = None"
    and "ms_wf src (ms\<lparr>level := 0\<rparr>) s1" and "length sm = MAXCAPTURES" and "maxcaptures ms = int MAXCAPTURES - 1"
  shows "if ret = 0 then \<forall>s \<ge> s1. s \<le> (if anchor then s1 else length src) \<longrightarrow> \<not> matches_at src p s
     else \<exists>s e cs. found src p s1 anchor s e cs \<and> ret = 1 + int (length (match_spans s e cs))
       \<and> take (nat ret) sm' = (0, int (length src)) # match_spans s e cs"
  using assms
proof (induction "length src - s1" arbitrary: ms s1 rule: less_induct)
  case less
  let ?ms = "ms\<lparr>level := 0\<rparr>" and ?P = "\<lambda>s. pm src (int MAXCAPTURES - 1) [] s p"
  obtain m1 r where b: "match src ?ms s1 p = (m1, r)" by fastforce
  have d: "decides src ?ms s1 (?P s1) (m1, r)"
    using realisesD[OF match_realises less.prems(3), of p] b less.prems(5) by (simp add: caps_def)
  show ?case
  proof (cases r)
    case (Some e)
    obtain x sm1 where sm: "sm = x # sm1" "length sm1 = MAXCAPTURES - 1"
      using less.prems(4) by (cases sm) (auto simp: MAXCAPTURES_def)
    obtain n m2 sm2 where p: "push_captures m1 s1 e sm1 = (n, m2, sm2)" by (cases "push_captures m1 s1 e sm1") auto
    have res: "ret = int n + 1" "ms' = m2" "sm' = (0, int (length src)) # sm2"
      using less.prems(1) b Some sm(1) p by (subst (asm) find_from.simps, simp)+
    have wf: "ms_wf src m1 e" "s1 \<le> e" "maxcaptures m1 = int MAXCAPTURES - 1" using d Some less.prems(5) by (auto simp: decides_Some)
    have lev: "level m1 \<le> length sm1" using wf(1,3) sm(2) by (auto simp: ms_wf_def MAXCAPTURES_def)
    have ne: "sm1 \<noteq> []" using sm(2) by (auto simp: MAXCAPTURES_def)
    have lc: "level m1 \<le> length (capture m1)" using wf(1) by (simp add: ms_wf_def)
    note P = push_captures_spans[OF p less.prems(2)[unfolded res(2)] lev ne lc wf(2)]
    have "?P s1 (caps m1) e" using d Some P less.prems(2) res(2) by (simp add: decides_Some)
    then have "found src p s1 anchor s1 e (caps m1)" using P wf by (fastforce simp: found_def ms_wf_def)
    moreover have "take (nat ret) sm' = (0, int (length src)) # match_spans s1 e (caps m1)"
      using P res by (auto simp: nat_add_distrib)
    moreover have "ret = 1 + int (length (match_spans s1 e (caps m1)))" using P res by simp
    ultimately show ?thesis by auto
  next
    case None
    have no: "\<not> matches_at src p s1" if "error m1 = None"
      using d None that by (simp add: decides_None matches_at_def)
    have run: "find_from src ms s1 p anchor sm = (if error m1 \<noteq> None then Some (0, m1, sm)
        else if s1 < length src \<and> \<not> anchor then find_from src m1 (s1 + 1) p anchor sm else Some (0, m1, sm))"
      using b None by (subst find_from.simps) simp
    show ?thesis
    proof (cases "error m1 = None \<and> s1 < length src \<and> \<not> anchor")
      case True
      have wf: "ms_wf src (m1\<lparr>level := 0\<rparr>) (s1 + 1)" "maxcaptures m1 = int MAXCAPTURES - 1"
        using d None True less.prems(3,5) by (auto simp: decides_None ms_wf_def caps_def MAXCAPTURES_def)
      have ext: "(\<forall>t \<ge> s1. Q t \<longrightarrow> \<not> matches_at src p t) \<longleftrightarrow> (\<forall>t \<ge> s1 + 1. Q t \<longrightarrow> \<not> matches_at src p t)" for Q
      proof -
        have nm: "\<not> matches_at src p s1" using no True by simp
        have "t = s1 \<or> s1 + 1 \<le> t" if "s1 \<le> t" for t using that by linarith
        with nm show ?thesis by (metis add_leD1)
      qed
      have "find_from src m1 (s1 + 1) p anchor sm = Some (ret, ms', sm')" using less.prems(1) run True by simp
      note IH = less.hyps[OF _ this less.prems(2) wf(1) less.prems(4) wf(2)]
      have up: "found src p s1 anchor s e cs" if "found src p (s1 + 1) anchor s e cs" for s e cs
        using that True unfolding found_def ext by auto
      have lt: "length src - (s1 + 1) < length src - s1" using True by linarith
      show ?thesis
      proof (cases "ret = 0")
        case False
        with IH[OF lt] have "\<exists>s e cs. found src p (s1 + 1) anchor s e cs \<and> ret = 1 + int (length (match_spans s e cs))
            \<and> take (nat ret) sm' = (0, int (length src)) # match_spans s e cs" by simp
        with up have "\<exists>s e cs. found src p s1 anchor s e cs \<and> ret = 1 + int (length (match_spans s e cs))
            \<and> take (nat ret) sm' = (0, int (length src)) # match_spans s e cs" by blast
        with False show ?thesis by simp
      qed (use IH[OF lt] True ext[of "\<lambda>t. t \<le> length src"] in auto)
    next
      case False
      then have "ret = 0 \<and> error m1 = None \<and> (anchor \<or> s1 = length src)"
        using less.prems(1,2,3) run by (auto simp: ms_wf_def split: if_splits)
      with no show ?thesis by (auto simp: le_antisym)
    qed
  qed
qed

text \<open>Every search over a non-empty array of spans returns.\<close>

lemma find_from_total: "sm \<noteq> [] \<Longrightarrow> \<exists>r. find_from src ms s1 p anchor sm = Some r"
proof (induction src ms s1 p anchor sm rule: find_from.induct)
  case (1 src ms s1 p anchor sm)
  obtain y ys where sm: "sm = y # ys" using 1(2) by (cases sm) auto
  obtain m r where b: "match src (ms\<lparr>level := 0\<rparr>) s1 p = (m, r)" by fastforce
  show ?case
  proof (cases "r = None \<and> error m = None \<and> s1 < length src \<and> \<not> anchor")
    case True
    with 1(1)[OF b[symmetric]] 1(2) b show ?thesis by (subst find_from.simps) auto
  next
    case False
    then show ?thesis using b sm
      by (subst find_from.simps) (auto split: option.split prod.split)
  qed
qed

definition pat_anchored :: "string \<Rightarrow> bool" where "pat_anchored pattern \<longleftrightarrow> peek pattern = CHR ''^''"
definition pat_body :: "string \<Rightarrow> string" where
  "pat_body pattern = (if pat_anchored pattern then tl pattern else pattern)"

definition start_state :: match_state where
  "start_state = zero_state\<lparr>maxcaptures := int MAXCAPTURES - 1, matchdepth := MAXCCALLS, repetitioncounter := MAXREPETITION\<rparr>"

lemma start_state_wf: "ms_wf src (start_state\<lparr>level := 0\<rparr>) 0"
  by (simp add: ms_wf_def start_state_def zero_state_def caps_def MAXCAPTURES_def)

lemma str_find_aux_special:
  assumes "\<not> nospecials pattern"
  shows "str_find_aux zero_state pattern string (replicate MAXCAPTURES (0, 0)) 0
     = find_from string start_state 0 (pat_body pattern) (pat_anchored pattern) (replicate MAXCAPTURES (0, 0))"
  using assms by (simp add: str_find_aux_def Let_def start_state_def pat_body_def pat_anchored_def MAXCAPTURES_def)

text \<open>The strings that a match returns: the subject, then the captures, or the matched text when there are none.\<close>

definition cap_text :: "string \<Rightarrow> capt \<Rightarrow> string" where
  "cap_text src c = take (nat (snd c)) (drop (fst c) src)"

definition match_strings :: "string \<Rightarrow> nat \<Rightarrow> nat \<Rightarrow> capt list \<Rightarrow> string list" where
  "match_strings src s e cs = src # (if cs = [] then [take (e - s) (drop s src)] else map (cap_text src) cs)"

lemma span_text:
  "(case span_of c of (so, eo) \<Rightarrow> if so > eo then None else Some (take (nat (eo - so)) (drop (nat so) src)))
     = Some (cap_text src c)"
  by (auto simp: span_of_def cap_text_def max_def)

lemma spans_text:
  assumes "s \<le> e"
  shows "map (\<lambda>(so, eo). if so > eo then None else Some (take (nat (eo - so)) (drop (nat so) src)))
     ((0, int (length src)) # match_spans s e cs) = map Some (match_strings src s e cs)"
  using assms span_text[where src = src]
  by (auto simp: match_spans_def match_strings_def comp_def nat_diff_distrib)

text \<open>What the entry point returns, for a pattern with and without special characters.\<close>

lemma str_match_special:
  assumes "\<not> nospecials pattern"
  shows "\<exists>ret m err. str_match string pattern = Some (ret, m, err)
     \<and> (ret = 0 \<longrightarrow> err = None \<and> (\<exists>s e cs. found string (pat_body pattern) 0 (pat_anchored pattern) s e cs
          \<and> m = map Some (match_strings string s e cs)))
     \<and> (ret \<noteq> 0 \<longrightarrow> ret = - 1 \<and> m = [])
     \<and> (ret \<noteq> 0 \<and> err = None \<longrightarrow>
          (\<forall>s \<le> (if pat_anchored pattern then 0 else length string). \<not> matches_at string (pat_body pattern) s))"
proof -
  let ?sm = "replicate MAXCAPTURES (0, 0)"
  have "?sm \<noteq> []" by (simp add: MAXCAPTURES_def)
  then obtain ret ms sm where f: "find_from string start_state 0 (pat_body pattern) (pat_anchored pattern) ?sm = Some (ret, ms, sm)"
    using find_from_total by (metis prod_cases3)
  have mc: "maxcaptures start_state = int MAXCAPTURES - 1" by (simp add: start_state_def)
  show ?thesis
  proof (cases "error ms = None")
    case False
    then show ?thesis by (auto simp: str_match_def str_find_aux_special[OF assms] f)
  next
    case True
    note ok = find_from_ok[OF f True start_state_wf _ mc, simplified]
    show ?thesis
    proof (cases "ret = 0")
      case True
      with ok \<open>error ms = None\<close> show ?thesis by (simp add: str_match_def str_find_aux_special[OF assms] f)
    next
      case False
      then obtain s e cs where r: "found string (pat_body pattern) 0 (pat_anchored pattern) s e cs"
        "ret = 1 + int (length (match_spans s e cs))" "take (nat ret) sm = (0, int (length string)) # match_spans s e cs"
        using ok by auto
      have "s \<le> e" using r(1) by (simp add: found_def)
      with r(2,3) \<open>error ms = None\<close> have "str_match string pattern = Some (0, map Some (match_strings string s e cs), None)"
        using spans_text[of s e string cs] by (simp add: str_match_def str_find_aux_special[OF assms] f)
      with r(1) show ?thesis by auto
    qed
  qed
qed

lemma str_match_nospecials:
  assumes "nospecials pattern"
  shows "str_match string pattern = Some (if \<exists>i. occurs_at string pattern i
     then (0, [Some string, Some pattern], None) else (- 1, [], None))"
proof (cases "lmemfind string pattern")
  case None
  with lmemfind_spec[of string pattern] assms show ?thesis
    by (simp add: str_match_def str_find_aux_def zero_state_def Let_def)
next
  case (Some k)
  with lmemfind_spec[of string pattern] have o: "occurs_at string pattern k" by simp
  have "replicate MAXCAPTURES (0::int, 0::int) = (0, 0) # (0, 0) # replicate 30 (0, 0)"
    by (simp add: MAXCAPTURES_def numeral_eq_Suc)
  with o Some assms show ?thesis
    by (auto simp: str_match_def str_find_aux_def zero_state_def Let_def occurs_at_def nat_add_distrib)
qed

lemma str_match_entries:
  assumes "str_match t p = Some (r, m, err)"
  shows "None \<notin> set m \<and> (r = - 1 \<longrightarrow> m = []) \<and> (r \<noteq> - 1 \<longrightarrow> m \<noteq> [])"
proof (cases "nospecials p")
  case True
  with assms str_match_nospecials[OF True, of t] show ?thesis by (auto split: if_splits)
next
  case False
  with assms str_match_special[OF False, of t] show ?thesis by (cases "r = 0") (auto simp: match_strings_def)
qed

section \<open>Properties\<close>

text \<open>C8: matching a pattern that has special characters always returns. When it reports a match, the strings are
  those of a match in the declarative sense at the leftmost possible position (position 0 for an anchored pattern),
  with every capture closed and inside the subject. When it reports neither a match nor an error, the pattern does
  not match anywhere.\<close>

theorem str_match_correct:
  assumes "\<not> nospecials pattern"
  shows "\<exists>ret m err. str_match string pattern = Some (ret, m, err)
     \<and> (ret = 0 \<longrightarrow> err = None \<and> (\<exists>s e cs. found string (pat_body pattern) 0 (pat_anchored pattern) s e cs
          \<and> m = map Some (match_strings string s e cs)))
     \<and> (ret \<noteq> 0 \<longrightarrow> ret = - 1 \<and> m = [])
     \<and> (ret \<noteq> 0 \<and> err = None \<longrightarrow>
          (\<forall>s \<le> (if pat_anchored pattern then 0 else length string). \<not> matches_at string (pat_body pattern) s))"
  using assms by (rule str_match_special)

text \<open>A pattern without special characters is searched as plain text: a match is reported exactly when it occurs,
  as the subject and the pattern.\<close>

theorem str_match_plain:
  assumes "nospecials pattern"
  shows "str_match string pattern = Some (if \<exists>i. occurs_at string pattern i
     then (0, [Some string, Some pattern], None) else (- 1, [], None))"
  using assms by (rule str_match_nospecials)

lemma str_match_run: "str_match ''abbc'' ''(b+)'' = Some (0, [Some ''abbc'', Some ''bb''], None)"
  by code_simp

theorem str_match_correct_witness:
  "\<exists>s e cs. found ''abbc'' ''(b+)'' 0 False s e cs \<and> match_strings ''abbc'' s e cs = [''abbc'', ''bb'']"
proof -
  have sp: "\<not> nospecials ''(b+)''" "\<not> pat_anchored ''(b+)''" "pat_body ''(b+)'' = ''(b+)''"
    by (simp_all add: nospecials_def SPECIALS_def pat_anchored_def pat_body_def)
  from str_match_correct[OF sp(1), of "''abbc''"] obtain s e cs where
    "found ''abbc'' ''(b+)'' 0 False s e cs" "map Some (match_strings ''abbc'' s e cs) = [Some ''abbc'', Some ''bb'']"
    using sp by (auto simp: str_match_run)
  then show ?thesis by (auto simp: map_eq_Cons_conv)
qed

theorem str_match_plain_witness:
  "str_match ''hello'' ''ell'' = Some (0, [Some ''hello'', Some ''ell''], None)"
proof -
  have "occurs_at ''hello'' ''ell'' 1" by (simp add: occurs_at_def)
  then show ?thesis by (subst str_match_plain) (auto simp: nospecials_def SPECIALS_def)
qed

text \<open>C10: one call of the matcher, from any good state. On success it ends inside the subject at or after its start,
  with all captures inside; without an error its answer is the declarative one, and a failed call leaves the
  captures as they were.\<close>

theorem match_decides_meaning:
  assumes "ms_wf src ms s"
  shows "case match src ms s p of
      (ms', Some e) \<Rightarrow> s \<le> e \<and> e \<le> length src \<and> ms_wf src ms' e
        \<and> (error ms' = None \<longrightarrow> pm src (maxcaptures ms) (caps ms) s p (caps ms') e)
    | (ms', None) \<Rightarrow> caps ms' = caps ms
        \<and> (error ms' = None \<longrightarrow> (\<forall>cs e. \<not> pm src (maxcaptures ms) (caps ms) s p cs e))"
  using realisesD[OF match_realises assms, of p]
  by (auto simp: decides_simps ms_wf_def split: prod.split option.split)

theorem match_decides_meaning_witness:
  "ms_wf ''abbc'' start_state 1 \<and> (\<exists>cs. pm ''abbc'' 31 [] 1 ''b+c'' cs 4)"
proof -
  have wf: "ms_wf ''abbc'' start_state 1"
    by (simp add: ms_wf_def start_state_def zero_state_def caps_def MAXCAPTURES_def)
  have "map_prod error id (match ''abbc'' start_state 1 ''b+c'') = (None, Some 4)" by code_simp
  then obtain ms' where "match ''abbc'' start_state 1 ''b+c'' = (ms', Some 4)" "error ms' = None"
    by (cases "match ''abbc'' start_state 1 ''b+c''") auto
  with match_decides_meaning[OF wf, of "''b+c''"] wf show ?thesis
    by (auto simp: start_state_def zero_state_def caps_def MAXCAPTURES_def)
qed

text \<open>The plain search finds the first occurrence, and fails only when there is none.\<close>

theorem lmemfind_first:
  "lmemfind s1 s2 = (if \<exists>i. occurs_at s1 s2 i then Some (LEAST i. occurs_at s1 s2 i) else None)"
proof (cases "lmemfind s1 s2")
  case None
  with lmemfind_spec[of s1 s2] show ?thesis by simp
next
  case (Some j)
  with lmemfind_spec[of s1 s2] have "occurs_at s1 s2 j" "\<And>k. occurs_at s1 s2 k \<Longrightarrow> j \<le> k" by (auto simp: not_less[symmetric])
  with Some show ?thesis by (auto intro!: Least_equality[symmetric])
qed

end
