(* ===== verification/Node.thy ===== *)
theory Node
  imports Strpartial Pattern_Search
begin

text \<open>
  The rule interpreter of \<^verbatim>\<open>node.c\<close>. The configuration's rules are a tree of nodes with a first child and a next
  sibling; a log line is evaluated by walking it. Strings are their texts: what the string operations used here
  (\<^verbatim>\<open>dynstr_cat\<close>, \<^verbatim>\<open>dynstr_ccat\<close>, \<^verbatim>\<open>dynstr_cmp\<close>) do with texts is shown in the theory of dynamic strings. Each node owns the
  storage of its last match, to which the execution context points; a result \<open>None\<close> is a memory fault.
\<close>

section \<open>Data\<close>

datatype eval_result = EVAL_TRUE | EVAL_FALSE | EVAL_BREAK | EVAL_ERROR

datatype node_ctx =
    NODE_PASSTHROUGH
  | NODE_ASSIGN string "strpartial list"
  | NODE_BREAK
  | NODE_MATCH "strpartial list" "strpartial list" "string option" \<comment> \<open>pattern, target, source\<close>
  | NODE_MATCHALL "string option"
  | NODE_MELSE
  | NODE_WRITE "strpartial list" string

text \<open>A node with its identity, context, first child and next sibling; \<open>NoNode\<close> is the null pointer.\<close>

datatype node = NoNode | Node nat node_ctx node node

text \<open>The values of the variables table: the parser stores the parsed initial value, an assignment a string.\<close>

datatype var_value = Var_Parsed "strpartial list" | Var_Str string

text \<open>The execution context, the variables, the storage of each match node (its matched strings and the match it
  shadows) and the lines handed to the write callback.\<close>

record exec_ctx =
  re_match :: "nat option"
  source :: string
  logline :: string
  cur_match :: "nat \<Rightarrow> str_match"
  prev_match :: "nat \<Rightarrow> nat option"
  vars :: "string \<rightharpoonup> var_value"
  written :: "(string \<times> string) list"

text \<open>What the process provides: the environment, whether the clock can be read, the formatted time, the nanoseconds of the
  clock and the configured divider; and what the arena decides about strings, of which only the text is kept here:
  whether a string lies in a pool (rather than in a heap block of its own), and whether appending the value of an
  environment variable to the emptied string of its name leaves that string where it is.\<close>

record world =
  getenv :: "string \<Rightarrow> string option"
  clock_ok :: bool
  datetime :: string
  tv_nsec :: int
  fractsec_divider :: int
  in_pool :: "string \<Rightarrow> bool"
  env_in_place :: "string \<Rightarrow> bool"

text \<open>The two are positive, so C's division is \<open>div\<close>.\<close>

definition fract_sec :: "world \<Rightarrow> int" where
  "fract_sec w = tv_nsec w div fractsec_divider w"

section \<open>Resolving format strings\<close>

text \<open>\<^verbatim>\<open>snprintf(buf, n, "%ld", i)\<close> stores at most \<open>n - 1\<close> characters; the size is at least one here.\<close>

definition snprintf_ld :: "nat \<Rightarrow> int \<Rightarrow> string" where
  "snprintf_ld n i = take (n - 1) (dec_of_int i)"

text \<open>The result of one part, appended to the text so far. \<open>Some None\<close> is the failure that makes the result a null
  pointer. The value of an environment variable is appended to the emptied string of its name, but the string that
  append returns is discarded: if it had to move, the part keeps a pointer to a released block. The fraction is printed into 10 bytes and the length \<^verbatim>\<open>snprintf\<close> returns is added, so a longer number
  would expose bytes that were not written.\<close>

definition resolve_part :: "world \<Rightarrow> exec_ctx \<Rightarrow> strpartial \<Rightarrow> string \<Rightarrow> string option option" where
  "resolve_part w ctx p s =
     (case p of
        STR_INVALID \<Rightarrow> Some None
      | STR_VERBATIM t \<Rightarrow> Some (Some (s @ t))
      | STR_VAR v \<Rightarrow>
          (case vars ctx v of
             None \<Rightarrow> Some (Some s)
           | Some (Var_Str t) \<Rightarrow> Some (Some (s @ t))
           | Some (Var_Parsed _) \<Rightarrow> None)
      | STR_ENV v \<Rightarrow>
          if env_in_place w v then Some (Some (s @ (case getenv w v of None \<Rightarrow> [] | Some t \<Rightarrow> t))) else None
      | STR_CAPTURE_GROUP n \<Rightarrow>
          (case re_match ctx of
             None \<Rightarrow> None
           | Some m \<Rightarrow>
               if int (length (cur_match ctx m)) > n then
                 (if n < 0 then None
                  else case cur_match ctx m ! nat n of None \<Rightarrow> None | Some t \<Rightarrow> Some (Some (s @ t)))
               else Some (Some s))
      | STR_DATETIME \<Rightarrow> Some (Some (s @ datetime w))
      | STR_SOURCE \<Rightarrow> Some (Some (s @ source ctx))
      | STR_LOGLINE \<Rightarrow> Some (Some (s @ logline ctx))
      | STR_FRACTSECOND \<Rightarrow>
          if length (dec_of_int (fract_sec w)) < 10 then Some (Some (s @ snprintf_ld 10 (fract_sec w))) else None
      | STR_DATETIMEFRACT \<Rightarrow> Some (Some (s @ datetime w @ ''.'' @ snprintf_ld 9 (fract_sec w))))"

fun resolve_from :: "world \<Rightarrow> exec_ctx \<Rightarrow> strpartial list \<Rightarrow> string \<Rightarrow> string option option" where
  "resolve_from w ctx [] s = Some (Some s)"
| "resolve_from w ctx (p # ps) s =
     (case resolve_part w ctx p s of
        None \<Rightarrow> None
      | Some None \<Rightarrow> Some None
      | Some (Some s') \<Rightarrow> resolve_from w ctx ps s')"

definition strpartial_resolve :: "world \<Rightarrow> exec_ctx \<Rightarrow> strpartial list \<Rightarrow> string option option" where
  "strpartial_resolve w ctx ps = resolve_from w ctx ps []"

section \<open>Evaluating nodes\<close>

type_synonym eval_out = "(eval_result \<times> exec_ctx) option"

text \<open>The deleter of the variables table is \<^verbatim>\<open>free\<close>, which faults on a string inside a pool.\<close>

definition eval_node_assign :: "world \<Rightarrow> string \<Rightarrow> strpartial list \<Rightarrow> exec_ctx \<Rightarrow> eval_out" where
  "eval_node_assign w var pat ctx =
     (case strpartial_resolve w ctx pat of
        None \<Rightarrow> None
      | Some None \<Rightarrow> Some (EVAL_ERROR, ctx)
      | Some (Some res) \<Rightarrow>
          (case vars ctx var of
             Some (Var_Str old) \<Rightarrow>
               if in_pool w old then None else Some (EVAL_TRUE, ctx\<lparr>vars := (vars ctx)(var \<mapsto> Var_Str res)\<rparr>)
           | _ \<Rightarrow> Some (EVAL_TRUE, ctx\<lparr>vars := (vars ctx)(var \<mapsto> Var_Str res)\<rparr>)))"

definition from_source :: "string option \<Rightarrow> exec_ctx \<Rightarrow> bool" where
  "from_source src ctx = (case src of None \<Rightarrow> True | Some s \<Rightarrow> memcmp s (source ctx) = 0)"

text \<open>A pattern error is a string literal, which is passed to \<^verbatim>\<open>free\<close>: a fault.\<close>

definition eval_node_match ::
  "world \<Rightarrow> nat \<Rightarrow> strpartial list \<Rightarrow> strpartial list \<Rightarrow> string option \<Rightarrow> exec_ctx \<Rightarrow> eval_out" where
  "eval_node_match w i re_pattern target src ctx =
     (case strpartial_resolve w ctx re_pattern of
        None \<Rightarrow> None
      | Some re \<Rightarrow>
          (case strpartial_resolve w ctx target of
             None \<Rightarrow> None
           | Some t \<Rightarrow>
               let ctx = ctx\<lparr>prev_match := (prev_match ctx)(i := re_match ctx)\<rparr> in
               (case (re, t) of
                  (Some re, Some t) \<Rightarrow>
                    if from_source src ctx then
                      (case str_match t re of
                         None \<Rightarrow> None
                       | Some (r, m, err) \<Rightarrow>
                           let ctx = ctx\<lparr>cur_match := (cur_match ctx)(i := m)\<rparr> in
                           if r = - 1 then (if err \<noteq> None then None else Some (EVAL_FALSE, ctx))
                           else Some (if length m > 0 then EVAL_TRUE else EVAL_FALSE, ctx\<lparr>re_match := Some i\<rparr>))
                    else Some (EVAL_FALSE, ctx)
                | _ \<Rightarrow> Some (EVAL_ERROR, ctx))))"

definition eval_node_matchall :: "string option \<Rightarrow> exec_ctx \<Rightarrow> eval_out" where
  "eval_node_matchall src ctx = Some (if from_source src ctx then EVAL_TRUE else EVAL_FALSE, ctx)"

definition eval_node_match_else :: "eval_result \<Rightarrow> exec_ctx \<Rightarrow> eval_out" where
  "eval_node_match_else prev_res ctx = Some (if prev_res = EVAL_FALSE then EVAL_TRUE else EVAL_FALSE, ctx)"

definition eval_node_write :: "world \<Rightarrow> strpartial list \<Rightarrow> string \<Rightarrow> exec_ctx \<Rightarrow> eval_out" where
  "eval_node_write w fmt dst ctx =
     (case strpartial_resolve w ctx fmt of
        None \<Rightarrow> None
      | Some None \<Rightarrow> Some (EVAL_TRUE, ctx)
      | Some (Some val) \<Rightarrow> Some (EVAL_TRUE, ctx\<lparr>written := written ctx @ [(dst, val)]\<rparr>))"

text \<open>The table of handlers: evaluation, cleanup after the children, cleanup at the end.\<close>

definition handler_eval :: "world \<Rightarrow> nat \<Rightarrow> node_ctx \<Rightarrow> eval_result \<Rightarrow> exec_ctx \<Rightarrow> eval_out" where
  "handler_eval w i c prev_res ctx =
     (case c of
        NODE_PASSTHROUGH \<Rightarrow> Some (EVAL_TRUE, ctx)
      | NODE_ASSIGN v pat \<Rightarrow> eval_node_assign w v pat ctx
      | NODE_BREAK \<Rightarrow> Some (EVAL_BREAK, ctx)
      | NODE_MATCH re t src \<Rightarrow> eval_node_match w i re t src ctx
      | NODE_MATCHALL src \<Rightarrow> eval_node_matchall src ctx
      | NODE_MELSE \<Rightarrow> eval_node_match_else prev_res ctx
      | NODE_WRITE fmt dst \<Rightarrow> eval_node_write w fmt dst ctx)"

text \<open>\<^verbatim>\<open>_match_outofscope\<close> restores the shadowed match. For a \<^verbatim>\<open>matchall\<close> node the fields it reads were never set, they
  are zero.\<close>

definition handler_node_cleanup :: "nat \<Rightarrow> node_ctx \<Rightarrow> exec_ctx \<Rightarrow> exec_ctx" where
  "handler_node_cleanup i c ctx =
     (case c of
        NODE_MATCH _ _ _ \<Rightarrow> ctx\<lparr>re_match := prev_match ctx i, cur_match := (cur_match ctx)(i := str_match_free (cur_match ctx i))\<rparr>
      | NODE_MATCHALL _ \<Rightarrow> ctx\<lparr>re_match := None\<rparr>
      | _ \<Rightarrow> ctx)"

definition handler_block_cleanup :: "nat \<Rightarrow> node_ctx \<Rightarrow> exec_ctx \<Rightarrow> exec_ctx" where
  "handler_block_cleanup i c ctx =
     (case c of
        NODE_MATCH _ _ _ \<Rightarrow> ctx\<lparr>cur_match := (cur_match ctx)(i := str_match_free (cur_match ctx i))\<rparr>
      | _ \<Rightarrow> ctx)"

definition stops :: "eval_result \<Rightarrow> bool" where
  "stops r \<longleftrightarrow> r = EVAL_BREAK \<or> r = EVAL_ERROR"

fun eval_node :: "world \<Rightarrow> node \<Rightarrow> exec_ctx \<Rightarrow> eval_result \<Rightarrow> eval_out" where
  "eval_node w NoNode ctx prev_res = None"
| "eval_node w (Node i c child sibling) ctx prev_res =
     (case handler_eval w i c prev_res ctx of
        None \<Rightarrow> None
      | Some (topr, ctx1) \<Rightarrow>
          if stops topr then Some (topr, handler_block_cleanup i c ctx1)
          else
            (case (if topr = EVAL_TRUE \<and> child \<noteq> NoNode
                   then (case eval_node w child ctx1 topr of
                           None \<Rightarrow> None
                         | Some (r, ctx2) \<Rightarrow> Some (stops r, handler_node_cleanup i c ctx2))
                   else Some (False, ctx1)) of
               None \<Rightarrow> None
             | Some (stop, ctx2) \<Rightarrow>
                 if stop then Some (topr, handler_block_cleanup i c ctx2)
                 else if sibling \<noteq> NoNode then
                   (case eval_node w sibling ctx2 topr of
                      None \<Rightarrow> None
                    | Some (_, ctx3) \<Rightarrow> Some (topr, handler_block_cleanup i c ctx3))
                 else Some (topr, handler_block_cleanup i c ctx2)))"

text \<open>The context of one log line; the storage of the nodes and the variables carry over. Nothing is evaluated when the
  clock cannot be read.\<close>

definition node_eval_root :: "world \<Rightarrow> node \<Rightarrow> string \<Rightarrow> string \<Rightarrow> exec_ctx \<Rightarrow> exec_ctx option" where
  "node_eval_root w root ln source_sym ctx =
     (if clock_ok w
      then map_option snd (eval_node w root (ctx\<lparr>re_match := None, source := source_sym, logline := ln\<rparr>) EVAL_TRUE)
      else Some ctx)"

section \<open>Destroying and printing the tree\<close>

text \<open>The strings released with a node.\<close>

definition final_cleanup :: "node_ctx \<Rightarrow> string list option" where
  "final_cleanup c =
     (case c of
        NODE_ASSIGN v pat \<Rightarrow> map_option ((#) v) (strpartial_del pat)
      | NODE_MATCH re t src \<Rightarrow>
          do { a \<leftarrow> strpartial_del re; b \<leftarrow> strpartial_del t; Some (a @ b @ (case src of None \<Rightarrow> [] | Some s \<Rightarrow> [s])) }
      | NODE_MATCHALL src \<Rightarrow> Some (case src of None \<Rightarrow> [] | Some s \<Rightarrow> [s])
      | NODE_WRITE fmt dst \<Rightarrow> map_option (\<lambda>a. a @ [dst]) (strpartial_del fmt)
      | _ \<Rightarrow> Some [])"

text \<open>The nodes released, with the strings of each, in order.\<close>

fun node_destroyall :: "node \<Rightarrow> (nat \<times> string list) list option" where
  "node_destroyall NoNode = Some []"
| "node_destroyall (Node i c child sibling) = do {
     ss \<leftarrow> final_cleanup c;
     a \<leftarrow> node_destroyall child;
     b \<leftarrow> node_destroyall sibling;
     Some ((i, ss) # a @ b)
   }"

definition node_label :: "node_ctx \<Rightarrow> string \<times> string" where
  "node_label c =
     (case c of
        NODE_PASSTHROUGH \<Rightarrow> (''PASSTHROUGH'', [])
      | NODE_ASSIGN v _ \<Rightarrow> (''ASSIGN'', v)
      | NODE_BREAK \<Rightarrow> (''BREAK'', [])
      | NODE_MATCH _ _ src \<Rightarrow> (''MATCH'', case src of None \<Rightarrow> [] | Some s \<Rightarrow> s)
      | NODE_MATCHALL src \<Rightarrow> (''MATCHALL'', case src of None \<Rightarrow> [] | Some s \<Rightarrow> s)
      | NODE_MELSE \<Rightarrow> (''ELSE'', [])
      | NODE_WRITE _ dst \<Rightarrow> (''WRITE'', dst))"

text \<open>The lines logged; an indentation of 128 fills its buffer without a terminating NUL.\<close>

fun print_tree :: "node \<Rightarrow> nat \<Rightarrow> string list option" where
  "print_tree NoNode indent = Some []"
| "print_tree (Node i c child sibling) indent = do {
     a \<leftarrow> (if indent < 128
           then Some (replicate indent (CHR '' '') @ '' Node: '' @ fst (node_label c) @ '' '' @ snd (node_label c)) else None);
     b \<leftarrow> print_tree child (indent + 2);
     d \<leftarrow> print_tree sibling indent;
     Some (a # b @ d)
   }"

definition print_node_tree :: "node \<Rightarrow> string list option" where
  "print_node_tree root = (if root = NoNode then None else print_tree root 0)"

section \<open>Trees that evaluate without a fault\<close>

fun ids :: "node \<Rightarrow> nat list" where
  "ids NoNode = []"
| "ids (Node i c child sibling) = i # ids child @ ids sibling"

text \<open>Format strings that can be resolved: capture groups only inside a match, no variables.\<close>

fun part_safe :: "bool \<Rightarrow> strpartial \<Rightarrow> bool" where
  "part_safe inm (STR_CAPTURE_GROUP n) = (inm \<and> 0 \<le> n)"
| "part_safe inm (STR_VAR v) = False"
| "part_safe inm p = True"

text \<open>Patterns that are well-formed: matching them against any text records no error.\<close>

definition pat_ok :: "string \<Rightarrow> bool" where
  "pat_ok p \<longleftrightarrow> (\<forall>t. \<exists>r m. str_match t p = Some (r, m, None))"

text \<open>\<open>safe inm n\<close>: \<open>n\<close>, inside a match block if \<open>inm\<close>, uses capture groups only in match blocks, has well-formed verbatim
  patterns, no assignments, and \<^verbatim>\<open>matchall\<close> only outside match blocks.\<close>

fun safe :: "bool \<Rightarrow> node \<Rightarrow> bool" where
  "safe inm NoNode = True"
| "safe inm (Node i c child sibling) =
     ((case c of
         NODE_ASSIGN _ _ \<Rightarrow> False
       | NODE_MATCH re t src \<Rightarrow> (\<exists>p. re = [STR_VERBATIM p] \<and> pat_ok p) \<and> list_all (part_safe inm) t \<and> safe True child
       | NODE_MATCHALL src \<Rightarrow> \<not> inm \<and> safe inm child
       | NODE_WRITE fmt dst \<Rightarrow> list_all (part_safe inm) fmt \<and> safe inm child
       | _ \<Rightarrow> safe inm child)
      \<and> safe inm sibling)"

definition ctx_ok :: "bool \<Rightarrow> exec_ctx \<Rightarrow> bool" where
  "ctx_ok inm ctx \<longleftrightarrow> (inm \<longrightarrow> re_match ctx \<noteq> None) \<and> (\<forall>i. None \<notin> set (cur_match ctx i))"

text \<open>Everything but what the nodes \<open>A\<close> own and the lines written is as before.\<close>

definition prev_frame :: "nat set \<Rightarrow> exec_ctx \<Rightarrow> exec_ctx \<Rightarrow> bool" where
  "prev_frame A ctx ctx' \<longleftrightarrow> (\<forall>j. j \<notin> A \<longrightarrow> prev_match ctx' j = prev_match ctx j)"

lemma prev_frame_trans: "prev_frame A x y \<Longrightarrow> prev_frame B y z \<Longrightarrow> prev_frame (A \<union> B) x z"
  by (simp add: prev_frame_def)

text \<open>What the kernel promises of the clock, the divider the configuration allows, and the values of the environment
  fitting their names' strings.\<close>

definition world_ok :: "world \<Rightarrow> bool" where
  "world_ok w \<longleftrightarrow> 0 \<le> tv_nsec w \<and> tv_nsec w < 10 ^ 9 \<and> 1 \<le> fractsec_divider w \<and> (\<forall>v. env_in_place w v)"

lemma length_dec_of_nat: "0 < k \<Longrightarrow> length (dec_of_nat n) \<le> k \<longleftrightarrow> n < 10 ^ k"
proof (induction n arbitrary: k rule: dec_of_nat.induct)
  case (1 n)
  show ?case
  proof (cases "n < 10")
    case True
    have "(10::nat) ^ 1 \<le> 10 ^ k" using 1(2) by (intro power_increasing) auto
    with True 1(2) show ?thesis by (subst dec_of_nat.simps) simp
  next
    case False
    obtain j where j: "k = Suc j" using 1(2) by (cases k) auto
    have "length (dec_of_nat n) = Suc (length (dec_of_nat (n div 10)))" using False by (subst dec_of_nat.simps) simp
    moreover have "length (dec_of_nat (n div 10)) \<le> j \<longleftrightarrow> n div 10 < 10 ^ j"
      using 1(1)[OF False, of j] False by (cases "j = 0") (simp_all add: dec_of_nat_ne)
    moreover have "n div 10 < 10 ^ j \<longleftrightarrow> n < 10 ^ k" by (simp add: j div_less_iff_less_mult mult.commute)
    ultimately show ?thesis by (simp add: j)
  qed
qed

lemma fract_length:
  assumes "world_ok w"
  shows "length (dec_of_int (fract_sec w)) < 10" and "length (dec_of_int (fract_sec w)) \<le> 8 \<longleftrightarrow> fract_sec w < 10 ^ 8"
proof -
  have pos: "0 \<le> fract_sec w" using assms by (simp add: world_ok_def fract_sec_def pos_imp_zdiv_nonneg_iff)
  have "fract_sec w \<le> tv_nsec w" using assms
    by (simp add: world_ok_def fract_sec_def) (metis div_by_1 zdiv_mono2 zero_less_one)
  with assms pos have "nat (fract_sec w) < 10 ^ 9" by (simp add: world_ok_def nat_less_iff)
  with pos show "length (dec_of_int (fract_sec w)) < 10"
    using length_dec_of_nat[of 9 "nat (fract_sec w)"] by (simp add: dec_of_int_def)
  from pos show "length (dec_of_int (fract_sec w)) \<le> 8 \<longleftrightarrow> fract_sec w < 10 ^ 8"
    using length_dec_of_nat[of 8 "nat (fract_sec w)"] by (simp add: dec_of_int_def nat_less_iff)
qed

lemma resolve_from_safe:
  assumes "list_all (part_safe inm) ps" and "ctx_ok inm ctx" and "world_ok w"
  shows "\<exists>r. resolve_from w ctx ps s = Some r"
  using assms(1)
proof (induction ps arbitrary: s)
  case (Cons p ps)
  have "\<exists>r. resolve_part w ctx p s = Some r"
  proof (cases p)
    case (STR_CAPTURE_GROUP n)
    with Cons.prems have n: "inm" "0 \<le> n" by auto
    then obtain m where m: "re_match ctx = Some m" using assms(2) by (auto simp: ctx_ok_def)
    have "cur_match ctx m ! nat n \<noteq> None" if "n < int (length (cur_match ctx m))"
    proof -
      have "cur_match ctx m ! nat n \<in> set (cur_match ctx m)" using that n(2) by (intro nth_mem) linarith
      then show ?thesis using assms(2) by (metis ctx_ok_def)
    qed
    with n m show ?thesis by (auto simp: resolve_part_def STR_CAPTURE_GROUP)
  qed (use Cons.prems assms(3) fract_length(1)[OF assms(3)] in \<open>auto simp: resolve_part_def world_ok_def\<close>)
  then obtain r where "resolve_part w ctx p s = Some r" by blast
  with Cons show ?case by (cases r) auto
qed simp

lemma resolve_safe:
  "list_all (part_safe inm) ps \<Longrightarrow> ctx_ok inm ctx \<Longrightarrow> world_ok w \<Longrightarrow> \<exists>r. strpartial_resolve w ctx ps = Some r"
  unfolding strpartial_resolve_def by (rule resolve_from_safe)

lemma resolve_verbatim: "strpartial_resolve w ctx [STR_VERBATIM p] = Some (Some p)"
  by (simp add: strpartial_resolve_def resolve_part_def)

text \<open>One handler.\<close>

lemma match_safe:
  assumes "pat_ok p" and "list_all (part_safe inm) t" and ok: "ctx_ok inm ctx" and f: "world_ok w"
  shows "\<exists>r ctx'. eval_node_match w i [STR_VERBATIM p] t src ctx = Some (r, ctx') \<and> ctx_ok inm ctx'
     \<and> (r = EVAL_TRUE \<longrightarrow> re_match ctx' \<noteq> None) \<and> prev_match ctx' = (prev_match ctx)(i := re_match ctx)"
proof -
  obtain tr where tr: "strpartial_resolve w ctx t = Some tr" using resolve_safe[OF assms(2) ok f] by blast
  show ?thesis
  proof (cases tr)
    case None
    then show ?thesis using tr ok by (simp add: eval_node_match_def resolve_verbatim ctx_ok_def Let_def)
  next
    case (Some tx)
    obtain r m where sm: "str_match tx p = Some (r, m, None)" using assms(1) unfolding pat_ok_def by blast
    show ?thesis using tr Some sm str_match_entries[OF sm] ok
      by (auto simp: eval_node_match_def resolve_verbatim ctx_ok_def Let_def)
  qed
qed

lemma handler_safe:
  assumes s: "safe inm (Node i c child sibling)" and ok: "ctx_ok inm ctx" and f: "world_ok w"
  shows "\<exists>r ctx'. handler_eval w i c pr ctx = Some (r, ctx') \<and> ctx_ok inm ctx' \<and> prev_frame {i} ctx ctx'
     \<and> (case c of NODE_MATCH _ _ _ \<Rightarrow> (r = EVAL_TRUE \<longrightarrow> re_match ctx' \<noteq> None) \<and> prev_match ctx' i = re_match ctx | _ \<Rightarrow> True)"
proof (cases c)
  case (NODE_MATCH re t src)
  then show ?thesis using match_safe[of _ inm t ctx w i src] s ok f
    by (fastforce simp: handler_eval_def prev_frame_def)
next
  case (NODE_WRITE fmt dst)
  then have "list_all (part_safe inm) fmt" using s by simp
  then obtain r where "strpartial_resolve w ctx fmt = Some r" using resolve_safe[OF _ ok f] by blast
  then show ?thesis using ok NODE_WRITE
    by (cases r) (auto simp: handler_eval_def eval_node_write_def ctx_ok_def prev_frame_def)
qed (use s ok in \<open>auto simp: handler_eval_def eval_node_matchall_def eval_node_match_else_def prev_frame_def\<close>)

lemma block_cleanup_ok:
  "ctx_ok inm ctx \<Longrightarrow> ctx_ok inm (handler_block_cleanup i c ctx)"
  "prev_frame A x ctx \<Longrightarrow> prev_frame A x (handler_block_cleanup i c ctx)"
  by (auto simp: handler_block_cleanup_def ctx_ok_def prev_frame_def str_match_free_def split: node_ctx.split)

text \<open>The children run inside the match, if the node is one.\<close>

lemma child_flag:
  assumes "safe inm (Node i c child sibling)"
  obtains b where "safe b child" "inm \<longrightarrow> b" "b \<longrightarrow> inm \<or> (\<exists>re t src. c = NODE_MATCH re t src)"
  using assms that[of inm] that[of True] by (cases c) auto

lemma node_cleanup_ok:
  assumes s: "safe inm (Node i c child sibling)" and ok: "ctx_ok b ctx2" and inm: "inm \<longrightarrow> b"
    and prev: "case c of NODE_MATCH _ _ _ \<Rightarrow> prev_match ctx2 i = re_match ctx | _ \<Rightarrow> True" and ctx: "ctx_ok inm ctx"
  shows "ctx_ok inm (handler_node_cleanup i c ctx2)"
    and "prev_frame A x ctx2 \<Longrightarrow> prev_frame A x (handler_node_cleanup i c ctx2)"
proof -
  show "ctx_ok inm (handler_node_cleanup i c ctx2)"
    using assms by (cases c) (auto simp: handler_node_cleanup_def ctx_ok_def str_match_free_def)
  assume "prev_frame A x ctx2"
  then show "prev_frame A x (handler_node_cleanup i c ctx2)"
    by (auto simp: handler_node_cleanup_def prev_frame_def split: node_ctx.split)
qed

lemma eval_node_safe:
  assumes "safe inm n" and "n \<noteq> NoNode" and "distinct (ids n)" and "ctx_ok inm ctx" and f: "world_ok w"
  shows "\<exists>r ctx'. eval_node w n ctx pr = Some (r, ctx') \<and> ctx_ok inm ctx' \<and> prev_frame (set (ids n)) ctx ctx'"
  using assms(1-4)
proof (induction n arbitrary: inm ctx pr)
  case (Node i c child sibling)
  let ?I = "{i} \<union> set (ids child)"
  obtain r ctx1 where h: "handler_eval w i c pr ctx = Some (r, ctx1)" "ctx_ok inm ctx1" "prev_frame {i} ctx ctx1"
    and m: "case c of NODE_MATCH _ _ _ \<Rightarrow> (r = EVAL_TRUE \<longrightarrow> re_match ctx1 \<noteq> None) \<and> prev_match ctx1 i = re_match ctx | _ \<Rightarrow> True"
    using handler_safe[OF Node.prems(1,4) f] by blast
  show ?case
  proof (cases "stops r")
    case True
    then show ?thesis using h block_cleanup_ok(1)[OF h(2)] block_cleanup_ok(2)[OF h(3)]
      by (auto simp: prev_frame_def)
  next
    case False
    have kids: "\<exists>stop ctx2. (if r = EVAL_TRUE \<and> child \<noteq> NoNode
           then (case eval_node w child ctx1 r of None \<Rightarrow> None | Some (q, ctx2) \<Rightarrow> Some (stops q, handler_node_cleanup i c ctx2))
           else Some (False, ctx1)) = Some (stop, ctx2) \<and> ctx_ok inm ctx2 \<and> prev_frame ?I ctx ctx2"
    proof (cases "r = EVAL_TRUE \<and> child \<noteq> NoNode")
      case True
      obtain b where b: "safe b child" "inm \<longrightarrow> b" "b \<longrightarrow> inm \<or> (\<exists>re t src. c = NODE_MATCH re t src)"
        using child_flag[OF Node.prems(1)] .
      have okb: "ctx_ok b ctx1" using h(2) b(3) m True by (auto simp: ctx_ok_def)
      obtain q ctx2 where q: "eval_node w child ctx1 r = Some (q, ctx2)" "ctx_ok b ctx2" "prev_frame (set (ids child)) ctx1 ctx2"
        using Node.IH(1)[OF b(1) _ _ okb, of r] True Node.prems(3) by auto
      have "i \<notin> set (ids child)" using Node.prems(3) by simp
      then have "case c of NODE_MATCH _ _ _ \<Rightarrow> prev_match ctx2 i = re_match ctx | _ \<Rightarrow> True"
        using q(3) m by (simp add: prev_frame_def split: node_ctx.splits)
      from node_cleanup_ok[OF Node.prems(1) q(2) b(2) this Node.prems(4)] prev_frame_trans[OF h(3) q(3)]
      show ?thesis using q(1) True by auto
    next
      case False
      then show ?thesis using h(2,3) by (auto simp: prev_frame_def)
    qed
    then obtain stop ctx2 where k: "(if r = EVAL_TRUE \<and> child \<noteq> NoNode
           then (case eval_node w child ctx1 r of None \<Rightarrow> None | Some (q, ctx2) \<Rightarrow> Some (stops q, handler_node_cleanup i c ctx2))
           else Some (False, ctx1)) = Some (stop, ctx2)" "ctx_ok inm ctx2" "prev_frame ?I ctx ctx2" by blast
    show ?thesis
    proof (cases "stop \<or> sibling = NoNode")
      case True
      with k h(1) False block_cleanup_ok(1)[OF k(2)] block_cleanup_ok(2)[OF k(3)] show ?thesis
        by (auto simp: prev_frame_def simp del: if_split)
    next
      case sib: False
      obtain q ctx3 where q: "eval_node w sibling ctx2 r = Some (q, ctx3)" "ctx_ok inm ctx3" "prev_frame (set (ids sibling)) ctx2 ctx3"
        using Node.IH(2)[OF _ _ _ k(2), of r] Node.prems(1,3) sib by (cases c) auto
      have "prev_frame (set (ids (Node i c child sibling))) ctx ctx3"
        using prev_frame_trans[OF k(3) q(3)] by (simp add: Un_assoc)
      with block_cleanup_ok(1)[OF q(2)] block_cleanup_ok(2)[OF this] show ?thesis
        using k(1) h(1) False sib q(1) by auto
    qed
  qed
qed simp

text \<open>Evaluation only adds to the lines written.\<close>

definition writes_more :: "exec_ctx \<Rightarrow> exec_ctx \<Rightarrow> bool" where
  "writes_more ctx ctx' \<longleftrightarrow> (\<exists>ws. written ctx' = written ctx @ ws)"

lemma writes_more_refl [simp]: "writes_more ctx ctx" "written ctx' = written ctx \<Longrightarrow> writes_more ctx ctx'"
  by (auto simp: writes_more_def)

lemma writes_more_trans: "writes_more x y \<Longrightarrow> writes_more y z \<Longrightarrow> writes_more x z"
  by (auto simp: writes_more_def)

lemma cleanup_written [simp]:
  "written (handler_node_cleanup i c ctx) = written ctx" "written (handler_block_cleanup i c ctx) = written ctx"
  by (simp_all add: handler_node_cleanup_def handler_block_cleanup_def split: node_ctx.split)

lemma handler_writes: "handler_eval w i c pr ctx = Some (r, ctx') \<Longrightarrow> writes_more ctx ctx'"
  by (auto simp: handler_eval_def eval_node_assign_def eval_node_match_def eval_node_matchall_def eval_node_match_else_def
      eval_node_write_def Let_def writes_more_def split: node_ctx.splits option.splits var_value.splits if_splits)

lemma eval_node_writes: "eval_node w n ctx pr = Some (r, ctx') \<Longrightarrow> writes_more ctx ctx'"
proof (induction n arbitrary: ctx pr r ctx')
  case (Node i c child sibling)
  obtain t ctx1 where h: "handler_eval w i c pr ctx = Some (t, ctx1)" using Node.prems by (auto split: option.splits)
  have w1: "writes_more ctx ctx1" using handler_writes[OF h] .
  show ?case
  proof (cases "stops t")
    case True
    with Node.prems h w1 show ?thesis by (auto simp: writes_more_def)
  next
    case False
    then obtain stop ctx2 where k: "(if t = EVAL_TRUE \<and> child \<noteq> NoNode
           then (case eval_node w child ctx1 t of None \<Rightarrow> None | Some (q, ctx2) \<Rightarrow> Some (stops q, handler_node_cleanup i c ctx2))
           else Some (False, ctx1)) = Some (stop, ctx2)" using Node.prems h by (auto split: option.splits)
    have "writes_more ctx1 ctx2"
      using k Node.IH(1)[of ctx1 t] by (force simp: writes_more_def split: if_splits option.splits)
    with w1 have w2: "writes_more ctx ctx2" by (rule writes_more_trans)
    show ?thesis
    proof (cases "stop \<or> sibling = NoNode")
      case True
      then have "written ctx' = written ctx2" using Node.prems h False k by (auto split: if_splits)
      with w2 show ?thesis by (simp add: writes_more_def)
    next
      case sib: False
      then obtain q ctx3 where "eval_node w sibling ctx2 t = Some (q, ctx3)" "ctx' = handler_block_cleanup i c ctx3"
        using Node.prems h False k by (auto split: option.splits)
      with w2 Node.IH(2) show ?thesis by (fastforce simp: writes_more_def)
    qed
  qed
qed simp

lemma from_source_prev [simp]: "from_source src (ctx\<lparr>prev_match := p\<rparr>) = from_source src ctx"
  by (simp add: from_source_def split: option.split)

section \<open>Properties\<close>


lemma pat_ok_plain: "nospecials p \<Longrightarrow> pat_ok p"
  by (auto simp: pat_ok_def str_match_nospecials)

definition w0 :: world where
  "w0 = \<lparr>getenv = (\<lambda>_. None), clock_ok = True, datetime = ''now'', tv_nsec = 123456789, fractsec_divider = 1,
         in_pool = (\<lambda>_. True), env_in_place = (\<lambda>_. True)\<rparr>"

definition ctx0 :: exec_ctx where
  "ctx0 = \<lparr>re_match = None, source = [], logline = [], cur_match = (\<lambda>_. []), prev_match = (\<lambda>_. None), vars = Map.empty, written = []\<rparr>"

lemma w0_ok: "world_ok w0"
  by (simp add: world_ok_def w0_def)


text \<open>\<^verbatim>\<open>%{T}\<close> is documented as the same as \<^verbatim>\<open>%{d}.%{t}\<close>, but its fraction is cut after 8 characters: with nanosecond
  resolution the two differ.\<close>

theorem datetimefract_differs:
  assumes "world_ok w"
  shows "strpartial_resolve w ctx [STR_DATETIMEFRACT] = strpartial_resolve w ctx [STR_DATETIME, STR_VERBATIM ''.'', STR_FRACTSECOND]
     \<longleftrightarrow> fract_sec w < 10 ^ 8"
proof -
  let ?d = "dec_of_int (fract_sec w)"
  have "take 8 ?d = ?d \<longleftrightarrow> length ?d \<le> 8" by (metis nat_le_linear take_all_iff)
  then show ?thesis using fract_length[OF assms] by (simp add: strpartial_resolve_def resolve_part_def snprintf_ld_def)
qed

theorem datetimefract_differs_witness:
  "strpartial_resolve w0 ctx0 [STR_DATETIMEFRACT] \<noteq> strpartial_resolve w0 ctx0 [STR_DATETIME, STR_VERBATIM ''.'', STR_FRACTSECOND]"
  using datetimefract_differs[OF w0_ok, of ctx0] by (simp add: fract_sec_def w0_def)

definition break_rule :: "node \<Rightarrow> node" where
  "break_rule body = Node 0 NODE_PASSTHROUGH (Node 1 (NODE_MATCHALL None) body
     (Node 2 (NODE_WRITE [STR_VERBATIM ''after''] ''D'') NoNode NoNode)) NoNode"

text \<open>\<^verbatim>\<open>break\<close> is documented to leave the rule. As a later statement of a block it only ends that block, and what
  follows the block is still executed; as the first statement of a block it also skips what follows the block.\<close>

theorem break_scope:
  "map_option written (node_eval_root w0 (break_rule (Node 3 (NODE_WRITE [STR_VERBATIM ''in''] ''D'') NoNode (Node 4 NODE_BREAK NoNode NoNode)))
       ln src ctx0) = Some [(''D'', ''in''), (''D'', ''after'')]
   \<and> map_option written (node_eval_root w0 (break_rule (Node 3 NODE_BREAK NoNode NoNode)) ln src ctx0) = Some []"
  by (simp add: break_rule_def node_eval_root_def handler_eval_def eval_node_matchall_def eval_node_write_def from_source_def
      strpartial_resolve_def resolve_part_def stops_def handler_node_cleanup_def handler_block_cleanup_def ctx0_def w0_def)

text \<open>A pattern that the matcher rejects makes the match node pass the error message, a string literal, to \<^verbatim>\<open>free\<close>.\<close>

theorem match_error_freed:
  assumes "strpartial_resolve w ctx re = Some (Some p)" and "strpartial_resolve w ctx t = Some (Some s)"
    and "from_source src ctx" and "str_match s p = Some (- 1, m, Some err)"
  shows "eval_node_match w i re t src ctx = None"
  using assms by (simp add: eval_node_match_def Let_def)

theorem match_error_freed_witness:
  "eval_node_match w0 1 [STR_VERBATIM ''(''] [STR_VERBATIM ''abc''] None ctx0 = None"
proof -
  have "str_match ''abc'' ''('' = Some (- 1, [], Some ''unfinished capture'')" by code_simp
  from match_error_freed[OF resolve_verbatim resolve_verbatim _ this] show ?thesis by (simp add: from_source_def)
qed

text \<open>The second assignment to a variable whose value is in a pool of the arena passes that value to \<^verbatim>\<open>free\<close>.\<close>

theorem assign_twice_faults:
  assumes "eval_node_assign w v pat ctx = Some (EVAL_TRUE, ctx')" and "strpartial_resolve w ctx pat = Some (Some s)" and "in_pool w s"
  shows "eval_node_assign w v pat2 ctx' = None \<or> strpartial_resolve w ctx' pat2 = Some None"
  using assms by (auto simp: eval_node_assign_def split: option.splits var_value.splits if_splits)

theorem assign_twice_faults_witness:
  "\<exists>ctx'. eval_node_assign w0 ''v'' [STR_VERBATIM ''x''] ctx0 = Some (EVAL_TRUE, ctx')
     \<and> eval_node_assign w0 ''v'' [STR_VERBATIM ''y''] ctx' = None"
proof -
  have a: "eval_node_assign w0 ''v'' [STR_VERBATIM ''x''] ctx0 = Some (EVAL_TRUE, ctx0\<lparr>vars := [''v'' \<mapsto> Var_Str ''x'']\<rparr>)"
    by (simp add: eval_node_assign_def resolve_verbatim ctx0_def)
  from assign_twice_faults[OF a resolve_verbatim, of "[STR_VERBATIM ''y'']"] a show ?thesis
    by (simp add: w0_def resolve_verbatim)
qed

text \<open>Leaving a \<^verbatim>\<open>matchall\<close> block restores a match that was never saved: after a \<^verbatim>\<open>matchall\<close> inside a match block the captures of
  that block are gone, and the next reference to one dereferences a null pointer.\<close>

theorem matchall_loses_captures:
  assumes "re_match ctx = Some m" and "child \<noteq> NoNode" and "eval_node w child ctx EVAL_TRUE = Some (EVAL_TRUE, ctx')"
  shows "eval_node w (Node i (NODE_MATCHALL None) child (Node j (NODE_WRITE [STR_CAPTURE_GROUP n] dst) NoNode NoNode)) ctx prev = None"
  using assms by (simp add: handler_eval_def eval_node_matchall_def from_source_def stops_def handler_node_cleanup_def eval_node_write_def
      strpartial_resolve_def resolve_part_def)

theorem matchall_loses_captures_witness:
  "eval_node w0 (Node 1 (NODE_MATCHALL None) (Node 2 NODE_PASSTHROUGH NoNode NoNode)
     (Node 3 (NODE_WRITE [STR_CAPTURE_GROUP 1] ''D'') NoNode NoNode)) (ctx0\<lparr>re_match := Some 0\<rparr>) EVAL_TRUE = None"
  by (rule matchall_loses_captures[where m = 0]) (simp_all add: handler_eval_def stops_def handler_block_cleanup_def)

text \<open>A variable that was declared but not assigned since holds the parts of its format string, which are taken for a string when it is used.\<close>

theorem declared_variable_faults:
  assumes "vars ctx v = Some (Var_Parsed ps)"
  shows "strpartial_resolve w ctx [STR_VAR v] = None"
  using assms by (simp add: strpartial_resolve_def resolve_part_def)

theorem declared_variable_faults_witness:
  "strpartial_resolve w0 (ctx0\<lparr>vars := [''v'' \<mapsto> Var_Parsed []]\<rparr>) [STR_VAR ''v''] = None"
  by (rule declared_variable_faults) simp

end
