(* ===== verification/Restart.thy ===== *)
theory Restart
  imports Main_Loop Process Node
begin

text \<open>
  Ending and replacing the running daemon: \<^verbatim>\<open>dlog_sig_shutdown\<close> and \<^verbatim>\<open>dlog_sig_restart\<close> of \<^verbatim>\<open>dlog.c\<close> over the descriptor table, the
  connection over which descriptors are handed to the new binary (\<^verbatim>\<open>fdxfer.c\<close>), and the processes involved: the fork of the new
  binary and the fork by which it becomes a daemon (\<^verbatim>\<open>proc.c\<close>), which decide on the names of the socket.
\<close>

section \<open>Processes\<close>

record process =
  pid_of :: int
  ppid_of :: int

text \<open>\<open>c\<close> is what \<^verbatim>\<open>fork\<close> returns to the old process. The new one runs the saved command line with an empty environment.\<close>

definition proc_restart_with_newbinary :: "int \<Rightarrow> env_param \<Rightarrow> process \<Rightarrow> (process \<times> cell list \<times> cell list) option" where
  "proc_restart_with_newbinary c e p = (if c = - 1 then None else Some (\<lparr>pid_of = c, ppid_of = pid_of p\<rparr>, argv e, []))"

text \<open>The results of the system calls of \<^verbatim>\<open>proc_daemonize\<close>. Of the two processes after \<^verbatim>\<open>fork\<close> the old one exits; \<open>adopter\<close> is the parent
  of the other one when it asks for it: the old one while that has not exited yet, another process afterwards.\<close>

record daemon_sys =
  fork_pid :: int
  adopter :: int
  setsid_result :: int
  devnull :: int
  dup_stdin :: int
  dup_stdout :: int
  close_devnull :: int

definition proc_daemonize :: "daemon_sys \<Rightarrow> process \<Rightarrow> int \<times> process" where
  "proc_daemonize D p =
     (if fork_pid D = - 1 then (- 1, p)
      else let q = \<lparr>pid_of = fork_pid D, ppid_of = adopter D\<rparr> in
        if setsid_result D = - 1 then (- 1, q)
        else if devnull D = - 1 then (- 1, q)
        else if dup_stdin D = - 1 then (- 1, q)
        else if dup_stdout D = - 1 then (- 1, q)
        else if devnull D > 2 \<and> close_devnull D = - 1 then (- 1, q)
        else (0, q))"

section \<open>The connection\<close>

definition DLOG_UNIX_SKT_NAME :: string where "DLOG_UNIX_SKT_NAME = ''/tmp/.dlogxfer_''"

definition skt_name :: "process \<Rightarrow> string" where
  "skt_name p = DLOG_UNIX_SKT_NAME @ dec_of_int (pid_of p)"

definition parent_skt_name :: "process \<Rightarrow> string" where
  "parent_skt_name p = DLOG_UNIX_SKT_NAME @ dec_of_int (ppid_of p)"

text \<open>The address has room for 108 bytes, of which the last stays zero.\<close>

definition sun_path :: "string \<Rightarrow> string" where
  "sun_path s = take 107 s"

text \<open>The loop that waits for the new binary; \<open>conn k\<close> is the result of the \<open>k\<close>th \<^verbatim>\<open>connect\<close>.\<close>

fun connect_wait :: "(nat \<Rightarrow> int) \<Rightarrow> nat \<Rightarrow> nat \<Rightarrow> int" where
  "connect_wait conn k 0 = conn k"
| "connect_wait conn k (Suc loop) = (if conn k < 0 then connect_wait conn (Suc k) loop else conn k)"

definition fdxfer_open_send :: "bool \<Rightarrow> (nat \<Rightarrow> int) \<Rightarrow> int" where
  "fdxfer_open_send socket_ok conn = (if \<not> socket_ok then - 1 else connect_wait conn 0 3)"

definition fdxfer_open_recv :: "bool \<Rightarrow> bool \<Rightarrow> bool \<Rightarrow> bool \<Rightarrow> recv_result list \<Rightarrow> (int \<times> msg_array) option" where
  "fdxfer_open_recv socket_ok bind_ok listening accept_ok rs =
     (if \<not> socket_ok \<or> \<not> bind_ok \<or> \<not> listening \<or> \<not> accept_ok then Some (- 1, no_msgs) else recv_loop rs no_msgs)"

text \<open>The addresses that the two sides use: that of the old process, and what \<^verbatim>\<open>main\<close> of the new binary listens on, after it has
  become a daemon unless told not to.\<close>

definition send_address :: "process \<Rightarrow> string" where
  "send_address p = sun_path (skt_name p)"

definition recv_address :: "bool \<Rightarrow> daemon_sys \<Rightarrow> process \<Rightarrow> string" where
  "recv_address foreground D p = sun_path (parent_skt_name (if foreground then p else snd (proc_daemonize D p)))"

section \<open>Shutting down and restarting\<close>

text \<open>The descriptors are visited in the order of the active list; those that can be read are sent with their unread text. \<open>sent i\<close>
  says whether \<^verbatim>\<open>sendmsg\<close> accepts the message.\<close>

fun send_all :: "'h table \<Rightarrow> (nat \<Rightarrow> bool) \<Rightarrow> nat list \<Rightarrow> (xfer_msg \<times> int) list option" where
  "send_all s sent [] = Some []"
| "send_all s sent (i # is) = do {
     d \<leftarrow> t_descs s i;
     m \<leftarrow> (if dtype_bits (d_type d) AND D_CORE_READ_TYPES \<noteq> 0 then do {
             symbol \<leftarrow> dyn_text (d_symbol d);
             msg \<leftarrow> fdxfer_send (d_type d) symbol (reader d);
             Some (if sent i then [(msg, fd d)] else [])
           }
           else Some []);
     ms \<leftarrow> send_all s sent is;
     Some (m @ ms)
   }"

text \<open>What the shutdown does to the table before the process exits; \<open>listen_skt\<close> and \<open>inotify_d\<close> are the global pointers.\<close>

definition dlog_sig_shutdown ::
  "'h allocator \<Rightarrow> sys \<Rightarrow> (string \<Rightarrow> write_result) \<Rightarrow> nat option \<Rightarrow> nat option \<Rightarrow> 'h table \<Rightarrow> 'h table option" where
  "dlog_sig_shutdown A S writev listen_skt inotify_d s = do {
     s \<leftarrow> close_descriptor A s listen_skt;
     s \<leftarrow> close_descriptor A s inotify_d;
     desc_active_writes_drain A S writev True s
   }"

definition dlog_sig_restart ::
  "'h allocator \<Rightarrow> sys \<Rightarrow> (string \<Rightarrow> write_result) \<Rightarrow> nat option \<Rightarrow> nat option \<Rightarrow> int \<Rightarrow> (nat \<Rightarrow> bool) \<Rightarrow> 'h table
   \<Rightarrow> ((xfer_msg \<times> int) list \<times> 'h table) option" where
  "dlog_sig_restart A S writev listen_skt inotify_d open_send sent s = do {
     s \<leftarrow> close_descriptor A s listen_skt;
     s \<leftarrow> desc_active_writes_drain A S writev True s;
     ms \<leftarrow> (if tqh_first (t_active s) \<noteq> None \<and> open_send = 0 then TAILQ_FOREACH (t_active s) \<bind> send_all s sent else Some []);
     s \<leftarrow> dlog_sig_shutdown A S writev listen_skt inotify_d s;
     Some (ms, s)
   }"

section \<open>Lemmas\<close>

lemma dec_of_int_inj: "dec_of_int i = dec_of_int j \<Longrightarrow> i = j"
  by (metis fscanf_dec option.inject)

lemma sun_path_short:
  assumes "0 \<le> n" and "n < 10 ^ 10"
  shows "sun_path (DLOG_UNIX_SKT_NAME @ dec_of_int n) = DLOG_UNIX_SKT_NAME @ dec_of_int n"
proof -
  have "length (dec_of_int n) \<le> 10" using length_dec_of_nat[of 10 "nat n"] assms by (simp add: dec_of_int_def nat_less_iff)
  then show ?thesis by (simp add: sun_path_def DLOG_UNIX_SKT_NAME_def)
qed

lemma connect_wait_0_iff:
  assumes "\<And>k. conn k = 0 \<or> conn k = - 1"
  shows "connect_wait conn k loop = 0 \<longleftrightarrow> (\<exists>j \<le> loop. conn (k + j) = 0)"
proof (induction loop arbitrary: k)
  case (Suc loop)
  have "(\<exists>j \<le> Suc loop. conn (k + j) = 0) \<longleftrightarrow> conn k = 0 \<or> (\<exists>j \<le> loop. conn (Suc k + j) = 0)"
    by (metis Suc_le_mono add.right_neutral add_Suc add_Suc_right le0 not0_implies_Suc)
  with Suc[of "Suc k"] assms[of k] show ?case by auto
qed simp

text \<open>Draining when at most one descriptor is active: nothing is closed.\<close>

lemma drain_none: "tqh_first (t_active s) = None \<Longrightarrow> desc_active_writes_drain A S writev c s = Some s"
  unfolding desc_active_writes_drain_def by (subst drain_from.simps) simp

lemma drain_one_reader:
  assumes "tq_rep (t_active s) [i]" and "t_descs s i = Some d" and "\<not> D_IS_WRITE_SIDE (d_type d)"
  shows "desc_active_writes_drain A S writev c s = Some s"
proof -
  have "tqh_first (t_active s) = Some i" "tqe_next (t_active s) i = None" using assms(1) by (auto simp: tq_rep_def)
  moreover have "drain_from A S writev c s None (Some i) = Some s" by (subst drain_from.simps) simp
  ultimately show ?thesis using assms(2,3) unfolding desc_active_writes_drain_def by (subst drain_from.simps) simp
qed

section \<open>Properties\<close>

text \<open>The old process reaches the new binary exactly when one of its first four attempts to connect succeeds.\<close>

theorem open_send_attempts:
  assumes "\<And>k. conn k = 0 \<or> conn k = - 1"
  shows "fdxfer_open_send True conn = 0 \<longleftrightarrow> (\<exists>j < 4. conn j = 0)"
  using connect_wait_0_iff[of conn 0 3, OF assms] by (auto simp: fdxfer_open_send_def less_Suc_eq_le eval_nat_numeral)

theorem open_send_attempts_witness: "fdxfer_open_send True (\<lambda>k. if k = 3 then 0 else - 1) = 0"
  by (subst open_send_attempts) auto

text \<open>C39: the new binary listens where the old process connects only if it does not become a daemon (or fails to): otherwise it asks
  for its parent after the fork, when that is no longer the old process, and the descriptors are not handed over.\<close>

theorem restart_addresses:
  assumes "proc_restart_with_newbinary c e p = Some (q, args, env)" and "0 \<le> pid_of p" and "pid_of p < 10 ^ 10"
    and "0 \<le> adopter D" and "adopter D < 10 ^ 10" and "adopter D \<noteq> pid_of p"
  shows "recv_address foreground D q = send_address p \<longleftrightarrow> foreground \<or> fork_pid D = - 1"
proof -
  have q: "ppid_of q = pid_of p" using assms(1) by (auto simp: proc_restart_with_newbinary_def split: if_splits)
  have d: "ppid_of (snd (proc_daemonize D q)) = (if fork_pid D = - 1 then ppid_of q else adopter D)" by (simp add: proc_daemonize_def Let_def)
  have "DLOG_UNIX_SKT_NAME @ dec_of_int (adopter D) \<noteq> DLOG_UNIX_SKT_NAME @ dec_of_int (pid_of p)" using assms(6) dec_of_int_inj by auto
  then show ?thesis using sun_path_short[OF assms(2,3)] sun_path_short[OF assms(4,5)] q d
    by (auto simp: recv_address_def send_address_def skt_name_def parent_skt_name_def)
qed

theorem restart_addresses_witness:
  "\<exists>q. proc_restart_with_newbinary 200 no_env_param \<lparr>pid_of = 100, ppid_of = 1\<rparr> = Some q
     \<and> recv_address False \<lparr>fork_pid = 201, adopter = 1, setsid_result = 201, devnull = 3, dup_stdin = 0, dup_stdout = 1, close_devnull = 0\<rparr> (fst q)
         \<noteq> send_address \<lparr>pid_of = 100, ppid_of = 1\<rparr>
     \<and> recv_address True \<lparr>fork_pid = 201, adopter = 1, setsid_result = 201, devnull = 3, dup_stdin = 0, dup_stdout = 1, close_devnull = 0\<rparr> (fst q)
         = send_address \<lparr>pid_of = 100, ppid_of = 1\<rparr>"
proof -
  let ?D = "\<lparr>fork_pid = 201, adopter = 1, setsid_result = 201, devnull = 3, dup_stdin = 0, dup_stdout = 1, close_devnull = 0\<rparr>"
  let ?p = "\<lparr>pid_of = 100, ppid_of = 1\<rparr>"
  have q: "proc_restart_with_newbinary 200 no_env_param ?p = Some (\<lparr>pid_of = 200, ppid_of = 100\<rparr>, argv no_env_param, [])"
    by (simp add: proc_restart_with_newbinary_def)
  from restart_addresses[OF q, of ?D] q show ?thesis by simp
qed

text \<open>C25: a restart of a daemon whose only active descriptor is one reader, and which has neither a listening socket nor an inotify descriptor, hands the
  reader over: one message is sent, and the new binary that receives it gives the unread
  text, the scan position and the descriptor to the first origin with the reader's symbol and type. The text and the symbol have no NUL. With a second active
  descriptor or a listening socket the restart faults (\<open>restart_two_readers_faults\<close>, \<open>restart_closes_listener_twice\<close>).\<close>

theorem restart_hands_over:
  assumes "tq_rep (t_active s) [i]" and "t_descs s i = Some d" and "d_type d \<in> {D_FILER, D_FIFOR, D_SOCKETR}"
    and "dyn_rep (d_symbol d) symbol" and "dyn_rep (buf (reader d)) t" and "NUL \<notin> set symbol" and "NUL \<notin> set t"
    and "symbol \<noteq> DLOG_CLIENT_SOCKET_SYM" and "sent i"
    and "\<forall>y \<in> set xs. \<not> (or_symbol y = symbol \<and> or_type y = d_type d)" and "or_symbol x = symbol" and "or_type x = d_type d"
  shows "\<exists>m a. dlog_sig_restart A S writev None None 0 sent s = Some ([(m, fd d)], s)
     \<and> fdxfer_open_recv True True True True [delivered (m, n), Recv_Closed] = Some (0, a)
     \<and> foldl (\<lambda>os m. import_msg m os) (xs @ x # ys) (msgs_of a) = xs @ x\<lparr>inh_buffer := Some t, inh_idx := cur_idx (reader d), inh_fd := n\<rparr> # ys"
proof -
  let ?m = "\<lparr>in_fd = 0, desc_type = d_type d, buf_idx = cur_idx (reader d), buf_len = int (length symbol + length t + 2),
     xbytes = symbol @ NUL # t @ [NUL]\<rparr>"
  have ty: "\<not> D_IS_WRITE_SIDE (d_type d)" "dtype_bits (d_type d) AND D_CORE_READ_TYPES \<noteq> 0"
    using assms(3) by (auto simp: D_IS_WRITE_SIDE_def D_CORE_READ_TYPES_def)
  have f: "tqh_first (t_active s) = Some i" "TAILQ_FOREACH (t_active s) = Some [i]"
    using assms(1) tq.elems_law[OF assms(1)] by (auto simp: tq_rep_def)
  have "send_all s sent [i] = Some [(?m, fd d)]"
    using assms(2,9) ty(2) dyn_text_rep[OF assms(4)] send_text[OF assms(5,7)] by simp
  then have r: "dlog_sig_restart A S writev None None 0 sent s = Some ([(?m, fd d)], s)"
    using f drain_one_reader[OF assms(1,2) ty(1)] by (simp add: dlog_sig_restart_def dlog_sig_shutdown_def close_descriptor_def)
  obtain a where a: "recv_loop (map delivered [(?m, n)] @ Recv_Closed # []) no_msgs = Some (0, a)" "array_ok a [?m\<lparr>in_fd := n\<rparr>]"
    using recv_loop_ok[OF no_msgs_ok, of "[(?m, n)]" "[]"] by auto
  have "fdxfer_open_recv True True True True [delivered (?m, n), Recv_Closed] = Some (0, a)" using a(1) by (simp add: fdxfer_open_recv_def)
  moreover have "foldl (\<lambda>os m. import_msg m os) (xs @ x # ys) (msgs_of a) = xs @ x\<lparr>inh_buffer := Some t, inh_idx := cur_idx (reader d), inh_fd := n\<rparr> # ys"
    using msgs_of_ok[OF a(2)] import_text[OF assms(6,7,8,10-12)] by simp
  ultimately show ?thesis using r by blast
qed

theorem restart_hands_over_witness:
  "\<forall>ar. \<exists>m a. dlog_sig_restart dynstr_arena sys0 (\<lambda>_. WouldBlock) None None 0 (\<lambda>_. True)
       (table1_listed ar log_origin ((a_desc DSTATE_ACTIVE D_FILER)\<lparr>reader := a_reader\<rparr>)) = Some ([(m, 4)], table1_listed ar log_origin ((a_desc DSTATE_ACTIVE D_FILER)\<lparr>reader := a_reader\<rparr>))
     \<and> fdxfer_open_recv True True True True [delivered (m, 9), Recv_Closed] = Some (0, a)
     \<and> foldl (\<lambda>os m. import_msg m os) [an_origin\<lparr>or_symbol := ''S''\<rparr>] (msgs_of a)
         = [an_origin\<lparr>or_symbol := ''S'', inh_buffer := Some ''ab'', inh_idx := 2, inh_fd := 9\<rparr>]"
proof (rule allI)
  fix ar :: arena
  let ?d = "(a_desc DSTATE_ACTIVE D_FILER)\<lparr>reader := a_reader\<rparr>"
  let ?s = "table1_listed ar log_origin ?d" and ?x = "an_origin\<lparr>or_symbol := ''S''\<rparr>"
  have "t_descs ?s 0 = Some ?d" "d_type ?d \<in> {D_FILER, D_FIFOR, D_SOCKETR}" "dyn_rep (d_symbol ?d) ''S''" "dyn_rep (buf (reader ?d)) ''ab''"
    "NUL \<notin> set ''S''" "NUL \<notin> set ''ab''" "''S'' \<noteq> DLOG_CLIENT_SOCKET_SYM" "or_symbol ?x = ''S''" "or_type ?x = d_type ?d"
    by (simp_all add: table1_listed_def table1_def table0_def a_desc_def a_reader_def dyn_rep_def DLOG_CLIENT_SOCKET_SYM_def an_origin_def)
  from restart_hands_over[OF table1_listed_rep this(1-7), of "\<lambda>_. True" "[]" ?x dynstr_arena sys0 "\<lambda>_. WouldBlock" 9 "[]"] this(8,9)
  show "\<exists>m a. dlog_sig_restart dynstr_arena sys0 (\<lambda>_. WouldBlock) None None 0 (\<lambda>_. True) ?s = Some ([(m, 4)], ?s)
     \<and> fdxfer_open_recv True True True True [delivered (m, 9), Recv_Closed] = Some (0, a)
     \<and> foldl (\<lambda>os m. import_msg m os) [?x] (msgs_of a) = [an_origin\<lparr>or_symbol := ''S'', inh_buffer := Some ''ab'', inh_idx := 2, inh_fd := 9\<rparr>]"
    by (simp add: a_desc_def a_reader_def an_origin_def)
qed

text \<open>A restart with two active readers uses a released descriptor before anything is sent.\<close>

theorem restart_two_readers_faults:
  assumes "tq_rep (t_active s) (i # j # xs)" and "t_descs s i = Some d" and "t_descs s j = Some e"
    and "\<not> D_IS_WRITE_SIDE (d_type d)" and "\<not> D_IS_WRITE_SIDE (d_type e)" and "d_state e \<noteq> DSTATE_DEAD"
  shows "dlog_sig_restart A S writev None inotify_d open_send sent s = None"
  using drain_uses_released[OF assms, of A S writev] by (simp add: dlog_sig_restart_def close_descriptor_def)

text \<open>A restart with a listening socket that is the only active descriptor closes that socket a second time after releasing it.\<close>

theorem restart_closes_listener_twice:
  assumes "tq_rep (t_active s) [i]" and "t_descs s i = Some d" and "d_state d = DSTATE_ACTIVE"
  shows "dlog_sig_restart A S writev (Some i) inotify_d open_send sent s = None"
proof -
  have "dlog_sig_restart A S writev (Some i) inotify_d open_send sent s = None" if c: "close_descriptor A s (Some i) = Some s'" for s'
  proof -
    obtain q where q: "TAILQ_REMOVE (t_active s) i = Some q" "tq_rep q []" using tq.rem_law[OF assms(1), of i] by auto
    have "t_descs s' i = None" "t_active s' = q" using c assms(2,3) q(1)
      by (auto simp: close_descriptor_def bind_Some_iff dest!: symbol_remove_keeps)
    moreover have "tqh_first q = None" using q(2) by (auto simp: tq_rep_def)
    ultimately show ?thesis using c drain_none[of s'] by (simp add: dlog_sig_restart_def dlog_sig_shutdown_def close_descriptor_def[of A s'])
  qed
  then show ?thesis by (cases "close_descriptor A s (Some i)") (auto simp: dlog_sig_restart_def)
qed

theorem restart_closes_listener_twice_witness:
  "\<forall>ar. dlog_sig_restart dynstr_arena sys0 (\<lambda>_. WouldBlock) (Some 0) None 0 (\<lambda>_. True)
     (table1_listed ar log_origin (a_desc DSTATE_ACTIVE D_SOCKET_LISTEN)) = None"
proof (rule allI)
  fix ar :: arena
  show "dlog_sig_restart dynstr_arena sys0 (\<lambda>_. WouldBlock) (Some 0) None 0 (\<lambda>_. True)
     (table1_listed ar log_origin (a_desc DSTATE_ACTIVE D_SOCKET_LISTEN)) = None"
    by (rule restart_closes_listener_twice[OF table1_listed_rep, where d = "a_desc DSTATE_ACTIVE D_SOCKET_LISTEN"]) (simp_all add: table1_listed_def table1_def table0_def a_desc_def)
qed

end
