(* ===== verification/Line_Chunks.thy ===== *)
theory Line_Chunks
  imports Descriptor_IO
begin

text \<open>
  Lines across reads: when the text of a file arrives in several reads, the reader takes the same lines out of it as from the whole text, as
  long as no read starts with a newline. A newline at the start of a read is skipped as an empty line even if it ends the text before it.
\<close>

section \<open>The next line\<close>

lemma skip_nl_later:
  assumes "c \<le> length u" and "y = [] \<or> hd y \<noteq> NL"
  shows "skip_nl c (u @ y) = skip_nl c u" and "skip_nl (length u) (u @ y) = length u" and "skip_nl c u \<le> length u"
proof -
  have y: "takeWhile (\<lambda>x. x = NL) y = []" using assms(2) by (cases y) auto
  have "takeWhile (\<lambda>x. x = NL) (z @ y) = takeWhile (\<lambda>x. x = NL) z" for z using y by (induction z) simp_all
  then show "skip_nl c (u @ y) = skip_nl c u" using assms(1) by (simp add: skip_nl_def)
  show "skip_nl (length u) (u @ y) = length u" using y by (simp add: skip_nl_def)
  have "length (takeWhile (\<lambda>x. x = NL) (drop c u)) \<le> length (drop c u)" by (rule length_takeWhile_le)
  then show "skip_nl c u \<le> length u" using assms(1) by (simp add: skip_nl_def)
qed

lemma next_line_later:
  assumes "next_line c u = None" and "c \<le> length u" and "y = [] \<or> hd y \<noteq> NL"
  shows "next_line c (u @ y) = next_line (length u) (u @ y)"
proof -
  note k = skip_nl_later[OF assms(2,3)]
  have "NL \<notin> set (drop (skip_nl c u) u)" using assms(1) by (simp add: next_line_def find_char_None)
  from find_char_skip[OF this, of y] k show ?thesis
    by (cases "find_char NL y") (simp_all add: next_line_def)
qed

lemma next_line_before:
  assumes "next_line c u = Some (l, v)" and "c \<le> length u" and "y = [] \<or> hd y \<noteq> NL"
  shows "next_line c (u @ y) = Some (l, v @ y)"
proof -
  note k = skip_nl_later[OF assms(2,3)]
  obtain j where j: "find_char NL (drop (skip_nl c u) u) = Some j" "l = take (Suc (skip_nl c u + j)) u" "v = drop (Suc (skip_nl c u + j)) u"
    using assms(1) by (auto simp: next_line_def)
  have "Suc (skip_nl c u + j) \<le> length u" using find_char_Some[OF j(1)] by auto
  then show ?thesis using find_char_before[OF j(1), of y] k(1,3) j(2,3) by (simp add: next_line_def)
qed

section \<open>All lines\<close>

lemma cut_lines_append:
  assumes "cut_lines c t = (ls, u)" and "c \<le> length t" and "y = [] \<or> hd y \<noteq> NL"
  shows "cut_lines c (t @ y) = (let (ms, v) = cut_lines (length u) (u @ y) in (ls @ ms, v))"
  using assms(1,2)
proof (induction rule: cut_lines_rule)
  case (stop c t)
  from next_line_later[OF stop(1,2) assms(3)] show ?case
    by (simp add: cut_lines.simps[of c "t @ y"] cut_lines.simps[of "length t" "t @ y"] split: option.splits prod.splits)
next
  case (line c t l v ls u)
  from next_line_before[OF line(1,4) assms(3)] line(3) show ?case
    by (simp add: cut_lines.simps[of c "t @ y"] split: prod.splits)
qed

lemma eval_lines_append: "eval_lines eval (ls @ ms) s = eval_lines eval ls s \<bind> eval_lines eval ms"
  by (induction ls arbitrary: s) (auto split: Option.bind_split)

lemma cut_chunks_whole:
  assumes "c \<le> length t" and "\<forall>y \<in> set xs. y = [] \<or> hd y \<noteq> NL"
  shows "cut_chunks c t (x # xs) = cut_lines c (t @ x @ concat xs)"
  using assms
proof (induction xs arbitrary: c t x)
  case Nil
  then show ?case by (simp split: prod.split)
next
  case (Cons y ys)
  obtain ls u where u: "cut_lines c (t @ x) = (ls, u)" by fastforce
  have "\<forall>y \<in> set ys. y = [] \<or> hd y \<noteq> NL" using Cons.prems(2) by simp
  then have "concat ys = [] \<or> hd (concat ys) \<noteq> NL" by (induction ys) (auto simp: hd_append)
  then have y: "y @ concat ys = [] \<or> hd (y @ concat ys) \<noteq> NL" using Cons.prems(2) by (auto simp: hd_append)
  have "cut_chunks (length u) u (y # ys) = cut_lines (length u) (u @ y @ concat ys)" using Cons.prems(2) by (intro Cons.IH) auto
  with cut_lines_append[OF u _ y] u Cons.prems(1) show ?case by (simp del: cut_chunks.simps(2) add: cut_chunks.simps(2)[of c t x])
qed

lemma cut_chunks_append:
  assumes "cut_chunks c t xs = (ls, u)" and "cut_chunks (if xs = [] then c else length u) u ys = (ms, v)"
  shows "cut_chunks c t (xs @ ys) = (ls @ ms, v)"
  using assms
proof (induction xs arbitrary: c t ls)
  case (Cons x xs)
  obtain ls1 u1 where u1: "cut_lines c (t @ x) = (ls1, u1)" by fastforce
  obtain ls2 where ls2: "cut_chunks (length u1) u1 xs = (ls2, u)" "ls = ls1 @ ls2" using Cons.prems(1) u1 by (auto split: prod.splits)
  have "cut_chunks (if xs = [] then length u1 else length u) u ys = (ms, v)" using Cons.prems(2) ls2(1) by (cases xs) auto
  from Cons.IH[OF ls2(1) this] ls2(2) u1 show ?case by simp
qed simp

text \<open>Read in pieces, a text without empty lines gives its documented lines, if no piece begins with a newline.\<close>

lemma cut_chunks_documented:
  assumes "cut_chunks c t xs = (ls, u)" and "c \<le> length t" and "NL \<notin> set t" and "no_empty_lines (t @ concat xs)"
    and "\<forall>x \<in> set xs. x = [] \<or> hd x \<noteq> NL"
  shows "ls = documented_lines (t @ concat xs) \<and> u = snd (text_lines (t @ concat xs))"
proof (cases xs)
  case Nil
  with assms(1) text_lines_none[OF assms(3)] show ?thesis by (simp add: documented_lines_def)
next
  case (Cons x ys)
  have "concat xs = [] \<or> hd (concat xs) \<noteq> NL" using assms(5) by (induction xs) (auto simp: hd_append)
  moreover have "hd (drop c (t @ concat xs)) \<noteq> NL" if "c < length t"
  proof -
    have "t ! c \<noteq> NL" using nth_mem[OF that] assms(3) by metis
    with that show ?thesis by (simp add: hd_drop_conv_nth nth_append)
  qed
  moreover have "NL \<notin> set (take c (t @ concat xs))" using assms(2,3) by (auto dest: in_set_takeD)
  ultimately have "scanned_ok c (t @ concat xs)" using assms(2) by (cases "c = length t") (auto simp: scanned_ok_def)
  from cut_lines_documented[OF assms(4) this] assms(2) have "cut_lines c (t @ concat xs) = (documented_lines (t @ concat xs), snd (text_lines (t @ concat xs)))" by simp
  with cut_chunks_whole[OF assms(2), of ys x] assms(1,5) Cons show ?thesis by (simp del: cut_chunks.simps)
qed

end
