(* ===== verification/Idle_Loop.thy ===== *)
theory Idle_Loop
  imports Main_Loop Line_Chunks
begin

text \<open>
  What the main loop does when no event arrived: \<^verbatim>\<open>idle_loop\<close> visits the table of pending reads and reads each descriptor that is
  not yet at its end (\<^verbatim>\<open>dlog.c\<close>, with \<^verbatim>\<open>ht_visit\<close> of \<^verbatim>\<open>hashtable.c\<close>). Reading removes and adds elements of the chains that are being visited;
  the visit goes on at the element whose address it saved before the read.
\<close>

section \<open>Visiting the pending reads\<close>

text \<open>The loop along the chain of a bucket: \<open>c\<close> is the address of the element, which must not have been released; the first element is part
  of the table and ends the loop when it has no value.\<close>

partial_function (option) visit_from :: "('s \<Rightarrow> pending) \<Rightarrow> (nat \<Rightarrow> 's \<Rightarrow> 's option) \<Rightarrow> nat \<Rightarrow> nat option \<Rightarrow> 's \<Rightarrow> 's option" where
  "visit_from P visitor b el s =
     (case el of
        None \<Rightarrow> Some s
      | Some c \<Rightarrow>
          (case dropWhile (\<lambda>e. pe_cell e \<noteq> c) (p_chain (P s) b) of
             [] \<Rightarrow> if c = 0 then Some s else None
           | e # es \<Rightarrow> visitor (pe_desc e) s \<bind>
               visit_from P visitor b (case es of [] \<Rightarrow> None | tmpe # _ \<Rightarrow> Some (pe_cell tmpe))))"

fun visit_pending :: "('s \<Rightarrow> pending) \<Rightarrow> (nat \<Rightarrow> 's \<Rightarrow> 's option) \<Rightarrow> nat list \<Rightarrow> 's \<Rightarrow> 's option" where
  "visit_pending P visitor [] s = Some s"
| "visit_pending P visitor (b # bs) s = visit_from P visitor b (Some 0) s \<bind> visit_pending P visitor bs"

definition read_pending_desc :: "'h allocator \<Rightarrow> ('k, 'x) outside \<Rightarrow> int \<Rightarrow> nat \<Rightarrow> 'h table \<times> 'k \<times> 'x \<Rightarrow> ('h table \<times> 'k \<times> 'x) option" where
  "read_pending_desc A X bitmask i z = do {
     d \<leftarrow> t_descs (fst z) i;
     if read_pending bitmask d then read_table A X i 0 z else Some z
   }"

definition desc_pending_drain_all :: "'h allocator \<Rightarrow> ('k, 'x) outside \<Rightarrow> int \<Rightarrow> 'h table \<times> 'k \<times> 'x \<Rightarrow> ('h table \<times> 'k \<times> 'x) option" where
  "desc_pending_drain_all A X bitmask = visit_pending (\<lambda>z. t_pending (fst z)) (read_pending_desc A X bitmask) [0..<pend_buckets]"

definition idle_loop :: "'h allocator \<Rightarrow> ('k, 'x) outside \<Rightarrow> ('h, 'k, 'x) loop_state \<Rightarrow> ('h, 'k, 'x) loop_state option" where
  "idle_loop A X l = do {
     (s, k, x) \<leftarrow> desc_pending_drain_all A X D_CORE_READ_TYPES (l_table l, l_kernel l, l_eval l);
     Some (l\<lparr>l_table := s, l_kernel := k, l_eval := x\<rparr>)
   }"

section \<open>Visiting a table without collisions\<close>

lemma visit_none [simp]: "visit_from P visitor b None s = Some s"
  by (subst visit_from.simps) simp

lemma visit_empty: "p_chain (P s) b = [] \<Longrightarrow> visit_from P visitor b (Some 0) s = Some s"
  by (subst visit_from.simps) simp

lemma visit_single: "p_chain (P s) b = [e] \<Longrightarrow> pe_cell e = 0 \<Longrightarrow> visit_from P visitor b (Some 0) s = visitor (pe_desc e) s"
  by (subst visit_from.simps) (cases "visitor (pe_desc e) s"; simp)

text \<open>Every chain is empty or has its first element only.\<close>

definition pend_single :: "pending \<Rightarrow> bool" where
  "pend_single p \<longleftrightarrow> (\<forall>b. p_chain p b = [] \<or> (\<exists>e. p_chain p b = [e] \<and> pe_cell e = 0 \<and> pend_bucket (pe_fd e) = b))"

definition bucket_descs :: "pending \<Rightarrow> nat list \<Rightarrow> nat list" where
  "bucket_descs p bs = concat (map (\<lambda>b. map pe_desc (p_chain p b)) bs)"

text \<open>The descriptors read one after the other.\<close>

fun read_each :: "'h allocator \<Rightarrow> ('k, 'x) outside \<Rightarrow> nat list \<Rightarrow> 'h table \<times> 'k \<times> 'x \<Rightarrow> ('h table \<times> 'k \<times> 'x) option" where
  "read_each A X [] z = Some z"
| "read_each A X (i # is) z = read_table A X i 0 z \<bind> read_each A X is"

text \<open>A pending read of an active file, FIFO or client.\<close>

definition active_reader :: "'h table \<Rightarrow> int \<Rightarrow> nat \<Rightarrow> bool" where
  "active_reader s n i \<longleftrightarrow> (\<exists>d. t_descs s i = Some d \<and> d_state d = DSTATE_ACTIVE \<and> \<not> pre_read d \<and> fd d = n \<and> 0 < n
     \<and> d_type d \<in> {D_FILER, D_FIFOR, D_SOCKETR})"

lemma read_table_active:
  assumes "read_table A X i 0 (s, k, x) = Some (s', k', x')" and "active_reader s n i"
  shows "\<exists>d lr. t_descs s i = Some d \<and> t_descs s' = (t_descs s)(i \<mapsto> d\<lparr>reader := lr\<rparr>)
     \<and> (\<forall>b. b \<noteq> pend_bucket n \<longrightarrow> p_chain (t_pending s') b = p_chain (t_pending s) b)"
proof -
  obtain d where d: "t_descs s i = Some d" "d_state d = DSTATE_ACTIVE" "\<not> pre_read d" "fd d = n" "0 < n" using assms(2) by (auto simp: active_reader_def)
  let ?d = "descriptor.truncate d"
  have tr: "d_state ?d = DSTATE_ACTIVE" "fd ?d = n" using d by (simp_all add: descriptor.defs)
  obtain d' calls h where r: "descriptor_read A (o_read X) None (o_eval X) (t_heap s) ?d 0 k x = Some (d', calls, h, k', x')"
    "run_calls A (o_sys X i) i (d_type d) calls (s\<lparr>t_heap := h, t_descs := (t_descs s)(i \<mapsto> d\<lparr>reader := reader d'\<rparr>)\<rparr>) = Some s'"
    using assms(1) d(1,3) by (auto simp: read_table_def bind_Some_iff)
  have "set calls \<subseteq> {Desc_Pending_Add n, Desc_Pending_Remove n}"
    using r(1) tr by (auto simp: descriptor_read_def Let_def bind_Some_iff split: if_splits)
  then have "t_descs s' = t_descs s0 \<and> (\<forall>b. b \<noteq> pend_bucket n \<longrightarrow> p_chain (t_pending s') b = p_chain (t_pending s0) b)"
    if "run_calls A S i ty calls s0 = Some s'" for S ty s0
    using that
  proof (induction calls arbitrary: s0)
    case (Cons c cs)
    then obtain s1 where s1: "run_call A S i ty c s0 = Some s1" "run_calls A S i ty cs s1 = Some s'" by (auto simp: bind_Some_iff)
    moreover have "t_descs s1 = t_descs s0 \<and> (\<forall>b. b \<noteq> pend_bucket n \<longrightarrow> p_chain (t_pending s1) b = p_chain (t_pending s0) b)"
      using Cons.prems(1) s1(1) d(5) by (auto simp: add_chain remove_chain)
    ultimately show ?case using Cons by auto
  qed simp
  from this[OF r(2)] d(1) show ?thesis by (intro exI[of _ d] exI[of _ "reader d'"]) auto
qed

lemma active_reader_keeps:
  assumes "t_descs s i = Some d" and "t_descs s' = (t_descs s)(i \<mapsto> d\<lparr>reader := lr\<rparr>)" and "active_reader s n j"
  shows "active_reader s' n j"
  using assms by (cases "j = i") (auto simp: active_reader_def)

lemma visit_reads:
  assumes "distinct bs"
    and "\<forall>b \<in> set bs. p_chain (t_pending s) b = [] \<or> (\<exists>e. p_chain (t_pending s) b = [e] \<and> pe_cell e = 0 \<and> pend_bucket (pe_fd e) = b
      \<and> active_reader s (pe_fd e) (pe_desc e))"
  shows "visit_pending (\<lambda>z. t_pending (fst z)) (read_pending_desc A X D_CORE_READ_TYPES) bs (s, k, x)
     = read_each A X (bucket_descs (t_pending s) bs) (s, k, x)"
  using assms
proof (induction bs arbitrary: s k x)
  case (Cons b bs)
  let ?P = "\<lambda>z. t_pending (fst z)" and ?f = "read_pending_desc A X D_CORE_READ_TYPES"
  consider "p_chain (t_pending s) b = []"
    | e where "p_chain (t_pending s) b = [e]" "pe_cell e = 0" "pend_bucket (pe_fd e) = b" "active_reader s (pe_fd e) (pe_desc e)"
    using Cons.prems(2) by auto
  then show ?case
  proof cases
    case 1
    with Cons.IH[of s k x] Cons.prems visit_empty[of ?P "(s, k, x)" b] show ?thesis by (simp add: bucket_descs_def)
  next
    case (2 e)
    have f: "?f (pe_desc e) (s, k, x) = read_table A X (pe_desc e) 0 (s, k, x)"
      using 2(4) by (auto simp: read_pending_desc_def active_reader_def read_pending_iff)
    have v: "visit_pending ?P ?f (b # bs) (s, k, x) = read_table A X (pe_desc e) 0 (s, k, x) \<bind> visit_pending ?P ?f bs"
      using visit_single[of ?P "(s, k, x)" b e ?f] 2 f by simp
    show ?thesis
    proof (cases "read_table A X (pe_desc e) 0 (s, k, x)")
      case None
      then show ?thesis unfolding v using 2(1) by (simp add: bucket_descs_def)
    next
      case (Some z)
      then obtain s' k' x' where z: "read_table A X (pe_desc e) 0 (s, k, x) = Some (s', k', x')" by (cases z) auto
      obtain d lr where d: "t_descs s (pe_desc e) = Some d" "t_descs s' = (t_descs s)(pe_desc e \<mapsto> d\<lparr>reader := lr\<rparr>)"
        "\<forall>b'. b' \<noteq> b \<longrightarrow> p_chain (t_pending s') b' = p_chain (t_pending s) b'" using read_table_active[OF z 2(4)] 2(3) by auto
      have ch: "\<forall>b' \<in> set bs. p_chain (t_pending s') b' = p_chain (t_pending s) b'" using d(3) Cons.prems(1) by auto
      then have "visit_pending ?P ?f bs (s', k', x') = read_each A X (bucket_descs (t_pending s') bs) (s', k', x')"
        using Cons.prems active_reader_keeps[OF d(1,2)] by (intro Cons.IH) (simp, force)
      moreover have "bucket_descs (t_pending s') bs = bucket_descs (t_pending s) bs" using ch by (simp add: bucket_descs_def cong: map_cong)
      ultimately show ?thesis unfolding v using z 2(1) by (simp add: bucket_descs_def)
    qed
  qed
qed (simp add: bucket_descs_def)

section \<open>One pending file\<close>

definition none_pending :: "pending \<Rightarrow> bool" where
  "none_pending p \<longleftrightarrow> p_chain p = (\<lambda>_. [])"

definition only_pending :: "int \<Rightarrow> nat \<Rightarrow> pending \<Rightarrow> bool" where
  "only_pending n i p \<longleftrightarrow> p_chain p = (\<lambda>b. if b = pend_bucket n then [\<lparr>pe_cell = 0, pe_fd = n, pe_desc = i\<rparr>] else [])"

lemma add_only: "none_pending p \<or> only_pending n i p \<Longrightarrow> only_pending n i (desc_pending_add n i p)"
  by (auto simp: none_pending_def only_pending_def add_chain fun_eq_iff)

lemma remove_only: "0 < n \<Longrightarrow> none_pending p \<or> only_pending n i p \<Longrightarrow> \<exists>p'. desc_pending_remove n p = Some p' \<and> none_pending p'"
  by (auto simp: none_pending_def only_pending_def desc_pending_remove_def fun_eq_iff)

lemma pend_read_only:
  assumes "0 < n" and "none_pending p \<or> only_pending n i p"
  shows "\<exists>pd. pend_read n i ret again p = Some pd \<and> (none_pending pd \<or> only_pending n i pd)
     \<and> (again \<longrightarrow> only_pending n i pd) \<and> (\<not> again \<longrightarrow> ret = 0 \<longrightarrow> none_pending pd)"
  using add_only[OF assms(2)] remove_only[OF assms] assms(2) by (auto simp: pend_read_def)

lemma pending_only [simp]: "none_pending p \<Longrightarrow> pending_desc p = Map.empty"
  by (auto simp: none_pending_def pending_desc_def pend_of_def)

text \<open>The daemon reads the file of descriptor \<open>i\<close> and holds the text \<open>t\<close> of it, of which \<open>c\<close> characters were searched for a newline.\<close>

definition reads_file :: "(arena, 'k, 'x) loop_state \<Rightarrow> nat \<Rightarrow> int \<Rightarrow> nat \<Rightarrow> string \<Rightarrow> bool" where
  "reads_file l i n c t \<longleftrightarrow> table_ok (l_table l) \<and> active_reader (l_table l) n i
     \<and> (none_pending (t_pending (l_table l)) \<or> only_pending n i (t_pending (l_table l)))
     \<and> (\<exists>d L. t_descs (l_table l) i = Some d \<and> reader_at (t_heap (l_table l)) L (reader d) c t)"

lemma reads_file_bound: "reads_file l i n c t \<Longrightarrow> c \<le> length t"
  by (auto simp: reads_file_def reader_in_def)

lemma reads_file_kernel [simp]:
  "reads_file (l\<lparr>l_kernel := k\<rparr>) i n c t = reads_file l i n c t" "reads_file (l\<lparr>l_watch := w\<rparr>) i n c t = reads_file l i n c t"
  "reads_file (l\<lparr>read_files := fs\<rparr>) i n c t = reads_file l i n c t"
  by (simp_all add: reads_file_def)

text \<open>One read of the file.\<close>

lemma read_file_ok:
  assumes l: "reads_file l i n c t" and b: "read_bounded (o_read X)"
    and p: "pull (o_read X) DLOG_READ_BUF_SZ (l_kernel l) (DYNSTR_USABLE_SIZE DLOG_READ_MAX_CHUNK) = (data, ret, again, k')"
    and c: "cut_lines c (t @ data) = (ls, u)" and e: "eval_lines (o_eval X) (map nul_cut ls) (l_eval l) = Some x'"
  shows "\<exists>s'. read_table dynstr_arena X i 0 (l_table l, l_kernel l, l_eval l) = Some (s', k', x')
     \<and> reads_file (l\<lparr>l_table := s', l_kernel := k', l_eval := x'\<rparr>) i n (length u) u
     \<and> (again \<longrightarrow> only_pending n i (t_pending s')) \<and> (\<not> again \<longrightarrow> ret = 0 \<longrightarrow> none_pending (t_pending s'))"
proof -
  let ?s = "l_table l"
  have a: "active_reader ?s n i" using l by (simp add: reads_file_def)
  obtain d L where dL: "t_descs ?s i = Some d" "reader_at (t_heap ?s) L (reader d) c t" using l unfolding reads_file_def by blast
  then have d: "t_descs ?s i = Some d" "d_state d = DSTATE_ACTIVE" "\<not> pre_read d" "fd d > 0" "fd d = n" "reader_at (t_heap ?s) L (reader d) c t"
    using a by (simp_all add: active_reader_def)
  have "0 < n" "none_pending (t_pending ?s) \<or> only_pending n i (t_pending ?s)" using d(4,5) l by (simp_all add: reads_file_def)
  from pend_read_only[OF this, of ret again] obtain pd where pd: "pend_read n i ret again (t_pending ?s) = Some pd" "none_pending pd \<or> only_pending n i pd"
    "again \<longrightarrow> only_pending n i pd" "\<not> again \<longrightarrow> ret = 0 \<longrightarrow> none_pending pd" by blast
  obtain ar' lr where r: "read_table dynstr_arena X i 0 (?s, l_kernel l, l_eval l) =
      Some (?s\<lparr>t_heap := ar', t_descs := (t_descs ?s)(i \<mapsto> d\<lparr>reader := lr\<rparr>), t_pending := pd\<rparr>, k', x')"
    "reader_at ar' (insert (ptr (buf lr)) (L - {ptr (buf (reader d))})) lr (length u) u"
    using read_table_runs[OF d(1-4,6) b p c e, of pd] pd(1) d(5) by blast
  let ?s' = "?s\<lparr>t_heap := ar', t_descs := (t_descs ?s)(i \<mapsto> d\<lparr>reader := lr\<rparr>), t_pending := pd\<rparr>"
  have "table_ok (?s\<lparr>t_heap := ar', t_descs := (t_descs ?s)(i \<mapsto> d\<lparr>reader := lr\<rparr>)\<rparr>)"
    using table_ok_update[of ?s i d, where d' = "d\<lparr>reader := lr\<rparr>" and h = ar' and \<sigma> = "t_strs ?s"] l d(1) by (simp add: reads_file_def)
  then have 1: "table_ok ?s'" by (simp add: table_ok_def active_ids_def)
  have 2: "active_reader ?s' n i" by (rule active_reader_keeps[OF d(1) _ a]) simp
  have "reads_file (l\<lparr>l_table := ?s', l_kernel := k', l_eval := x'\<rparr>) i n (length u) u"
    unfolding reads_file_def using 1 2 pd(2) r(2) by (intro conjI exI[of _ "d\<lparr>reader := lr\<rparr>"]) (simp_all, blast)
  with r(1) pd(3,4) show ?thesis by auto
qed

text \<open>The idle loop reads the file exactly if it is pending.\<close>

lemma bucket_descs_only:
  assumes "only_pending n i p"
  shows "bucket_descs p [0..<pend_buckets] = [i]"
proof -
  have s: "[0..<pend_buckets] = [0..<pend_bucket n] @ pend_bucket n # [Suc (pend_bucket n)..<pend_buckets]"
    using upt_add_eq_append[of 0 "pend_bucket n" "pend_buckets - pend_bucket n"] upt_conv_Cons[of "pend_bucket n" pend_buckets] pend_bucket_less[of n]
    by (simp add: pend_buckets_def)
  have "concat (map (\<lambda>b. map pe_desc (p_chain p b)) bs) = []" if "pend_bucket n \<notin> set bs" for bs
    using assms that by (induction bs) (auto simp: only_pending_def)
  from this[of "[0..<pend_bucket n]"] this[of "[Suc (pend_bucket n)..<pend_buckets]"]
  have "concat (map (\<lambda>b. map pe_desc (p_chain p b)) [0..<pend_bucket n]) = []"
    "concat (map (\<lambda>b. map pe_desc (p_chain p b)) [Suc (pend_bucket n)..<pend_buckets]) = []" by auto
  moreover have "p_chain p (pend_bucket n) = [\<lparr>pe_cell = 0, pe_fd = n, pe_desc = i\<rparr>]" using assms by (simp add: only_pending_def)
  ultimately show ?thesis unfolding bucket_descs_def s by (simp del: concat_eq_Nil_conv)
qed

lemma idle_reads:
  assumes "reads_file l i n c t" and "only_pending n i (t_pending (l_table l))"
  shows "idle_loop A X l = map_option (\<lambda>(s, k, x). l\<lparr>l_table := s, l_kernel := k, l_eval := x\<rparr>)
     (read_table A X i 0 (l_table l, l_kernel l, l_eval l))"
proof -
  have "desc_pending_drain_all A X D_CORE_READ_TYPES (l_table l, l_kernel l, l_eval l) =
      read_each A X (bucket_descs (t_pending (l_table l)) [0..<pend_buckets]) (l_table l, l_kernel l, l_eval l)"
    unfolding desc_pending_drain_all_def using assms by (intro visit_reads) (auto simp: only_pending_def reads_file_def)
  then show ?thesis using bucket_descs_only[OF assms(2)]
    by (cases "read_table A X i 0 (l_table l, l_kernel l, l_eval l)") (auto simp: idle_loop_def split: prod.splits)
qed

lemma idle_nothing:
  assumes "none_pending (t_pending (l_table l))"
  shows "idle_loop A X l = Some l"
proof -
  have "visit_pending (\<lambda>z. t_pending (fst z)) f bs (l_table l, l_kernel l, l_eval l) = Some (l_table l, l_kernel l, l_eval l)" for f bs
    using assms by (induction bs) (simp_all add: visit_empty none_pending_def)
  then show ?thesis by (cases l) (simp add: idle_loop_def desc_pending_drain_all_def)
qed

section \<open>A file as the kernel\<close>

text \<open>The text of a file behind the descriptor's position: \<^verbatim>\<open>read\<close> takes as much as there is, up to the size of the buffer.\<close>

definition file_read :: "string kernel_read" where
  "file_read k n = (Read_Bytes (take (nat n) k), drop (nat n) k)"

lemma file_read_bounded: "read_bounded file_read"
  by (auto simp: read_bounded_def file_read_def)

lemma read_sizes: "DLOG_READ_BUF_SZ = 4096" "DYNSTR_USABLE_SIZE DLOG_READ_MAX_CHUNK \<le> 4096" "0 < DYNSTR_USABLE_SIZE DLOG_READ_MAX_CHUNK"
  using usable_chunk by (simp_all add: DLOG_READ_BUF_SZ_def DYNSTR_USABLE_SIZE_def DLOG_READ_MAX_CHUNK_def sizeof_dynstr_def)

text \<open>One turn takes one buffer of the file, and all of it if that is the end of the file.\<close>

lemma pull_file:
  "\<exists>ret again. pull file_read DLOG_READ_BUF_SZ k (DYNSTR_USABLE_SIZE DLOG_READ_MAX_CHUNK) = (take 4096 k, ret, again, drop 4096 k)
     \<and> (again \<longrightarrow> k \<noteq> []) \<and> (\<not> again \<longrightarrow> ret = 0 \<and> drop 4096 k = [])"
proof -
  let ?mc = "DYNSTR_USABLE_SIZE DLOG_READ_MAX_CHUNK"
  have end_: "pull file_read 4096 [] mc = ([], 0, False, [])" for mc by (simp add: pull.simps file_read_def)
  show ?thesis
  proof (cases "k = [] \<or> ?mc - int (length (take 4096 k)) \<le> 0")
    case True
    then show ?thesis using end_ by (auto simp: pull.simps[of file_read 4096 k] file_read_def read_sizes(1))
  next
    case False
    then have "length k < 4096" using read_sizes(2) by (simp add: min_def split: if_splits)
    with False end_ show ?thesis by (auto simp: pull.simps[of file_read 4096 k] file_read_def read_sizes(1))
  qed
qed

fun idle_turns :: "nat \<Rightarrow> 'h allocator \<Rightarrow> ('k, 'x) outside \<Rightarrow> ('h, 'k, 'x) loop_state \<Rightarrow> ('h, 'k, 'x) loop_state option" where
  "idle_turns 0 A X l = Some l"
| "idle_turns (Suc n) A X l = idle_loop A X l \<bind> idle_turns n A X"

lemma turns_step:
  assumes "m \<le> (n - 4096 + 4095) div 4096 + (1::nat)" and "0 < n"
  shows "Suc m \<le> (n + 4095) div 4096 + 1"
proof (cases "n < 4096")
  case True
  then have "m \<le> 1" using assms(1) by simp
  moreover have "4096 div 4096 \<le> (n + 4095) div 4096" using assms(2) by (intro div_le_mono) simp
  ultimately show ?thesis by simp
next
  case False
  then have "n + 4095 = (n - 4096 + 4095) + 4096" by simp
  then have "(n + 4095) div 4096 = (n - 4096 + 4095) div 4096 + 1" by (metis div_add_self2 zero_neq_numeral)
  with assms(1) show ?thesis by simp
qed

text \<open>No newline is the first character of a buffer, apart from the first one.\<close>

definition buffers_inside :: "string \<Rightarrow> bool" where
  "buffers_inside k \<longleftrightarrow> (\<forall>j > 0. 4096 * j < length k \<longrightarrow> k ! (4096 * j) \<noteq> NL)"

text \<open>The first of the reads that take the text of a file: what is left to do is the same for the rest of the text.\<close>

lemma read_first:
  assumes l: "reads_file l i n c t" and X: "o_read X = file_read" and nl: "buffers_inside (l_kernel l)"
    and c: "cut_lines c (t @ l_kernel l) = (ls, u)" and e: "eval_lines (o_eval X) (map nul_cut ls) (l_eval l) = Some x'"
  obtains s' x1 u1 ms where "read_table dynstr_arena X i 0 (l_table l, l_kernel l, l_eval l) = Some (s', drop 4096 (l_kernel l), x1)"
    and "reads_file (l\<lparr>l_table := s', l_kernel := drop 4096 (l_kernel l), l_eval := x1\<rparr>) i n (length u1) u1"
    and "cut_lines (length u1) (u1 @ drop 4096 (l_kernel l)) = (ms, u)" and "eval_lines (o_eval X) (map nul_cut ms) x1 = Some x'"
    and "buffers_inside (drop 4096 (l_kernel l))"
    and "only_pending n i (t_pending s') \<and> l_kernel l \<noteq> [] \<or> none_pending (t_pending s') \<and> drop 4096 (l_kernel l) = [] \<and> x1 = x' \<and> u1 = u"
proof -
  let ?k = "l_kernel l" and ?rest = "drop 4096 (l_kernel l)"
  obtain ret again where p: "pull (o_read X) DLOG_READ_BUF_SZ ?k (DYNSTR_USABLE_SIZE DLOG_READ_MAX_CHUNK) = (take 4096 ?k, ret, again, ?rest)"
    "again \<longrightarrow> ?k \<noteq> []" "\<not> again \<longrightarrow> ret = 0 \<and> ?rest = []" using pull_file[of ?k] X by auto
  obtain ls1 u1 where c1: "cut_lines c (t @ take 4096 ?k) = (ls1, u1)" by fastforce
  have y: "?rest = [] \<or> hd ?rest \<noteq> NL" using nl[unfolded buffers_inside_def, rule_format, of 1] by (auto simp: hd_drop_conv_nth)
  have b: "c \<le> length (t @ take 4096 ?k)" using reads_file_bound[OF l] by simp
  obtain ms where ms: "cut_lines (length u1) (u1 @ ?rest) = (ms, u)" "ls = ls1 @ ms" using cut_lines_append[OF c1 b y] c by (auto split: prod.splits)
  obtain x1 where x1: "eval_lines (o_eval X) (map nul_cut ls1) (l_eval l) = Some x1" "eval_lines (o_eval X) (map nul_cut ms) x1 = Some x'"
    using e ms(2) by (auto simp: eval_lines_append bind_Some_iff)
  have bd: "read_bounded (o_read X)" using file_read_bounded X by simp
  obtain s' where r: "read_table dynstr_arena X i 0 (l_table l, ?k, l_eval l) = Some (s', ?rest, x1)"
    "reads_file (l\<lparr>l_table := s', l_kernel := ?rest, l_eval := x1\<rparr>) i n (length u1) u1"
    "again \<longrightarrow> only_pending n i (t_pending s')" "\<not> again \<longrightarrow> ret = 0 \<longrightarrow> none_pending (t_pending s')"
    using read_file_ok[OF l bd p(1) c1 x1(1)] by blast
  have "ls = ls1 \<and> u = u1 \<and> x1 = x'" if "?rest = []" using that c1 c x1(1) e by simp
  moreover have "buffers_inside ?rest" unfolding buffers_inside_def
    using nl[unfolded buffers_inside_def, rule_format, of "Suc _"] by simp
  ultimately show thesis using that[OF r(1,2) ms(1) x1(2)] r(3,4) p(2,3) by (cases again) auto
qed

lemma drain_file:
  assumes "reads_file l i n c t" and "only_pending n i (t_pending (l_table l))" and "o_read X = file_read" and "buffers_inside (l_kernel l)"
    and "cut_lines c (t @ l_kernel l) = (ls, u)" and "eval_lines (o_eval X) (map nul_cut ls) (l_eval l) = Some x'"
  shows "\<exists>m l'. m \<le> (length (l_kernel l) + 4095) div 4096 + 1 \<and> idle_turns m dynstr_arena X l = Some l' \<and> l_kernel l' = [] \<and> l_eval l' = x'
     \<and> reads_file l' i n (length u) u \<and> none_pending (t_pending (l_table l'))"
  using assms(1,2,4-6)
proof (induction "length (l_kernel l)" arbitrary: l c t ls u rule: less_induct)
  case less
  let ?k = "l_kernel l" and ?rest = "drop 4096 (l_kernel l)"
  obtain s' x1 u1 ms where r: "read_table dynstr_arena X i 0 (l_table l, ?k, l_eval l) = Some (s', ?rest, x1)"
    "reads_file (l\<lparr>l_table := s', l_kernel := ?rest, l_eval := x1\<rparr>) i n (length u1) u1" "cut_lines (length u1) (u1 @ ?rest) = (ms, u)"
    "eval_lines (o_eval X) (map nul_cut ms) x1 = Some x'" "buffers_inside ?rest"
    "only_pending n i (t_pending s') \<and> ?k \<noteq> [] \<or> none_pending (t_pending s') \<and> ?rest = [] \<and> x1 = x' \<and> u1 = u"
    by (rule read_first[OF less.prems(1) assms(3) less.prems(3,4,5)])
  let ?l = "l\<lparr>l_table := s', l_kernel := ?rest, l_eval := x1\<rparr>"
  have idle: "idle_loop dynstr_arena X l = Some ?l" using idle_reads[OF less.prems(1,2), of dynstr_arena X] r(1) by simp
  from r(6) show ?case
  proof (elim disjE conjE)
    assume again: "only_pending n i (t_pending s')" "?k \<noteq> []"
    have lt: "length (l_kernel ?l) < length ?k" using again(2) by simp
    have q: "only_pending n i (t_pending (l_table ?l))" "buffers_inside (l_kernel ?l)" "cut_lines (length u1) (u1 @ l_kernel ?l) = (ms, u)"
      "eval_lines (o_eval X) (map nul_cut ms) (l_eval ?l) = Some x'" using again(1) r(3,4,5) by simp_all
    obtain m l' where m: "m \<le> (length (l_kernel ?l) + 4095) div 4096 + 1" "idle_turns m dynstr_arena X ?l = Some l'" "l_kernel l' = []" "l_eval l' = x'"
      "reads_file l' i n (length u) u" "none_pending (t_pending (l_table l'))" using less.hyps[OF lt r(2) q] by blast
    have "m \<le> (length ?k - 4096 + 4095) div 4096 + 1" "0 < length ?k" using m(1) again(2) by simp_all
    then have "Suc m \<le> (length ?k + 4095) div 4096 + 1" by (rule turns_step)
    moreover have "idle_turns (Suc m) dynstr_arena X l = Some l'" using idle m(2) by simp
    ultimately show ?thesis using m(3-6) by blast
  next
    assume "none_pending (t_pending s')" "?rest = []" "x1 = x'" "u1 = u"
    moreover have "idle_turns 1 dynstr_arena X l = Some ?l" using idle by simp
    ultimately show ?thesis using r(2) by (intro exI[of _ 1] exI[of _ ?l]) simp
  qed
qed

text \<open>Idle turns without pending reads change nothing, so that more turns do not matter.\<close>

lemma idle_turns_none: "none_pending (t_pending (l_table l)) \<Longrightarrow> idle_turns m A X l = Some l"
  by (induction m) (simp_all add: idle_nothing)

lemma idle_turns_add: "idle_turns (m + m') A X l = idle_turns m A X l \<bind> idle_turns m' A X"
  by (induction m arbitrary: l) (auto split: Option.bind_split)

lemma idle_turns_more:
  assumes "idle_turns m A X l = Some l'" and "none_pending (t_pending (l_table l'))" and "m \<le> m'"
  shows "idle_turns m' A X l = Some l'"
  using idle_turns_add[of m "m' - m" A X l] assms idle_turns_none[OF assms(2)] by simp

lemma visit_append: "visit_pending P f (as @ bs) s = visit_pending P f as s \<bind> visit_pending P f bs"
  by (induction as arbitrary: s) (auto split: Option.bind_split)

lemma visit_empties: "\<forall>b \<in> set bs. p_chain (P s) b = [] \<Longrightarrow> visit_pending P f bs s = Some s"
  by (induction bs) (simp_all add: visit_empty)

lemma visit_released:
  assumes "c \<noteq> 0" and "c \<notin> pe_cell ` set (p_chain (P s) b)"
  shows "visit_from P f b (Some c) s = None"
proof -
  have "dropWhile (\<lambda>e. pe_cell e \<noteq> c) (p_chain (P s) b) = []" using assms(2) by (simp add: dropWhile_eq_Nil_conv) blast
  then show ?thesis using assms(1) by (subst visit_from.simps) (simp del: dropWhile_eq_Nil_conv)
qed

section \<open>Properties\<close>

text \<open>C20: when the pending reads are active files, FIFOs and clients, of which no two share a bucket, the idle loop reads each of them exactly
  once, in the order of the buckets, although every read may take the element that is being visited out of the table.\<close>

theorem idle_reads_each:
  assumes "\<forall>b < pend_buckets. p_chain (t_pending (l_table l)) b = [] \<or> (\<exists>e. p_chain (t_pending (l_table l)) b = [e] \<and> pe_cell e = 0
      \<and> pend_bucket (pe_fd e) = b \<and> active_reader (l_table l) (pe_fd e) (pe_desc e))"
  shows "idle_loop A X l = map_option (\<lambda>(s, k, x). l\<lparr>l_table := s, l_kernel := k, l_eval := x\<rparr>)
     (read_each A X (bucket_descs (t_pending (l_table l)) [0..<pend_buckets]) (l_table l, l_kernel l, l_eval l))"
proof -
  have "desc_pending_drain_all A X D_CORE_READ_TYPES (l_table l, l_kernel l, l_eval l) =
      read_each A X (bucket_descs (t_pending (l_table l)) [0..<pend_buckets]) (l_table l, l_kernel l, l_eval l)"
    unfolding desc_pending_drain_all_def using assms by (intro visit_reads) auto
  then show ?thesis
    by (cases "read_each A X (bucket_descs (t_pending (l_table l)) [0..<pend_buckets]) (l_table l, l_kernel l, l_eval l)") (auto simp: idle_loop_def)
qed

text \<open>When two pending reads share a bucket and the first one is read to its end, the idle loop goes on with an element that the removal has
  released: removing the first element copies the second one into its place and releases the block the visit has saved the address of.\<close>

theorem idle_collision_faults:
  assumes "p_chain (t_pending (l_table l)) b = e # e' # es" and "b < pend_buckets" and "\<forall>b' < b. p_chain (t_pending (l_table l)) b' = []"
    and "cells_ok (t_pending (l_table l))" and "pend_bucket (pe_fd e) = b"
    and "t_descs (l_table l) (pe_desc e) = Some d" and "d_state d = DSTATE_ACTIVE" and "\<not> pre_read d" and "fd d = pe_fd e" and "fd d > 0"
    and "d_type d \<in> {D_FILER, D_FIFOR, D_SOCKETR}" and "reader_at (t_heap (l_table l)) L (reader d) c t" and "read_bounded (o_read X)"
    and "pull (o_read X) DLOG_READ_BUF_SZ (l_kernel l) (DYNSTR_USABLE_SIZE DLOG_READ_MAX_CHUNK) = (data, 0, again, k')"
    and "eval_lines (o_eval X) (map nul_cut (fst (cut_lines c (t @ data)))) (l_eval l) = Some x'"
  shows "idle_loop dynstr_arena X l = None"
proof -
  let ?s = "l_table l" and ?P = "\<lambda>z. t_pending (fst z)" and ?f = "read_pending_desc dynstr_arena X D_CORE_READ_TYPES"
  have a: "\<not> again" using assms(14) pull_again by fastforce
  let ?p = "(t_pending ?s)\<lparr>p_chain := (p_chain (t_pending ?s))(b := e'\<lparr>pe_cell := pe_cell e\<rparr> # es)\<rparr>"
  have pd: "pend_read (fd d) (pe_desc e) 0 again (t_pending ?s) = Some ?p"
    using a assms(1,5,9,10) by (simp add: pend_read_def desc_pending_remove_def)
  obtain ls u where u: "cut_lines c (t @ data) = (ls, u)" by fastforce
  have ev: "eval_lines (o_eval X) (map nul_cut ls) (l_eval l) = Some x'" using assms(15) u by simp
  obtain s' where r: "read_table dynstr_arena X (pe_desc e) 0 (?s, l_kernel l, l_eval l) = Some (s', k', x')" "t_pending s' = ?p"
    using read_table_runs[OF assms(6,7,8,10,12,13,14) u ev pd] by fastforce
  have "distinct (map pe_cell (e # e' # es))" "pe_cell e = 0" using assms(1,4) unfolding cells_ok_def by (metis list.discI list.sel(1))+
  then have "pe_cell e' \<noteq> 0" "pe_cell e' \<notin> pe_cell ` set (p_chain ?p b)" by auto
  then have v: "visit_from ?P ?f b (Some (pe_cell e')) (s', k', x') = None" using r(2) by (intro visit_released) simp_all
  have f: "?f (pe_desc e) (?s, l_kernel l, l_eval l) = Some (s', k', x')" using r(1) assms(6,7,11) by (simp add: read_pending_desc_def read_pending_iff)
  have "visit_from ?P ?f b (Some 0) (?s, l_kernel l, l_eval l) = None"
    using assms(1) \<open>pe_cell e = 0\<close> f v by (subst visit_from.simps) simp
  moreover have "[0..<pend_buckets] = [0..<b] @ b # [Suc b..<pend_buckets]"
    using assms(2) upt_add_eq_append[of 0 b "pend_buckets - b"] upt_conv_Cons[of b pend_buckets] by simp
  moreover have "visit_pending ?P ?f [0..<b] (?s, l_kernel l, l_eval l) = Some (?s, l_kernel l, l_eval l)"
    using assms(3) by (intro visit_empties) simp
  ultimately show ?thesis by (simp add: idle_loop_def desc_pending_drain_all_def visit_append)
qed


section \<open>Witnesses\<close>

text \<open>One active file with descriptor 4, of which some text was read; what is behind its position, and what is pending.\<close>

definition file_state :: "arena \<Rightarrow> linereader \<Rightarrow> string \<Rightarrow> pending \<Rightarrow> (arena, string, string list) loop_state" where
  "file_state ar r k p = \<lparr>l_table = (table1_listed ar (log_origin\<lparr>or_type := D_FILER\<rparr>) ((a_desc DSTATE_ACTIVE D_FILER)\<lparr>reader := r\<rparr>))\<lparr>t_pending := p\<rparr>,
     l_watch = \<lparr>dirwatchers = [], filewatchers = [\<lparr>fw_wd = 2, link_count = 1, fw_d = 0, fw_basename = ''/log''\<rparr>]\<rparr>, l_kernel = k, l_eval = [], read_files = []\<rparr>"

definition file_outside :: "(string, string list) outside" where
  "file_outside = \<lparr>o_read = file_read, o_eval = (\<lambda>t s. Some (s @ [t])), o_sys = (\<lambda>_. sys0), o_client = (\<lambda>_. sys0), o_accepts = [], o_sk = 0,
     o_notify = notify0\<rparr>"

lemma file_state_desc:
  "t_descs (l_table (file_state ar r k p)) 0 = Some ((a_desc DSTATE_ACTIVE D_FILER)\<lparr>reader := r\<rparr>)" "t_heap (l_table (file_state ar r k p)) = ar"
  "t_pending (l_table (file_state ar r k p)) = p" "l_kernel (file_state ar r k p) = k" "l_eval (file_state ar r k p) = []"
  by (simp_all add: file_state_def table1_listed_def table1_def table0_def)

lemma a_desc_reader:
  "d_state (a_desc st ty) = st" "d_type (a_desc st ty) = ty" "fd (a_desc st ty) = 4" "\<not> pre_read (a_desc st ty)"
  by (simp_all add: a_desc_def)

lemma file_state_reads:
  assumes "reader_at ar L r c t" and "none_pending p \<or> only_pending 4 0 p"
  shows "reads_file (file_state ar r k p) 0 4 c t"
proof -
  let ?s = "table1_listed ar (log_origin\<lparr>or_type := D_FILER\<rparr>) ((a_desc DSTATE_ACTIVE D_FILER)\<lparr>reader := r\<rparr>)"
  have act: "active_ids ?s = {0}" by (auto simp: active_ids_def table1_listed_def table1_def table0_def a_desc_def)
  have "table_ok ?s" unfolding table_ok_def act using table1_listed_rep[of ar "log_origin\<lparr>or_type := D_FILER\<rparr>" "(a_desc DSTATE_ACTIVE D_FILER)\<lparr>reader := r\<rparr>"]
    by (auto simp: table1_listed_def table1_def table0_def intro!: exI[of _ "[0]"] split: if_splits)
  then have "table_ok (l_table (file_state ar r k p))" by (simp add: file_state_def)
  with assms show ?thesis by (auto simp: reads_file_def active_reader_def file_state_desc a_desc_reader)
qed

lemma example_lines:
  "cut_lines 0 (''a'' @ ''b'' @ [NL] @ ''c'') = ([''ab'' @ [NL]], ''c'')"
  "eval_lines (o_eval file_outside) (map nul_cut [''ab'' @ [NL]]) [] = Some [''ab'' @ [NL]]"
proof -
  show "cut_lines 0 (''a'' @ ''b'' @ [NL] @ ''c'') = ([''ab'' @ [NL]], ''c'')" by code_simp
  have "nul_cut (''ab'' @ [NL]) = ''ab'' @ [NL]" by code_simp
  then show "eval_lines (o_eval file_outside) (map nul_cut [''ab'' @ [NL]]) [] = Some [''ab'' @ [NL]]" by (simp add: file_outside_def)
qed

lemma example_documented:
  "no_empty_lines (''a'' @ ''b'' @ [NL] @ ''c'')" "scanned_ok 0 (''a'' @ ''b'' @ [NL] @ ''c'')"
  "documented_lines (''a'' @ ''b'' @ [NL] @ ''c'') = [''ab'' @ [NL]]"
proof -
  have t: "text_lines (''a'' @ ''b'' @ [NL] @ ''c'') = ([''ab''], ''c'')" by code_simp
  show "no_empty_lines (''a'' @ ''b'' @ [NL] @ ''c'')" "scanned_ok 0 (''a'' @ ''b'' @ [NL] @ ''c'')"
    "documented_lines (''a'' @ ''b'' @ [NL] @ ''c'') = [''ab'' @ [NL]]"
    unfolding no_empty_lines_def scanned_ok_def documented_lines_def t by simp_all
qed


theorem idle_reads_each_witness:
  "\<exists>ar r s. read_table dynstr_arena file_outside 0 0 (l_table (file_state ar r (''b'' @ [NL] @ ''c'') (desc_pending_add 4 0 no_pending)), ''b'' @ [NL] @ ''c'', [])
       = Some (s, [], [''ab'' @ [NL]])
     \<and> map_option l_eval (idle_loop dynstr_arena file_outside (file_state ar r (''b'' @ [NL] @ ''c'') (desc_pending_add 4 0 no_pending))) = Some [''ab'' @ [NL]]"
proof -
  obtain ar L r where r: "reader_at ar L r 0 ''a''" using reader_exists[of "''a''" 0] by auto
  let ?l = "file_state ar r (''b'' @ [NL] @ ''c'') (desc_pending_add 4 0 no_pending)"
  have "none_pending no_pending" by (simp add: none_pending_def no_pending_def)
  then have p: "only_pending 4 0 (t_pending (l_table ?l))" unfolding file_state_desc by (intro add_only) simp
  then have l: "reads_file ?l 0 4 0 ''a''" unfolding file_state_desc by (intro file_state_reads[OF r]) simp
  obtain ret again where k: "pull (o_read file_outside) DLOG_READ_BUF_SZ (l_kernel ?l) (DYNSTR_USABLE_SIZE DLOG_READ_MAX_CHUNK) = (''b'' @ [NL] @ ''c'', ret, again, [])"
    using pull_file[of "''b'' @ [NL] @ ''c''"] by (auto simp: file_state_desc file_outside_def)
  have b: "read_bounded (o_read file_outside)" using file_read_bounded by (simp add: file_outside_def)
  obtain s where s: "read_table dynstr_arena file_outside 0 0 (l_table ?l, ''b'' @ [NL] @ ''c'', []) = Some (s, [], [''ab'' @ [NL]])"
    using read_file_ok[OF l b k example_lines(1)] example_lines(2) by (auto simp: file_state_desc)
  have h: "\<forall>b < pend_buckets. p_chain (t_pending (l_table ?l)) b = [] \<or> (\<exists>e. p_chain (t_pending (l_table ?l)) b = [e] \<and> pe_cell e = 0
      \<and> pend_bucket (pe_fd e) = b \<and> active_reader (l_table ?l) (pe_fd e) (pe_desc e))"
    using p l by (auto simp: only_pending_def reads_file_def)
  show ?thesis using idle_reads_each[OF h, of dynstr_arena file_outside] s bucket_descs_only[OF p]
    by (intro exI[of _ ar] exI[of _ r] exI[of _ s]) (simp add: file_state_desc)
qed

lemma pull_short:
  assumes "length k \<le> 4000"
  shows "pull file_read DLOG_READ_BUF_SZ k (DYNSTR_USABLE_SIZE DLOG_READ_MAX_CHUNK) = (k, 0, False, [])"
proof -
  have "pull file_read 4096 [] mc = ([], 0, False, [])" for mc by (simp add: pull.simps file_read_def)
  then show ?thesis using usable_chunk assms by (auto simp: pull.simps[of file_read 4096 k] file_read_def read_sizes(1))
qed

theorem idle_collision_faults_witness:
  "\<exists>ar r. idle_loop dynstr_arena file_outside
     (file_state ar r (''b'' @ [NL] @ ''c'') (desc_pending_add 21 1 (desc_pending_add 4 0 no_pending))) = None"
proof -
  obtain ar L r where r: "reader_at ar L r 0 ''a''" using reader_exists[of "''a''" 0] by auto
  let ?p = "desc_pending_add 21 1 (desc_pending_add 4 0 no_pending)"
  let ?l = "file_state ar r (''b'' @ [NL] @ ''c'') ?p" and ?d = "(a_desc DSTATE_ACTIVE D_FILER)\<lparr>reader := r\<rparr>"
  have b: "pend_bucket 4 = 4" "pend_bucket 21 = 4" by (simp_all add: pend_bucket_def pend_buckets_def)
  have 1: "p_chain (t_pending (l_table ?l)) 4 = \<lparr>pe_cell = 0, pe_fd = 4, pe_desc = 0\<rparr> # \<lparr>pe_cell = 1, pe_fd = 21, pe_desc = 1\<rparr> # []"
    by (simp add: file_state_desc add_chain b) (simp add: desc_pending_add_def no_pending_def b)
  have 2: "(4::nat) < pend_buckets" "\<forall>b' < 4. p_chain (t_pending (l_table ?l)) b' = []" "cells_ok (t_pending (l_table ?l))"
    using cells_ok_add[OF cells_ok_add[OF no_pending_cells]] by (simp_all add: file_state_desc add_chain b pend_buckets_def)
  have 3: "pend_bucket (pe_fd \<lparr>pe_cell = 0, pe_fd = 4, pe_desc = 0\<rparr>) = 4"
    "t_descs (l_table ?l) (pe_desc \<lparr>pe_cell = 0, pe_fd = 4, pe_desc = 0\<rparr>) = Some ?d" "d_state ?d = DSTATE_ACTIVE" "\<not> pre_read ?d"
    "fd ?d = pe_fd \<lparr>pe_cell = 0, pe_fd = 4, pe_desc = 0\<rparr>" "fd ?d > 0" "d_type ?d \<in> {D_FILER, D_FIFOR, D_SOCKETR}"
    "reader_at (t_heap (l_table ?l)) L (reader ?d) 0 ''a''" "read_bounded (o_read file_outside)"
    using b r file_read_bounded by (simp_all add: file_state_desc a_desc_reader file_outside_def)
  have 4: "pull (o_read file_outside) DLOG_READ_BUF_SZ (l_kernel ?l) (DYNSTR_USABLE_SIZE DLOG_READ_MAX_CHUNK) = (''b'' @ [NL] @ ''c'', 0, False, [])"
    using pull_short[of "''b'' @ [NL] @ ''c''"] by (simp add: file_state_desc file_outside_def)
  have 5: "eval_lines (o_eval file_outside) (map nul_cut (fst (cut_lines 0 (''a'' @ ''b'' @ [NL] @ ''c'')))) (l_eval ?l) = Some [''ab'' @ [NL]]"
    using example_lines by (simp add: file_state_desc)
  from idle_collision_faults[OF 1 2 3 4 5] show ?thesis by blast
qed

end
