(* ===== verification/Event_Loop.thy ===== *)
theory Event_Loop
  imports Restart Idle_Loop
begin

text \<open>
  The endless loop of \<^verbatim>\<open>main_loop\<close> in \<^verbatim>\<open>dlog.c\<close>: signals are processed, then the events of one wait, or the pending reads when there were none. A
  run of the loop is given by what happens in each of its rounds. The two long properties say what a daemon that follows a file
  evaluates, under every schedule of appended texts, events and quiet turns.
\<close>

section \<open>The loop\<close>

text \<open>What the handlers of the signals need from outside: the results of system calls, and the global pointers.\<close>

record sig_outside =
  so_sys :: sys
  so_writev :: "string \<Rightarrow> write_result"
  so_listen :: "nat option"
  so_inotify :: "nat option"
  so_open_send :: int
  so_sent :: "nat \<Rightarrow> bool"

fun run_handlers :: "'h allocator \<Rightarrow> sig_outside \<Rightarrow> int list \<Rightarrow> 'h table \<Rightarrow> 'h table option" where
  "run_handlers A G [] s = Some s"
| "run_handlers A G (n # ns) s =
     (if n = SIGHUP then map_option snd (dlog_sig_restart A (so_sys G) (so_writev G) (so_listen G) (so_inotify G) (so_open_send G) (so_sent G) s)
      else if n = SIGQUIT then dlog_sig_shutdown A (so_sys G) (so_writev G) (so_listen G) (so_inotify G) s
      else if n = SIGUSR1 then dlog_sig_rotlog A (so_sys G) s
      else Some s) \<bind> run_handlers A G ns"

datatype wait_result = Interrupted | Wait_Failed | Timed_Out | Ready "event list"

text \<open>A round: the signals that arrived before it, what happened to the kernel's state while the daemon waited, and the result of the wait.\<close>

record 'k loop_round =
  lr_signals :: "int list"
  lr_world :: "'k \<Rightarrow> 'k"
  lr_wait :: wait_result

text \<open>After the given rounds the loop is still running, or it has returned, or the process has exited.\<close>

datatype 'l loop_result = Loop_Running 'l | Loop_Returned 'l | Loop_Exited

fun main_loop :: "'h allocator \<Rightarrow> ('k, 'x) outside \<Rightarrow> sig_outside \<Rightarrow> 'k loop_round list \<Rightarrow> sig_state \<times> ('h, 'k, 'x) loop_state
   \<Rightarrow> (sig_state \<times> ('h, 'k, 'x) loop_state) loop_result option" where
  "main_loop A X G [] z = Some (Loop_Running z)"
| "main_loop A X G (r # rs) (sg, l) =
     (case process_signals (fold sig_handler (lr_signals r) sg) of (ns, sg, exited) \<Rightarrow>
        run_handlers A G ns (l_table l) \<bind> (\<lambda>s.
        if exited then Some Loop_Exited
        else let l = l\<lparr>l_table := s, l_kernel := lr_world r (l_kernel l)\<rparr> in
          (case lr_wait r of
             Interrupted \<Rightarrow> main_loop A X G rs (sg, l)
           | Wait_Failed \<Rightarrow> Some (Loop_Returned (sg, l))
           | Timed_Out \<Rightarrow> idle_loop A X l \<bind> (\<lambda>l. main_loop A X G rs (sg, l))
           | Ready evts \<Rightarrow> main_turn A X evts l \<bind> (\<lambda>l. main_loop A X G rs (sg, l)))))"

section \<open>Rounds\<close>

lemma no_signals: "\<not> sig_delivered sg \<Longrightarrow> process_signals sg = ([], sg, False)"
  by (simp add: process_signals_def)

lemma main_loop_append:
  "main_loop A X G (as @ bs) z = main_loop A X G as z \<bind> (\<lambda>r. case r of Loop_Running z \<Rightarrow> main_loop A X G bs z | _ \<Rightarrow> Some r)"
proof (induction as arbitrary: z)
  case (Cons r as)
  obtain sg l where z: "z = (sg, l)" by fastforce
  obtain ns sg' ex where p: "process_signals (fold sig_handler (lr_signals r) sg) = (ns, sg', ex)" by (metis prod_cases3)
  show ?case
  proof (cases "run_handlers A G ns (l_table l)")
    case (Some s)
    let ?l = "l\<lparr>l_table := s, l_kernel := lr_world r (l_kernel l)\<rparr>"
    show ?thesis using p Some Cons.IH
      by (cases "lr_wait r"; cases "idle_loop A X ?l"; cases "\<forall>es. lr_wait r = Ready es \<longrightarrow> main_turn A X es ?l \<noteq> None") (auto simp: z Let_def)
  qed (use p in \<open>simp add: z\<close>)
qed simp

section \<open>Following a file\<close>

text \<open>A round without signals, while some text was appended to the file.\<close>

definition file_round :: "string \<Rightarrow> wait_result \<Rightarrow> string loop_round" where
  "file_round w r = \<lparr>lr_signals = [], lr_world = (\<lambda>k. k @ w), lr_wait = r\<rparr>"

text \<open>The event by which inotify reports that the watched file of a descriptor was modified.\<close>

definition reports_modified :: "watchers \<Rightarrow> nat \<Rightarrow> inotify_event \<Rightarrow> bool" where
  "reports_modified w i ev \<longleftrightarrow> find_dir (dirwatchers w) (ev_wd ev) = None \<and> ev_mask ev = IN_MODIFY
     \<and> map_option fw_d (find_watched_file (filewatchers w) (ev_wd ev)) = Some i"

definition file_wait :: "watchers \<Rightarrow> nat \<Rightarrow> wait_result \<Rightarrow> bool" where
  "file_wait w i r \<longleftrightarrow> r = Interrupted \<or> r = Timed_Out \<or> (\<exists>ev. r = Ready [Evt_Vnode [Events [ev]]] \<and> reports_modified w i ev)"

lemma modify_turn:
  assumes "reads_file l i n c t" and "reports_modified (l_watch l) i ev"
  shows "main_turn A X [Evt_Vnode [Events [ev]]] l = map_option (\<lambda>(s, k, x). l\<lparr>read_files := [i], l_table := s, l_kernel := k, l_eval := x\<rparr>)
     (read_table A X i 0 (l_table l, l_kernel l, l_eval l))"
proof -
  obtain f where f: "find_watched_file (filewatchers (l_watch l)) (ev_wd ev) = Some f" "fw_d f = i" using assms(2) by (auto simp: reports_modified_def)
  obtain d where d: "t_descs (l_table l) i = Some d" "d_state d = DSTATE_ACTIVE" using assms(1) by (auto simp: reads_file_def active_reader_def)
  have v: "evt_process_vnode A (o_notify X) (o_sys X) [Events [ev]] (l_table l) (l_watch l) = Some (l_table l, l_watch l, [i])"
    using modify_events[of "[ev]" "l_watch l" "\<lambda>_. f" "[]" A "o_notify X" "o_sys X" "l_table l"] assms(2) f
    by (simp add: evt_process_vnode_def DLOG_MAX_FILES_def reports_modified_def)
  show ?thesis using v d by (cases "read_table A X i 0 (l_table l, l_kernel l, l_eval l)"; cases l) (auto simp: main_turn_def)
qed

text \<open>What a round does: it may read one piece of the text.\<close>

definition followed :: "(string, 'x) outside \<Rightarrow> nat \<Rightarrow> int \<Rightarrow> nat \<Rightarrow> string \<Rightarrow> string list \<Rightarrow> string \<Rightarrow> (arena, string, 'x) loop_state
   \<Rightarrow> (arena, string, 'x) loop_state \<Rightarrow> bool" where
  "followed X i n c t xs w l l' \<longleftrightarrow> concat xs @ l_kernel l' = l_kernel l @ w \<and> l_watch l' = l_watch l
     \<and> (\<exists>ls u. cut_chunks c t xs = (ls, u) \<and> eval_lines (o_eval X) (map nul_cut ls) (l_eval l) = Some (l_eval l')
          \<and> reads_file l' i n (if xs = [] then c else length u) u)"

lemma eval_lines_total:
  assumes "\<And>y x. P x \<Longrightarrow> \<exists>x'. o_eval X y x = Some x' \<and> P x'" and "P x"
  shows "\<exists>x'. eval_lines (o_eval X) ls x = Some x' \<and> P x'"
  using assms(2)
proof (induction ls arbitrary: x)
  case (Cons y ls)
  with assms(1)[of x y] show ?case by auto
qed simp

lemma read_step:
  assumes "reads_file l i n c t" and "o_read X = file_read" and "\<And>y x. P x \<Longrightarrow> \<exists>x'. o_eval X y x = Some x' \<and> P x'" and "P (l_eval l)"
  shows "\<exists>s k x. read_table dynstr_arena X i 0 (l_table l, l_kernel l, l_eval l) = Some (s, k, x) \<and> P x
     \<and> followed X i n c t [take 4096 (l_kernel l)] [] l (l\<lparr>l_table := s, l_kernel := k, l_eval := x\<rparr>)"
proof -
  let ?k = "l_kernel l"
  obtain ret again where p: "pull (o_read X) DLOG_READ_BUF_SZ ?k (DYNSTR_USABLE_SIZE DLOG_READ_MAX_CHUNK) = (take 4096 ?k, ret, again, drop 4096 ?k)"
    using pull_file[of ?k] assms(2) by auto
  obtain ls u where u: "cut_lines c (t @ take 4096 ?k) = (ls, u)" by fastforce
  obtain x where x: "eval_lines (o_eval X) (map nul_cut ls) (l_eval l) = Some x" "P x" using eval_lines_total[of P X] assms(3,4) by metis
  have "read_bounded (o_read X)" using file_read_bounded assms(2) by simp
  from read_file_ok[OF assms(1) this p u x(1)] x u show ?thesis by (auto simp: followed_def)
qed

lemma round_ok:
  assumes "reads_file l i n c t" and "o_read X = file_read" and "\<And>y x. P x \<Longrightarrow> \<exists>x'. o_eval X y x = Some x' \<and> P x'" and "P (l_eval l)"
    and "file_wait (l_watch l) i r" and "\<not> sig_delivered sg"
  shows "\<exists>l' xs. main_loop dynstr_arena X G [file_round w r] (sg, l) = Some (Loop_Running (sg, l')) \<and> followed X i n c t xs w l l' \<and> P (l_eval l')"
proof -
  let ?l = "l\<lparr>l_table := l_table l, l_kernel := l_kernel l @ w\<rparr>"
  have l: "reads_file ?l i n c t" "P (l_eval ?l)" "l_watch ?l = l_watch l" using assms(1,4) by (simp_all add: reads_file_def)
  obtain s k x where s: "read_table dynstr_arena X i 0 (l_table ?l, l_kernel ?l, l_eval ?l) = Some (s, k, x)" "P x"
    "followed X i n c t [take 4096 (l_kernel ?l)] [] ?l (?l\<lparr>l_table := s, l_kernel := k, l_eval := x\<rparr>)"
    using read_step[OF l(1) assms(2,3) l(2)] by blast
  have stay: "followed X i n c t [] w l ?l" using l by (simp add: followed_def)
  have go: "followed X i n c t [take 4096 (l_kernel ?l)] w l (?l\<lparr>l_table := s, l_kernel := k, l_eval := x\<rparr>)"
    "followed X i n c t [take 4096 (l_kernel ?l)] w l (?l\<lparr>read_files := [i], l_table := s, l_kernel := k, l_eval := x\<rparr>)"
    using s(3) by (auto simp: followed_def reads_file_def simp del: cut_chunks.simps)
  have run: "main_loop dynstr_arena X G [file_round w r] (sg, l) = (case r of Interrupted \<Rightarrow> Some (Loop_Running (sg, ?l))
      | Wait_Failed \<Rightarrow> Some (Loop_Returned (sg, ?l)) | Timed_Out \<Rightarrow> map_option (\<lambda>l. Loop_Running (sg, l)) (idle_loop dynstr_arena X ?l)
      | Ready evts \<Rightarrow> map_option (\<lambda>l. Loop_Running (sg, l)) (main_turn dynstr_arena X evts ?l))"
    using no_signals[OF assms(6)] by (auto simp: file_round_def Let_def map_conv_bind_option comp_def split: wait_result.split)
  consider "r = Interrupted" | "r = Timed_Out" "only_pending n i (t_pending (l_table ?l))" | "r = Timed_Out" "none_pending (t_pending (l_table ?l))"
    | ev where "r = Ready [Evt_Vnode [Events [ev]]]" "reports_modified (l_watch ?l) i ev"
    using assms(1,5) by (auto simp: file_wait_def reads_file_def)
  then show ?thesis
  proof cases
    case 1
    with run stay l(2) show ?thesis by auto
  next
    case 2
    have "main_loop dynstr_arena X G [file_round w r] (sg, l) = Some (Loop_Running (sg, ?l\<lparr>l_table := s, l_kernel := k, l_eval := x\<rparr>))"
      unfolding run using idle_reads[OF l(1) 2(2), of dynstr_arena X] 2(1) s(1) by simp
    with go(1) s(2) show ?thesis by (intro exI[of _ "?l\<lparr>l_table := s, l_kernel := k, l_eval := x\<rparr>"] exI) (rule conjI, assumption, simp)
  next
    case 3
    from idle_nothing[OF 3(2), of dynstr_arena X] 3(1) run stay l(2) show ?thesis by auto
  next
    case (4 ev)
    have "main_loop dynstr_arena X G [file_round w r] (sg, l) = Some (Loop_Running (sg, ?l\<lparr>read_files := [i], l_table := s, l_kernel := k, l_eval := x\<rparr>))"
      unfolding run using modify_turn[OF l(1) 4(2), of dynstr_arena X] 4(1) s(1) by simp
    with go(2) s(2) show ?thesis
      by (intro exI[of _ "?l\<lparr>read_files := [i], l_table := s, l_kernel := k, l_eval := x\<rparr>"] exI) (rule conjI, assumption, simp)
  qed
qed

lemma rounds_ok:
  assumes "o_read X = file_read" and "\<And>y x. P x \<Longrightarrow> \<exists>x'. o_eval X y x = Some x' \<and> P x'" and "\<not> sig_delivered sg"
    and "reads_file l i n c t" and "P (l_eval l)" and "\<forall>(w, r) \<in> set ps. file_wait (l_watch l) i r"
  shows "\<exists>l' xs. main_loop dynstr_arena X G (map (\<lambda>(w, r). file_round w r) ps) (sg, l) = Some (Loop_Running (sg, l'))
     \<and> followed X i n c t xs (concat (map fst ps)) l l' \<and> P (l_eval l')"
  using assms(4-6)
proof (induction ps arbitrary: l c t)
  case Nil
  then show ?case by (intro exI[of _ l] exI[of _ "[]"]) (simp add: followed_def)
next
  case (Cons p ps)
  obtain w r where p: "p = (w, r)" by fastforce
  have wt: "file_wait (l_watch l) i r" using Cons.prems(3) p by simp
  obtain l1 xs where 1: "main_loop dynstr_arena X G [file_round w r] (sg, l) = Some (Loop_Running (sg, l1))" "followed X i n c t xs w l l1" "P (l_eval l1)"
    using round_ok[OF Cons.prems(1) assms(1,2) Cons.prems(2) wt assms(3)] by blast
  obtain ls u where u: "cut_chunks c t xs = (ls, u)" "eval_lines (o_eval X) (map nul_cut ls) (l_eval l) = Some (l_eval l1)"
    "reads_file l1 i n (if xs = [] then c else length u) u" "concat xs @ l_kernel l1 = l_kernel l @ w" "l_watch l1 = l_watch l"
    using 1(2) by (auto simp: followed_def simp del: cut_chunks.simps)
  obtain l2 ys where 2: "main_loop dynstr_arena X G (map (\<lambda>(w, r). file_round w r) ps) (sg, l1) = Some (Loop_Running (sg, l2))"
    "followed X i n (if xs = [] then c else length u) u ys (concat (map fst ps)) l1 l2" "P (l_eval l2)"
    using Cons.IH[OF u(3) 1(3)] Cons.prems(3) u(5) by auto
  obtain ms v where v: "cut_chunks (if xs = [] then c else length u) u ys = (ms, v)" "eval_lines (o_eval X) (map nul_cut ms) (l_eval l1) = Some (l_eval l2)"
    "reads_file l2 i n (if ys = [] then (if xs = [] then c else length u) else length v) v" "concat ys @ l_kernel l2 = l_kernel l1 @ concat (map fst ps)"
    "l_watch l2 = l_watch l1" using 2(2) by (auto simp: followed_def simp del: cut_chunks.simps)
  have "main_loop dynstr_arena X G ([file_round w r] @ map (\<lambda>(w, r). file_round w r) ps) (sg, l) = Some (Loop_Running (sg, l2))"
    unfolding main_loop_append using 1(1) 2(1) by simp
  moreover have "concat (xs @ ys) @ l_kernel l2 = l_kernel l @ concat (map fst (p # ps))"
    using u(4) v(4) p by (metis append.assoc concat_append concat.simps(2) fst_conv list.map(2))
  moreover have "cut_chunks c t (xs @ ys) = (ls @ ms, v)" by (rule cut_chunks_append[OF u(1) v(1)])
  moreover have "eval_lines (o_eval X) (map nul_cut (ls @ ms)) (l_eval l) = Some (l_eval l2)" using u(2) v(2) by (simp add: eval_lines_append)
  moreover have "reads_file l2 i n (if xs @ ys = [] then c else length v) v"
    using v(1,3) by (cases "ys = []") (simp_all split: if_splits)
  ultimately show ?case using 2(3) u(5) v(5) p by (intro exI[of _ l2] exI[of _ "xs @ ys"]) (simp add: followed_def del: cut_chunks.simps)
qed

lemma idle_loop_watch: "idle_loop A X l = Some l' \<Longrightarrow> l_watch l' = l_watch l"
  by (auto simp: idle_loop_def bind_Some_iff)

lemma idle_turns_watch: "idle_turns m A X l = Some l' \<Longrightarrow> l_watch l' = l_watch l"
  by (induction m arbitrary: l) (auto simp: bind_Some_iff dest: idle_loop_watch)

lemma loop_idle:
  assumes "\<not> sig_delivered sg"
  shows "main_loop A X G (replicate m (file_round [] Timed_Out)) (sg, l) = map_option (\<lambda>l. Loop_Running (sg, l)) (idle_turns m A X l)"
proof (induction m arbitrary: l)
  case (Suc m)
  have "l\<lparr>l_table := l_table l, l_kernel := l_kernel l\<rparr> = l" by simp
  then have "main_loop A X G (replicate (Suc m) (file_round [] Timed_Out)) (sg, l) =
      idle_loop A X l \<bind> (\<lambda>l. main_loop A X G (replicate m (file_round [] Timed_Out)) (sg, l))"
    using no_signals[OF assms] by (simp add: file_round_def)
  then show ?case by (cases "idle_loop A X l") (simp_all add: Suc)
qed simp

text \<open>A text is appended, which is reported, and then nothing happens for some rounds.\<close>

definition append_rounds :: "inotify_event \<Rightarrow> nat \<Rightarrow> string \<Rightarrow> string loop_round list" where
  "append_rounds ev m w = file_round w (Ready [Evt_Vnode [Events [ev]]]) # replicate m (file_round [] Timed_Out)"

lemma append_evaluated:
  assumes l: "reads_file l i n c t" "l_kernel l = []" and X: "o_read X = file_read" and ev: "reports_modified (l_watch l) i ev"
    and sg: "\<not> sig_delivered sg" and w: "buffers_inside w" "(length w + 4095) div 4096 + 1 \<le> m"
    and c: "cut_lines c (t @ w) = (ls, u)" and e: "eval_lines (o_eval X) (map nul_cut ls) (l_eval l) = Some x'"
  shows "\<exists>l'. main_loop dynstr_arena X G (append_rounds ev m w) (sg, l) = Some (Loop_Running (sg, l')) \<and> l_kernel l' = [] \<and> l_eval l' = x'
     \<and> l_watch l' = l_watch l \<and> reads_file l' i n (length u) u \<and> none_pending (t_pending (l_table l'))"
proof -
  let ?l = "l\<lparr>l_kernel := w\<rparr>"
  have l': "reads_file ?l i n c t" "buffers_inside (l_kernel ?l)" "cut_lines c (t @ l_kernel ?l) = (ls, u)"
    "eval_lines (o_eval X) (map nul_cut ls) (l_eval ?l) = Some x'" "reports_modified (l_watch ?l) i ev" using l(1) w(1) c e ev by simp_all
  obtain s' x1 u1 ms where r: "read_table dynstr_arena X i 0 (l_table ?l, l_kernel ?l, l_eval ?l) = Some (s', drop 4096 (l_kernel ?l), x1)"
    "reads_file (?l\<lparr>l_table := s', l_kernel := drop 4096 (l_kernel ?l), l_eval := x1\<rparr>) i n (length u1) u1"
    "cut_lines (length u1) (u1 @ drop 4096 (l_kernel ?l)) = (ms, u)" "eval_lines (o_eval X) (map nul_cut ms) x1 = Some x'"
    "buffers_inside (drop 4096 (l_kernel ?l))"
    "only_pending n i (t_pending s') \<and> l_kernel ?l \<noteq> [] \<or> none_pending (t_pending s') \<and> drop 4096 (l_kernel ?l) = [] \<and> x1 = x' \<and> u1 = u"
    by (rule read_first[OF l'(1) X l'(2,3,4)])
  define l1 where "l1 = ?l\<lparr>read_files := [i], l_table := s', l_kernel := drop 4096 w, l_eval := x1\<rparr>"
  have l1: "reads_file l1 i n (length u1) u1" "l_watch l1 = l_watch l" "l_kernel l1 = drop 4096 w" "l_eval l1 = x1" "t_pending (l_table l1) = t_pending s'"
    using r(2) by (simp_all add: l1_def reads_file_def)
  have "main_turn dynstr_arena X [Evt_Vnode [Events [ev]]] ?l = Some l1" using modify_turn[OF l'(1,5), of dynstr_arena X] r(1) by (simp add: l1_def)
  then have "main_loop dynstr_arena X G [file_round w (Ready [Evt_Vnode [Events [ev]]])] (sg, l) = Some (Loop_Running (sg, l1))"
    using no_signals[OF sg] l(2) by (simp add: file_round_def)
  then have run: "main_loop dynstr_arena X G (append_rounds ev m w) (sg, l) = map_option (\<lambda>l. Loop_Running (sg, l)) (idle_turns m dynstr_arena X l1)"
    using main_loop_append[of dynstr_arena X G "[file_round w (Ready [Evt_Vnode [Events [ev]]])]" "replicate m (file_round [] Timed_Out)" "(sg, l)"]
    loop_idle[OF sg] by (simp add: append_rounds_def del: main_loop.simps(2))
  from r(6) show ?thesis
  proof (elim disjE conjE)
    assume "only_pending n i (t_pending s')"
    then have q: "only_pending n i (t_pending (l_table l1))" "buffers_inside (l_kernel l1)" "cut_lines (length u1) (u1 @ l_kernel l1) = (ms, u)"
      "eval_lines (o_eval X) (map nul_cut ms) (l_eval l1) = Some x'" using r(3-5) l1 by simp_all
    obtain m0 l2 where d: "m0 \<le> (length (l_kernel l1) + 4095) div 4096 + 1" "idle_turns m0 dynstr_arena X l1 = Some l2" "l_kernel l2 = []" "l_eval l2 = x'"
      "reads_file l2 i n (length u) u" "none_pending (t_pending (l_table l2))" using drain_file[OF l1(1) q(1) X q(2-4)] by blast
    have "(length (l_kernel l1) + 4095) div 4096 \<le> (length w + 4095) div 4096" using l1(3) by (intro div_le_mono) simp
    then have "m0 \<le> m" using d(1) w(2) by simp
    then have t: "idle_turns m dynstr_arena X l1 = Some l2" using idle_turns_more[OF d(2,6)] by simp
    from run t d(3-6) l1(2) idle_turns_watch[OF t] show ?thesis by auto
  next
    assume "none_pending (t_pending s')" "drop 4096 (l_kernel ?l) = []" "x1 = x'" "u1 = u"
    then show ?thesis using run l1 idle_turns_none[of l1 m dynstr_arena X] by auto
  qed
qed

section \<open>Properties\<close>

text \<open>C3: a daemon that follows a file loses nothing and evaluates nothing twice, whatever the schedule: texts may be appended in any pieces, each wait
  may be interrupted, time out or report the modification. After any number of rounds the texts read so far, in order, and the unread rest are
  what was appended; the lines evaluated are those the reader cuts from these texts, one after the other, and what they leave is in the reader. If the reader
  held an incomplete line, no line is empty and no read began with a newline, these are exactly the complete lines of everything read.\<close>

theorem file_followed:
  assumes "reads_file l i n c t" and "o_read X = file_read" and "\<forall>y x. P x \<longrightarrow> (\<exists>x'. o_eval X y x = Some x' \<and> P x')" and "P (l_eval l)"
    and "\<forall>(w, r) \<in> set ps. file_wait (l_watch l) i r" and "\<not> sig_delivered sg"
  shows "\<exists>l' xs ls u. main_loop dynstr_arena X G (map (\<lambda>(w, r). file_round w r) ps) (sg, l) = Some (Loop_Running (sg, l'))
     \<and> concat xs @ l_kernel l' = l_kernel l @ concat (map fst ps) \<and> cut_chunks c t xs = (ls, u)
     \<and> eval_lines (o_eval X) (map nul_cut ls) (l_eval l) = Some (l_eval l') \<and> reads_file l' i n (if xs = [] then c else length u) u
     \<and> (NL \<notin> set t \<and> no_empty_lines (t @ concat xs) \<and> (\<forall>x \<in> set xs. x = [] \<or> hd x \<noteq> NL)
         \<longrightarrow> ls = documented_lines (t @ concat xs) \<and> u = snd (text_lines (t @ concat xs)))"
proof -
  obtain l' xs where l: "main_loop dynstr_arena X G (map (\<lambda>(w, r). file_round w r) ps) (sg, l) = Some (Loop_Running (sg, l'))"
    "followed X i n c t xs (concat (map fst ps)) l l'"
    using rounds_ok[of X P sg l i n c t ps G, OF assms(2) _ assms(6,1,4,5)] assms(3) by blast
  obtain ls u where "cut_chunks c t xs = (ls, u)" "eval_lines (o_eval X) (map nul_cut ls) (l_eval l) = Some (l_eval l')"
    "reads_file l' i n (if xs = [] then c else length u) u" "concat xs @ l_kernel l' = l_kernel l @ concat (map fst ps)"
    using l(2) by (auto simp: followed_def simp del: cut_chunks.simps)
  with l(1) cut_chunks_documented[OF _ reads_file_bound[OF assms(1)]] show ?thesis
    by (intro exI[of _ l'] exI[of _ xs] exI[of _ ls] exI[of _ u]) blast
qed

lemma example_reported: "reports_modified (l_watch (file_state ar r k p)) 0 \<lparr>ev_wd = 2, ev_mask = 2, ev_name = []\<rparr>"
  by (simp add: reports_modified_def file_state_def IN_MODIFY_def)

definition sig_outside0 :: sig_outside where
  "sig_outside0 = \<lparr>so_sys = sys0, so_writev = (\<lambda>_. WouldBlock), so_listen = None, so_inotify = None, so_open_send = - 1, so_sent = (\<lambda>_. False)\<rparr>"

theorem file_followed_witness:
  "\<exists>ar r l' xs ls u. main_loop dynstr_arena file_outside sig_outside0
       [file_round (''b'' @ [NL]) (Ready [Evt_Vnode [Events [\<lparr>ev_wd = 2, ev_mask = 2, ev_name = []\<rparr>]]]), file_round ''c'' Timed_Out]
       (sig_init_state, file_state ar r [] no_pending) = Some (Loop_Running (sig_init_state, l'))
     \<and> concat xs @ l_kernel l' = ''b'' @ [NL] @ ''c'' \<and> cut_chunks 0 ''a'' xs = (ls, u) \<and> l_eval l' = map nul_cut ls"
proof -
  obtain ar L r where r: "reader_at ar L r 0 ''a''" using reader_exists[of "''a''" 0] by auto
  let ?l = "file_state ar r [] no_pending" and ?ev = "\<lparr>ev_wd = 2, ev_mask = 2, ev_name = []\<rparr>"
  let ?ps = "[(''b'' @ [NL], Ready [Evt_Vnode [Events [?ev]]]), (''c'', Timed_Out)]"
  have 1: "reads_file ?l 0 4 0 ''a''" by (rule file_state_reads[OF r]) (simp add: none_pending_def no_pending_def)
  have 2: "o_read file_outside = file_read" "\<forall>y x. True \<longrightarrow> (\<exists>x'. o_eval file_outside y x = Some x' \<and> True)" "True"
    "\<forall>(w, r) \<in> set ?ps. file_wait (l_watch ?l) 0 r" "\<not> sig_delivered sig_init_state"
    using example_reported[of ar r "[]" no_pending] by (auto simp: file_outside_def file_wait_def sig_init_state_def)
  have e: "eval_lines (o_eval file_outside) ls x = Some (x @ ls)" for ls x by (induction ls arbitrary: x) (simp_all add: file_outside_def)
  obtain l' xs ls u where f: "main_loop dynstr_arena file_outside sig_outside0 (map (\<lambda>(w, r). file_round w r) ?ps) (sig_init_state, ?l) = Some (Loop_Running (sig_init_state, l'))"
    "concat xs @ l_kernel l' = l_kernel ?l @ concat (map fst ?ps)" "cut_chunks 0 ''a'' xs = (ls, u)"
    "eval_lines (o_eval file_outside) (map nul_cut ls) (l_eval ?l) = Some (l_eval l')"
    using file_followed[where P = "\<lambda>_. True", OF 1 2, of sig_outside0] by blast
  have "concat xs @ l_kernel l' = ''b'' @ [NL] @ ''c''" "l_eval l' = map nul_cut ls" using f(2,4) e by (simp_all add: file_state_desc)
  with f(1,3) show ?thesis unfolding list.map prod.case by blast
qed

text \<open>A signal that ends the daemon: whatever the later rounds are, the loop does not go on.\<close>

theorem exit_signal_ends_loop:
  assumes "SIGHUP \<in> set ns \<or> SIGQUIT \<in> set ns"
  shows "main_loop A X G (\<lparr>lr_signals = ns, lr_world = f, lr_wait = r\<rparr> # rs) (sig_init_state, l) \<in> {None, Some Loop_Exited}"
proof -
  have "snd (snd (process_signals (fold sig_handler ns sig_init_state)))"
    using assms by (auto simp: sig_arrivals process_signals_def exits_def SIGHUP_def SIGQUIT_def SIGUSR1_def)
  then obtain hs sg where "process_signals (fold sig_handler ns sig_init_state) = (hs, sg, True)" by (metis prod.collapse)
  then show ?thesis by (cases "run_handlers A G hs (l_table l)") simp_all
qed

end
