(* ===== verification/Lexer.thy ===== *)
theory Lexer
  imports Strpartial
begin

text \<open>
  The hand-written scanner of the configuration language, \<^verbatim>\<open>yylex\<close> in \<^verbatim>\<open>parse.y\<close>, with the stack of open files. A file is the
  text that is still to be read; line numbers, which appear in messages only, are left out, and so are the messages of
  the scanner, which change nothing. The empty stack is the null pointer \<^verbatim>\<open>yyfp\<close>: reading then is a fault, \<open>None\<close>.
\<close>

section \<open>Tokens\<close>

datatype token =
    TINCLUDE | TPIDFILE | TLOGFILE | TLISTEN | TDATETIMEFORMAT | TTIMESTAMPRES | TSOURCE | TDESTINATION
  | TTCP | TFILE | TFIFO | TMAXSIZE | TROTLOG
  | TRULE | TMATCH | TMATCHALL | TFROM | TELSE | TWRITE | TBREAK | TVAR | TAS
  | T_INVALID
  | TSTRING string bool bool \<comment> \<open>the text, whether it was quoted, whether it is a symbol\<close>
  | Semicolon | Open_Brace | Close_Brace | Equals
  | End_Of_Input

definition keyword_table :: "(string \<times> token) list" where
  "keyword_table = [(''include'', TINCLUDE), (''var'', TVAR), (''listen'', TLISTEN), (''pidfile'', TPIDFILE), (''logfile'', TLOGFILE),
     (''datetimeformat'', TDATETIMEFORMAT), (''timestampresolution'', TTIMESTAMPRES), (''source'', TSOURCE),
     (''destination'', TDESTINATION), (''tcp'', TTCP), (''file'', TFILE), (''fifo'', TFIFO), (''maxsize'', TMAXSIZE),
     (''rotlog'', TROTLOG), (''as'', TAS), (''rule'', TRULE), (''match'', TMATCH), (''matchall'', TMATCHALL),
     (''from'', TFROM), (''else'', TELSE), (''write'', TWRITE), (''break'', TBREAK)]"

definition symbol_char :: "char \<Rightarrow> bool" where
  "symbol_char c \<longleftrightarrow> isalnum (uchar c) \<or> c = CHR ''_''"

definition tstring_is_symbol :: "string \<Rightarrow> bool" where
  "tstring_is_symbol s = (case s of [] \<Rightarrow> False | c # cs \<Rightarrow> (isalpha (uchar c) \<or> c = CHR ''_'') \<and> list_all symbol_char cs)"

text \<open>A word that was not quoted anywhere is looked up among the keywords.\<close>

definition classify :: "string \<Rightarrow> bool \<Rightarrow> token" where
  "classify buf nonkw =
     (if nonkw then TSTRING buf True False
      else case map_of keyword_table buf of Some tk \<Rightarrow> tk | None \<Rightarrow> TSTRING buf False (tstring_is_symbol buf))"

section \<open>Words\<close>

abbreviation (input) TAB :: char where "TAB \<equiv> CHR 0x09"
abbreviation (input) BACKSLASH :: char where "BACKSLASH \<equiv> CHR 0x5C"
abbreviation (input) QUOTE :: char where "QUOTE \<equiv> CHR 0x22"

text \<open>The buffer has 4096 bytes; when it is full it is started again, so that there is always room for the NUL.\<close>

definition buf_add :: "string \<Rightarrow> char \<Rightarrow> string" where
  "buf_add buf c = (if length buf + 1 = 4096 then [] else buf @ [c])"

text \<open>The end of a word: the text, the flags, and the input from the character that ended it on (empty at the end of the file).\<close>

datatype word_end = Invalid_Word string | Word string bool bool bool string \<comment> \<open>buffer, quotes, escape, nonkw, rest\<close>

fun lex_word :: "string \<Rightarrow> bool \<Rightarrow> bool \<Rightarrow> bool \<Rightarrow> bool \<Rightarrow> string \<Rightarrow> word_end" where
  "lex_word [] quotes escape nonkw semicol buf = Word buf quotes escape nonkw []"
| "lex_word (c # cs) quotes escape nonkw semicol buf =
     (if c = NUL then lex_word cs quotes False nonkw semicol buf
      else if c = BACKSLASH \<and> \<not> escape then lex_word cs quotes True nonkw semicol buf
      else if c = NL then
        (if \<not> semicol then Invalid_Word cs
         else if escape then lex_word cs quotes False True semicol buf
         else Word buf quotes escape nonkw (c # cs))
      else if c \<in> set '';{}# ='' \<union> {TAB} \<and> \<not> escape \<and> \<not> quotes then Word buf quotes escape nonkw (c # cs)
      else if c = QUOTE \<and> \<not> escape then lex_word cs (\<not> quotes) escape (nonkw \<or> \<not> quotes) semicol buf
      else lex_word cs quotes False nonkw False (buf_add buf c))"

section \<open>The scanner\<close>

record cfgfile =
  ftext :: string
  filename :: string

definition blank :: "char \<Rightarrow> bool" where
  "blank c \<longleftrightarrow> c = CHR '' '' \<or> c = TAB \<or> c = NL"

definition punct :: "char \<Rightarrow> token option" where
  "punct c = (if c = CHR '';'' then Some Semicolon else if c = CHR ''{'' then Some Open_Brace
     else if c = CHR ''}'' then Some Close_Brace else if c = CHR ''='' then Some Equals else None)"

text \<open>From \<^verbatim>\<open>repeat\<close> on: a token and the files after it, or another round with the flags and files it starts with. The flags of a
  word that ended at the end of a file without any character stay set for the file that is continued.\<close>

definition lex_eof :: "bool \<Rightarrow> bool \<Rightarrow> bool \<Rightarrow> cfgfile list \<Rightarrow> token \<times> cfgfile list + bool \<times> bool \<times> bool \<times> cfgfile list" where
  "lex_eof quotes escape nonkw fs = (if fs = [] then Inl (End_Of_Input, []) else Inr (quotes, escape, nonkw, fs))"

definition lex_round :: "bool \<Rightarrow> bool \<Rightarrow> bool \<Rightarrow> cfgfile \<Rightarrow> cfgfile list \<Rightarrow> token \<times> cfgfile list + bool \<times> bool \<times> bool \<times> cfgfile list" where
  "lex_round quotes escape nonkw f fs =
     (case dropWhile blank (ftext f) of
        [] \<Rightarrow> lex_eof quotes escape nonkw fs
      | c # cs \<Rightarrow>
          (case punct c of
             Some tk \<Rightarrow> Inl (tk, f\<lparr>ftext := cs\<rparr> # fs)
           | None \<Rightarrow>
               if c = CHR ''#'' then
                 (case dropWhile (\<lambda>c. c \<noteq> NL) cs of
                    [] \<Rightarrow> lex_eof quotes escape nonkw fs
                  | _ # cs' \<Rightarrow> Inr (quotes, escape, nonkw, f\<lparr>ftext := cs'\<rparr> # fs))
               else
                 (case lex_word (c # cs) quotes escape nonkw False [] of
                    Invalid_Word cs' \<Rightarrow> Inl (T_INVALID, f\<lparr>ftext := cs'\<rparr> # fs)
                  | Word buf quotes' escape' nonkw' cs' \<Rightarrow>
                      if buf = [] \<and> cs' = [] then lex_eof quotes' escape' nonkw' fs
                      else Inl (classify buf nonkw', f\<lparr>ftext := cs'\<rparr> # fs))))"

definition input_size :: "cfgfile list \<Rightarrow> nat" where
  "input_size fs = sum_list (map (length \<circ> ftext) fs) + length fs"

lemma dropWhile_shorter: "dropWhile P xs = y # ys \<Longrightarrow> length ys < length xs"
  using length_dropWhile_le[of P xs] by simp

lemma round_again: "lex_round q e n f fs = Inr (q', e', n', fs') \<Longrightarrow> input_size fs' < input_size (f # fs)"
  by (auto simp: lex_round_def lex_eof_def input_size_def split: list.splits option.splits if_splits word_end.splits dest!: dropWhile_shorter)

function lex_from :: "bool \<Rightarrow> bool \<Rightarrow> bool \<Rightarrow> cfgfile list \<Rightarrow> (token \<times> cfgfile list) option" where
  "lex_from quotes escape nonkw [] = None"
| "lex_from quotes escape nonkw (f # fs) =
     (case lex_round quotes escape nonkw f fs of
        Inl r \<Rightarrow> Some r
      | Inr (quotes', escape', nonkw', fs') \<Rightarrow> lex_from quotes' escape' nonkw' fs')"
  by pat_completeness auto

termination lex_from
  by (relation "measure (\<lambda>(q, e, n, fs). input_size fs)") (auto dest: round_again)

definition yylex :: "cfgfile list \<Rightarrow> (token \<times> cfgfile list) option" where
  "yylex fs = lex_from False False False fs"

section \<open>Opening files\<close>

text \<open>\<open>fopen\<close> gives the text of a file that can be opened.\<close>

definition cfgfile_include :: "(string \<Rightarrow> string option) \<Rightarrow> string \<Rightarrow> cfgfile list \<Rightarrow> cfgfile list" where
  "cfgfile_include fopen name fs = (case fopen name of None \<Rightarrow> [] | Some t \<Rightarrow> \<lparr>ftext = t, filename = name\<rparr> # fs)"

section \<open>Progress and bounds\<close>

lemma lex_word_rest: "lex_word cs q e n sc b = Word b' q' e' n' cs' \<Longrightarrow> length cs' \<le> length cs"
  by (induction cs q e n sc b rule: lex_word.induct) (auto split: if_splits)

lemma lex_word_invalid_rest: "lex_word cs q e n sc b = Invalid_Word cs' \<Longrightarrow> length cs' < length cs"
  by (induction cs q e n sc b rule: lex_word.induct) (auto split: if_splits)

text \<open>A word that ends before its first character was cut by a delimiter; the scanner has already excluded that.\<close>

lemma lex_word_moves:
  assumes "lex_word (c # cs) q e n False [] = Word b q' e' n' cs'" and "\<not> blank c" and "punct c = None" and "c \<noteq> CHR ''#''"
  shows "length cs' \<le> length cs"
  using assms by (auto simp: blank_def punct_def split: if_splits dest!: lex_word_rest)

declare lex_word.simps [simp del]

lemma classify_not_end: "classify b k \<noteq> End_Of_Input"
  by (auto simp: classify_def keyword_table_def split: option.splits dest!: map_of_SomeD)

lemma round_token:
  assumes "lex_round q e n f fs = Inl (tk, fs')"
  shows "if tk = End_Of_Input then fs' = [] else fs' \<noteq> [] \<and> input_size fs' < input_size (f # fs)"
proof (cases "dropWhile blank (ftext f)")
  case Nil
  with assms show ?thesis by (auto simp: lex_round_def lex_eof_def split: if_splits)
next
  case (Cons c cs)
  have nb: "\<not> blank c" using Cons by (metis hd_dropWhile list.distinct(1) list.sel(1))
  have pu: "punct c \<noteq> Some End_Of_Input" by (auto simp: punct_def)
  note le = dropWhile_shorter[OF Cons]
  show ?thesis
  proof (cases "punct c = None \<and> c \<noteq> CHR ''#''")
    case False
    with assms Cons le pu show ?thesis
      by (auto simp: lex_round_def lex_eof_def input_size_def split: option.splits list.splits if_splits)
  next
    case True
    show ?thesis
    proof (cases "lex_word (c # cs) q e n False []")
      case (Invalid_Word cs')
      with assms Cons True le lex_word_invalid_rest[OF Invalid_Word] show ?thesis by (auto simp: lex_round_def input_size_def)
    next
      case (Word b q' e' n' cs')
      with assms Cons True le lex_word_moves[OF Word nb] show ?thesis
        by (auto simp: lex_round_def lex_eof_def input_size_def classify_not_end split: if_splits)
    qed
  qed
qed

lemma lex_from_progress:
  "lex_from q e n fs = Some (tk, fs') \<Longrightarrow> if tk = End_Of_Input then fs' = [] else fs' \<noteq> [] \<and> input_size fs' < input_size fs"
proof (induction q e n fs rule: lex_from.induct)
  case (2 q e n f fs)
  then show ?case by (fastforce split: sum.splits if_splits dest: round_token round_again)
qed simp

text \<open>Scanning an open file always gives a token; a token other than the end consumes input.\<close>

lemma yylex_progress: "yylex fs = Some (tk, fs') \<Longrightarrow> tk \<noteq> End_Of_Input \<Longrightarrow> fs' \<noteq> [] \<and> input_size fs' < input_size fs"
  using lex_from_progress[of False False False fs tk fs'] by (simp add: yylex_def)

lemma yylex_end: "yylex fs = Some (End_Of_Input, fs') \<Longrightarrow> fs' = []"
  using lex_from_progress[of False False False fs End_Of_Input fs'] by (simp add: yylex_def)

lemma lex_from_total: "fs \<noteq> [] \<Longrightarrow> \<exists>x. lex_from q e n fs = Some x"
proof (induction q e n fs rule: lex_from.induct)
  case (2 q e n f fs)
  have "fs' \<noteq> []" if "lex_round q e n f fs = Inr (q', e', n', fs')" for q' e' n' fs'
    using that by (auto simp: lex_round_def lex_eof_def split: list.splits option.splits if_splits word_end.splits)
  with 2 show ?case by (fastforce split: sum.splits)
qed simp

section \<open>Printing tokens\<close>

definition escaped :: "char \<Rightarrow> string" where
  "escaped c = (if c = QUOTE \<or> c = BACKSLASH then [BACKSLASH, c] else [c])"

definition plain_char :: "char \<Rightarrow> bool" where
  "plain_char c \<longleftrightarrow> c \<notin> {NUL, BACKSLASH, NL, QUOTE, TAB} \<union> set '';{}# =''"

definition keyword_text :: "token \<Rightarrow> string option" where
  "keyword_text tk = map_of (map (\<lambda>(w, tk). (tk, w)) keyword_table) tk"

fun show_token :: "token \<Rightarrow> string" where
  "show_token (TSTRING s quoted issym) = (if quoted then QUOTE # concat (map escaped s) @ [QUOTE] else s)"
| "show_token Semicolon = '';''"
| "show_token Open_Brace = ''{''"
| "show_token Close_Brace = ''}''"
| "show_token Equals = ''=''"
| "show_token tk = the (keyword_text tk)"

text \<open>The tokens that can be written: quoted texts without NUL and newline, and words without special characters that are not keywords.\<close>

fun printable :: "token \<Rightarrow> bool" where
  "printable (TSTRING s quoted issym) = (length s < 4096 \<and>
     (if quoted then \<not> issym \<and> NUL \<notin> set s \<and> NL \<notin> set s
      else s \<noteq> [] \<and> list_all plain_char s \<and> map_of keyword_table s = None \<and> issym = tstring_is_symbol s))"
| "printable End_Of_Input = False"
| "printable T_INVALID = False"
| "printable tk = True"

definition show_tokens :: "token list \<Rightarrow> string" where
  "show_tokens ts = concat (map (\<lambda>tk. show_token tk @ '' '') ts)"

text \<open>The tokens that a stack of files gives, up to its end.\<close>

fun lexes :: "token list \<Rightarrow> cfgfile list \<Rightarrow> bool" where
  "lexes [] fs = (yylex fs = Some (End_Of_Input, []))"
| "lexes (tk # ts) fs = (\<exists>fs'. yylex fs = Some (tk, fs') \<and> lexes ts fs')"

lemma buf_add_short: "length buf + 1 < 4096 \<Longrightarrow> buf_add buf c = buf @ [c]"
  by (simp add: buf_add_def)

lemma lex_plain:
  "list_all plain_char s \<Longrightarrow> length buf + length s < 4096 \<Longrightarrow>
   lex_word (s @ CHR '' '' # cs) False False n sc buf = Word (buf @ s) False False n (CHR '' '' # cs)"
proof (induction s arbitrary: buf sc)
  case (Cons c s)
  then show ?case by (auto simp: plain_char_def buf_add_short lex_word.simps(2)[of c])
qed (simp add: lex_word.simps)

lemma lex_escaped:
  "NUL \<notin> set s \<Longrightarrow> NL \<notin> set s \<Longrightarrow> length buf + length s < 4096 \<Longrightarrow>
   \<exists>sc'. lex_word (concat (map escaped s) @ cs) True False n sc buf = lex_word cs True False n sc' (buf @ s)"
proof (induction s arbitrary: buf sc)
  case (Cons c s)
  have "lex_word (escaped c @ ds) True False n sc buf = lex_word ds True False n False (buf @ [c])" for ds
    using Cons.prems by (auto simp: escaped_def buf_add_short lex_word.simps(2))
  with Cons.IH[of "buf @ [c]" False] Cons.prems show ?case by simp
qed auto

lemma lex_quoted:
  assumes "NUL \<notin> set s" and "NL \<notin> set s" and "length s < 4096"
  shows "lex_word (QUOTE # concat (map escaped s) @ QUOTE # CHR '' '' # cs) False False False False [] = Word s False False True (CHR '' '' # cs)"
proof -
  have q: "lex_word (QUOTE # ds) a False n sc buf = lex_word ds (\<not> a) False (n \<or> \<not> a) sc buf" for ds a n sc buf
    by (simp add: lex_word.simps)
  obtain sc where "lex_word (concat (map escaped s) @ QUOTE # CHR '' '' # cs) True False True False [] = lex_word (QUOTE # CHR '' '' # cs) True False True sc s"
    using lex_escaped[OF assms(1,2), of "[]" "QUOTE # CHR '' '' # cs" True False] assms(3) by auto
  then show ?thesis by (simp add: q lex_word.simps)
qed

lemma keyword_plain:
  assumes "(w, tk) \<in> set keyword_table"
  shows "w \<noteq> [] \<and> list_all plain_char w \<and> length w < 4096 \<and> map_of keyword_table w = Some tk"
proof -
  have "list_all (\<lambda>(w, tk). w \<noteq> [] \<and> list_all plain_char w \<and> length w < 4096 \<and> map_of keyword_table w = Some tk) keyword_table"
    by code_simp
  with assms show ?thesis by (auto simp: list_all_iff)
qed

fun is_word :: "token \<Rightarrow> bool" where
  "is_word (TSTRING s quoted issym) = True"
| "is_word tk = False"

lemma show_keyword:
  assumes "printable tk" and "\<not> is_word tk" and "tk \<notin> {Semicolon, Open_Brace, Close_Brace, Equals}"
  shows "(show_token tk, tk) \<in> set keyword_table"
  using assms by (cases tk) (simp_all add: keyword_text_def keyword_table_def)

lemma round_word:
  assumes "t = c # cs" and "\<not> blank c" and "punct c = None" and "c \<noteq> CHR ''#''"
    and "lex_word t False False False False [] = Word b q e n (CHR '' '' # cs')"
  shows "lex_round False False False (f\<lparr>ftext := t\<rparr>) fs = Inl (classify b n, f\<lparr>ftext := CHR '' '' # cs'\<rparr> # fs)"
  using assms by (simp add: lex_round_def)

text \<open>Scanning a printed token gives it back.\<close>

lemma yylex_show:
  assumes "printable tk"
  shows "yylex (f\<lparr>ftext := show_token tk @ '' '' @ cs\<rparr> # fs) = Some (tk, f\<lparr>ftext := '' '' @ cs\<rparr> # fs)"
proof -
  have plain: ?thesis if p: "show_token tk = w" "w \<noteq> []" "list_all plain_char w" "length w < 4096" "classify w False = tk" for w
  proof -
    obtain c w' where w: "w = c # w'" using p(2) by (cases w) auto
    then have "\<not> blank c" "punct c = None" "c \<noteq> CHR ''#''" using p(3) by (auto simp: plain_char_def blank_def punct_def)
    with round_word[of "w @ CHR '' '' # cs" c "w' @ CHR '' '' # cs" w False False False cs f fs] lex_plain[OF p(3), of "[]" cs] p w
    show ?thesis by (simp add: yylex_def)
  qed
  show ?thesis
  proof (cases "tk \<in> {Semicolon, Open_Brace, Close_Brace, Equals}")
    case True
    then show ?thesis by (auto simp: yylex_def lex_round_def blank_def punct_def)
  next
    case np: False
    show ?thesis
    proof (cases "is_word tk")
      case True
      then obtain s quoted issym where tk: "tk = TSTRING s quoted issym" by (cases tk) auto
      show ?thesis
      proof (cases quoted)
        case True
        have "\<not> blank QUOTE" "punct QUOTE = None" by (simp_all add: blank_def punct_def)
        with round_word[OF refl, of QUOTE "concat (map escaped s) @ QUOTE # CHR '' '' # cs" s False False True cs f fs] lex_quoted[of s cs] assms tk True
        show ?thesis by (simp add: yylex_def classify_def)
      next
        case False
        with assms tk plain[of s] show ?thesis by (simp add: classify_def)
      qed
    next
      case False
      with show_keyword[OF assms _ np] have "(show_token tk, tk) \<in> set keyword_table" by simp
      from keyword_plain[OF this] plain[OF refl] show ?thesis by (simp add: classify_def)
    qed
  qed
qed

lemma yylex_blank:
  assumes "blank c"
  shows "yylex (f\<lparr>ftext := c # cs\<rparr> # fs) = yylex (f\<lparr>ftext := cs\<rparr> # fs)"
proof -
  have "lex_round q e n (f\<lparr>ftext := c # cs\<rparr>) fs = lex_round q e n (f\<lparr>ftext := cs\<rparr>) fs" for q e n
    using assms by (simp add: lex_round_def cong: list.case_cong option.case_cong word_end.case_cong if_cong)
  then show ?thesis by (simp add: yylex_def)
qed

lemma lexes_blank: "blank c \<Longrightarrow> lexes ts (f\<lparr>ftext := c # cs\<rparr> # fs) = lexes ts (f\<lparr>ftext := cs\<rparr> # fs)"
  by (cases ts) (simp_all add: yylex_blank)

lemma lexes_show: "list_all printable ts \<Longrightarrow> lexes ts [f\<lparr>ftext := show_tokens ts\<rparr>]"
proof (induction ts)
  case Nil
  then show ?case by (simp add: show_tokens_def yylex_def lex_round_def lex_eof_def)
next
  case (Cons tk ts)
  have "lexes ts [f\<lparr>ftext := '' '' @ show_tokens ts\<rparr>]" using Cons lexes_blank[of "CHR '' ''"] by (simp add: blank_def)
  with yylex_show[where tk = tk and f = f and cs = "show_tokens ts" and fs = "[]"] Cons.prems show ?case by (auto simp: show_tokens_def)
qed

section \<open>Properties\<close>

text \<open>C32: a sequence of tokens that is printed with a space after each, quotes and backslashes in quoted texts escaped, is scanned
  back to the same tokens, up to the end of the input.\<close>

theorem tokens_roundtrip:
  assumes "list_all printable ts"
  shows "lexes ts [\<lparr>ftext = show_tokens ts, filename = name\<rparr>]"
  using lexes_show[OF assms, of "\<lparr>ftext = [], filename = name\<rparr>"] by simp

theorem tokens_roundtrip_witness:
  "lexes [TSOURCE, TFILE, TSTRING (''a;'' @ [QUOTE]) True False, TAS, TSTRING ''SRC'' False True, Semicolon]
     [\<lparr>ftext = ''source file '' @ [QUOTE] @ ''a;'' @ [BACKSLASH, QUOTE, QUOTE] @ '' as SRC ; '', filename = ''c''\<rparr>]"
proof -
  let ?ts = "[TSOURCE, TFILE, TSTRING (''a;'' @ [QUOTE]) True False, TAS, TSTRING ''SRC'' False True, Semicolon]"
  have "list_all printable ?ts" by code_simp
  moreover have "show_tokens ?ts = ''source file '' @ [QUOTE] @ ''a;'' @ [BACKSLASH, QUOTE, QUOTE] @ '' as SRC ; ''" by code_simp
  ultimately show ?thesis using tokens_roundtrip[of ?ts "''c''"] by (simp only:)
qed

lemma newline_not_end: "\<not> sc \<Longrightarrow> lex_word cs q e n sc b = Word b' q' e' n' (c # cs') \<Longrightarrow> c \<noteq> NL"
  by (induction cs q e n sc b rule: lex_word.induct) (simp_all add: lex_word.simps split: if_splits)

lemma lex_word_bound: "length b < 4096 \<Longrightarrow> lex_word cs q e n sc b = Word b' q' e' n' cs' \<Longrightarrow> length b' < 4096"
  by (induction cs q e n sc b rule: lex_word.induct) (simp_all add: lex_word.simps buf_add_def split: if_splits)

lemma lex_plain_newline:
  "list_all plain_char s \<Longrightarrow> lex_word (s @ NL # cs) False False n False buf = Invalid_Word cs"
proof (induction s arbitrary: buf)
  case (Cons c s)
  then show ?case by (auto simp: plain_char_def lex_word.simps(2)[of c])
qed (simp add: lex_word.simps)

lemma classify_text: "classify b n = TSTRING s quoted issym \<Longrightarrow> b = s"
  by (auto simp: classify_def keyword_table_def split: option.splits if_splits dest!: map_of_SomeD)

lemma round_fits:
  assumes "lex_round q e n f fs = Inl (TSTRING s quoted issym, fs')"
  shows "length s < 4096"
proof (cases "dropWhile blank (ftext f)")
  case (Cons c cs)
  have pu: "punct c \<noteq> Some (TSTRING s quoted issym)" by (auto simp: punct_def)
  show ?thesis
  proof (cases "lex_word (c # cs) q e n False []")
    case (Word b q' e' n' cs')
    with assms Cons pu have "classify b n' = TSTRING s quoted issym"
      by (auto simp: lex_round_def lex_eof_def split: option.splits if_splits list.splits)
    with classify_text lex_word_bound[OF _ Word] show ?thesis by fastforce
  qed (use assms Cons pu in \<open>auto simp: lex_round_def lex_eof_def split: option.splits if_splits list.splits\<close>)
next
  case Nil
  with assms show ?thesis by (simp add: lex_round_def lex_eof_def split: if_splits)
qed

lemma lex_from_fits: "lex_from q e n fs = Some (TSTRING s quoted issym, fs') \<Longrightarrow> length s < 4096"
proof (induction q e n fs rule: lex_from.induct)
  case (2 q e n f fs)
  then show ?case by (auto split: sum.splits dest: round_fits)
qed simp

text \<open>A word at the end of a line is always refused, since the flag that a semicolon was seen is never set when a newline is
  tested for it; a line that is continued with a backslash does not exist either.\<close>

theorem word_before_newline:
  assumes "list_all plain_char s" and "s \<noteq> []"
  shows "yylex (f\<lparr>ftext := s @ NL # cs\<rparr> # fs) = Some (T_INVALID, f\<lparr>ftext := cs\<rparr> # fs)"
proof -
  obtain c s' where s: "s = c # s'" using assms(2) by (cases s) auto
  then have "\<not> blank c" "punct c = None" "c \<noteq> CHR ''#''" using assms(1) by (auto simp: plain_char_def blank_def punct_def)
  then show ?thesis using lex_plain_newline[OF assms(1), of cs False "[]"] s by (simp add: yylex_def lex_round_def)
qed

theorem word_before_newline_witness:
  "yylex [\<lparr>ftext = ''else'' @ NL # ''{'', filename = ''c''\<rparr>] = Some (T_INVALID, [\<lparr>ftext = ''{'', filename = ''c''\<rparr>])"
  using word_before_newline[where s = "''else''" and f = "\<lparr>ftext = [], filename = ''c''\<rparr>" and cs = "''{''" and fs = "[]"] by (simp add: plain_char_def)

text \<open>The texts that the scanner returns fit its buffer, however long the words of the file are.\<close>

theorem token_fits:
  assumes "yylex fs = Some (TSTRING s quoted issym, fs')"
  shows "length s < 4096"
  using assms lex_from_fits unfolding yylex_def by blast

theorem token_fits_witness: "length ''ab'' < 4096 \<and> yylex [\<lparr>ftext = ''ab'', filename = ''c''\<rparr>] = Some (TSTRING ''ab'' False True, [\<lparr>ftext = [], filename = ''c''\<rparr>])"
proof -
  have l: "yylex [\<lparr>ftext = ''ab'', filename = ''c''\<rparr>] = Some (TSTRING ''ab'' False True, [\<lparr>ftext = [], filename = ''c''\<rparr>])" by code_simp
  from token_fits[OF l] l show ?thesis by simp
qed

end
