(* ===== verification/Config_Parser.thy ===== *)
theory Config_Parser
  imports Lexer Node Descriptor_Table Options
begin

text \<open>
  The configuration language: the grammar of \<^verbatim>\<open>parse.y\<close> with its actions, which fill the configuration, the variables, the
  origins and the tree of rule nodes. The grammar needs one token at a time and no pushed back token, so the generated
  parser is a loop that reads a token and acts on it; its stack holds the blocks that are open, with what introduced them.
  An action runs as soon as its last token was read, before the next token is looked at.

  A result is \<open>Some (Some x)\<close> when parsing goes on, \<open>Some None\<close> when \<^verbatim>\<open>yyparse\<close> returns 1, and \<open>None\<close> when the code uses a null or
  invalid pointer or never returns.
\<close>

section \<open>State\<close>

record pnode =
  pn_ctx :: node_ctx
  pn_child :: "nat option"
  pn_parent :: "nat option"
  pn_sibling :: "nat option"

text \<open>The origins have the host and the port of a socket beside the path and size of a file.\<close>

record cfg_origin = origin +
  or_host :: string
  or_port :: string

record dlog_config =
  datetime_format :: string
  fractsec_divider :: int
  pidfile :: string
  logfile :: string
  listenskt_port :: "string option"

record pstate =
  yyfiles :: "cfgfile list"
  pconfig :: dlog_config
  vars_table :: "string \<rightharpoonup> strpartial list"
  origins :: "cfg_origin list"
  nodes :: "nat \<rightharpoonup> pnode"
  next_node :: nat
  rootnode :: "nat option"
  curblock :: "nat option"

text \<open>What the process provides: readable files, their texts, the environment, and whether \<^verbatim>\<open>errno\<close> is \<^verbatim>\<open>EINVAL\<close> after \<^verbatim>\<open>strtol\<close>.\<close>

record cfg_world =
  readable :: "string \<Rightarrow> bool"
  fopen :: "string \<Rightarrow> string option"
  cfg_env :: "string \<Rightarrow> string option"
  errno_einval :: "string \<Rightarrow> bool"

section \<open>Results\<close>

definition pbind :: "'a option option \<Rightarrow> ('a \<Rightarrow> 'b option option) \<Rightarrow> 'b option option" where
  "pbind m f = (case m of None \<Rightarrow> None | Some None \<Rightarrow> Some None | Some (Some x) \<Rightarrow> f x)"

abbreviation ok :: "'a \<Rightarrow> 'a option option" where "ok x \<equiv> Some (Some x)"

text \<open>\<^verbatim>\<open>yyerror\<close> prints the name of the current file, which is the null pointer after the end of the input; then parsing is given up.\<close>

definition yyabort :: "pstate \<Rightarrow> 'a option option" where
  "yyabort s = (if yyfiles s = [] then None else Some None)"

definition next_tok :: "pstate \<Rightarrow> (token \<times> pstate) option option" where
  "next_tok s = map_option (\<lambda>(tk, fs). Some (tk, s\<lparr>yyfiles := fs\<rparr>)) (yylex (yyfiles s))"

definition expect :: "token \<Rightarrow> pstate \<Rightarrow> pstate option option" where
  "expect tk s = pbind (next_tok s) (\<lambda>(tk', s). if tk' = tk then ok s else yyabort s)"

type_synonym tstring = "string \<times> bool \<times> bool"

definition expect_string :: "pstate \<Rightarrow> (tstring \<times> pstate) option option" where
  "expect_string s = pbind (next_tok s) (\<lambda>(tk, s). case tk of TSTRING v quoted issym \<Rightarrow> ok ((v, quoted, issym), s) | _ \<Rightarrow> yyabort s)"

section \<open>Checks\<close>

definition check_symbol :: "tstring \<Rightarrow> pstate \<Rightarrow> unit option option" where
  "check_symbol a s = (case a of (v, quoted, issym) \<Rightarrow> if quoted \<or> \<not> issym then yyabort s else ok ())"

text \<open>After a syntax error in a format string, the null pointer that reports it is passed to \<^verbatim>\<open>strpartial_del\<close>.\<close>

definition check_partial :: "tstring \<Rightarrow> pstate \<Rightarrow> strpartial list option option" where
  "check_partial a s = (case strpartial_split (fst a) of None \<Rightarrow> strpartial_del [] \<bind> (\<lambda>_. yyabort s) | Some ps \<Rightarrow> ok ps)"

fun strpartial_isstatic :: "(string \<rightharpoonup> strpartial list) \<Rightarrow> strpartial list \<Rightarrow> bool \<Rightarrow> bool" where
  "strpartial_isstatic vt [] allow_vars = False"
| "strpartial_isstatic vt (STR_VAR v # ps) allow_vars =
     (if \<not> allow_vars then False
      else case vt v of Some _ \<Rightarrow> False | None \<Rightarrow> strpartial_isstatic vt [] False)"
| "strpartial_isstatic vt (STR_VERBATIM t # ps) allow_vars = True"
| "strpartial_isstatic vt (STR_ENV v # ps) allow_vars = True"
| "strpartial_isstatic vt (p # ps) allow_vars = strpartial_isstatic vt ps allow_vars"

definition check_partial_static :: "tstring \<Rightarrow> pstate \<Rightarrow> strpartial list option option" where
  "check_partial_static a s = pbind (check_partial a s) (\<lambda>ps.
     if \<not> strpartial_isstatic (vars_table s) ps True then strpartial_del ps \<bind> (\<lambda>_. yyabort s) else ok ps)"

text \<open>Resolving without a log line. An unset environment variable is a null pointer for \<^verbatim>\<open>dynstr_ccat\<close>, an unknown variable inside a
  variable one for \<^verbatim>\<open>dynstr_cat\<close>, and for any other part the message is given a value that is not a string. A variable
  that refers to itself is resolved forever.\<close>

partial_function (option) strpartial_resolve_ex ::
  "(string \<rightharpoonup> strpartial list) \<Rightarrow> (string \<Rightarrow> string option) \<Rightarrow> strpartial list \<Rightarrow> string \<Rightarrow> string option option" where
  "strpartial_resolve_ex vt env ps s =
     (case ps of
        [] \<Rightarrow> Some (Some s)
      | p # ps' \<Rightarrow>
          (case p of
             STR_VERBATIM t \<Rightarrow> strpartial_resolve_ex vt env ps' (s @ t)
           | STR_VAR v \<Rightarrow>
               (case vt v of
                  None \<Rightarrow> Some None
                | Some qs \<Rightarrow> strpartial_resolve_ex vt env qs [] \<bind>
                    (\<lambda>r. case r of None \<Rightarrow> None | Some t \<Rightarrow> strpartial_resolve_ex vt env ps' (s @ t)))
           | STR_ENV v \<Rightarrow> (case env v of None \<Rightarrow> None | Some t \<Rightarrow> strpartial_resolve_ex vt env ps' (s @ t))
           | _ \<Rightarrow> None))"

definition resolve_ex :: "cfg_world \<Rightarrow> pstate \<Rightarrow> strpartial list \<Rightarrow> string option option" where
  "resolve_ex W s ps = strpartial_resolve_ex (vars_table s) (cfg_env W) ps []"

text \<open>The text of a resolved string is taken without a check for the null pointer.\<close>

definition resolved_text :: "cfg_world \<Rightarrow> pstate \<Rightarrow> strpartial list \<Rightarrow> string option option" where
  "resolved_text W s ps = resolve_ex W s ps \<bind> (\<lambda>r. case r of None \<Rightarrow> None | Some t \<Rightarrow> ok t)"

definition resolved_checked :: "cfg_world \<Rightarrow> pstate \<Rightarrow> strpartial list \<Rightarrow> string option option" where
  "resolved_checked W s ps = resolve_ex W s ps \<bind> (\<lambda>r. case r of None \<Rightarrow> yyabort s | Some t \<Rightarrow> ok t)"

section \<open>Building the tree\<close>

partial_function (option) last_sibling :: "(nat \<rightharpoonup> pnode) \<Rightarrow> nat \<Rightarrow> nat option" where
  "last_sibling h i = h i \<bind> (\<lambda>nd. case pn_sibling nd of None \<Rightarrow> Some i | Some j \<Rightarrow> last_sibling h j)"

definition set_sibling :: "nat \<Rightarrow> nat option \<Rightarrow> (nat \<rightharpoonup> pnode) \<Rightarrow> (nat \<rightharpoonup> pnode) option" where
  "set_sibling i j h = h i \<bind> (\<lambda>nd. Some (h(i \<mapsto> nd\<lparr>pn_sibling := j\<rparr>)))"

definition node_add_child :: "nat option \<Rightarrow> nat \<Rightarrow> (nat \<rightharpoonup> pnode) \<Rightarrow> (nat \<rightharpoonup> pnode) option" where
  "node_add_child parent n h =
     (case parent of
        None \<Rightarrow> Some h
      | Some p \<Rightarrow> do {
          nd \<leftarrow> h p;
          (case pn_child nd of
             None \<Rightarrow> set_sibling n None h \<bind> (\<lambda>h. h p \<bind> (\<lambda>nd. Some (h(p \<mapsto> nd\<lparr>pn_child := Some n\<rparr>))))
           | Some c \<Rightarrow> last_sibling h c \<bind> (\<lambda>k. set_sibling k (Some n) h))
        })"

definition new_node :: "node_ctx \<Rightarrow> nat option \<Rightarrow> pnode" where
  "new_node c parent = \<lparr>pn_ctx = c, pn_child = None, pn_parent = parent, pn_sibling = None\<rparr>"

definition add_node :: "node_ctx \<Rightarrow> pstate \<Rightarrow> pstate option" where
  "add_node c s = do {
     let n = next_node s;
     h \<leftarrow> node_add_child (curblock s) n ((nodes s)(n \<mapsto> new_node c None));
     Some (s\<lparr>nodes := h, next_node := n + 1\<rparr>)
   }"

definition add_node_wparent :: "node_ctx \<Rightarrow> pstate \<Rightarrow> pstate option" where
  "add_node_wparent c s = do {
     let n = next_node s;
     b \<leftarrow> curblock s;
     let h = (nodes s)(n \<mapsto> new_node c None);
     nd \<leftarrow> h b;
     h \<leftarrow> node_add_child (pn_parent nd) n h;
     h \<leftarrow> node_add_child (Some n) b h;
     nd \<leftarrow> h b;
     Some (s\<lparr>nodes := h, next_node := n + 1, curblock := pn_parent nd\<rparr>)
   }"

definition open_block :: "pstate \<Rightarrow> pstate" where
  "open_block s =
     (let n = next_node s in
      s\<lparr>nodes := (nodes s)(n \<mapsto> new_node NODE_PASSTHROUGH (curblock s)), next_node := n + 1, curblock := Some n,
        rootnode := (if rootnode s = None then Some n else rootnode s)\<rparr>)"

section \<open>Commands\<close>

definition var_cmd :: "pstate \<Rightarrow> pstate option option" where
  "var_cmd s =
     pbind (expect_string s) (\<lambda>(a, s). pbind (expect Equals s) (\<lambda>s. pbind (expect_string s) (\<lambda>(b, s).
     pbind (check_symbol a s) (\<lambda>_. pbind (check_partial b s) (\<lambda>val.
     expect Semicolon (s\<lparr>vars_table := (vars_table s)(fst a \<mapsto> val)\<rparr>))))))"

definition include_cmd :: "cfg_world \<Rightarrow> pstate \<Rightarrow> pstate option option" where
  "include_cmd W s =
     pbind (expect_string s) (\<lambda>(a, s). pbind (expect Semicolon s) (\<lambda>s. pbind (check_partial_static a s) (\<lambda>val.
     pbind (resolved_text W s val) (\<lambda>fl.
       if readable W fl then ok (s\<lparr>yyfiles := cfgfile_include (fopen W) fl (yyfiles s)\<rparr>) else yyabort s))))"

text \<open>The size of a rotating log is an \<^verbatim>\<open>int\<close>, which the \<^verbatim>\<open>long\<close> that \<^verbatim>\<open>strtol\<close> returns is converted to.\<close>

definition new_origin :: "dtype \<Rightarrow> string \<Rightarrow> string \<Rightarrow> int \<Rightarrow> string \<Rightarrow> string \<Rightarrow> cfg_origin" where
  "new_origin ty symbol path bytes host port =
     \<lparr>or_type = ty, or_symbol = symbol, inh_buffer = None, inh_idx = 0, inh_fd = 0, or_path = path, or_size = to_int32 bytes,
      or_host = host, or_port = port\<rparr>"

definition add_origin :: "cfg_origin \<Rightarrow> pstate \<Rightarrow> pstate" where
  "add_origin og s = s\<lparr>origins := og # origins s\<rparr>"

text \<open>A file or FIFO: the path and the symbol. Only for destinations the resolved path is checked.\<close>

definition path_cmd :: "cfg_world \<Rightarrow> dtype \<Rightarrow> bool \<Rightarrow> pstate \<Rightarrow> pstate option option" where
  "path_cmd W ty checked s =
     pbind (expect_string s) (\<lambda>(a, s). pbind (expect TAS s) (\<lambda>s. pbind (expect_string s) (\<lambda>(b, s).
     pbind (check_partial_static a s) (\<lambda>f. pbind (check_symbol b s) (\<lambda>_.
     pbind ((if checked then resolved_checked else resolved_text) W s f) (\<lambda>path.
     expect Semicolon (add_origin (new_origin ty (fst b) path 0 [] []) s)))))))"

definition rotlog_cmd :: "cfg_world \<Rightarrow> pstate \<Rightarrow> pstate option option" where
  "rotlog_cmd W s =
     pbind (expect_string s) (\<lambda>(a, s). pbind (expect_string s) (\<lambda>(sz, s). pbind (expect TAS s) (\<lambda>s. pbind (expect_string s) (\<lambda>(b, s).
     pbind (check_partial_static a s) (\<lambda>f. pbind (check_symbol b s) (\<lambda>_. resolve_ex W s f \<bind> (\<lambda>r.
       if strtol (fst sz) = 0 \<and> errno_einval W (fst sz) then yyabort s
       else (case r of None \<Rightarrow> None | Some path \<Rightarrow>
         expect Semicolon (add_origin (new_origin D_ROTLOG (fst b) path (strtol (fst sz)) [] []) s)))))))))"

definition tcp_cmd :: "cfg_world \<Rightarrow> pstate \<Rightarrow> pstate option option" where
  "tcp_cmd W s =
     pbind (expect_string s) (\<lambda>(a, s). pbind (expect_string s) (\<lambda>(p, s). pbind (expect TAS s) (\<lambda>s. pbind (expect_string s) (\<lambda>(b, s).
     pbind (check_partial_static a s) (\<lambda>host. pbind (check_partial_static p s) (\<lambda>port. pbind (check_symbol b s) (\<lambda>_.
     pbind (resolved_text W s host) (\<lambda>shost. pbind (resolved_text W s port) (\<lambda>sport.
     expect Semicolon (add_origin (new_origin D_SOCKETW (fst b) [] 0 shost sport) s))))))))))"

definition source_cmd :: "cfg_world \<Rightarrow> pstate \<Rightarrow> pstate option option" where
  "source_cmd W s = pbind (next_tok s) (\<lambda>(tk, s).
     if tk = TFILE then path_cmd W D_FILER False s else if tk = TFIFO then path_cmd W D_FIFOR False s else yyabort s)"

definition destination_cmd :: "cfg_world \<Rightarrow> pstate \<Rightarrow> pstate option option" where
  "destination_cmd W s = pbind (next_tok s) (\<lambda>(tk, s).
     if tk = TFILE then path_cmd W D_FILEW True s else if tk = TFIFO then path_cmd W D_FIFOW True s
     else if tk = TROTLOG then rotlog_cmd W s else if tk = TTCP then tcp_cmd W s else yyabort s)"

definition DLOG_DEFAULT_FRACTSEC_DIV :: int where "DLOG_DEFAULT_FRACTSEC_DIV = 1"

definition fractsec_of :: "string \<Rightarrow> int option" where
  "fractsec_of v =
     (if v = ''millisecond'' then Some 1000000 else if v = ''microsecond'' then Some 1000 else if v = ''nanosecond'' then Some 1
      else if v = ''none'' then Some DLOG_DEFAULT_FRACTSEC_DIV else None)"

definition config_cmd :: "token \<Rightarrow> pstate \<Rightarrow> pstate option option" where
  "config_cmd tk s = pbind (expect_string s) (\<lambda>((v, _, _), s).
     let c = pconfig s in
     pbind (if tk = TPIDFILE then ok (c\<lparr>pidfile := v\<rparr>)
            else if tk = TLOGFILE then ok (c\<lparr>logfile := v\<rparr>)
            else if tk = TLISTEN then ok (if listenskt_port c = None then c\<lparr>listenskt_port := Some v\<rparr> else c)
            else if tk = TDATETIMEFORMAT then ok (c\<lparr>datetime_format := v\<rparr>)
            else (case fractsec_of v of None \<Rightarrow> yyabort s | Some d \<Rightarrow> ok (c\<lparr>fractsec_divider := d\<rparr>)))
       (\<lambda>c. expect Semicolon (s\<lparr>pconfig := c\<rparr>)))"

section \<open>Statements\<close>

datatype block_head =
    Rule_Block
  | Match_Block tstring tstring "tstring option"
  | Matchall_Block tstring
  | Else_Block

definition write_cmd :: "pstate \<Rightarrow> pstate option option" where
  "write_cmd s =
     pbind (expect_string s) (\<lambda>(a, s). pbind (expect_string s) (\<lambda>(b, s).
     pbind (check_partial a s) (\<lambda>writep. pbind (check_symbol b s) (\<lambda>_.
     add_node (NODE_WRITE writep (fst b)) s \<bind> expect Semicolon))))"

definition break_cmd :: "pstate \<Rightarrow> pstate option option" where
  "break_cmd s = add_node NODE_BREAK s \<bind> expect Semicolon"

text \<open>The variable has to be known already.\<close>

definition assign_cmd :: "tstring \<Rightarrow> pstate \<Rightarrow> pstate option option" where
  "assign_cmd a s =
     pbind (expect Equals s) (\<lambda>s. pbind (expect_string s) (\<lambda>(b, s).
     pbind (check_symbol a s) (\<lambda>_. pbind (check_partial b s) (\<lambda>val.
     if vars_table s (fst a) = None then yyabort s
     else add_node (NODE_ASSIGN (fst a) val) s \<bind> expect Semicolon))))"

definition begin_block :: "block_head \<Rightarrow> block_head list \<Rightarrow> pstate \<Rightarrow> (block_head list \<times> pstate) option option" where
  "begin_block bh stk s = pbind (expect Open_Brace s) (\<lambda>s. ok (bh # stk, open_block s))"

definition match_head :: "block_head list \<Rightarrow> pstate \<Rightarrow> (block_head list \<times> pstate) option option" where
  "match_head stk s =
     pbind (expect_string s) (\<lambda>(re, s). pbind (expect_string s) (\<lambda>(tgt, s). pbind (next_tok s) (\<lambda>(tk, s).
     if tk = Open_Brace then ok (Match_Block re tgt None # stk, open_block s)
     else if tk = TFROM then pbind (expect_string s) (\<lambda>(src, s). begin_block (Match_Block re tgt (Some src)) stk s)
     else yyabort s)))"

text \<open>The action after the closing brace. That of a rule is empty: the block of the rule stays the current one.\<close>

definition end_block :: "block_head \<Rightarrow> pstate \<Rightarrow> pstate option option" where
  "end_block bh s =
     (case bh of
        Rule_Block \<Rightarrow> ok s
      | Match_Block re tgt src \<Rightarrow>
          pbind (check_partial re s) (\<lambda>re. pbind (check_partial tgt s) (\<lambda>tgt.
          pbind (case src of None \<Rightarrow> ok () | Some a \<Rightarrow> check_symbol a s) (\<lambda>_.
          map_option Some (add_node_wparent (NODE_MATCH re tgt (map_option fst src)) s))))
      | Matchall_Block src \<Rightarrow>
          pbind (check_symbol src s) (\<lambda>_. map_option Some (add_node_wparent (NODE_MATCHALL (Some (fst src))) s))
      | Else_Block \<Rightarrow> map_option Some (add_node_wparent NODE_MELSE s))"

section \<open>The parser\<close>

text \<open>One command or statement: the end, or the open blocks and the state after it.\<close>

definition in_stack :: "block_head list \<Rightarrow> pstate option option \<Rightarrow> (pstate + block_head list \<times> pstate) option option" where
  "in_stack stk m = pbind m (\<lambda>s. ok (Inr (stk, s)))"

definition command :: "cfg_world \<Rightarrow> token \<Rightarrow> pstate \<Rightarrow> (pstate + block_head list \<times> pstate) option option" where
  "command W tk s =
     (if tk = End_Of_Input then ok (Inl s)
      else if tk = TVAR then in_stack [] (var_cmd s)
      else if tk \<in> {TPIDFILE, TLOGFILE, TLISTEN, TDATETIMEFORMAT, TTIMESTAMPRES} then in_stack [] (config_cmd tk s)
      else if tk = TINCLUDE then in_stack [] (include_cmd W s)
      else if tk = TSOURCE then in_stack [] (source_cmd W s)
      else if tk = TDESTINATION then in_stack [] (destination_cmd W s)
      else if tk = TRULE then pbind (begin_block Rule_Block [] s) (\<lambda>x. ok (Inr x))
      else yyabort s)"

definition statement :: "token \<Rightarrow> block_head \<Rightarrow> block_head list \<Rightarrow> pstate \<Rightarrow> (pstate + block_head list \<times> pstate) option option" where
  "statement tk bh stk s =
     (case tk of
        Close_Brace \<Rightarrow> in_stack stk (end_block bh s)
      | Semicolon \<Rightarrow> ok (Inr (bh # stk, s))
      | TWRITE \<Rightarrow> in_stack (bh # stk) (write_cmd s)
      | TBREAK \<Rightarrow> in_stack (bh # stk) (break_cmd s)
      | TSTRING v quoted issym \<Rightarrow> in_stack (bh # stk) (assign_cmd (v, quoted, issym) s)
      | TMATCH \<Rightarrow> pbind (match_head (bh # stk) s) (\<lambda>x. ok (Inr x))
      | TMATCHALL \<Rightarrow>
          pbind (expect TFROM s) (\<lambda>s. pbind (expect_string s) (\<lambda>(src, s).
          pbind (begin_block (Matchall_Block src) (bh # stk) s) (\<lambda>x. ok (Inr x))))
      | TELSE \<Rightarrow> pbind (begin_block Else_Block (bh # stk) s) (\<lambda>x. ok (Inr x))
      | _ \<Rightarrow> yyabort s)"

definition parse_one :: "cfg_world \<Rightarrow> block_head list \<Rightarrow> pstate \<Rightarrow> (pstate + block_head list \<times> pstate) option option" where
  "parse_one W stk s = pbind (next_tok s) (\<lambda>(tk, s). case stk of [] \<Rightarrow> command W tk s | bh # stk' \<Rightarrow> statement tk bh stk' s)"

partial_function (option) yyparse :: "cfg_world \<Rightarrow> block_head list \<Rightarrow> pstate \<Rightarrow> pstate option option" where
  "yyparse W stk s = parse_one W stk s \<bind> (\<lambda>r. case r of
     None \<Rightarrow> Some None
   | Some (Inl s') \<Rightarrow> Some (Some s')
   | Some (Inr (stk', s')) \<Rightarrow> yyparse W stk' s')"

text \<open>The result is what \<^verbatim>\<open>parse_config\<close> returns, and the state with the root of the tree on success.\<close>

definition parse_config :: "cfg_world \<Rightarrow> string \<Rightarrow> pstate \<Rightarrow> (int \<times> pstate option) option" where
  "parse_config W fname s =
     (case cfgfile_include (fopen W) fname [] of
        [] \<Rightarrow> Some (- 1, None)
      | fs \<Rightarrow> yyparse W [] (s\<lparr>yyfiles := fs\<rparr>) \<bind> (\<lambda>r. Some (case r of None \<Rightarrow> (1, None) | Some s' \<Rightarrow> (0, Some s'))))"

declare yyparse.simps [code] last_sibling.simps [code] strpartial_resolve_ex.simps [code]

end
