(* ===== verification/Config_Tree.thy ===== *)
theory Config_Tree
  imports Config_Parser
begin

text \<open>
  What the parser builds from the rules: the abstract syntax of the rule statements, its tokens, and the proof that the nodes
  that the actions allocate and link are the tree of these statements.
\<close>

section \<open>Trees in the heap of nodes\<close>

fun tree_at :: "(nat \<rightharpoonup> pnode) \<Rightarrow> nat option \<Rightarrow> node \<Rightarrow> bool" where
  "tree_at h p NoNode = (p = None)"
| "tree_at h p (Node i c child sibling) =
     (p = Some i \<and> (\<exists>nd. h i = Some nd \<and> pn_ctx nd = c \<and> tree_at h (pn_child nd) child \<and> tree_at h (pn_sibling nd) sibling))"

fun append_sibling :: "node \<Rightarrow> node \<Rightarrow> node" where
  "append_sibling NoNode u = u"
| "append_sibling (Node i c child sibling) u = Node i c child (append_sibling sibling u)"

lemma ids_append_sibling [simp]: "ids (append_sibling t u) = ids t @ ids u"
  by (induction t) auto

lemma append_sibling_assoc: "append_sibling (append_sibling t u) v = append_sibling t (append_sibling u v)"
  by (induction t) auto

lemma append_NoNode [simp]: "append_sibling t NoNode = t"
  by (induction t) auto

lemma tree_frame: "\<forall>i \<in> set (ids t). h' i = h i \<Longrightarrow> tree_at h' p t = tree_at h p t"
  by (induction h p t rule: tree_at.induct) auto

lemma tree_unique: "tree_at h p t \<Longrightarrow> tree_at h p u \<Longrightarrow> t = u"
proof (induction t arbitrary: p u)
  case NoNode
  then show ?case by (cases u) auto
next
  case (Node i c ch sib)
  then show ?case by (cases u) fastforce+
qed

lemma append_in_heap:
  assumes "tree_at h (Some i) t" and "distinct (ids t)" and "tree_at h (Some n) u" and "set (ids u) \<inter> set (ids t) = {}"
  shows "\<exists>k nd. last_sibling h i = Some k \<and> h k = Some nd \<and> k \<in> set (ids t)
     \<and> tree_at (h(k \<mapsto> nd\<lparr>pn_sibling := Some n\<rparr>)) (Some i) (append_sibling t u)"
  using assms
proof (induction t arbitrary: i)
  case (Node j c ch sib)
  then obtain nd where nd: "j = i" "h i = Some nd" "pn_ctx nd = c" "tree_at h (pn_child nd) ch" "tree_at h (pn_sibling nd) sib" by auto
  show ?case
  proof (cases "pn_sibling nd")
    case None
    then have sib: "sib = NoNode" using nd(5) by (cases sib) auto
    define h' where "h' = h(i \<mapsto> nd\<lparr>pn_sibling := Some n\<rparr>)"
    have "h' i = Some (nd\<lparr>pn_sibling := Some n\<rparr>)" by (simp add: h'_def)
    moreover have "tree_at h' (pn_child nd) ch" "tree_at h' (Some n) u"
      using Node.prems(2-4) nd tree_frame[of ch h' h] tree_frame[of u h' h] by (auto simp: h'_def)
    moreover have "last_sibling h i = Some i" using nd(2) None by (subst last_sibling.simps) simp
    ultimately have "last_sibling h i = Some i \<and> h i = Some nd \<and> i \<in> set (ids (Node j c ch sib)) \<and> tree_at h' (Some i) (append_sibling (Node j c ch sib) u)"
      using nd sib by simp
    then show ?thesis unfolding h'_def by blast
  next
    case (Some m)
    have "tree_at h (Some m) sib" "distinct (ids sib)" "set (ids u) \<inter> set (ids sib) = {}" using Node.prems(2,4) nd(5) Some by auto
    from Node.IH(2)[OF this(1,2) Node.prems(3) this(3)] obtain k kd where k: "last_sibling h m = Some k" "h k = Some kd" "k \<in> set (ids sib)"
      "tree_at (h(k \<mapsto> kd\<lparr>pn_sibling := Some n\<rparr>)) (Some m) (append_sibling sib u)" by blast
    define h' where "h' = h(k \<mapsto> kd\<lparr>pn_sibling := Some n\<rparr>)"
    have ki: "k \<noteq> i" "k \<notin> set (ids ch)" using Node.prems(2) nd(1) k(3) by auto
    then have "tree_at h' (pn_child nd) ch" "h' i = Some nd" using nd(2,4) tree_frame[of ch h' h] by (auto simp: h'_def)
    moreover have "last_sibling h i = Some k" using nd(2) Some k(1) by (subst last_sibling.simps) simp
    ultimately have "last_sibling h i = Some k \<and> h k = Some kd \<and> k \<in> set (ids (Node j c ch sib))
        \<and> tree_at h' (Some i) (append_sibling (Node j c ch sib) u)"
      using nd k(2,3,4)[folded h'_def] Some by simp
    then show ?thesis unfolding h'_def by blast
  qed
qed simp

section \<open>Open blocks\<close>

text \<open>The blocks that are open, innermost first, each with the tree of its statements so far.\<close>

fun blocks_ok :: "(nat \<rightharpoonup> pnode) \<Rightarrow> (nat \<times> node) list \<Rightarrow> bool" where
  "blocks_ok h [] = True"
| "blocks_ok h ((b, t) # bs) =
     ((\<exists>nd. h b = Some nd \<and> pn_ctx nd = NODE_PASSTHROUGH \<and> pn_sibling nd = None \<and> tree_at h (pn_child nd) t
        \<and> (bs \<noteq> [] \<longrightarrow> pn_parent nd = Some (fst (hd bs)))) \<and> blocks_ok h bs)"

definition block_ids :: "(nat \<times> node) list \<Rightarrow> nat list" where
  "block_ids bs = concat (map (\<lambda>(b, t). b # ids t) bs)"

lemma block_ids_simps [simp]: "block_ids [] = []" "block_ids ((b, t) # bs) = b # ids t @ block_ids bs"
  by (simp_all add: block_ids_def)

definition blocks_inv :: "pstate \<Rightarrow> (nat \<times> node) list \<Rightarrow> bool" where
  "blocks_inv s bs \<longleftrightarrow> blocks_ok (nodes s) bs \<and> distinct (block_ids bs) \<and> (\<forall>i \<in> set (block_ids bs). i < next_node s)
     \<and> (bs \<noteq> [] \<longrightarrow> curblock s = Some (fst (hd bs)) \<and> rootnode s \<noteq> None)"

lemma blocks_frame: "\<forall>i \<in> set (block_ids bs). h' i = h i \<Longrightarrow> blocks_ok h' bs = blocks_ok h bs"
proof (induction h bs rule: blocks_ok.induct)
  case (2 h b t bs)
  then show ?case using tree_frame[of t h' h] by auto
qed simp

text \<open>What parsing statements of the innermost block leaves alone, apart from the input that it reads.\<close>

definition keeps :: "nat set \<Rightarrow> pstate \<Rightarrow> pstate \<Rightarrow> bool" where
  "keeps A s s' \<longleftrightarrow> pconfig s' = pconfig s \<and> vars_table s' = vars_table s \<and> origins s' = origins s
     \<and> rootnode s' = rootnode s \<and> next_node s \<le> next_node s' \<and> (\<forall>i < next_node s. i \<notin> A \<longrightarrow> nodes s' i = nodes s i)"

definition only_block :: "nat set \<Rightarrow> pstate \<Rightarrow> pstate \<Rightarrow> bool" where
  "only_block A s s' \<longleftrightarrow> yyfiles s' = yyfiles s \<and> keeps A s s'"

lemma keeps_files [simp]: "keeps A (s\<lparr>yyfiles := fs\<rparr>) s' = keeps A s s'" "keeps A s (s'\<lparr>yyfiles := fs\<rparr>) = keeps A s s'"
  by (simp_all add: keeps_def)

lemma keeps_refl [simp]: "keeps A s s"
  by (simp add: keeps_def)

lemma keeps_trans: "keeps A s s' \<Longrightarrow> keeps B s' s'' \<Longrightarrow> (\<forall>i \<in> B. i \<in> A \<or> next_node s \<le> i) \<Longrightarrow> keeps A s s''"
  unfolding keeps_def by (metis leD le_trans order_less_le_trans)

lemma blocks_inv_files [simp]: "blocks_inv (s\<lparr>yyfiles := fs\<rparr>) bs = blocks_inv s bs"
  by (simp add: blocks_inv_def)

lemma add_child_ok:
  assumes "h b = Some nd" and "tree_at h (pn_child nd) t" and "distinct (b # ids t)" and "tree_at h (Some n) u"
    and "set (ids u) \<inter> set (b # ids t) = {}" and "pn_sibling nu = None" and "h n = Some nu"
  shows "\<exists>h' nd'. node_add_child (Some b) n h = Some h' \<and> h' b = Some nd' \<and> pn_ctx nd' = pn_ctx nd \<and> pn_sibling nd' = pn_sibling nd
     \<and> pn_parent nd' = pn_parent nd \<and> tree_at h' (pn_child nd') (append_sibling t u) \<and> (\<forall>i. i \<notin> set (b # ids t) \<longrightarrow> h' i = h i)"
proof (cases "pn_child nd")
  case None
  then have t: "t = NoNode" using assms(2) by (cases t) auto
  have nb: "n \<noteq> b" using assms(4,5) by (cases u) auto
  have hn: "h(n \<mapsto> nu\<lparr>pn_sibling := None\<rparr>) = h" using assms(6,7) by (cases nu) (auto simp: fun_upd_idem)
  let ?h = "h(b \<mapsto> nd\<lparr>pn_child := Some n\<rparr>)"
  have "tree_at ?h (Some n) u" using assms(4,5) tree_frame[of u ?h h] by auto
  moreover have "node_add_child (Some b) n h = Some ?h"
    using assms(1,7) None hn by (simp add: node_add_child_def set_sibling_def)
  ultimately show ?thesis using t by auto
next
  case (Some c)
  then obtain k kd where k: "last_sibling h c = Some k" "h k = Some kd" "k \<in> set (ids t)"
    "tree_at (h(k \<mapsto> kd\<lparr>pn_sibling := Some n\<rparr>)) (Some c) (append_sibling t u)"
    using append_in_heap[of h c t n u] assms(2-5) by auto
  then have "k \<noteq> b" using assms(3) by auto
  with k assms(1) Some show ?thesis by (auto simp: node_add_child_def set_sibling_def)
qed

lemma only_blockI:
  assumes "next_node s \<le> k" and "\<forall>i < next_node s. i \<notin> A \<longrightarrow> h i = nodes s i"
  shows "only_block A s (s\<lparr>nodes := h, next_node := k, curblock := b\<rparr>)"
  using assms by (simp add: only_block_def keeps_def)

text \<open>A statement without a block is appended to the innermost block.\<close>

lemma add_node_ok:
  assumes inv: "blocks_inv s ((b, t) # bs)"
  shows "\<exists>s'. add_node c s = Some s' \<and> blocks_inv s' ((b, append_sibling t (Node (next_node s) c NoNode NoNode)) # bs)
     \<and> only_block (set (b # ids t)) s s'"
proof -
  let ?n = "next_node s"
  let ?h = "(nodes s)(?n \<mapsto> new_node c None)" and ?u = "Node ?n c NoNode NoNode"
  from inv obtain nd where nd: "nodes s b = Some nd" "pn_ctx nd = NODE_PASSTHROUGH" "pn_sibling nd = None" "tree_at (nodes s) (pn_child nd) t"
    "bs \<noteq> [] \<longrightarrow> pn_parent nd = Some (fst (hd bs))" "blocks_ok (nodes s) bs" and d: "distinct (b # ids t @ block_ids bs)"
    and lt: "\<forall>i \<in> set (b # ids t @ block_ids bs). i < ?n" and cb: "curblock s = Some b" "rootnode s \<noteq> None" by (auto simp: blocks_inv_def)
  have fr: "\<forall>i \<in> set (b # ids t @ block_ids bs). ?h i = nodes s i" using lt by auto
  have "tree_at ?h (pn_child nd) t" using fr nd(4) tree_frame[of t ?h "nodes s"] by simp
  moreover have "?h b = Some nd" using fr nd(1) by simp
  moreover have "tree_at ?h (Some ?n) ?u" by (simp add: new_node_def)
  ultimately obtain h' nd' where h': "node_add_child (Some b) ?n ?h = Some h'" "h' b = Some nd'" "pn_ctx nd' = pn_ctx nd"
    "pn_sibling nd' = pn_sibling nd" "pn_parent nd' = pn_parent nd" "tree_at h' (pn_child nd') (append_sibling t ?u)"
    "\<forall>i. i \<notin> set (b # ids t) \<longrightarrow> h' i = ?h i"
    using add_child_ok[of ?h b nd t ?n ?u "new_node c None"] d lt by (auto simp: new_node_def)
  let ?s = "s\<lparr>nodes := h', next_node := ?n + 1, curblock := curblock s\<rparr>"
  have eq: "s\<lparr>nodes := h', next_node := ?n + 1\<rparr> = ?s" by (cases s) simp
  have r: "add_node c s = Some ?s" using h'(1) cb unfolding add_node_def eq[symmetric] by (simp add: Let_def)
  have "\<forall>i \<in> set (block_ids bs). h' i = nodes s i" using h'(7) fr d by fastforce
  then have "blocks_ok h' bs" using nd(6) blocks_frame by blast
  moreover have "?n \<notin> set (b # ids t @ block_ids bs)" using lt by blast
  ultimately have "blocks_inv ?s ((b, append_sibling t ?u) # bs)"
    using h' nd d lt cb unfolding blocks_inv_def by (auto intro: less_SucI)
  moreover have "only_block (set (b # ids t)) s ?s" using h'(7) by (intro only_blockI) auto
  ultimately show ?thesis using r by blast
qed

text \<open>An opening brace makes a new, empty innermost block.\<close>

lemma open_block_ok:
  assumes inv: "blocks_inv s bs"
  shows "blocks_inv (open_block s) ((next_node s, NoNode) # bs)"
proof -
  let ?h = "(nodes s)(next_node s \<mapsto> new_node NODE_PASSTHROUGH (curblock s))"
  have lt: "\<forall>i \<in> set (block_ids bs). i < next_node s" using inv by (simp add: blocks_inv_def)
  then have "blocks_ok ?h bs" using inv blocks_frame[of bs ?h "nodes s"] by (auto simp: blocks_inv_def)
  then show ?thesis using inv lt by (auto simp: blocks_inv_def open_block_def new_node_def Let_def intro: less_SucI)
qed

text \<open>A closing brace makes the innermost block the child of a new statement of the block around it.\<close>

lemma close_block_ok:
  assumes inv: "blocks_inv s ((b, t) # (b', t') # bs)"
  shows "\<exists>s'. add_node_wparent c s = Some s'
     \<and> blocks_inv s' ((b', append_sibling t' (Node (next_node s) c (Node b NODE_PASSTHROUGH t NoNode) NoNode)) # bs)
     \<and> only_block (set (b' # ids t')) s s'"
proof -
  let ?n = "next_node s"
  let ?h = "(nodes s)(?n \<mapsto> new_node c None)" and ?u = "Node ?n c NoNode NoNode" and ?v = "Node b NODE_PASSTHROUGH t NoNode"
  from inv obtain nd nd' where nd: "nodes s b = Some nd" "pn_ctx nd = NODE_PASSTHROUGH" "pn_sibling nd = None" "tree_at (nodes s) (pn_child nd) t"
    "pn_parent nd = Some b'" and nd': "nodes s b' = Some nd'" "pn_ctx nd' = NODE_PASSTHROUGH" "pn_sibling nd' = None"
    "tree_at (nodes s) (pn_child nd') t'" "bs \<noteq> [] \<longrightarrow> pn_parent nd' = Some (fst (hd bs))" "blocks_ok (nodes s) bs"
    and d: "distinct (b # ids t @ b' # ids t' @ block_ids bs)"
    and lt: "\<forall>i \<in> set (b # ids t @ b' # ids t' @ block_ids bs). i < ?n" and cb: "curblock s = Some b" "rootnode s \<noteq> None" by (auto simp: blocks_inv_def)
  have fr: "\<forall>i \<in> set (b # ids t @ b' # ids t' @ block_ids bs). ?h i = nodes s i" using lt by auto
  have nn: "?n \<notin> set (b # ids t @ b' # ids t' @ block_ids bs)" using lt by blast
  have "tree_at ?h (pn_child nd') t'" using fr nd'(4) tree_frame[of t' ?h "nodes s"] by simp
  moreover have "?h b' = Some nd'" using fr nd'(1) by simp
  moreover have "tree_at ?h (Some ?n) ?u" by (simp add: new_node_def)
  ultimately obtain h1 m1 where h1: "node_add_child (Some b') ?n ?h = Some h1" "h1 b' = Some m1" "pn_ctx m1 = NODE_PASSTHROUGH"
    "pn_sibling m1 = None" "pn_parent m1 = pn_parent nd'" "tree_at h1 (pn_child m1) (append_sibling t' ?u)"
    "\<forall>i. i \<notin> set (b' # ids t') \<longrightarrow> h1 i = ?h i"
    using add_child_ok[of ?h b' nd' t' ?n ?u "new_node c None"] d nn nd' by (auto simp: new_node_def)
  have b: "h1 b = Some nd" "h1 ?n = Some (new_node c None)" "\<forall>i \<in> set (ids t). h1 i = nodes s i"
    using h1(7) d nn nd(1) fr by auto
  have "tree_at h1 (pn_child nd) t" using b(3) nd(4) tree_frame[of t h1 "nodes s"] by simp
  then have tv: "tree_at h1 (Some b) ?v" using b(1) nd by simp
  define h2 where "h2 = h1(?n \<mapsto> (new_node c None)\<lparr>pn_child := Some b\<rparr>)"
  have h2: "h2 i = (if i = ?n then Some ((new_node c None)\<lparr>pn_child := Some b\<rparr>) else h1 i)" for i by (simp add: h2_def)
  have "h1(b \<mapsto> nd\<lparr>pn_sibling := None\<rparr>) = h1" using b(1) nd(3) by (cases nd) (auto simp: fun_upd_idem)
  then have a2: "node_add_child (Some ?n) b h1 = Some h2" using b(1,2) by (simp add: node_add_child_def set_sibling_def new_node_def h2_def)
  have "\<forall>i \<in> set (ids ?v). h2 i = h1 i" using nn by (auto simp: h2)
  then have tv2: "tree_at h2 (Some b) ?v" using tv tree_frame[of ?v h2 h1] by blast
  have app: "tree_at h1 p (append_sibling t0 ?u) \<Longrightarrow> ?n \<notin> set (ids t0) \<Longrightarrow>
      tree_at h2 p (append_sibling t0 (Node ?n c ?v NoNode))" for p t0
  proof (induction t0 arbitrary: p)
    case NoNode
    then show ?case using tv2 b(2) h2[of ?n] by (simp add: new_node_def)
  next
    case (Node i c' ch sib)
    have "\<forall>j \<in> set (ids ch). h2 j = h1 j" "h2 i = h1 i" using Node.prems(2) by (auto simp: h2)
    then show ?case using Node.prems Node.IH(2) tree_frame[of ch h2 h1] by auto
  qed
  have m2: "h2 b' = Some m1" "h2 b = Some nd" using h1(2) b(1) nn by (auto simp: h2)
  let ?s = "s\<lparr>nodes := h2, next_node := ?n + 1, curblock := Some b'\<rparr>"
  have hb: "?h b = Some nd" using fr nd(1) by simp
  have r: "add_node_wparent c s = Some ?s" using cb hb h1(1) a2 m2 nd(5) by (simp add: add_node_wparent_def Let_def)
  have "\<forall>i \<in> set (block_ids bs). h2 i = nodes s i" using h1(7) fr d nn by (auto simp: h2)
  then have "blocks_ok h2 bs" using nd'(6) blocks_frame by blast
  moreover have "tree_at h2 (pn_child m1) (append_sibling t' (Node ?n c ?v NoNode))" using app[OF h1(6)] nn by simp
  ultimately have "blocks_inv ?s ((b', append_sibling t' (Node ?n c ?v NoNode)) # bs)"
    using h1(3-5) m2 nd'(5) d lt nn cb(2) unfolding blocks_inv_def by (auto intro: less_SucI)
  moreover have "only_block (set (b' # ids t')) s ?s" using h1(7) nn by (intro only_blockI) (auto simp: h2)
  ultimately show ?thesis using r by blast
qed

section \<open>Rule statements\<close>

datatype cfg_stmt =
    Write_S string string
  | Break_S
  | Assign_S string string
  | Match_S string string "string option" "cfg_stmt list"
  | Matchall_S string "cfg_stmt list"
  | Else_S "cfg_stmt list"

abbreviation quoted_word :: "string \<Rightarrow> token" where "quoted_word v \<equiv> TSTRING v True False"
abbreviation symbol_word :: "string \<Rightarrow> token" where "symbol_word v \<equiv> TSTRING v False True"

fun stmt_tokens :: "cfg_stmt \<Rightarrow> token list" and stmts_tokens :: "cfg_stmt list \<Rightarrow> token list" where
  "stmt_tokens (Write_S f dst) = [TWRITE, quoted_word f, symbol_word dst, Semicolon]"
| "stmt_tokens Break_S = [TBREAK, Semicolon]"
| "stmt_tokens (Assign_S v f) = [symbol_word v, Equals, quoted_word f, Semicolon]"
| "stmt_tokens (Match_S re tgt src body) = [TMATCH, quoted_word re, quoted_word tgt] @ (case src of None \<Rightarrow> [] | Some a \<Rightarrow> [TFROM, symbol_word a])
     @ Open_Brace # stmts_tokens body @ [Close_Brace]"
| "stmt_tokens (Matchall_S src body) = [TMATCHALL, TFROM, symbol_word src, Open_Brace] @ stmts_tokens body @ [Close_Brace]"
| "stmt_tokens (Else_S body) = [TELSE, Open_Brace] @ stmts_tokens body @ [Close_Brace]"
| "stmts_tokens [] = []"
| "stmts_tokens (st # sts) = stmt_tokens st @ stmts_tokens sts"

text \<open>Statements whose format strings are valid and whose assigned variables are known.\<close>

definition fmt_ok :: "string \<Rightarrow> bool" where
  "fmt_ok v \<longleftrightarrow> strpartial_split v \<noteq> None"

fun stmt_ok :: "(string \<rightharpoonup> strpartial list) \<Rightarrow> cfg_stmt \<Rightarrow> bool" and stmts_ok :: "(string \<rightharpoonup> strpartial list) \<Rightarrow> cfg_stmt list \<Rightarrow> bool" where
  "stmt_ok vt (Write_S f dst) = fmt_ok f"
| "stmt_ok vt Break_S = True"
| "stmt_ok vt (Assign_S v f) = (fmt_ok f \<and> vt v \<noteq> None)"
| "stmt_ok vt (Match_S re tgt src body) = (fmt_ok re \<and> fmt_ok tgt \<and> stmts_ok vt body)"
| "stmt_ok vt (Matchall_S src body) = stmts_ok vt body"
| "stmt_ok vt (Else_S body) = stmts_ok vt body"
| "stmts_ok vt [] = True"
| "stmts_ok vt (st # sts) = (stmt_ok vt st \<and> stmts_ok vt sts)"

text \<open>The nodes of the statements: a statement with a block has the block as its child, and the block the statements in it.\<close>

definition fmt_of :: "string \<Rightarrow> strpartial list" where
  "fmt_of v = the (strpartial_split v)"

fun stmt_ctx :: "cfg_stmt \<Rightarrow> node_ctx" where
  "stmt_ctx (Write_S f dst) = NODE_WRITE (fmt_of f) dst"
| "stmt_ctx Break_S = NODE_BREAK"
| "stmt_ctx (Assign_S v f) = NODE_ASSIGN v (fmt_of f)"
| "stmt_ctx (Match_S re tgt src body) = NODE_MATCH (fmt_of re) (fmt_of tgt) src"
| "stmt_ctx (Matchall_S src body) = NODE_MATCHALL (Some src)"
| "stmt_ctx (Else_S body) = NODE_MELSE"

fun rep_stmts :: "cfg_stmt list \<Rightarrow> node \<Rightarrow> bool" and rep_block :: "cfg_stmt \<Rightarrow> node \<Rightarrow> bool" and rep_body :: "cfg_stmt list \<Rightarrow> node \<Rightarrow> bool" where
  "rep_stmts [] t = (t = NoNode)"
| "rep_stmts (st # sts) t = (case t of NoNode \<Rightarrow> False | Node i c child sibling \<Rightarrow> c = stmt_ctx st \<and> rep_block st child \<and> rep_stmts sts sibling)"
| "rep_block (Match_S re tgt src body) t = rep_body body t"
| "rep_block (Matchall_S src body) t = rep_body body t"
| "rep_block (Else_S body) t = rep_body body t"
| "rep_block st t = (t = NoNode)"
| "rep_body body t = (case t of NoNode \<Rightarrow> False | Node i c child sibling \<Rightarrow> c = NODE_PASSTHROUGH \<and> sibling = NoNode \<and> rep_stmts body child)"

section \<open>Reading tokens\<close>

lemma pbind_simps [simp]: "pbind None f = None" "pbind (Some None) f = Some None" "pbind (ok x) f = f x"
  by (simp_all add: pbind_def)

lemma next_tok_lexes:
  assumes "lexes (tk # ts) (yyfiles s)"
  obtains fs where "next_tok s = ok (tk, s\<lparr>yyfiles := fs\<rparr>)" "lexes ts fs"
  using assms by (auto simp: next_tok_def)

declare lexes.simps(2) [simp del]

lemma next_lexes:
  assumes "lexes (tk # ts) fs0"
  obtains fs where "next_tok (s\<lparr>yyfiles := fs0\<rparr>) = ok (tk, s\<lparr>yyfiles := fs\<rparr>)" "lexes ts fs"
  using assms next_tok_lexes[of tk ts "s\<lparr>yyfiles := fs0\<rparr>"] by auto

lemma expect_lexes:
  assumes "lexes (tk # ts) fs0"
  obtains fs where "expect tk (s\<lparr>yyfiles := fs0\<rparr>) = ok (s\<lparr>yyfiles := fs\<rparr>)" "lexes ts fs"
proof -
  obtain fs where "next_tok (s\<lparr>yyfiles := fs0\<rparr>) = ok (tk, s\<lparr>yyfiles := fs\<rparr>)" "lexes ts fs" by (rule next_lexes[OF assms])
  with that show ?thesis by (simp add: expect_def)
qed

lemma expect_string_lexes:
  assumes "lexes (TSTRING v quoted issym # ts) fs0"
  obtains fs where "expect_string (s\<lparr>yyfiles := fs0\<rparr>) = ok ((v, quoted, issym), s\<lparr>yyfiles := fs\<rparr>)" "lexes ts fs"
proof -
  obtain fs where "next_tok (s\<lparr>yyfiles := fs0\<rparr>) = ok (TSTRING v quoted issym, s\<lparr>yyfiles := fs\<rparr>)" "lexes ts fs" by (rule next_lexes[OF assms])
  with that show ?thesis by (simp add: expect_string_def)
qed

lemma check_partial_ok: "fmt_ok v \<Longrightarrow> check_partial (v, quoted, issym) s = ok (fmt_of v)"
  by (auto simp: check_partial_def fmt_ok_def fmt_of_def)

lemma check_symbol_ok: "check_symbol (v, False, True) s = ok ()"
  by (simp add: check_symbol_def)

lemma yyparse_step: "parse_one W stk s = ok (Inr (stk', s')) \<Longrightarrow> yyparse W stk s = yyparse W stk' s'"
  by (subst yyparse.simps) simp

section \<open>Parsing statements\<close>

text \<open>From a state with an innermost block \<open>b\<close>, the parser goes on, with the same open blocks, after the statements, which are
  then the last ones of \<open>b\<close>.\<close>

definition parses_stmts :: "cfg_world \<Rightarrow> cfg_stmt list \<Rightarrow> bool" where
  "parses_stmts W sts \<longleftrightarrow> (\<forall>s b t bs bh stk rest.
     stmts_ok (vars_table s) sts \<longrightarrow> lexes (stmts_tokens sts @ rest) (yyfiles s) \<longrightarrow> blocks_inv s ((b, t) # bs) \<longrightarrow>
     (\<exists>s' u. yyparse W (bh # stk) s = yyparse W (bh # stk) s' \<and> lexes rest (yyfiles s')
        \<and> blocks_inv s' ((b, append_sibling t u) # bs) \<and> rep_stmts sts u
        \<and> (\<forall>i \<in> set (ids u). next_node s \<le> i) \<and> keeps (set (b # ids t)) s s'))"

definition parses_stmt :: "cfg_world \<Rightarrow> cfg_stmt \<Rightarrow> bool" where
  "parses_stmt W st \<longleftrightarrow> (\<forall>s b t bs bh stk rest.
     stmt_ok (vars_table s) st \<longrightarrow> lexes (stmt_tokens st @ rest) (yyfiles s) \<longrightarrow> blocks_inv s ((b, t) # bs) \<longrightarrow>
     (\<exists>s' n ch. yyparse W (bh # stk) s = yyparse W (bh # stk) s' \<and> lexes rest (yyfiles s')
        \<and> blocks_inv s' ((b, append_sibling t (Node n (stmt_ctx st) ch NoNode)) # bs) \<and> rep_block st ch
        \<and> (\<forall>i \<in> set (n # ids ch). next_node s \<le> i) \<and> keeps (set (b # ids t)) s s'))"

lemma add_semicolon:
  assumes "blocks_inv s ((b, t) # bs)" and "lexes (Semicolon # rest) (yyfiles s)"
  shows "\<exists>s'. (add_node c s \<bind> expect Semicolon) = ok s' \<and> lexes rest (yyfiles s')
     \<and> blocks_inv s' ((b, append_sibling t (Node (next_node s) c NoNode NoNode)) # bs) \<and> keeps (set (b # ids t)) s s'"
proof -
  obtain s1 where s1: "add_node c s = Some s1" "blocks_inv s1 ((b, append_sibling t (Node (next_node s) c NoNode NoNode)) # bs)"
    "only_block (set (b # ids t)) s s1" using add_node_ok[OF assms(1)] by blast
  then have f: "lexes (Semicolon # rest) (yyfiles s1)" using assms(2) by (simp add: only_block_def)
  have same: "s1\<lparr>yyfiles := yyfiles s1\<rparr> = s1" by simp
  obtain fs where "expect Semicolon s1 = ok (s1\<lparr>yyfiles := fs\<rparr>)" "lexes rest fs" by (rule expect_lexes[OF f, of s1, unfolded same])
  with s1 show ?thesis by (intro exI[of _ "s1\<lparr>yyfiles := fs\<rparr>"]) (simp add: only_block_def)
qed

text \<open>A statement that is one command.\<close>

lemma parses_simple:
  assumes "\<And>s ts. stmt_ok (vars_table s) st \<Longrightarrow> lexes (stmt_tokens st @ ts) (yyfiles s) \<Longrightarrow>
      \<exists>fs. lexes (Semicolon # ts) fs \<and> (\<forall>bh stk. parse_one W (bh # stk) s = in_stack (bh # stk) (add_node (stmt_ctx st) (s\<lparr>yyfiles := fs\<rparr>) \<bind> expect Semicolon))"
    and "\<And>t. rep_block st t = (t = NoNode)"
  shows "parses_stmt W st"
  unfolding parses_stmt_def
proof (intro allI impI)
  fix s b t bs bh stk rest
  assume st: "stmt_ok (vars_table s) st" "lexes (stmt_tokens st @ rest) (yyfiles s)" "blocks_inv s ((b, t) # bs)"
  from assms(1)[OF st(1,2)] obtain fs where fs: "lexes (Semicolon # rest) fs"
    "parse_one W (bh # stk) s = in_stack (bh # stk) (add_node (stmt_ctx st) (s\<lparr>yyfiles := fs\<rparr>) \<bind> expect Semicolon)" by blast
  obtain s' where s': "(add_node (stmt_ctx st) (s\<lparr>yyfiles := fs\<rparr>) \<bind> expect Semicolon) = ok s'" "lexes rest (yyfiles s')"
    "blocks_inv s' ((b, append_sibling t (Node (next_node s) (stmt_ctx st) NoNode NoNode)) # bs)" "keeps (set (b # ids t)) s s'"
    using add_semicolon[of "s\<lparr>yyfiles := fs\<rparr>" b t bs rest "stmt_ctx st"] st(3) fs(1) by auto
  have "yyparse W (bh # stk) s = yyparse W (bh # stk) s'" by (rule yyparse_step) (simp add: fs(2) s'(1) in_stack_def)
  moreover have "\<forall>i \<in> set (next_node s # ids NoNode). next_node s \<le> i" by simp
  ultimately show "\<exists>s' n ch. yyparse W (bh # stk) s = yyparse W (bh # stk) s' \<and> lexes rest (yyfiles s')
      \<and> blocks_inv s' ((b, append_sibling t (Node n (stmt_ctx st) ch NoNode)) # bs) \<and> rep_block st ch
      \<and> (\<forall>i \<in> set (n # ids ch). next_node s \<le> i) \<and> keeps (set (b # ids t)) s s'" using s' assms(2) by blast
qed

text \<open>A statement with a block: its head opens the block, its closing brace ends it.\<close>

lemma parses_block:
  assumes body: "parses_stmts W body"
    and tokens: "\<And>s ts. stmt_ok (vars_table s) st \<Longrightarrow> lexes (stmt_tokens st @ ts) (yyfiles s) \<Longrightarrow>
      \<exists>fs. lexes (stmts_tokens body @ Close_Brace # ts) fs
        \<and> (\<forall>bh stk. parse_one W (bh # stk) s = ok (Inr (head # bh # stk, open_block (s\<lparr>yyfiles := fs\<rparr>))))"
    and ok: "\<And>vt. stmt_ok vt st \<Longrightarrow> stmts_ok vt body"
    and fin: "\<And>s vt. stmt_ok vt st \<Longrightarrow> end_block head s = map_option Some (add_node_wparent (stmt_ctx st) s)"
    and rep: "\<And>t. rep_block st t = rep_body body t"
  shows "parses_stmt W st"
  unfolding parses_stmt_def
proof (intro allI impI)
  fix s b t bs bh stk rest
  assume st: "stmt_ok (vars_table s) st" "lexes (stmt_tokens st @ rest) (yyfiles s)" "blocks_inv s ((b, t) # bs)"
  from tokens[OF st(1,2)] obtain fs where fs: "lexes (stmts_tokens body @ Close_Brace # rest) fs"
    "parse_one W (bh # stk) s = ok (Inr (head # bh # stk, open_block (s\<lparr>yyfiles := fs\<rparr>)))" by blast
  let ?s1 = "open_block (s\<lparr>yyfiles := fs\<rparr>)" and ?n = "next_node s"
  have s1: "blocks_inv ?s1 ((?n, NoNode) # (b, t) # bs)" using open_block_ok[of "s\<lparr>yyfiles := fs\<rparr>"] st(3) by simp
  have v: "vars_table ?s1 = vars_table s" "yyfiles ?s1 = fs" "next_node ?s1 = Suc ?n" by (simp_all add: open_block_def Let_def)
  obtain s2 u where s2: "yyparse W (head # bh # stk) ?s1 = yyparse W (head # bh # stk) s2" "lexes (Close_Brace # rest) (yyfiles s2)"
    "blocks_inv s2 ((?n, u) # (b, t) # bs)" "rep_stmts body u" "keeps {?n} ?s1 s2" "\<forall>i \<in> set (ids u). Suc ?n \<le> i"
    using body[unfolded parses_stmts_def, rule_format, of ?s1 "Close_Brace # rest" ?n NoNode "(b, t) # bs" head "bh # stk"] ok[OF st(1)] fs(1) s1 v by auto
  obtain fs' where fs': "next_tok s2 = ok (Close_Brace, s2\<lparr>yyfiles := fs'\<rparr>)" "lexes rest fs'" by (rule next_tok_lexes[OF s2(2)])
  obtain s3 where s3: "add_node_wparent (stmt_ctx st) (s2\<lparr>yyfiles := fs'\<rparr>) = Some s3"
    "blocks_inv s3 ((b, append_sibling t (Node (next_node s2) (stmt_ctx st) (Node ?n NODE_PASSTHROUGH u NoNode) NoNode)) # bs)"
    "only_block (set (b # ids t)) (s2\<lparr>yyfiles := fs'\<rparr>) s3"
    using close_block_ok[of "s2\<lparr>yyfiles := fs'\<rparr>" ?n u b t bs "stmt_ctx st"] s2(3) by auto
  have "parse_one W (head # bh # stk) s2 = ok (Inr (bh # stk, s3))"
    using fs'(1) fin[OF st(1)] s3(1) by (simp add: parse_one_def statement_def in_stack_def)
  then have "yyparse W (bh # stk) s = yyparse W (bh # stk) s3" using yyparse_step[OF fs(2)] s2(1) yyparse_step by metis
  moreover have "lexes rest (yyfiles s3)" using s3(3) fs'(2) by (simp add: only_block_def)
  moreover have "rep_block st (Node ?n NODE_PASSTHROUGH u NoNode)" using rep s2(4) by simp
  moreover have "keeps (set (b # ids t)) s ?s1" using st(3) by (auto simp: keeps_def blocks_inv_def open_block_def Let_def)
  then have "keeps (set (b # ids t)) s s2" by (rule keeps_trans[OF _ s2(5)]) simp
  then have "keeps (set (b # ids t)) s s3" using s3(3) by (auto simp: only_block_def intro: keeps_trans)
  moreover have "next_node s \<le> next_node s2" using s2(5) v(3) by (simp add: keeps_def)
  then have "\<forall>i \<in> set (next_node s2 # ids (Node ?n NODE_PASSTHROUGH u NoNode)). next_node s \<le> i" using s2(6) by auto
  ultimately show "\<exists>s' n ch. yyparse W (bh # stk) s = yyparse W (bh # stk) s' \<and> lexes rest (yyfiles s')
      \<and> blocks_inv s' ((b, append_sibling t (Node n (stmt_ctx st) ch NoNode)) # bs) \<and> rep_block st ch
      \<and> (\<forall>i \<in> set (n # ids ch). next_node s \<le> i) \<and> keeps (set (b # ids t)) s s'"
    using s3(2) by blast
qed

lemma parses_write: "parses_stmt W (Write_S f dst)"
proof (rule parses_simple)
  fix s :: pstate and ts assume ok: "stmt_ok (vars_table s) (Write_S f dst)" and lx: "lexes (stmt_tokens (Write_S f dst) @ ts) (yyfiles s)"
  from lx have "lexes (TWRITE # quoted_word f # symbol_word dst # Semicolon # ts) (yyfiles s)" by simp
  then obtain fs1 where 1: "next_tok s = ok (TWRITE, s\<lparr>yyfiles := fs1\<rparr>)" "lexes (quoted_word f # symbol_word dst # Semicolon # ts) fs1"
    by (rule next_tok_lexes)
  obtain fs2 where 2: "expect_string (s\<lparr>yyfiles := fs1\<rparr>) = ok ((f, True, False), s\<lparr>yyfiles := fs2\<rparr>)" "lexes (symbol_word dst # Semicolon # ts) fs2"
    by (rule expect_string_lexes[OF 1(2)])
  obtain fs3 where 3: "expect_string (s\<lparr>yyfiles := fs2\<rparr>) = ok ((dst, False, True), s\<lparr>yyfiles := fs3\<rparr>)" "lexes (Semicolon # ts) fs3"
    by (rule expect_string_lexes[OF 2(2)])
  have "parse_one W (bh # stk) s = in_stack (bh # stk) (add_node (stmt_ctx (Write_S f dst)) (s\<lparr>yyfiles := fs3\<rparr>) \<bind> expect Semicolon)" for bh stk
    using 1(1) 2(1) 3(1) ok by (simp add: parse_one_def statement_def write_cmd_def check_partial_ok check_symbol_ok)
  with 3(2) show "\<exists>fs. lexes (Semicolon # ts) fs \<and> (\<forall>bh stk. parse_one W (bh # stk) s =
      in_stack (bh # stk) (add_node (stmt_ctx (Write_S f dst)) (s\<lparr>yyfiles := fs\<rparr>) \<bind> expect Semicolon))" by blast
qed simp

lemma parses_break: "parses_stmt W Break_S"
proof (rule parses_simple)
  fix s :: pstate and ts assume lx: "lexes (stmt_tokens Break_S @ ts) (yyfiles s)"
  then have "lexes (TBREAK # Semicolon # ts) (yyfiles s)" by simp
  then obtain fs where "next_tok s = ok (TBREAK, s\<lparr>yyfiles := fs\<rparr>)" "lexes (Semicolon # ts) fs" by (rule next_tok_lexes)
  then show "\<exists>fs. lexes (Semicolon # ts) fs \<and> (\<forall>bh stk. parse_one W (bh # stk) s =
      in_stack (bh # stk) (add_node (stmt_ctx Break_S) (s\<lparr>yyfiles := fs\<rparr>) \<bind> expect Semicolon))"
    by (auto simp: parse_one_def statement_def break_cmd_def)
qed simp

lemma parses_assign: "parses_stmt W (Assign_S v f)"
proof (rule parses_simple)
  fix s :: pstate and ts assume ok: "stmt_ok (vars_table s) (Assign_S v f)" and lx: "lexes (stmt_tokens (Assign_S v f) @ ts) (yyfiles s)"
  from lx have "lexes (symbol_word v # Equals # quoted_word f # Semicolon # ts) (yyfiles s)" by simp
  then obtain fs1 where 1: "next_tok s = ok (symbol_word v, s\<lparr>yyfiles := fs1\<rparr>)" "lexes (Equals # quoted_word f # Semicolon # ts) fs1"
    by (rule next_tok_lexes)
  obtain fs2 where 2: "expect Equals (s\<lparr>yyfiles := fs1\<rparr>) = ok (s\<lparr>yyfiles := fs2\<rparr>)" "lexes (quoted_word f # Semicolon # ts) fs2"
    by (rule expect_lexes[OF 1(2)])
  obtain fs3 where 3: "expect_string (s\<lparr>yyfiles := fs2\<rparr>) = ok ((f, True, False), s\<lparr>yyfiles := fs3\<rparr>)" "lexes (Semicolon # ts) fs3"
    by (rule expect_string_lexes[OF 2(2)])
  have "parse_one W (bh # stk) s = in_stack (bh # stk) (add_node (stmt_ctx (Assign_S v f)) (s\<lparr>yyfiles := fs3\<rparr>) \<bind> expect Semicolon)" for bh stk
    using 1(1) 2(1) 3(1) ok by (auto simp: parse_one_def statement_def assign_cmd_def check_partial_ok check_symbol_ok)
  with 3(2) show "\<exists>fs. lexes (Semicolon # ts) fs \<and> (\<forall>bh stk. parse_one W (bh # stk) s =
      in_stack (bh # stk) (add_node (stmt_ctx (Assign_S v f)) (s\<lparr>yyfiles := fs\<rparr>) \<bind> expect Semicolon))" by blast
qed simp

lemma parses_match:
  assumes "parses_stmts W body"
  shows "parses_stmt W (Match_S re tgt src body)"
proof (rule parses_block[OF assms, where head = "Match_Block (re, True, False) (tgt, True, False) (map_option (\<lambda>a. (a, False, True)) src)"])
  fix s :: pstate and ts assume lx: "lexes (stmt_tokens (Match_S re tgt src body) @ ts) (yyfiles s)"
  let ?from = "case src of None \<Rightarrow> [] | Some a \<Rightarrow> [TFROM, symbol_word a]" and ?rest = "stmts_tokens body @ Close_Brace # ts"
  from lx have "lexes (TMATCH # quoted_word re # quoted_word tgt # ?from @ Open_Brace # ?rest) (yyfiles s)" by simp
  then obtain fs1 where 1: "next_tok s = ok (TMATCH, s\<lparr>yyfiles := fs1\<rparr>)" "lexes (quoted_word re # quoted_word tgt # ?from @ Open_Brace # ?rest) fs1"
    by (rule next_tok_lexes)
  obtain fs2 where 2: "expect_string (s\<lparr>yyfiles := fs1\<rparr>) = ok ((re, True, False), s\<lparr>yyfiles := fs2\<rparr>)" "lexes (quoted_word tgt # ?from @ Open_Brace # ?rest) fs2"
    by (rule expect_string_lexes[OF 1(2)])
  obtain fs3 where 3: "expect_string (s\<lparr>yyfiles := fs2\<rparr>) = ok ((tgt, True, False), s\<lparr>yyfiles := fs3\<rparr>)" "lexes (?from @ Open_Brace # ?rest) fs3"
    by (rule expect_string_lexes[OF 2(2)])
  show "\<exists>fs. lexes ?rest fs \<and> (\<forall>bh stk. parse_one W (bh # stk) s =
      ok (Inr (Match_Block (re, True, False) (tgt, True, False) (map_option (\<lambda>a. (a, False, True)) src) # bh # stk, open_block (s\<lparr>yyfiles := fs\<rparr>))))"
  proof (cases src)
    case None
    then obtain fs4 where "next_tok (s\<lparr>yyfiles := fs3\<rparr>) = ok (Open_Brace, s\<lparr>yyfiles := fs4\<rparr>)" "lexes ?rest fs4"
      using next_lexes[of Open_Brace ?rest fs3] 3(2) by auto
    then show ?thesis using None 1(1) 2(1) 3(1) by (intro exI[of _ fs4]) (simp add: parse_one_def statement_def match_head_def)
  next
    case (Some a)
    then obtain fs4 where 4: "next_tok (s\<lparr>yyfiles := fs3\<rparr>) = ok (TFROM, s\<lparr>yyfiles := fs4\<rparr>)" "lexes (symbol_word a # Open_Brace # ?rest) fs4"
      using next_lexes[of TFROM "symbol_word a # Open_Brace # ?rest" fs3] 3(2) by auto
    obtain fs5 where 5: "expect_string (s\<lparr>yyfiles := fs4\<rparr>) = ok ((a, False, True), s\<lparr>yyfiles := fs5\<rparr>)" "lexes (Open_Brace # ?rest) fs5"
      by (rule expect_string_lexes[OF 4(2)])
    obtain fs6 where 6: "expect Open_Brace (s\<lparr>yyfiles := fs5\<rparr>) = ok (s\<lparr>yyfiles := fs6\<rparr>)" "lexes ?rest fs6"
      by (rule expect_lexes[OF 5(2)])
    then show ?thesis using Some 1(1) 2(1) 3(1) 4(1) 5(1)
      by (intro exI[of _ fs6]) (simp add: parse_one_def statement_def match_head_def begin_block_def)
  qed
next
  fix s :: pstate and vt assume "stmt_ok vt (Match_S re tgt src body)"
  then show "end_block (Match_Block (re, True, False) (tgt, True, False) (map_option (\<lambda>a. (a, False, True)) src)) s =
      map_option Some (add_node_wparent (stmt_ctx (Match_S re tgt src body)) s)"
    by (cases src) (simp_all add: end_block_def check_partial_ok check_symbol_ok)
qed simp_all

lemma parses_matchall:
  assumes "parses_stmts W body"
  shows "parses_stmt W (Matchall_S src body)"
proof (rule parses_block[OF assms, where head = "Matchall_Block (src, False, True)"])
  fix s :: pstate and ts assume lx: "lexes (stmt_tokens (Matchall_S src body) @ ts) (yyfiles s)"
  let ?rest = "stmts_tokens body @ Close_Brace # ts"
  from lx have "lexes (TMATCHALL # TFROM # symbol_word src # Open_Brace # ?rest) (yyfiles s)" by simp
  then obtain fs1 where 1: "next_tok s = ok (TMATCHALL, s\<lparr>yyfiles := fs1\<rparr>)" "lexes (TFROM # symbol_word src # Open_Brace # ?rest) fs1"
    by (rule next_tok_lexes)
  obtain fs2 where 2: "expect TFROM (s\<lparr>yyfiles := fs1\<rparr>) = ok (s\<lparr>yyfiles := fs2\<rparr>)" "lexes (symbol_word src # Open_Brace # ?rest) fs2"
    by (rule expect_lexes[OF 1(2)])
  obtain fs3 where 3: "expect_string (s\<lparr>yyfiles := fs2\<rparr>) = ok ((src, False, True), s\<lparr>yyfiles := fs3\<rparr>)" "lexes (Open_Brace # ?rest) fs3"
    by (rule expect_string_lexes[OF 2(2)])
  obtain fs4 where 4: "expect Open_Brace (s\<lparr>yyfiles := fs3\<rparr>) = ok (s\<lparr>yyfiles := fs4\<rparr>)" "lexes ?rest fs4"
    by (rule expect_lexes[OF 3(2)])
  then show "\<exists>fs. lexes ?rest fs \<and> (\<forall>bh stk. parse_one W (bh # stk) s = ok (Inr (Matchall_Block (src, False, True) # bh # stk, open_block (s\<lparr>yyfiles := fs\<rparr>))))"
    using 1(1) 2(1) 3(1) by (intro exI[of _ fs4]) (simp add: parse_one_def statement_def begin_block_def)
qed (simp_all add: end_block_def check_symbol_ok)

lemma parses_else:
  assumes "parses_stmts W body"
  shows "parses_stmt W (Else_S body)"
proof (rule parses_block[OF assms, where head = Else_Block])
  fix s :: pstate and ts assume lx: "lexes (stmt_tokens (Else_S body) @ ts) (yyfiles s)"
  let ?rest = "stmts_tokens body @ Close_Brace # ts"
  from lx have "lexes (TELSE # Open_Brace # ?rest) (yyfiles s)" by simp
  then obtain fs1 where 1: "next_tok s = ok (TELSE, s\<lparr>yyfiles := fs1\<rparr>)" "lexes (Open_Brace # ?rest) fs1" by (rule next_tok_lexes)
  obtain fs2 where 2: "expect Open_Brace (s\<lparr>yyfiles := fs1\<rparr>) = ok (s\<lparr>yyfiles := fs2\<rparr>)" "lexes ?rest fs2"
    by (rule expect_lexes[OF 1(2)])
  then show "\<exists>fs. lexes ?rest fs \<and> (\<forall>bh stk. parse_one W (bh # stk) s = ok (Inr (Else_Block # bh # stk, open_block (s\<lparr>yyfiles := fs\<rparr>))))"
    using 1(1) by (intro exI[of _ fs2]) (simp add: parse_one_def statement_def begin_block_def)
qed (simp_all add: end_block_def)

lemma parses_sequence:
  assumes st: "parses_stmt W st" and sts: "parses_stmts W sts"
  shows "parses_stmts W (st # sts)"
  unfolding parses_stmts_def
proof (intro allI impI)
  fix s b t bs bh stk rest
  assume okay: "stmts_ok (vars_table s) (st # sts)" and lx: "lexes (stmts_tokens (st # sts) @ rest) (yyfiles s)" and inv: "blocks_inv s ((b, t) # bs)"
  obtain s1 n ch where s1: "yyparse W (bh # stk) s = yyparse W (bh # stk) s1" "lexes (stmts_tokens sts @ rest) (yyfiles s1)"
    "blocks_inv s1 ((b, append_sibling t (Node n (stmt_ctx st) ch NoNode)) # bs)" "rep_block st ch" "keeps (set (b # ids t)) s s1"
    "\<forall>i \<in> set (n # ids ch). next_node s \<le> i"
    using st[unfolded parses_stmt_def, rule_format, of s "stmts_tokens sts @ rest" b t bs bh stk] okay lx inv by auto
  let ?t = "append_sibling t (Node n (stmt_ctx st) ch NoNode)"
  have "stmts_ok (vars_table s1) sts" using okay s1(5) by (simp add: keeps_def)
  then obtain s2 u where s2: "yyparse W (bh # stk) s1 = yyparse W (bh # stk) s2" "lexes rest (yyfiles s2)"
    "blocks_inv s2 ((b, append_sibling ?t u) # bs)" "rep_stmts sts u" "keeps (set (b # ids ?t)) s1 s2" "\<forall>i \<in> set (ids u). next_node s1 \<le> i"
    using sts[unfolded parses_stmts_def, rule_format, of s1 rest b ?t bs bh stk] s1(2,3) by blast
  have new: "\<forall>i \<in> set (b # ids ?t). i \<in> set (b # ids t) \<or> next_node s \<le> i" using s1(6) by auto
  have "next_node s \<le> next_node s1" using s1(5) by (simp add: keeps_def)
  then have "\<forall>i \<in> set (ids (Node n (stmt_ctx st) ch u)). next_node s \<le> i" using s1(6) s2(6) by fastforce
  moreover have "keeps (set (b # ids t)) s s2" by (rule keeps_trans[OF s1(5) s2(5) new])
  moreover have "append_sibling ?t u = append_sibling t (Node n (stmt_ctx st) ch u)" by (simp add: append_sibling_assoc)
  ultimately show "\<exists>s' u. yyparse W (bh # stk) s = yyparse W (bh # stk) s' \<and> lexes rest (yyfiles s')
      \<and> blocks_inv s' ((b, append_sibling t u) # bs) \<and> rep_stmts (st # sts) u
      \<and> (\<forall>i \<in> set (ids u). next_node s \<le> i) \<and> keeps (set (b # ids t)) s s'"
    using s1(1,4) s2 by (intro exI[of _ s2] exI[of _ "Node n (stmt_ctx st) ch u"]) auto
qed

lemma parses_all: "parses_stmt W st" "parses_stmts W sts"
proof (induction st and sts rule: stmt_tokens_stmts_tokens.induct)
  case 7
  then show ?case unfolding parses_stmts_def by (metis append_Nil append_NoNode empty_iff ids.simps(1) keeps_refl list.set(1) rep_stmts.simps(1) stmts_tokens.simps(1))
qed (simp_all add: parses_write parses_break parses_assign parses_match parses_matchall parses_else parses_sequence)

end
