(* ===== verification/Config_Types.thy ===== *)
theory Config_Types
  imports Config_Parser
begin

text \<open>
  What holds of everything the parser builds, whatever the input: names are symbols, format strings have no invalid part,
  assigned variables are declared, and every link of a node leads to an allocated node.
\<close>

section \<open>Types\<close>

definition parts_typed :: "strpartial list \<Rightarrow> bool" where
  "parts_typed ps \<longleftrightarrow> ps \<noteq> [] \<and> STR_INVALID \<notin> set ps"

definition word_typed :: "tstring \<Rightarrow> bool" where
  "word_typed a = (case a of (v, quoted, issym) \<Rightarrow> length v < 4096 \<and> (issym \<longrightarrow> tstring_is_symbol v))"

fun token_typed :: "token \<Rightarrow> bool" where
  "token_typed (TSTRING v quoted issym) = word_typed (v, quoted, issym)"
| "token_typed tk = True"

definition head_typed :: "block_head \<Rightarrow> bool" where
  "head_typed bh = (case bh of
     Match_Block re tgt src \<Rightarrow> pred_option word_typed src | Matchall_Block src \<Rightarrow> word_typed src | _ \<Rightarrow> True)"

definition ctx_typed :: "(string \<rightharpoonup> strpartial list) \<Rightarrow> node_ctx \<Rightarrow> bool" where
  "ctx_typed vt c = (case c of
     NODE_WRITE f dst \<Rightarrow> parts_typed f \<and> tstring_is_symbol dst
   | NODE_ASSIGN v f \<Rightarrow> parts_typed f \<and> tstring_is_symbol v \<and> vt v \<noteq> None
   | NODE_MATCH re tgt src \<Rightarrow> parts_typed re \<and> parts_typed tgt \<and> pred_option tstring_is_symbol src
   | NODE_MATCHALL src \<Rightarrow> (case src of None \<Rightarrow> False | Some a \<Rightarrow> tstring_is_symbol a)
   | _ \<Rightarrow> True)"

lemma ctx_typed_simps [simp]:
  "ctx_typed vt (NODE_WRITE f dst) \<longleftrightarrow> parts_typed f \<and> tstring_is_symbol dst"
  "ctx_typed vt (NODE_ASSIGN v f) \<longleftrightarrow> parts_typed f \<and> tstring_is_symbol v \<and> vt v \<noteq> None"
  "ctx_typed vt (NODE_MATCH re tgt src) \<longleftrightarrow> parts_typed re \<and> parts_typed tgt \<and> pred_option tstring_is_symbol src"
  "ctx_typed vt (NODE_MATCHALL (Some a)) \<longleftrightarrow> tstring_is_symbol a"
  "ctx_typed vt NODE_BREAK" "ctx_typed vt NODE_MELSE" "ctx_typed vt NODE_PASSTHROUGH"
  by (simp_all add: ctx_typed_def)

definition below :: "nat \<Rightarrow> nat option \<Rightarrow> bool" where
  "below n p = pred_option (\<lambda>i. i < n) p"

definition node_typed :: "(string \<rightharpoonup> strpartial list) \<Rightarrow> nat \<Rightarrow> pnode \<Rightarrow> bool" where
  "node_typed vt n nd \<longleftrightarrow> ctx_typed vt (pn_ctx nd) \<and> below n (pn_child nd) \<and> below n (pn_sibling nd) \<and> below n (pn_parent nd)"

definition heap_typed :: "(string \<rightharpoonup> strpartial list) \<Rightarrow> nat \<Rightarrow> (nat \<rightharpoonup> pnode) \<Rightarrow> bool" where
  "heap_typed vt n h \<longleftrightarrow> dom h = {..<n} \<and> (\<forall>i nd. h i = Some nd \<longrightarrow> node_typed vt n nd)"

definition origin_typed :: "cfg_origin \<Rightarrow> bool" where
  "origin_typed og \<longleftrightarrow> tstring_is_symbol (or_symbol og) \<and> inh_buffer og = None \<and> or_type og \<in> {D_FILER, D_FIFOR, D_FILEW, D_FIFOW, D_ROTLOG, D_SOCKETW}"

definition typed :: "pstate \<Rightarrow> bool" where
  "typed s \<longleftrightarrow> fractsec_divider (pconfig s) \<in> {1, 1000, 1000000} \<and> (\<forall>v ps. vars_table s v = Some ps \<longrightarrow> parts_typed ps)
     \<and> (\<forall>og \<in> set (origins s). origin_typed og) \<and> heap_typed (vars_table s) (next_node s) (nodes s)
     \<and> below (next_node s) (rootnode s) \<and> below (next_node s) (curblock s)"

section \<open>Words and format strings\<close>

lemma round_typed: "lex_round q e n f fs = Inl (tk, fs') \<Longrightarrow> token_typed tk"
proof -
  assume a: "lex_round q e n f fs = Inl (tk, fs')"
  have c: "length b < 4096 \<Longrightarrow> token_typed (classify b k)" for b k
    by (auto simp: classify_def word_typed_def keyword_table_def split: option.splits dest!: map_of_SomeD)
  have "punct x = Some tk' \<Longrightarrow> token_typed tk'" for x tk' by (auto simp: punct_def split: if_splits)
  note p = this
  show ?thesis
  proof (cases "dropWhile blank (ftext f)")
    case (Cons x xs)
    show ?thesis
    proof (cases "lex_word (x # xs) q e n False []")
      case (Word b q' e' n' cs')
      with a Cons p c lex_word_bound[OF _ Word] show ?thesis by (auto simp: lex_round_def lex_eof_def split: list.splits option.splits if_splits)
    qed (use a Cons p in \<open>auto simp: lex_round_def lex_eof_def split: list.splits option.splits if_splits\<close>)
  next
    case Nil
    with a show ?thesis unfolding lex_round_def lex_eof_def by (auto split: if_splits)
  qed
qed

lemma lex_from_typed: "lex_from q e n fs = Some (tk, fs') \<Longrightarrow> token_typed tk"
proof (induction q e n fs rule: lex_from.induct)
  case (2 q e n f fs)
  then show ?case by (auto split: sum.splits dest: round_typed)
qed simp

lemma split_loop_typed: "split_loop t = Some ps \<Longrightarrow> STR_INVALID \<notin> set ps \<and> (t \<noteq> [] \<longrightarrow> ps \<noteq> [])"
proof (induction t arbitrary: ps rule: split_loop.induct)
  case (1 left)
  show ?case
  proof (cases "left = []")
    case False
    with 1 show ?thesis by (auto simp: split_loop.simps[of left] Let_def split: option.splits if_splits)
  qed (use 1 in \<open>simp add: split_loop.simps\<close>)
qed

lemma split_typed: "strpartial_split t = Some ps \<Longrightarrow> parts_typed ps"
  using split_loop_typed[of t ps] by (auto simp: strpartial_split_def parts_typed_def split: if_splits)

section \<open>Reading\<close>

lemma pbind_ok: "pbind m f = ok y \<longleftrightarrow> (\<exists>x. m = ok x \<and> f x = ok y)"
  by (auto simp: pbind_def split: option.splits)

lemma yyabort_not_ok [simp]: "yyabort s \<noteq> ok x"
  by (simp add: yyabort_def)

lemma next_tok_typed: "next_tok s = ok (tk, s') \<Longrightarrow> token_typed tk \<and> (\<exists>fs. s' = s\<lparr>yyfiles := fs\<rparr>)"
  by (auto simp: next_tok_def yylex_def dest: lex_from_typed)

lemma expect_typed: "expect tk s = ok s' \<Longrightarrow> \<exists>fs. s' = s\<lparr>yyfiles := fs\<rparr>"
  by (auto simp: expect_def pbind_ok split: if_splits dest!: next_tok_typed)

lemma expect_string_typed: "expect_string s = ok (a, s') \<Longrightarrow> word_typed a \<and> (\<exists>fs. s' = s\<lparr>yyfiles := fs\<rparr>)"
proof -
  assume "expect_string s = ok (a, s')"
  then obtain tk s1 where tk: "next_tok s = ok (tk, s1)"
    "(case tk of TSTRING v quoted issym \<Rightarrow> ok ((v, quoted, issym), s1) | _ \<Rightarrow> yyabort s1) = ok (a, s')"
    by (auto simp: expect_string_def pbind_ok)
  with next_tok_typed[OF tk(1)] show ?thesis by (cases tk) auto
qed

lemma check_symbol_typed: "check_symbol (v, quoted, issym) s = ok u \<Longrightarrow> word_typed (v, quoted, issym) \<Longrightarrow> tstring_is_symbol v"
  by (auto simp: check_symbol_def word_typed_def split: if_splits)

lemma check_partial_typed: "check_partial a s = ok ps \<Longrightarrow> parts_typed ps"
  by (auto simp: check_partial_def split: option.splits dest: split_typed)

lemma typed_files [simp]: "typed (s\<lparr>yyfiles := fs\<rparr>) = typed s"
  by (simp add: typed_def)

section \<open>Nodes\<close>

lemma heap_typed_upd:
  "heap_typed vt n h \<Longrightarrow> h i = Some nd \<Longrightarrow> node_typed vt n nd' \<Longrightarrow> heap_typed vt n (h(i \<mapsto> nd'))"
  by (auto simp: heap_typed_def)

lemma heap_typed_Some: "heap_typed vt n h \<Longrightarrow> h i = Some nd \<Longrightarrow> i < n \<and> node_typed vt n nd"
  by (auto simp: heap_typed_def)

lemma below_mono: "below n p \<Longrightarrow> n \<le> m \<Longrightarrow> below m p"
  by (cases p) (auto simp: below_def)

lemma heap_typed_new:
  assumes "heap_typed vt n h" and "ctx_typed vt c" and "below n p"
  shows "heap_typed vt (Suc n) (h(n \<mapsto> new_node c p))"
proof -
  have "node_typed vt (Suc n) (new_node c p)" using assms below_mono[of n p "Suc n"] by (auto simp: node_typed_def new_node_def below_def)
  moreover have "h i = Some nd \<Longrightarrow> node_typed vt (Suc n) nd" for i nd
    using assms(1) below_mono[of n _ "Suc n"] by (auto simp: heap_typed_def node_typed_def)
  ultimately show ?thesis using assms(1) by (auto simp: heap_typed_def)
qed

lemma set_sibling_typed: "set_sibling i j h = Some h' \<Longrightarrow> heap_typed vt n h \<Longrightarrow> below n j \<Longrightarrow> heap_typed vt n h'"
  by (auto simp: set_sibling_def bind_eq_Some_conv node_typed_def dest: heap_typed_Some intro!: heap_typed_upd)

lemma node_add_child_typed:
  assumes "node_add_child p i h = Some h'" and "heap_typed vt n h" and "i < n"
  shows "heap_typed vt n h'"
proof (cases p)
  case (Some q)
  then obtain nd where nd: "h q = Some nd" using assms(1) by (auto simp: node_add_child_def bind_eq_Some_conv)
  show ?thesis
  proof (cases "pn_child nd")
    case None
    then obtain h1 nd1 where h1: "set_sibling i None h = Some h1" "h1 q = Some nd1" "h' = h1(q \<mapsto> nd1\<lparr>pn_child := Some i\<rparr>)"
      using assms(1) Some nd by (auto simp: node_add_child_def bind_eq_Some_conv)
    then have "heap_typed vt n h1" using set_sibling_typed[OF h1(1) assms(2)] by (simp add: below_def)
    with h1(2,3) assms(3) show ?thesis by (auto simp: node_typed_def below_def dest: heap_typed_Some intro!: heap_typed_upd)
  next
    case (Some c)
    then show ?thesis using assms nd \<open>p = Some q\<close>
      by (auto simp: node_add_child_def bind_eq_Some_conv below_def intro: set_sibling_typed)
  qed
qed (use assms in \<open>simp add: node_add_child_def\<close>)

lemma add_node_typed:
  assumes "add_node c s = Some s'" and "typed s" and "ctx_typed (vars_table s) c"
  shows "typed s'"
proof -
  let ?n = "next_node s"
  from assms(1) obtain h where h: "node_add_child (curblock s) ?n ((nodes s)(?n \<mapsto> new_node c None)) = Some h" "s' = s\<lparr>nodes := h, next_node := ?n + 1\<rparr>"
    by (auto simp: add_node_def bind_eq_Some_conv Let_def)
  have "heap_typed (vars_table s) (Suc ?n) h"
    using assms(2,3) by (intro node_add_child_typed[OF h(1)] heap_typed_new) (auto simp: typed_def below_def)
  with h(2) assms(2) show ?thesis using below_mono[of ?n _ "Suc ?n"] by (auto simp: typed_def)
qed

lemma add_node_wparent_typed:
  assumes "add_node_wparent c s = Some s'" and "typed s" and "ctx_typed (vars_table s) c"
  shows "typed s'"
proof -
  let ?n = "next_node s"
  from assms(1) obtain b h h1 and nd nd1 :: pnode where h: "curblock s = Some b"
    "node_add_child (pn_parent nd) ?n ((nodes s)(?n \<mapsto> new_node c None)) = Some h" "node_add_child (Some ?n) b h = Some h1" "h1 b = Some nd1"
    "s\<lparr>nodes := h1, next_node := ?n + 1, curblock := pn_parent nd1\<rparr> = s'"
    unfolding add_node_wparent_def bind_eq_Some_conv Let_def option.inject by fast
  have b: "b < Suc ?n" using assms(2) h(1) by (auto simp: typed_def below_def)
  have "heap_typed (vars_table s) (Suc ?n) h"
    using assms(2,3) by (intro node_add_child_typed[OF h(2)] heap_typed_new) (auto simp: typed_def below_def)
  then have t: "heap_typed (vars_table s) (Suc ?n) h1" by (rule node_add_child_typed[OF h(3) _ b])
  then have "below (Suc ?n) (pn_parent nd1)" using heap_typed_Some[OF t h(4)] by (simp add: node_typed_def)
  with t h(5)[symmetric] assms(2) show ?thesis using below_mono[of ?n _ "Suc ?n"] by (auto simp: typed_def)
qed

lemma open_block_typed:
  assumes "typed s"
  shows "typed (open_block s)"
proof -
  have "heap_typed (vars_table s) (Suc (next_node s)) ((nodes s)(next_node s \<mapsto> new_node NODE_PASSTHROUGH (curblock s)))"
    using assms by (intro heap_typed_new) (auto simp: typed_def ctx_typed_def)
  with assms show ?thesis using below_mono[of "next_node s" _ "Suc (next_node s)"]
    by (auto simp: typed_def open_block_def Let_def below_def)
qed

section \<open>Commands and statements\<close>

lemma ctx_typed_var: "ctx_typed vt c \<Longrightarrow> ctx_typed (vt(v \<mapsto> ps)) c"
  by (auto simp: ctx_typed_def split: node_ctx.splits)

lemma typed_var: "typed s \<Longrightarrow> parts_typed ps \<Longrightarrow> typed (s\<lparr>vars_table := (vars_table s)(v \<mapsto> ps)\<rparr>)"
  by (auto simp: typed_def heap_typed_def node_typed_def intro: ctx_typed_var)

lemma typed_origin: "typed s \<Longrightarrow> origin_typed og \<Longrightarrow> typed (add_origin og s)"
  by (auto simp: typed_def add_origin_def)

lemma var_cmd_typed: "var_cmd s = ok s' \<Longrightarrow> typed s \<Longrightarrow> typed s'"
  by (auto simp: var_cmd_def pbind_ok dest!: expect_typed expect_string_typed check_partial_typed intro!: typed_var)

lemma include_cmd_typed: "include_cmd W s = ok s' \<Longrightarrow> typed s \<Longrightarrow> typed s'"
  by (auto simp: include_cmd_def pbind_ok split: if_splits dest!: expect_typed expect_string_typed)

lemma fractsec_of_typed: "fractsec_of v = Some d \<Longrightarrow> d \<in> {1, 1000, 1000000}"
  by (auto simp: fractsec_of_def DLOG_DEFAULT_FRACTSEC_DIV_def split: if_splits)

lemma typed_config: "typed s \<Longrightarrow> fractsec_divider c \<in> {1, 1000, 1000000} \<Longrightarrow> typed (s\<lparr>pconfig := c\<rparr>)"
  by (simp add: typed_def)

lemma config_cmd_typed:
  assumes "config_cmd tk s = ok s'" and "typed s"
  shows "typed s'"
proof -
  have old: "fractsec_divider (pconfig s) \<in> {1, 1000, 1000000}" using assms(2) by (simp add: typed_def)
  obtain v quoted issym s1 where s1: "expect_string s = ok ((v, quoted, issym), s1)" using assms(1) unfolding config_cmd_def pbind_ok by auto
  let ?c = "pconfig s1"
  let ?m = "if tk = TPIDFILE then ok (?c\<lparr>pidfile := v\<rparr>) else if tk = TLOGFILE then ok (?c\<lparr>logfile := v\<rparr>)
      else if tk = TLISTEN then ok (if listenskt_port ?c = None then ?c\<lparr>listenskt_port := Some v\<rparr> else ?c)
      else if tk = TDATETIMEFORMAT then ok (?c\<lparr>datetime_format := v\<rparr>)
      else (case fractsec_of v of None \<Rightarrow> yyabort s1 | Some d \<Rightarrow> ok (?c\<lparr>fractsec_divider := d\<rparr>))"
  have "pbind ?m (\<lambda>c. expect Semicolon (s1\<lparr>pconfig := c\<rparr>)) = ok s'" using assms(1) unfolding config_cmd_def Let_def s1 by (simp add: pbind_def)
  then obtain c where c: "?m = ok c" and s': "expect Semicolon (s1\<lparr>pconfig := c\<rparr>) = ok s'" unfolding pbind_ok by blast
  obtain fs where fs: "s1 = s\<lparr>yyfiles := fs\<rparr>" using expect_string_typed[OF s1] by blast
  have "fractsec_divider c \<in> {1, 1000, 1000000}"
    using c old fs by (cases "fractsec_of v") (auto dest: fractsec_of_typed split: if_splits)
  then have "typed (s1\<lparr>pconfig := c\<rparr>)" using assms(2) fs by (intro typed_config) simp_all
  with expect_typed[OF s'] show ?thesis by auto
qed

lemma new_origin_typed: "check_symbol (v, quoted, issym) s = ok u \<Longrightarrow> word_typed (v, quoted, issym) \<Longrightarrow> ty \<in> {D_FILER, D_FIFOR, D_FILEW, D_FIFOW, D_ROTLOG, D_SOCKETW} \<Longrightarrow>
    origin_typed (new_origin ty v p n host port)"
  by (auto simp: origin_typed_def new_origin_def dest: check_symbol_typed)

lemma path_cmd_typed: "path_cmd W ty checked s = ok s' \<Longrightarrow> ty \<in> {D_FILER, D_FIFOR, D_FILEW, D_FIFOW} \<Longrightarrow> typed s \<Longrightarrow> typed s'"
  by (auto simp: path_cmd_def pbind_ok dest!: expect_typed expect_string_typed intro!: typed_origin intro: new_origin_typed)

lemma rotlog_cmd_typed: "rotlog_cmd W s = ok s' \<Longrightarrow> typed s \<Longrightarrow> typed s'"
  by (auto simp: rotlog_cmd_def pbind_ok bind_eq_Some_conv split: if_splits option.splits
      dest!: expect_typed expect_string_typed intro!: typed_origin intro: new_origin_typed)

lemma tcp_cmd_typed: "tcp_cmd W s = ok s' \<Longrightarrow> typed s \<Longrightarrow> typed s'"
  by (auto simp: tcp_cmd_def pbind_ok dest!: expect_typed expect_string_typed intro!: typed_origin intro: new_origin_typed)

lemma source_cmd_typed: "source_cmd W s = ok s' \<Longrightarrow> typed s \<Longrightarrow> typed s'"
  by (auto simp: source_cmd_def pbind_ok split: if_splits dest!: next_tok_typed dest: path_cmd_typed)

lemma destination_cmd_typed: "destination_cmd W s = ok s' \<Longrightarrow> typed s \<Longrightarrow> typed s'"
  by (auto simp: destination_cmd_def pbind_ok split: if_splits dest!: next_tok_typed dest: path_cmd_typed rotlog_cmd_typed tcp_cmd_typed)

lemma write_cmd_typed: "write_cmd s = ok s' \<Longrightarrow> typed s \<Longrightarrow> typed s'"
  by (auto simp: write_cmd_def pbind_ok bind_eq_Some_conv
      dest!: expect_typed expect_string_typed check_partial_typed check_symbol_typed elim!: add_node_typed)

lemma break_cmd_typed: "break_cmd s = ok s' \<Longrightarrow> typed s \<Longrightarrow> typed s'"
  by (auto simp: break_cmd_def bind_eq_Some_conv dest!: expect_typed elim!: add_node_typed)

lemma assign_cmd_typed: "assign_cmd a s = ok s' \<Longrightarrow> word_typed a \<Longrightarrow> typed s \<Longrightarrow> typed s'"
  by (cases a) (auto simp: assign_cmd_def pbind_ok bind_eq_Some_conv split: if_splits
      dest!: expect_typed expect_string_typed check_partial_typed check_symbol_typed elim!: add_node_typed)

lemma begin_block_typed: "begin_block bh stk s = ok (stk', s') \<Longrightarrow> head_typed bh \<Longrightarrow> list_all head_typed stk \<Longrightarrow> typed s \<Longrightarrow>
    list_all head_typed stk' \<and> typed s'"
  by (auto simp: begin_block_def pbind_ok open_block_typed dest!: expect_typed)

lemma match_head_typed: "match_head stk s = ok (stk', s') \<Longrightarrow> list_all head_typed stk \<Longrightarrow> typed s \<Longrightarrow> list_all head_typed stk' \<and> typed s'"
  by (auto simp: match_head_def pbind_ok open_block_typed head_typed_def split: if_splits
      dest!: expect_typed expect_string_typed next_tok_typed begin_block_typed)

lemma end_block_typed: "end_block bh s = ok s' \<Longrightarrow> head_typed bh \<Longrightarrow> typed s \<Longrightarrow> typed s'"
  by (auto simp: end_block_def pbind_ok head_typed_def split: block_head.splits option.splits
      dest!: check_partial_typed dest: check_symbol_typed elim!: add_node_wparent_typed)

fun result_typed :: "pstate + block_head list \<times> pstate \<Rightarrow> bool" where
  "result_typed (Inl s) = typed s"
| "result_typed (Inr (stk, s)) = (list_all head_typed stk \<and> typed s)"

lemma in_stack_typed: "in_stack stk m = ok r \<Longrightarrow> (\<And>s. m = ok s \<Longrightarrow> typed s) \<Longrightarrow> list_all head_typed stk \<Longrightarrow> result_typed r"
  by (auto simp: in_stack_def pbind_ok)

lemma command_typed: "command W tk s = ok r \<Longrightarrow> typed s \<Longrightarrow> result_typed r"
  by (auto simp: command_def pbind_ok head_typed_def split: if_splits dest!: begin_block_typed
      elim!: in_stack_typed dest: var_cmd_typed config_cmd_typed include_cmd_typed source_cmd_typed destination_cmd_typed)

lemma statement_typed:
  assumes "statement tk bh stk s = ok r" and "token_typed tk" and "list_all head_typed (bh # stk)" and "typed s"
  shows "result_typed r"
  using assms
  by (cases tk) (auto simp: statement_def pbind_ok head_typed_def elim!: in_stack_typed
      dest!: begin_block_typed match_head_typed expect_typed expect_string_typed
      dest: end_block_typed write_cmd_typed break_cmd_typed assign_cmd_typed)

lemma parse_one_typed: "parse_one W stk s = ok r \<Longrightarrow> list_all head_typed stk \<Longrightarrow> typed s \<Longrightarrow> result_typed r"
  by (cases stk) (auto simp: parse_one_def pbind_ok dest!: next_tok_typed dest: command_typed statement_typed)

lemma yyparse_typed:
  assumes "yyparse W stk s = Some r"
  shows "list_all head_typed stk \<longrightarrow> typed s \<longrightarrow> pred_option typed r"
proof (rule yyparse.raw_induct[OF _ assms, where P = "\<lambda>W stk s r. list_all head_typed stk \<longrightarrow> typed s \<longrightarrow> pred_option typed r"], intro impI)
  fix yyparse' W stk s r
  assume IH: "\<And>W stk s r. yyparse' W stk s = Some r \<Longrightarrow> list_all head_typed stk \<longrightarrow> typed s \<longrightarrow> pred_option typed r"
    and r: "parse_one W stk s \<bind> (\<lambda>r. case r of None \<Rightarrow> Some None | Some (Inl s') \<Rightarrow> ok s' | Some (Inr (stk', s')) \<Rightarrow> yyparse' W stk' s') = Some r"
    and t: "list_all head_typed stk" "typed s"
  from r obtain x where x: "parse_one W stk s = Some x" by (auto simp: bind_eq_Some_conv)
  show "pred_option typed r"
  proof (cases x)
    case (Some y)
    with x t have "result_typed y" by (auto dest: parse_one_typed)
    with Some x r IH show ?thesis by (cases y) auto
  qed (use x r in auto)
qed

text \<open>Everything that is accepted is typed.\<close>

lemma parse_config_types:
  assumes "typed s" and "parse_config W fname s = Some (ret, Some s')"
  shows "ret = 0 \<and> typed s'"
  using assms yyparse_typed[of W "[]"]
  by (fastforce simp: parse_config_def bind_eq_Some_conv split: list.splits option.splits)

end
