(* ===== verification/Rule_Semantics.thy ===== *)
theory Rule_Semantics
  imports Node
begin

text \<open>
  A reference meaning of the rules, and the proof that the interpreter of \<^verbatim>\<open>node.c\<close> implements it. The first reference says what the code
  does; the second one what is documented, and when the two agree. The references have no
  pointers and no state: a statement is given the captures that are visible where it stands, and yields the lines it
  writes. The interpreter instead keeps the captures in the nodes, lets the execution context point to the innermost
  match, and saves and restores that pointer around each block.
\<close>

section \<open>Reference semantics\<close>

fun part_text :: "world \<Rightarrow> string \<Rightarrow> string \<Rightarrow> string list \<Rightarrow> strpartial \<Rightarrow> string" where
  "part_text w ln src groups (STR_VERBATIM t) = t"
| "part_text w ln src groups (STR_ENV v) = (case getenv w v of None \<Rightarrow> [] | Some t \<Rightarrow> t)"
| "part_text w ln src groups (STR_CAPTURE_GROUP n) = (if nat n < length groups then groups ! nat n else [])"
| "part_text w ln src groups STR_DATETIME = datetime w"
| "part_text w ln src groups STR_SOURCE = src"
| "part_text w ln src groups STR_LOGLINE = ln"
| "part_text w ln src groups STR_FRACTSECOND = dec_of_int (fract_sec w)"
| "part_text w ln src groups STR_DATETIMEFRACT = datetime w @ ''.'' @ take 8 (dec_of_int (fract_sec w))"
| "part_text w ln src groups _ = []"

definition fmt_text :: "world \<Rightarrow> string \<Rightarrow> string \<Rightarrow> string list \<Rightarrow> strpartial list \<Rightarrow> string" where
  "fmt_text w ln src groups ps = concat (map (part_text w ln src groups) ps)"

text \<open>The captures of a pattern on a text, if it matches.\<close>

definition captures :: "string \<Rightarrow> strpartial list \<Rightarrow> string list option" where
  "captures t re =
     (case str_match t (case re of [STR_VERBATIM p] \<Rightarrow> p | _ \<Rightarrow> []) of
        Some (r, m, None) \<Rightarrow> if r = - 1 then None else Some (map the m)
      | _ \<Rightarrow> None)"

text \<open>A source filter lets a line pass if it agrees with the line's source on their common length.\<close>

definition from_ok :: "string option \<Rightarrow> string \<Rightarrow> bool" where
  "from_ok f src = (case f of None \<Rightarrow> True | Some s \<Rightarrow> memcmp s src = 0)"

text \<open>One statement: its result, the captures its block sees and the lines it writes itself.\<close>

definition stmt ::
  "world \<Rightarrow> string \<Rightarrow> string \<Rightarrow> node_ctx \<Rightarrow> string list \<Rightarrow> eval_result \<Rightarrow> eval_result \<times> string list \<times> (string \<times> string) list" where
  "stmt w ln src c groups prev =
     (case c of
        NODE_BREAK \<Rightarrow> (EVAL_BREAK, groups, [])
      | NODE_MATCH re t f \<Rightarrow>
          (case (if from_ok f src then captures (fmt_text w ln src groups t) re else None) of
             None \<Rightarrow> (EVAL_FALSE, groups, [])
           | Some cs \<Rightarrow> (EVAL_TRUE, cs, []))
      | NODE_MATCHALL f \<Rightarrow> (if from_ok f src then EVAL_TRUE else EVAL_FALSE, groups, [])
      | NODE_MELSE \<Rightarrow> (if prev = EVAL_FALSE then EVAL_TRUE else EVAL_FALSE, groups, [])
      | NODE_WRITE fmt dst \<Rightarrow> (EVAL_TRUE, groups, [(dst, fmt_text w ln src groups fmt)])
      | _ \<Rightarrow> (EVAL_TRUE, groups, []))"

text \<open>The block of a statement sees the statement's captures, the statements after it see those of the enclosing block.\<close>

fun run :: "world \<Rightarrow> string \<Rightarrow> string \<Rightarrow> node \<Rightarrow> string list \<Rightarrow> eval_result \<Rightarrow> eval_result \<times> (string \<times> string) list" where
  "run w ln src NoNode groups prev = (EVAL_TRUE, [])"
| "run w ln src (Node i c child sibling) groups prev =
     (case stmt w ln src c groups prev of
        (r, groups', ws) \<Rightarrow>
          if r = EVAL_BREAK then (r, ws)
          else (case (if r = EVAL_TRUE then run w ln src child groups' r else (EVAL_TRUE, [])) of
                  (q, ws1) \<Rightarrow> (r, ws @ ws1 @ (if q = EVAL_BREAK then [] else snd (run w ln src sibling groups r)))))"

section \<open>Rules whose captures are scoped\<close>

fun part_scoped :: "bool \<Rightarrow> strpartial \<Rightarrow> bool" where
  "part_scoped inm (STR_CAPTURE_GROUP n) = (inm \<and> 0 \<le> n)"
| "part_scoped inm (STR_VAR v) = False"
| "part_scoped inm STR_INVALID = False"
| "part_scoped inm p = True"

text \<open>As \<open>safe\<close>, with format strings that are valid and match statements that have a block.\<close>

fun scoped :: "bool \<Rightarrow> node \<Rightarrow> bool" where
  "scoped inm NoNode = True"
| "scoped inm (Node i c child sibling) =
     ((case c of
         NODE_ASSIGN _ _ \<Rightarrow> False
       | NODE_MATCH re t src \<Rightarrow>
           (\<exists>p. re = [STR_VERBATIM p] \<and> pat_ok p) \<and> list_all (part_scoped inm) t \<and> child \<noteq> NoNode \<and> scoped True child
       | NODE_MATCHALL src \<Rightarrow> \<not> inm \<and> scoped inm child
       | NODE_WRITE fmt dst \<Rightarrow> list_all (part_scoped inm) fmt \<and> scoped inm child
       | _ \<Rightarrow> scoped inm child)
      \<and> scoped inm sibling)"

text \<open>The captures the context points to.\<close>

definition caps_of :: "exec_ctx \<Rightarrow> string list" where
  "caps_of ctx = (case re_match ctx of None \<Rightarrow> [] | Some m \<Rightarrow> map the (cur_match ctx m))"

text \<open>The context is inside a match exactly if it points to one, and no match has a null string.\<close>

definition in_scope :: "bool \<Rightarrow> exec_ctx \<Rightarrow> bool" where
  "in_scope inm ctx \<longleftrightarrow> (inm \<longleftrightarrow> re_match ctx \<noteq> None) \<and> (\<forall>i. None \<notin> set (cur_match ctx i))"

text \<open>\<open>ctx'\<close> continues \<open>ctx\<close>: everything is as before except what the nodes \<open>A\<close> own and the lines \<open>ws\<close> written.\<close>

definition continues :: "nat set \<Rightarrow> (string \<times> string) list \<Rightarrow> exec_ctx \<Rightarrow> exec_ctx \<Rightarrow> bool" where
  "continues A ws ctx ctx' \<longleftrightarrow> source ctx' = source ctx \<and> logline ctx' = logline ctx \<and> written ctx' = written ctx @ ws
     \<and> (\<forall>j. j \<notin> A \<longrightarrow> cur_match ctx' j = cur_match ctx j \<and> prev_match ctx' j = prev_match ctx j)"

lemma continues_trans: "continues A ws x y \<Longrightarrow> continues B vs y z \<Longrightarrow> continues (A \<union> B) (ws @ vs) x z"
  by (simp add: continues_def)

lemma continues_mono: "continues A ws x y \<Longrightarrow> A \<subseteq> B \<Longrightarrow> continues B ws x y"
  by (auto simp: continues_def)

lemma caps_continue:
  "continues A ws ctx ctx' \<Longrightarrow> re_match ctx' = re_match ctx \<Longrightarrow> \<forall>m. re_match ctx = Some m \<longrightarrow> m \<notin> A \<Longrightarrow> caps_of ctx' = caps_of ctx"
  by (auto simp: continues_def caps_of_def split: option.split)

section \<open>Format strings\<close>

lemma resolve_part_text:
  assumes "part_scoped inm p" and "in_scope inm ctx" and "world_ok w"
  shows "resolve_part w ctx p s = Some (Some (s @ part_text w (logline ctx) (source ctx) (caps_of ctx) p))"
proof (cases p)
  case (STR_CAPTURE_GROUP n)
  with assms(1,2) obtain m where m: "re_match ctx = Some m" "0 \<le> n" by (auto simp: in_scope_def)
  show ?thesis
  proof (cases "nat n < length (cur_match ctx m)")
    case True
    then have "cur_match ctx m ! nat n \<in> set (cur_match ctx m)" by simp
    then have "cur_match ctx m ! nat n \<noteq> None" using assms(2) by (metis in_scope_def)
    then show ?thesis using True m STR_CAPTURE_GROUP by (auto simp: resolve_part_def caps_of_def)
  next
    case False
    then show ?thesis using m STR_CAPTURE_GROUP by (auto simp: resolve_part_def caps_of_def)
  qed
qed (use assms fract_length(1)[OF assms(3)] in \<open>auto simp: resolve_part_def snprintf_ld_def world_ok_def split: option.split\<close>)

lemma resolve_text:
  assumes "list_all (part_scoped inm) ps" and "in_scope inm ctx" and "world_ok w"
  shows "strpartial_resolve w ctx ps = Some (Some (fmt_text w (logline ctx) (source ctx) (caps_of ctx) ps))"
proof -
  have "resolve_from w ctx ps s = Some (Some (s @ fmt_text w (logline ctx) (source ctx) (caps_of ctx) ps))" for s
    using assms(1) by (induction ps arbitrary: s) (auto simp: fmt_text_def resolve_part_text[OF _ assms(2,3)])
  then show ?thesis by (simp add: strpartial_resolve_def)
qed

section \<open>The interpreter implements the reference\<close>

lemma from_source_ok: "from_source f ctx = from_ok f (source ctx)"
  by (simp add: from_source_def from_ok_def)

lemma match_stmt:
  assumes s: "scoped inm (Node i (NODE_MATCH re t f) child sibling)" and ok: "in_scope inm ctx" and w: "world_ok w"
    and st: "stmt w (logline ctx) (source ctx) (NODE_MATCH re t f) (caps_of ctx) pr = (r, groups', ws)"
  shows "\<exists>ctx1. eval_node_match w i re t f ctx = Some (r, ctx1) \<and> continues {i} ws ctx ctx1
    \<and> prev_match ctx1 i = re_match ctx \<and> (\<forall>j. None \<notin> set (cur_match ctx1 j)) \<and> (r = EVAL_TRUE \<or> r = EVAL_FALSE)
    \<and> (r = EVAL_TRUE \<longrightarrow> re_match ctx1 = Some i \<and> caps_of ctx1 = groups') \<and> (r \<noteq> EVAL_TRUE \<longrightarrow> re_match ctx1 = re_match ctx)"
proof -
  let ?t = "fmt_text w (logline ctx) (source ctx) (caps_of ctx) t"
  obtain p where p: "re = [STR_VERBATIM p]" "pat_ok p" using s by auto
  have t: "strpartial_resolve w ctx t = Some (Some ?t)" using s ok w by (intro resolve_text) auto
  obtain q m where sm: "str_match ?t p = Some (q, m, None)" using p(2) unfolding pat_ok_def by blast
  have e: "None \<notin> set m" "q = - 1 \<Longrightarrow> m = []" "q \<noteq> - 1 \<Longrightarrow> m \<noteq> []" using str_match_entries[OF sm] by auto
  show ?thesis
  proof (cases "from_ok f (source ctx)")
    case False
    then show ?thesis using st ok p t
      by (auto simp: stmt_def eval_node_match_def resolve_verbatim Let_def from_source_ok continues_def in_scope_def)
  next
    case True
    show ?thesis
    proof (cases "q = - 1")
      case qm: True
      then show ?thesis using st ok p t sm e(2) True
        by (auto simp: stmt_def captures_def eval_node_match_def resolve_verbatim Let_def from_source_ok continues_def in_scope_def)
    next
      case False
      then show ?thesis using st ok p t sm e(1,3) True
        by (auto simp: stmt_def captures_def eval_node_match_def resolve_verbatim Let_def from_source_ok continues_def in_scope_def caps_of_def)
    qed
  qed
qed

lemma other_stmt:
  assumes s: "scoped inm (Node i c child sibling)" and ok: "in_scope inm ctx" and w: "world_ok w"
    and st: "stmt w (logline ctx) (source ctx) c (caps_of ctx) pr = (r, groups', ws)" and "\<forall>re t f. c \<noteq> NODE_MATCH re t f"
  shows "\<exists>ctx1. handler_eval w i c pr ctx = Some (r, ctx1) \<and> continues {} ws ctx ctx1
    \<and> in_scope inm ctx1 \<and> re_match ctx1 = re_match ctx \<and> groups' = caps_of ctx \<and> r \<noteq> EVAL_ERROR \<and> (r = EVAL_BREAK \<longrightarrow> ws = [])
    \<and> scoped inm child \<and> scoped inm sibling \<and> (\<forall>x. handler_block_cleanup i c x = x)
    \<and> (\<forall>x. re_match x = re_match ctx \<longrightarrow> handler_node_cleanup i c x = x)"
  using assms
  by (cases c) (auto simp: stmt_def handler_eval_def eval_node_write_def eval_node_matchall_def eval_node_match_else_def
      resolve_text continues_def in_scope_def from_source_ok handler_block_cleanup_def handler_node_cleanup_def split: if_splits)

text \<open>The statement proved of every tree.\<close>

definition implements :: "world \<Rightarrow> node \<Rightarrow> bool" where
  "implements w n \<longleftrightarrow> (\<forall>inm ctx pr. scoped inm n \<longrightarrow> distinct (ids n) \<longrightarrow> in_scope inm ctx \<longrightarrow> re_match ctx \<notin> Some ` set (ids n) \<longrightarrow>
     (\<exists>ctx'. eval_node w n ctx pr = Some (fst (run w (logline ctx) (source ctx) n (caps_of ctx) pr), ctx')
        \<and> continues (set (ids n)) (snd (run w (logline ctx) (source ctx) n (caps_of ctx) pr)) ctx ctx'
        \<and> in_scope inm ctx' \<and> re_match ctx' = re_match ctx
        \<and> fst (run w (logline ctx) (source ctx) n (caps_of ctx) pr) \<noteq> EVAL_ERROR))"

text \<open>The block of a node, as \<^verbatim>\<open>_eval_node\<close> runs it and as the reference does.\<close>

definition eval_block :: "world \<Rightarrow> nat \<Rightarrow> node_ctx \<Rightarrow> node \<Rightarrow> eval_result \<Rightarrow> exec_ctx \<Rightarrow> (bool \<times> exec_ctx) option" where
  "eval_block w i c child r ctx1 =
     (if r = EVAL_TRUE \<and> child \<noteq> NoNode
      then (case eval_node w child ctx1 r of None \<Rightarrow> None | Some (q, ctx2) \<Rightarrow> Some (stops q, handler_node_cleanup i c ctx2))
      else Some (False, ctx1))"

definition run_block :: "world \<Rightarrow> string \<Rightarrow> string \<Rightarrow> node \<Rightarrow> eval_result \<Rightarrow> string list \<Rightarrow> eval_result \<times> (string \<times> string) list" where
  "run_block w ln src child r groups = (if r = EVAL_TRUE then run w ln src child groups r else (EVAL_TRUE, []))"

definition block_done ::
  "world \<Rightarrow> bool \<Rightarrow> nat \<Rightarrow> node_ctx \<Rightarrow> node \<Rightarrow> exec_ctx \<Rightarrow> eval_result \<Rightarrow> exec_ctx \<Rightarrow> string list \<Rightarrow> (string \<times> string) list \<Rightarrow> bool" where
  "block_done w inm i c child ctx r ctx1 groups' ws \<longleftrightarrow>
     (\<exists>ctx2. eval_block w i c child r ctx1 = Some (fst (run_block w (logline ctx) (source ctx) child r groups') = EVAL_BREAK, ctx2)
        \<and> continues ({i} \<union> set (ids child)) (ws @ snd (run_block w (logline ctx) (source ctx) child r groups')) ctx ctx2
        \<and> in_scope inm ctx2 \<and> re_match ctx2 = re_match ctx)"

lemma match_block:
  assumes d: "distinct (i # ids child)" and ok: "in_scope inm ctx" and out: "re_match ctx \<notin> Some ` set (i # ids child)"
    and sc: "scoped True child" "child \<noteq> NoNode" and IH: "implements w child"
    and h: "continues {i} ws ctx ctx1" "prev_match ctx1 i = re_match ctx" "\<forall>j. None \<notin> set (cur_match ctx1 j)"
    and t: "re_match ctx1 = Some i" "caps_of ctx1 = groups'" "r = EVAL_TRUE"
  shows "block_done w inm i (NODE_MATCH re t f) child ctx r ctx1 groups' ws"
proof -
  have "in_scope True ctx1" "re_match ctx1 \<notin> Some ` set (ids child)" using h(3) t(1) d by (auto simp: in_scope_def)
  then obtain ctx2 where c2: "eval_node w child ctx1 r = Some (fst (run w (logline ctx1) (source ctx1) child groups' r), ctx2)"
    "continues (set (ids child)) (snd (run w (logline ctx1) (source ctx1) child groups' r)) ctx1 ctx2" "in_scope True ctx2"
    "fst (run w (logline ctx1) (source ctx1) child groups' r) \<noteq> EVAL_ERROR"
    using IH sc(1) d t(2) unfolding implements_def by (metis distinct.simps(2))
  have same: "logline ctx1 = logline ctx" "source ctx1 = source ctx" using h(1) by (auto simp: continues_def)
  have c12: "continues ({i} \<union> set (ids child)) (ws @ snd (run w (logline ctx) (source ctx) child groups' r)) ctx ctx2"
    using continues_trans[OF h(1) c2(2)] by (simp add: same)
  have "prev_match ctx2 i = re_match ctx" using c2(2) h(2) d by (simp add: continues_def)
  with c12 c2(3) ok have "continues ({i} \<union> set (ids child)) (ws @ snd (run w (logline ctx) (source ctx) child groups' r)) ctx
      (handler_node_cleanup i (NODE_MATCH re t f) ctx2)
    \<and> in_scope inm (handler_node_cleanup i (NODE_MATCH re t f) ctx2)
    \<and> re_match (handler_node_cleanup i (NODE_MATCH re t f) ctx2) = re_match ctx"
    by (auto simp: handler_node_cleanup_def continues_def in_scope_def str_match_free_def)
  then show ?thesis using c2(1,4) t(3) sc(2)
    by (simp add: block_done_def eval_block_def run_block_def same stops_def)
qed

lemma other_block:
  assumes d: "distinct (ids child)" and out: "re_match ctx \<notin> Some ` set (i # ids child)"
    and sc: "scoped inm child" and IH: "child \<noteq> NoNode \<Longrightarrow> implements w child"
    and h: "continues A ws ctx ctx1" "A \<subseteq> {i}" "in_scope inm ctx1" "re_match ctx1 = re_match ctx"
    and cl: "\<forall>x. r = EVAL_TRUE \<longrightarrow> child \<noteq> NoNode \<longrightarrow> re_match x = re_match ctx \<longrightarrow> handler_node_cleanup i c x = x"
    and g: "r = EVAL_TRUE \<Longrightarrow> groups' = caps_of ctx"
  shows "block_done w inm i c child ctx r ctx1 groups' ws"
proof (cases "r = EVAL_TRUE \<and> child \<noteq> NoNode")
  case True
  have same: "logline ctx1 = logline ctx" "source ctx1 = source ctx" using h(1) by (auto simp: continues_def)
  have "caps_of ctx1 = groups'" using caps_continue[OF h(1,4)] out h(2) g True by auto
  moreover have "re_match ctx1 \<notin> Some ` set (ids child)" using h(4) out by simp
  ultimately obtain ctx2 where c2: "eval_node w child ctx1 r = Some (fst (run w (logline ctx) (source ctx) child groups' r), ctx2)"
    "continues (set (ids child)) (snd (run w (logline ctx) (source ctx) child groups' r)) ctx1 ctx2" "in_scope inm ctx2"
    "re_match ctx2 = re_match ctx1" "fst (run w (logline ctx) (source ctx) child groups' r) \<noteq> EVAL_ERROR"
    using IH True sc d h(3) unfolding implements_def by (metis same)
  have "continues ({i} \<union> set (ids child)) (ws @ snd (run w (logline ctx) (source ctx) child groups' r)) ctx ctx2"
    using continues_trans[OF h(1) c2(2)] by (rule continues_mono) (use h(2) in auto)
  with True c2 cl h(4) show ?thesis by (simp add: block_done_def eval_block_def run_block_def stops_def)
next
  case False
  have "continues ({i} \<union> set (ids child)) ws ctx ctx1" using h(1) by (rule continues_mono) (use h(2) in auto)
  with False h(3,4) show ?thesis by (cases child) (auto simp: block_done_def eval_block_def run_block_def)
qed

text \<open>A node up to its block.\<close>

lemma node_block:
  assumes s: "scoped inm (Node i c child sibling)" and d: "distinct (i # ids child)" and ok: "in_scope inm ctx" and w: "world_ok w"
    and out: "re_match ctx \<notin> Some ` set (i # ids child)" and IH: "child \<noteq> NoNode \<Longrightarrow> implements w child"
    and st: "stmt w (logline ctx) (source ctx) c (caps_of ctx) pr = (r, groups', ws)"
  shows "\<exists>ctx1. handler_eval w i c pr ctx = Some (r, ctx1) \<and> r \<noteq> EVAL_ERROR
     \<and> (r = EVAL_BREAK \<longrightarrow> continues {} ws ctx ctx1 \<and> in_scope inm ctx1 \<and> re_match ctx1 = re_match ctx)
     \<and> (r \<noteq> EVAL_BREAK \<longrightarrow> block_done w inm i c child ctx r ctx1 groups' ws)"
proof (cases "\<exists>re t f. c = NODE_MATCH re t f")
  case True
  then obtain re t f where c: "c = NODE_MATCH re t f" by blast
  from match_stmt[OF s[unfolded c] ok w st[unfolded c]] obtain ctx1 where h: "eval_node_match w i re t f ctx = Some (r, ctx1)"
    "continues {i} ws ctx ctx1" "prev_match ctx1 i = re_match ctx" "\<forall>j. None \<notin> set (cur_match ctx1 j)" "r = EVAL_TRUE \<or> r = EVAL_FALSE"
    "r = EVAL_TRUE \<longrightarrow> re_match ctx1 = Some i \<and> caps_of ctx1 = groups'" "r \<noteq> EVAL_TRUE \<longrightarrow> re_match ctx1 = re_match ctx" by blast
  have sc: "scoped True child" "child \<noteq> NoNode" using s c by auto
  have "block_done w inm i c child ctx r ctx1 groups' ws"
  proof (cases "r = EVAL_TRUE")
    case True
    then show ?thesis unfolding c using match_block[OF d ok out sc IH[OF sc(2)] h(2,3,4)] h(6) by blast
  next
    case False
    with h ok have "in_scope inm ctx1" by (simp add: in_scope_def)
    moreover have "continues ({i} \<union> set (ids child)) ws ctx ctx1" using h(2) by (rule continues_mono) simp
    ultimately show ?thesis using False h(7) by (auto simp: block_done_def eval_block_def run_block_def)
  qed
  with h(1,5) show ?thesis by (auto simp: c handler_eval_def)
next
  case False
  with other_stmt[OF s ok w st] obtain ctx1 where h: "handler_eval w i c pr ctx = Some (r, ctx1)" "continues {} ws ctx ctx1"
    "in_scope inm ctx1" "re_match ctx1 = re_match ctx" "groups' = caps_of ctx" "r \<noteq> EVAL_ERROR" "scoped inm child"
    "\<forall>x. re_match x = re_match ctx \<longrightarrow> handler_node_cleanup i c x = x" by blast
  have "block_done w inm i c child ctx r ctx1 groups' ws"
    using other_block[OF _ out h(7) IH h(2) _ h(3,4)] d h(5,8) by simp
  with h show ?thesis by auto
qed

lemma block_cleanup_continues:
  assumes "continues A ws ctx ctx'" and "i \<in> A" and "in_scope inm ctx'" and "re_match ctx' = re_match ctx"
  shows "continues A ws ctx (handler_block_cleanup i c ctx')" and "in_scope inm (handler_block_cleanup i c ctx')"
    and "re_match (handler_block_cleanup i c ctx') = re_match ctx"
  using assms by (auto simp: handler_block_cleanup_def continues_def in_scope_def str_match_free_def split: node_ctx.split)

lemma eval_node_block:
  "eval_node w (Node i c child sibling) ctx pr =
     (case handler_eval w i c pr ctx of
        None \<Rightarrow> None
      | Some (r, ctx1) \<Rightarrow>
          if stops r then Some (r, handler_block_cleanup i c ctx1)
          else (case eval_block w i c child r ctx1 of
                  None \<Rightarrow> None
                | Some (stop, ctx2) \<Rightarrow>
                    if stop \<or> sibling = NoNode then Some (r, handler_block_cleanup i c ctx2)
                    else map_option (\<lambda>(q, ctx3). (r, handler_block_cleanup i c ctx3)) (eval_node w sibling ctx2 r)))"
  by (simp add: eval_block_def split: option.splits if_splits)

lemma run_node_block:
  "stmt w ln src c groups pr = (r, groups', ws) \<Longrightarrow> run w ln src (Node i c child sibling) groups pr =
     (if r = EVAL_BREAK then (r, ws)
      else (r, ws @ snd (run_block w ln src child r groups')
               @ (if fst (run_block w ln src child r groups') = EVAL_BREAK then [] else snd (run w ln src sibling groups r))))"
  by (simp add: run_block_def split_beta)

lemma eval_implements: "n \<noteq> NoNode \<Longrightarrow> world_ok w \<Longrightarrow> implements w n"
proof (induction n)
  case (Node i c child sibling)
  show ?case unfolding implements_def
  proof (intro allI impI)
    fix inm ctx pr
    assume s: "scoped inm (Node i c child sibling)" and d: "distinct (ids (Node i c child sibling))" and ok: "in_scope inm ctx"
      and out: "re_match ctx \<notin> Some ` set (ids (Node i c child sibling))"
    let ?R = "run w (logline ctx) (source ctx) (Node i c child sibling) (caps_of ctx) pr"
    let ?A = "set (ids (Node i c child sibling))"
    obtain r groups' ws where st: "stmt w (logline ctx) (source ctx) c (caps_of ctx) pr = (r, groups', ws)" by (metis prod_cases3)
    let ?b = "run_block w (logline ctx) (source ctx) child r groups'"
    from node_block[OF s _ ok Node.prems(2) _ _ st] d out Node.IH(1) Node.prems(2) obtain ctx1 where
      h: "handler_eval w i c pr ctx = Some (r, ctx1)" "r \<noteq> EVAL_ERROR"
        "r = EVAL_BREAK \<longrightarrow> continues {} ws ctx ctx1 \<and> in_scope inm ctx1 \<and> re_match ctx1 = re_match ctx"
        "r \<noteq> EVAL_BREAK \<longrightarrow> block_done w inm i c child ctx r ctx1 groups' ws" by auto
    note R = run_node_block[OF st, of i child sibling]
    have "\<exists>ctx'. eval_node w (Node i c child sibling) ctx pr = Some (r, handler_block_cleanup i c ctx')
        \<and> continues ?A (snd ?R) ctx ctx' \<and> in_scope inm ctx' \<and> re_match ctx' = re_match ctx"
    proof (cases "r = EVAL_BREAK")
      case True
      then show ?thesis using h continues_mono[of "{}" ws ctx ctx1 ?A]
        by (auto simp: eval_node_block R stops_def simp del: eval_node.simps run.simps)
    next
      case False
      with h(4) obtain ctx2 where b: "eval_block w i c child r ctx1 = Some (fst ?b = EVAL_BREAK, ctx2)"
        "continues ({i} \<union> set (ids child)) (ws @ snd ?b) ctx ctx2" "in_scope inm ctx2" "re_match ctx2 = re_match ctx"
        by (auto simp: block_done_def)
      have r: "\<not> stops r" using False h(2) by (simp add: stops_def)
      show ?thesis
      proof (cases "fst ?b = EVAL_BREAK \<or> sibling = NoNode")
        case True
        then have "snd ?R = ws @ snd ?b" using False by (auto simp: R simp del: run.simps(2))
        moreover have "continues ?A (ws @ snd ?b) ctx ctx2" using b(2) by (rule continues_mono) auto
        ultimately show ?thesis using True h(1) r b by (auto simp: eval_node_block simp del: eval_node.simps run.simps)
      next
        case sib: False
        have same: "logline ctx2 = logline ctx" "source ctx2 = source ctx" using b(2) by (auto simp: continues_def)
        have "caps_of ctx2 = caps_of ctx" using caps_continue[OF b(2,4)] out by auto
        moreover have "scoped inm sibling" "distinct (ids sibling)" "re_match ctx2 \<notin> Some ` set (ids sibling)"
          using s d out b(4) by (auto split: node_ctx.splits)
        ultimately obtain ctx3 where c3: "eval_node w sibling ctx2 r = Some (fst (run w (logline ctx) (source ctx) sibling (caps_of ctx) r), ctx3)"
          "continues (set (ids sibling)) (snd (run w (logline ctx) (source ctx) sibling (caps_of ctx) r)) ctx2 ctx3" "in_scope inm ctx3"
          "re_match ctx3 = re_match ctx2"
          using Node.IH(2)[OF _ Node.prems(2)] sib b(3) unfolding implements_def by (metis same)
        have "continues ?A (snd ?R) ctx ctx3"
          using continues_trans[OF b(2) c3(2)] sib False by (simp add: R Un_assoc del: run.simps(2))
        then show ?thesis using sib h(1) r b(1,4) c3 by (auto simp: eval_node_block simp del: eval_node.simps run.simps)
      qed
    qed
    then show "\<exists>ctx'. eval_node w (Node i c child sibling) ctx pr = Some (fst ?R, ctx') \<and> continues ?A (snd ?R) ctx ctx'
        \<and> in_scope inm ctx' \<and> re_match ctx' = re_match ctx \<and> fst ?R \<noteq> EVAL_ERROR"
      using block_cleanup_continues[of ?A "snd ?R" ctx _ i inm c] h(2) by (fastforce simp: R simp del: eval_node.simps run.simps)
  qed
qed simp

text \<open>One log line, with what carries over to the next.\<close>

lemma node_eval_line:
  assumes "scoped False root" and "root \<noteq> NoNode" and "distinct (ids root)" and "\<forall>i. None \<notin> set (cur_match ctx i)"
    and "world_ok w" and "clock_ok w"
  shows "\<exists>ctx'. node_eval_root w root ln src ctx = Some ctx' \<and> written ctx' = written ctx @ snd (run w ln src root [] EVAL_TRUE)
     \<and> (\<forall>i. None \<notin> set (cur_match ctx' i))"
proof -
  let ?ctx = "ctx\<lparr>re_match := None, source := src, logline := ln\<rparr>"
  have "in_scope False ?ctx" "caps_of ?ctx = []" using assms(4) by (auto simp: in_scope_def caps_of_def)
  moreover have "re_match ?ctx \<notin> Some ` set (ids root)" by auto
  ultimately obtain ctx' where "eval_node w root ?ctx EVAL_TRUE = Some (fst (run w ln src root [] EVAL_TRUE), ctx')"
    "continues (set (ids root)) (snd (run w ln src root [] EVAL_TRUE)) ?ctx ctx'" "in_scope False ctx'"
    using eval_implements[OF assms(2,5)] assms(1,3) unfolding implements_def by fastforce
  then show ?thesis using assms(6) by (simp add: node_eval_root_def continues_def in_scope_def)
qed

section \<open>Rules as documented\<close>

text \<open>The meaning that \<^verbatim>\<open>README.md\<close> gives: \<^verbatim>\<open>%{T}\<close> is the same as \<^verbatim>\<open>%{d}.%{t}\<close>, a source filter names one source, and a break leaves the
  rule, not just the enclosing block.\<close>

definition doc_part :: "world \<Rightarrow> string \<Rightarrow> string \<Rightarrow> string list \<Rightarrow> strpartial \<Rightarrow> string" where
  "doc_part w ln src groups p =
     (if p = STR_DATETIMEFRACT then concat (map (part_text w ln src groups) [STR_DATETIME, STR_VERBATIM ''.'', STR_FRACTSECOND])
      else part_text w ln src groups p)"

definition doc_text :: "world \<Rightarrow> string \<Rightarrow> string \<Rightarrow> string list \<Rightarrow> strpartial list \<Rightarrow> string" where
  "doc_text w ln src groups ps = concat (map (doc_part w ln src groups) ps)"

definition doc_from :: "string option \<Rightarrow> string \<Rightarrow> bool" where
  "doc_from f src \<longleftrightarrow> f = None \<or> f = Some src"

definition doc_stmt ::
  "world \<Rightarrow> string \<Rightarrow> string \<Rightarrow> node_ctx \<Rightarrow> string list \<Rightarrow> eval_result \<Rightarrow> eval_result \<times> string list \<times> (string \<times> string) list" where
  "doc_stmt w ln src c groups prev =
     (case c of
        NODE_BREAK \<Rightarrow> (EVAL_BREAK, groups, [])
      | NODE_MATCH re t f \<Rightarrow>
          (case (if doc_from f src then captures (doc_text w ln src groups t) re else None) of
             None \<Rightarrow> (EVAL_FALSE, groups, [])
           | Some cs \<Rightarrow> (EVAL_TRUE, cs, []))
      | NODE_MATCHALL f \<Rightarrow> (if doc_from f src then EVAL_TRUE else EVAL_FALSE, groups, [])
      | NODE_MELSE \<Rightarrow> (if prev = EVAL_FALSE then EVAL_TRUE else EVAL_FALSE, groups, [])
      | NODE_WRITE fmt dst \<Rightarrow> (EVAL_TRUE, groups, [(dst, doc_text w ln src groups fmt)])
      | _ \<Rightarrow> (EVAL_TRUE, groups, []))"

text \<open>Whether the rule was left, and the lines written.\<close>

fun doc_run :: "world \<Rightarrow> string \<Rightarrow> string \<Rightarrow> node \<Rightarrow> string list \<Rightarrow> eval_result \<Rightarrow> bool \<times> (string \<times> string) list" where
  "doc_run w ln src NoNode groups prev = (False, [])"
| "doc_run w ln src (Node i c child sibling) groups prev =
     (case doc_stmt w ln src c groups prev of
        (r, groups', ws) \<Rightarrow>
          if r = EVAL_BREAK then (True, ws)
          else (case (if r = EVAL_TRUE then doc_run w ln src child groups' r else (False, [])) of
                  (left, ws1) \<Rightarrow>
                    if left then (True, ws @ ws1)
                    else (case doc_run w ln src sibling groups r of (left', ws2) \<Rightarrow> (left', ws @ ws1 @ ws2))))"

text \<open>Where the code keeps to this: no filter differs from the source and agrees with it on their common length, the fraction in
  \<^verbatim>\<open>%{T}\<close> has at most 8 digits, and a statement whose block contains a break is the last of its block, apart from an \<^verbatim>\<open>else\<close>.\<close>

definition fmt_exact :: "world \<Rightarrow> strpartial list \<Rightarrow> bool" where
  "fmt_exact w ps \<longleftrightarrow> (STR_DATETIMEFRACT \<in> set ps \<longrightarrow> length (dec_of_int (fract_sec w)) \<le> 8)"

definition from_exact :: "string option \<Rightarrow> string \<Rightarrow> bool" where
  "from_exact f src \<longleftrightarrow> (case f of None \<Rightarrow> True | Some s \<Rightarrow> memcmp s src = 0 \<longrightarrow> s = src)"

definition ctx_exact :: "world \<Rightarrow> string \<Rightarrow> node_ctx \<Rightarrow> bool" where
  "ctx_exact w src c =
     (case c of
        NODE_MATCH re t f \<Rightarrow> from_exact f src \<and> fmt_exact w t
      | NODE_MATCHALL f \<Rightarrow> from_exact f src
      | NODE_WRITE fmt dst \<Rightarrow> fmt_exact w fmt
      | _ \<Rightarrow> True)"

fun has_break :: "node \<Rightarrow> bool" where
  "has_break NoNode = False"
| "has_break (Node i c child sibling) = (c = NODE_BREAK \<or> has_break child \<or> has_break sibling)"

fun nothing_after :: "node \<Rightarrow> bool" where
  "nothing_after NoNode = True"
| "nothing_after (Node i c child sibling) = (c = NODE_MELSE \<and> sibling = NoNode)"

fun as_documented :: "world \<Rightarrow> string \<Rightarrow> node \<Rightarrow> bool" where
  "as_documented w src NoNode = True"
| "as_documented w src (Node i c child sibling) =
     (ctx_exact w src c \<and> (has_break child \<longrightarrow> nothing_after sibling) \<and> as_documented w src child \<and> as_documented w src sibling)"

lemma part_exact: "p = STR_DATETIMEFRACT \<longrightarrow> length (dec_of_int (fract_sec w)) \<le> 8 \<Longrightarrow> doc_part w ln src groups p = part_text w ln src groups p"
  by (simp add: doc_part_def)

lemma text_exact: "fmt_exact w ps \<Longrightarrow> doc_text w ln src groups ps = fmt_text w ln src groups ps"
  by (auto simp: doc_text_def fmt_text_def fmt_exact_def intro!: arg_cong[of _ _ concat] part_exact)

lemma memcmp_same: "memcmp s s = 0"
  by (induction s) simp_all

lemma filter_exact: "from_exact f src \<Longrightarrow> doc_from f src = from_ok f src"
  by (auto simp: from_exact_def doc_from_def from_ok_def memcmp_same split: option.splits)

lemma stmt_exact: "ctx_exact w src c \<Longrightarrow> doc_stmt w ln src c groups prev = stmt w ln src c groups prev"
  by (cases c) (simp_all add: doc_stmt_def stmt_def ctx_exact_def text_exact filter_exact)

lemma stmt_break: "fst (stmt w ln src c groups prev) = EVAL_BREAK \<longleftrightarrow> c = NODE_BREAK"
  by (cases c) (simp_all add: stmt_def split: option.splits)

lemma nothing_after_run: "nothing_after n \<Longrightarrow> snd (run w ln src n groups EVAL_TRUE) = []"
  by (cases n) (simp_all add: stmt_def)

lemma doc_run_agrees:
  assumes "as_documented w src n"
  shows "snd (doc_run w ln src n groups prev) = snd (run w ln src n groups prev)
     \<and> (fst (doc_run w ln src n groups prev) \<longrightarrow> has_break n)
     \<and> (fst (run w ln src n groups prev) = EVAL_BREAK \<longrightarrow> fst (doc_run w ln src n groups prev))"
  using assms
proof (induction n arbitrary: groups prev)
  case (Node i c child sibling)
  obtain r groups' ws where st: "stmt w ln src c groups prev = (r, groups', ws)" by (metis prod_cases3)
  have dst: "doc_stmt w ln src c groups prev = (r, groups', ws)" using stmt_exact Node.prems st by simp
  show ?case
  proof (cases "r = EVAL_BREAK")
    case True
    then have "c = NODE_BREAK" using stmt_break[of w ln src c groups prev] st by simp
    then show ?thesis using st dst True by simp
  next
    case False
    let ?d = "if r = EVAL_TRUE then doc_run w ln src child groups' r else (False, [])"
    let ?q = "if r = EVAL_TRUE then run w ln src child groups' r else (EVAL_TRUE, [])"
    obtain left ws1 q ws2 where e: "?d = (left, ws1)" "?q = (q, ws2)" by (metis surj_pair)
    have "snd ?d = snd ?q" "fst ?d \<longrightarrow> r = EVAL_TRUE \<and> has_break child" "fst ?q = EVAL_BREAK \<longrightarrow> fst ?d"
      using Node.IH(1)[of groups' r] Node.prems by (cases "r = EVAL_TRUE"; simp)+
    then have c: "ws1 = ws2" "left \<longrightarrow> r = EVAL_TRUE \<and> has_break child" "q = EVAL_BREAK \<longrightarrow> left" unfolding e by simp_all
    have R: "run w ln src (Node i c child sibling) groups prev
        = (r, ws @ ws2 @ (if q = EVAL_BREAK then [] else snd (run w ln src sibling groups r)))"
      using st False e(2) by simp
    have D: "doc_run w ln src (Node i c child sibling) groups prev = (if left then (True, ws @ ws1)
        else (fst (doc_run w ln src sibling groups r), ws @ ws1 @ snd (doc_run w ln src sibling groups r)))"
      unfolding doc_run.simps dst prod.case e(1) using False by (simp split: prod.split)
    show ?thesis
    proof (cases left)
      case True
      with c(2) Node.prems have "snd (run w ln src sibling groups r) = []" by (simp add: nothing_after_run)
      with True c False show ?thesis unfolding R D by simp
    next
      case no: False
      with c(1,3) False Node.IH(2)[of groups r] Node.prems show ?thesis unfolding R D by auto
    qed
  qed
qed simp

section \<open>Properties\<close>


definition nested_rule :: node where
  "nested_rule = Node 0 NODE_PASSTHROUGH
     (Node 1 (NODE_MATCH [STR_VERBATIM ''at''] [STR_LOGLINE] None)
       (Node 2 (NODE_MATCH [STR_VERBATIM ''c''] [STR_LOGLINE] None)
         (Node 3 (NODE_WRITE [STR_CAPTURE_GROUP 1] ''D'') NoNode NoNode)
         (Node 4 (NODE_WRITE [STR_CAPTURE_GROUP 1] ''D'') NoNode NoNode))
       (Node 5 NODE_MELSE (Node 6 (NODE_WRITE [STR_VERBATIM ''no''] ''D'') NoNode NoNode) NoNode)) NoNode"

lemma nested_rule_scoped: "scoped False nested_rule" "nested_rule \<noteq> NoNode" "distinct (ids nested_rule)"
  by (auto simp: nested_rule_def nospecials_def SPECIALS_def intro!: pat_ok_plain)


end
