(* ===== verification/Config_File.thy ===== *)
theory Config_File
  imports Config_Tree Config_Types Rule_Semantics
begin

text \<open>
  Whole configurations: the declarations and rules of a file, what they mean, and the proof that the parser gives them this
  meaning.
\<close>

section \<open>Declarations\<close>

datatype cfg_decl =
    Var_D string string
  | Setting_D token string
  | Source_D bool string string
  | Destination_D bool string string
  | Rotlog_D string string string
  | Tcp_D string string string
  | Rule_D "cfg_stmt list"

abbreviation path_token :: "bool \<Rightarrow> token" where "path_token fifo \<equiv> (if fifo then TFIFO else TFILE)"

fun decl_tokens :: "cfg_decl \<Rightarrow> token list" where
  "decl_tokens (Var_D v f) = [TVAR, symbol_word v, Equals, quoted_word f, Semicolon]"
| "decl_tokens (Setting_D tk v) = [tk, quoted_word v, Semicolon]"
| "decl_tokens (Source_D fifo p y) = [TSOURCE, path_token fifo, quoted_word p, TAS, symbol_word y, Semicolon]"
| "decl_tokens (Destination_D fifo p y) = [TDESTINATION, path_token fifo, quoted_word p, TAS, symbol_word y, Semicolon]"
| "decl_tokens (Rotlog_D p n y) = [TDESTINATION, TROTLOG, quoted_word p, quoted_word n, TAS, symbol_word y, Semicolon]"
| "decl_tokens (Tcp_D h p y) = [TDESTINATION, TTCP, quoted_word h, quoted_word p, TAS, symbol_word y, Semicolon]"
| "decl_tokens (Rule_D sts) = [TRULE, Open_Brace] @ stmts_tokens sts @ [Close_Brace]"

definition cfg_tokens :: "cfg_decl list \<Rightarrow> token list" where
  "cfg_tokens ds = concat (map decl_tokens ds)"

section \<open>Their meaning\<close>

text \<open>The text of a path: literal text, the environment, and variables whose value is made of these. The first part may not be a
  variable.\<close>

fun flat_text :: "(string \<Rightarrow> string option) \<Rightarrow> strpartial list \<Rightarrow> string option" where
  "flat_text env [] = Some []"
| "flat_text env (STR_VERBATIM t # ps) = map_option ((@) t) (flat_text env ps)"
| "flat_text env (STR_ENV v # ps) = do { t \<leftarrow> env v; map_option ((@) t) (flat_text env ps) }"
| "flat_text env (p # ps) = None"

fun parts_text :: "(string \<rightharpoonup> strpartial list) \<Rightarrow> (string \<Rightarrow> string option) \<Rightarrow> strpartial list \<Rightarrow> string option" where
  "parts_text vt env [] = Some []"
| "parts_text vt env (STR_VAR v # ps) = do { qs \<leftarrow> vt v; t \<leftarrow> flat_text env qs; map_option ((@) t) (parts_text vt env ps) }"
| "parts_text vt env (p # ps) = do { t \<leftarrow> flat_text env [p]; map_option ((@) t) (parts_text vt env ps) }"

fun is_var :: "strpartial \<Rightarrow> bool" where
  "is_var (STR_VAR v) = True"
| "is_var p = False"

definition static_text :: "(string \<rightharpoonup> strpartial list) \<Rightarrow> (string \<Rightarrow> string option) \<Rightarrow> string \<Rightarrow> string option" where
  "static_text vt env v = strpartial_split v \<bind> (\<lambda>ps. if ps = [] \<or> is_var (hd ps) then None else parts_text vt env ps)"

record cfg_meaning =
  m_config :: dlog_config
  m_vars :: "string \<rightharpoonup> strpartial list"
  m_origins :: "cfg_origin list"
  m_rule :: "cfg_stmt list option"

text \<open>A port given on the command line stays.\<close>

definition set_config :: "token \<Rightarrow> string \<Rightarrow> dlog_config \<Rightarrow> dlog_config option" where
  "set_config tk v c =
     (case tk of
        TPIDFILE \<Rightarrow> Some (c\<lparr>pidfile := v\<rparr>)
      | TLOGFILE \<Rightarrow> Some (c\<lparr>logfile := v\<rparr>)
      | TLISTEN \<Rightarrow> Some (case listenskt_port c of None \<Rightarrow> c\<lparr>listenskt_port := Some v\<rparr> | Some _ \<Rightarrow> c)
      | TDATETIMEFORMAT \<Rightarrow> Some (c\<lparr>datetime_format := v\<rparr>)
      | TTIMESTAMPRES \<Rightarrow> map_option (\<lambda>d. c\<lparr>fractsec_divider := d\<rparr>) (fractsec_of v)
      | _ \<Rightarrow> None)"

definition with_origin :: "cfg_meaning \<Rightarrow> cfg_origin \<Rightarrow> cfg_meaning" where
  "with_origin m og = m\<lparr>m_origins := og # m_origins m\<rparr>"

text \<open>The meaning after a declaration, if it is valid. Only the first rule counts. The size of a rotating log must be a number of 32 bits.\<close>

fun decl_meaning :: "cfg_world \<Rightarrow> cfg_decl \<Rightarrow> cfg_meaning \<Rightarrow> cfg_meaning option" where
  "decl_meaning W (Var_D v f) m = (if fmt_ok f then Some (m\<lparr>m_vars := (m_vars m)(v \<mapsto> fmt_of f)\<rparr>) else None)"
| "decl_meaning W (Setting_D tk v) m = map_option (\<lambda>c. m\<lparr>m_config := c\<rparr>) (set_config tk v (m_config m))"
| "decl_meaning W (Source_D fifo p y) m =
     map_option (\<lambda>t. with_origin m (new_origin (if fifo then D_FIFOR else D_FILER) y t 0 [] [])) (static_text (m_vars m) (cfg_env W) p)"
| "decl_meaning W (Destination_D fifo p y) m =
     map_option (\<lambda>t. with_origin m (new_origin (if fifo then D_FIFOW else D_FILEW) y t 0 [] [])) (static_text (m_vars m) (cfg_env W) p)"
| "decl_meaning W (Rotlog_D p n y) m =
     (if strtol n = 0 \<and> errno_einval W n \<or> strtol n < - (2 ^ 31) \<or> 2 ^ 31 \<le> strtol n then None
      else map_option (\<lambda>t. with_origin m (new_origin D_ROTLOG y t (strtol n) [] [])) (static_text (m_vars m) (cfg_env W) p))"
| "decl_meaning W (Tcp_D h p y) m = do {
     host \<leftarrow> static_text (m_vars m) (cfg_env W) h;
     port \<leftarrow> static_text (m_vars m) (cfg_env W) p;
     Some (with_origin m (new_origin D_SOCKETW y [] 0 host port)) }"
| "decl_meaning W (Rule_D sts) m =
     (if stmts_ok (m_vars m) sts then Some (m\<lparr>m_rule := Some (case m_rule m of None \<Rightarrow> sts | Some r \<Rightarrow> r)\<rparr>) else None)"

fun decls_meaning :: "cfg_world \<Rightarrow> cfg_decl list \<Rightarrow> cfg_meaning \<Rightarrow> cfg_meaning option" where
  "decls_meaning W [] m = Some m"
| "decls_meaning W (d # ds) m = decl_meaning W d m \<bind> decls_meaning W ds"

text \<open>The parser's state has this meaning: the tree from the root is that of the rule.\<close>

definition root_is :: "pstate \<Rightarrow> cfg_stmt list option \<Rightarrow> bool" where
  "root_is s r = (case r of
     None \<Rightarrow> rootnode s = None
   | Some sts \<Rightarrow> \<exists>b t. tree_at (nodes s) (rootnode s) (Node b NODE_PASSTHROUGH t NoNode) \<and> rep_stmts sts t
       \<and> distinct (b # ids t) \<and> (\<forall>i \<in> set (b # ids t). i < next_node s))"

definition means :: "pstate \<Rightarrow> cfg_meaning \<Rightarrow> bool" where
  "means s m \<longleftrightarrow> pconfig s = m_config m \<and> vars_table s = m_vars m \<and> origins s = m_origins m \<and> root_is s (m_rule m)"

section \<open>Parsing declarations\<close>

lemma resolve_flat: "flat_text env ps = Some t \<Longrightarrow> strpartial_resolve_ex vt env ps s = Some (Some (s @ t))"
proof (induction env ps arbitrary: s t rule: flat_text.induct)
  case (1 env)
  then show ?case by (subst strpartial_resolve_ex.simps) simp
next
  case (2 env u ps)
  then show ?case by (subst strpartial_resolve_ex.simps) auto
next
  case (3 env v ps)
  then show ?case by (subst strpartial_resolve_ex.simps) (auto simp: bind_eq_Some_conv)
qed simp_all

lemma resolve_parts: "parts_text vt env ps = Some t \<Longrightarrow> strpartial_resolve_ex vt env ps s = Some (Some (s @ t))"
proof (induction ps arbitrary: s t)
  case Nil
  then show ?case by (subst strpartial_resolve_ex.simps) simp
next
  case (Cons p ps)
  then show ?case by (cases p; subst strpartial_resolve_ex.simps) (auto simp: bind_eq_Some_conv resolve_flat)
qed

lemma static_resolves:
  assumes "static_text (vars_table s) (cfg_env W) v = Some t"
  shows "\<exists>ps. check_partial_static (v, q, y) s = ok ps \<and> resolve_ex W s ps = ok t"
proof -
  from assms obtain p ps where ps: "strpartial_split v = Some (p # ps)" "\<not> is_var p" "parts_text (vars_table s) (cfg_env W) (p # ps) = Some t"
    by (auto simp: static_text_def bind_eq_Some_conv neq_Nil_conv split: if_splits)
  then have "strpartial_isstatic (vars_table s) (p # ps) True" by (cases p) auto
  with ps resolve_parts[OF ps(3), of "[]"] show ?thesis by (simp add: check_partial_static_def check_partial_def resolve_ex_def)
qed

text \<open>From a state with meaning \<open>m\<close>, the parser goes on after the declaration with meaning \<open>m'\<close>.\<close>

definition parses_decl :: "cfg_world \<Rightarrow> cfg_decl \<Rightarrow> bool" where
  "parses_decl W d \<longleftrightarrow> (\<forall>s rest m m'. decl_meaning W d m = Some m' \<longrightarrow> means s m \<longrightarrow> lexes (decl_tokens d @ rest) (yyfiles s) \<longrightarrow>
     (\<exists>s'. yyparse W [] s = yyparse W [] s' \<and> lexes rest (yyfiles s') \<and> means s' m'))"

lemma root_is_simps [simp]:
  "root_is (s\<lparr>yyfiles := fs\<rparr>) r = root_is s r" "root_is (s\<lparr>pconfig := c\<rparr>) r = root_is s r"
  "root_is (s\<lparr>vars_table := vt\<rparr>) r = root_is s r" "root_is (s\<lparr>origins := os\<rparr>) r = root_is s r"
  by (cases r; simp add: root_is_def)+

text \<open>A declaration that ends with a semicolon: its action is done before the semicolon is read.\<close>

lemma parses_action:
  assumes "\<And>s ts m m'. decl_meaning W d m = Some m' \<Longrightarrow> means s m \<Longrightarrow> lexes (decl_tokens d @ ts) (yyfiles s) \<Longrightarrow>
      \<exists>fs s'. lexes (Semicolon # ts) fs \<and> parse_one W [] s = in_stack [] (expect Semicolon (s'\<lparr>yyfiles := fs\<rparr>)) \<and> means s' m'"
  shows "parses_decl W d"
  unfolding parses_decl_def
proof (intro allI impI)
  fix s rest m m' assume a: "decl_meaning W d m = Some m'" "means s m" "lexes (decl_tokens d @ rest) (yyfiles s)"
  from assms[OF this] obtain fs s' where s': "lexes (Semicolon # rest) fs"
    "parse_one W [] s = in_stack [] (expect Semicolon (s'\<lparr>yyfiles := fs\<rparr>))" "means s' m'" by blast
  obtain fs' where fs': "expect Semicolon (s'\<lparr>yyfiles := fs\<rparr>) = ok (s'\<lparr>yyfiles := fs'\<rparr>)" "lexes rest fs'" by (rule expect_lexes[OF s'(1)])
  then have "parse_one W [] s = ok (Inr ([], s'\<lparr>yyfiles := fs'\<rparr>))" using s'(2) by (simp add: in_stack_def)
  then have "yyparse W [] s = yyparse W [] (s'\<lparr>yyfiles := fs'\<rparr>)" by (rule yyparse_step)
  with fs'(2) s'(3) show "\<exists>s'. yyparse W [] s = yyparse W [] s' \<and> lexes rest (yyfiles s') \<and> means s' m'"
    by (intro exI[of _ "s'\<lparr>yyfiles := fs'\<rparr>"]) (simp add: means_def)
qed

lemma files_commute:
  "s\<lparr>yyfiles := fs, vars_table := vt\<rparr> = s\<lparr>vars_table := vt, yyfiles := fs\<rparr>" "s\<lparr>yyfiles := fs, pconfig := c\<rparr> = s\<lparr>pconfig := c, yyfiles := fs\<rparr>"
  by simp_all

lemma parses_var: "parses_decl W (Var_D v f)"
proof (rule parses_action)
  fix s :: pstate and ts m m' assume m: "decl_meaning W (Var_D v f) m = Some m'" "means s m" and "lexes (decl_tokens (Var_D v f) @ ts) (yyfiles s)"
  then have "lexes (TVAR # symbol_word v # Equals # quoted_word f # Semicolon # ts) (yyfiles s)" by simp
  then obtain fs1 where 1: "next_tok s = ok (TVAR, s\<lparr>yyfiles := fs1\<rparr>)" "lexes (symbol_word v # Equals # quoted_word f # Semicolon # ts) fs1"
    by (rule next_tok_lexes)
  obtain fs2 where 2: "expect_string (s\<lparr>yyfiles := fs1\<rparr>) = ok ((v, False, True), s\<lparr>yyfiles := fs2\<rparr>)" "lexes (Equals # quoted_word f # Semicolon # ts) fs2"
    by (rule expect_string_lexes[OF 1(2)])
  obtain fs3 where 3: "expect Equals (s\<lparr>yyfiles := fs2\<rparr>) = ok (s\<lparr>yyfiles := fs3\<rparr>)" "lexes (quoted_word f # Semicolon # ts) fs3"
    by (rule expect_lexes[OF 2(2)])
  obtain fs4 where 4: "expect_string (s\<lparr>yyfiles := fs3\<rparr>) = ok ((f, True, False), s\<lparr>yyfiles := fs4\<rparr>)" "lexes (Semicolon # ts) fs4"
    by (rule expect_string_lexes[OF 3(2)])
  let ?s = "s\<lparr>vars_table := (vars_table s)(v \<mapsto> fmt_of f)\<rparr>"
  have "parse_one W [] s = in_stack [] (expect Semicolon (?s\<lparr>yyfiles := fs4\<rparr>))" and "means ?s m'"
    using m 1(1) 2(1) 3(1) 4(1)
    by (auto simp: parse_one_def command_def var_cmd_def check_symbol_ok check_partial_ok means_def files_commute split: if_splits)
  with 4(2) show "\<exists>fs s'. lexes (Semicolon # ts) fs \<and> parse_one W [] s = in_stack [] (expect Semicolon (s'\<lparr>yyfiles := fs\<rparr>)) \<and> means s' m'" by blast
qed

lemma parses_setting: "parses_decl W (Setting_D tk v)"
proof (rule parses_action)
  fix s :: pstate and ts m m' assume m: "decl_meaning W (Setting_D tk v) m = Some m'" "means s m" and "lexes (decl_tokens (Setting_D tk v) @ ts) (yyfiles s)"
  then have "lexes (tk # quoted_word v # Semicolon # ts) (yyfiles s)" by simp
  then obtain fs1 where 1: "next_tok s = ok (tk, s\<lparr>yyfiles := fs1\<rparr>)" "lexes (quoted_word v # Semicolon # ts) fs1" by (rule next_tok_lexes)
  obtain fs2 where 2: "expect_string (s\<lparr>yyfiles := fs1\<rparr>) = ok ((v, True, False), s\<lparr>yyfiles := fs2\<rparr>)" "lexes (Semicolon # ts) fs2"
    by (rule expect_string_lexes[OF 1(2)])
  from m(1) obtain c where c: "set_config tk v (m_config m) = Some c" "m' = m\<lparr>m_config := c\<rparr>" by auto
  have eq: "config_cmd tk (s\<lparr>yyfiles := fs1\<rparr>) = expect Semicolon (s\<lparr>yyfiles := fs2, pconfig := c\<rparr>)"
    and tk: "tk \<in> {TPIDFILE, TLOGFILE, TLISTEN, TDATETIMEFORMAT, TTIMESTAMPRES}"
    using c(1) m(2) 2(1) by (auto simp: config_cmd_def set_config_def means_def split: token.splits option.splits)
  have "parse_one W [] s = in_stack [] (expect Semicolon ((s\<lparr>pconfig := c\<rparr>)\<lparr>yyfiles := fs2\<rparr>))"
    using 1(1) eq tk by (auto simp: parse_one_def command_def files_commute)
  moreover have "means (s\<lparr>pconfig := c\<rparr>) m'" using m(2) c(2) by (simp add: means_def)
  ultimately show "\<exists>fs s'. lexes (Semicolon # ts) fs \<and> parse_one W [] s = in_stack [] (expect Semicolon (s'\<lparr>yyfiles := fs\<rparr>)) \<and> means s' m'"
    using 2(2) by blast
qed

lemma means_origin: "means s m \<Longrightarrow> means (add_origin og s) (with_origin m og)"
  by (simp add: means_def add_origin_def with_origin_def)

lemma add_origin_files: "add_origin og (s\<lparr>yyfiles := fs\<rparr>) = (add_origin og s)\<lparr>yyfiles := fs\<rparr>"
  by (simp add: add_origin_def)

text \<open>The commands for files and fifos differ in what the path is checked for.\<close>

lemma path_cmd_ok:
  assumes "static_text (vars_table s) (cfg_env W) p = Some t" and "lexes (quoted_word p # TAS # symbol_word y # ts) fs1"
  obtains fs where "lexes ts fs"
    "path_cmd W ty checked (s\<lparr>yyfiles := fs1\<rparr>) = expect Semicolon ((add_origin (new_origin ty y t 0 [] []) s)\<lparr>yyfiles := fs\<rparr>)"
proof -
  obtain fs2 where 2: "expect_string (s\<lparr>yyfiles := fs1\<rparr>) = ok ((p, True, False), s\<lparr>yyfiles := fs2\<rparr>)" "lexes (TAS # symbol_word y # ts) fs2"
    by (rule expect_string_lexes[OF assms(2)])
  obtain fs3 where 3: "expect TAS (s\<lparr>yyfiles := fs2\<rparr>) = ok (s\<lparr>yyfiles := fs3\<rparr>)" "lexes (symbol_word y # ts) fs3" by (rule expect_lexes[OF 2(2)])
  obtain fs4 where 4: "expect_string (s\<lparr>yyfiles := fs3\<rparr>) = ok ((y, False, True), s\<lparr>yyfiles := fs4\<rparr>)" "lexes ts fs4" by (rule expect_string_lexes[OF 3(2)])
  let ?s = "s\<lparr>yyfiles := fs4\<rparr>"
  obtain ps where "check_partial_static (p, True, False) ?s = ok ps" "resolve_ex W ?s ps = ok t"
    using static_resolves[of ?s W p t True False] assms(1) by auto
  then have "path_cmd W ty checked (s\<lparr>yyfiles := fs1\<rparr>) = expect Semicolon ((add_origin (new_origin ty y t 0 [] []) s)\<lparr>yyfiles := fs4\<rparr>)"
    using 2(1) 3(1) 4(1) by (simp add: path_cmd_def check_symbol_ok resolved_text_def resolved_checked_def add_origin_files)
  with 4(2) that show ?thesis by blast
qed

lemma parses_path:
  assumes tokens: "\<And>ts. decl_tokens d @ ts = tk0 # tk1 # quoted_word p # TAS # symbol_word y # Semicolon # ts"
    and step: "\<And>s s1 s2. next_tok s = ok (tk0, s1) \<Longrightarrow> next_tok s1 = ok (tk1, s2) \<Longrightarrow> parse_one W [] s = in_stack [] (path_cmd W ty checked s2)"
    and meaning: "\<And>m. decl_meaning W d m = map_option (\<lambda>t. with_origin m (new_origin ty y t 0 [] [])) (static_text (m_vars m) (cfg_env W) p)"
  shows "parses_decl W d"
proof (rule parses_action)
  fix s :: pstate and ts m m' assume m: "decl_meaning W d m = Some m'" "means s m" and lx: "lexes (decl_tokens d @ ts) (yyfiles s)"
  obtain fs1 where 1: "next_tok s = ok (tk0, s\<lparr>yyfiles := fs1\<rparr>)" "lexes (tk1 # quoted_word p # TAS # symbol_word y # Semicolon # ts) fs1"
    by (rule next_tok_lexes[OF lx[unfolded tokens]])
  obtain fs2 where 2: "next_tok (s\<lparr>yyfiles := fs1\<rparr>) = ok (tk1, s\<lparr>yyfiles := fs2\<rparr>)" "lexes (quoted_word p # TAS # symbol_word y # Semicolon # ts) fs2"
    by (rule next_lexes[OF 1(2)])
  from m obtain t where t: "static_text (vars_table s) (cfg_env W) p = Some t" "m' = with_origin m (new_origin ty y t 0 [] [])"
    by (auto simp: means_def meaning)
  obtain fs where fs: "lexes (Semicolon # ts) fs"
    "path_cmd W ty checked (s\<lparr>yyfiles := fs2\<rparr>) = expect Semicolon ((add_origin (new_origin ty y t 0 [] []) s)\<lparr>yyfiles := fs\<rparr>)"
    by (rule path_cmd_ok[OF t(1) 2(2)])
  with step[OF 1(1) 2(1)] means_origin[OF m(2)] t(2)
  show "\<exists>fs s'. lexes (Semicolon # ts) fs \<and> parse_one W [] s = in_stack [] (expect Semicolon (s'\<lparr>yyfiles := fs\<rparr>)) \<and> means s' m'" by auto
qed

lemma parses_source: "parses_decl W (Source_D fifo p y)"
  by (rule parses_path[where ty = "if fifo then D_FIFOR else D_FILER" and checked = False])
    (auto simp: parse_one_def command_def source_cmd_def)

lemma parses_destination: "parses_decl W (Destination_D fifo p y)"
  by (rule parses_path[where ty = "if fifo then D_FIFOW else D_FILEW" and checked = True])
    (auto simp: parse_one_def command_def destination_cmd_def)

lemma parses_rotlog: "parses_decl W (Rotlog_D p n y)"
proof (rule parses_action)
  fix s :: pstate and ts m m' assume m: "decl_meaning W (Rotlog_D p n y) m = Some m'" "means s m" and "lexes (decl_tokens (Rotlog_D p n y) @ ts) (yyfiles s)"
  then have "lexes (TDESTINATION # TROTLOG # quoted_word p # quoted_word n # TAS # symbol_word y # Semicolon # ts) (yyfiles s)" by simp
  then obtain fs1 where 1: "next_tok s = ok (TDESTINATION, s\<lparr>yyfiles := fs1\<rparr>)" "lexes (TROTLOG # quoted_word p # quoted_word n # TAS # symbol_word y # Semicolon # ts) fs1"
    by (rule next_tok_lexes)
  obtain fs2 where 2: "next_tok (s\<lparr>yyfiles := fs1\<rparr>) = ok (TROTLOG, s\<lparr>yyfiles := fs2\<rparr>)" "lexes (quoted_word p # quoted_word n # TAS # symbol_word y # Semicolon # ts) fs2"
    by (rule next_lexes[OF 1(2)])
  obtain fs3 where 3: "expect_string (s\<lparr>yyfiles := fs2\<rparr>) = ok ((p, True, False), s\<lparr>yyfiles := fs3\<rparr>)" "lexes (quoted_word n # TAS # symbol_word y # Semicolon # ts) fs3"
    by (rule expect_string_lexes[OF 2(2)])
  obtain fs4 where 4: "expect_string (s\<lparr>yyfiles := fs3\<rparr>) = ok ((n, True, False), s\<lparr>yyfiles := fs4\<rparr>)" "lexes (TAS # symbol_word y # Semicolon # ts) fs4"
    by (rule expect_string_lexes[OF 3(2)])
  obtain fs5 where 5: "expect TAS (s\<lparr>yyfiles := fs4\<rparr>) = ok (s\<lparr>yyfiles := fs5\<rparr>)" "lexes (symbol_word y # Semicolon # ts) fs5" by (rule expect_lexes[OF 4(2)])
  obtain fs where fs: "expect_string (s\<lparr>yyfiles := fs5\<rparr>) = ok ((y, False, True), s\<lparr>yyfiles := fs\<rparr>)" "lexes (Semicolon # ts) fs" by (rule expect_string_lexes[OF 5(2)])
  from m obtain t where t: "static_text (vars_table s) (cfg_env W) p = Some t" "m' = with_origin m (new_origin D_ROTLOG y t (strtol n) [] [])"
    "\<not> (strtol n = 0 \<and> errno_einval W n)" by (auto simp: means_def split: if_splits)
  let ?s = "s\<lparr>yyfiles := fs\<rparr>"
  obtain ps where "check_partial_static (p, True, False) ?s = ok ps" "resolve_ex W ?s ps = ok t"
    using static_resolves[of ?s W p t True False] t(1) by auto
  then have "parse_one W [] s = in_stack [] (expect Semicolon ((add_origin (new_origin D_ROTLOG y t (strtol n) [] []) s)\<lparr>yyfiles := fs\<rparr>))"
    using 1(1) 2(1) 3(1) 4(1) 5(1) fs(1) t(3)
    by (auto simp: parse_one_def command_def destination_cmd_def rotlog_cmd_def check_symbol_ok add_origin_files)
  with fs(2) means_origin[OF m(2)] t(2)
  show "\<exists>fs s'. lexes (Semicolon # ts) fs \<and> parse_one W [] s = in_stack [] (expect Semicolon (s'\<lparr>yyfiles := fs\<rparr>)) \<and> means s' m'" by blast
qed

lemma parses_tcp: "parses_decl W (Tcp_D h p y)"
proof (rule parses_action)
  fix s :: pstate and ts m m' assume m: "decl_meaning W (Tcp_D h p y) m = Some m'" "means s m" and "lexes (decl_tokens (Tcp_D h p y) @ ts) (yyfiles s)"
  then have "lexes (TDESTINATION # TTCP # quoted_word h # quoted_word p # TAS # symbol_word y # Semicolon # ts) (yyfiles s)" by simp
  then obtain fs1 where 1: "next_tok s = ok (TDESTINATION, s\<lparr>yyfiles := fs1\<rparr>)" "lexes (TTCP # quoted_word h # quoted_word p # TAS # symbol_word y # Semicolon # ts) fs1"
    by (rule next_tok_lexes)
  obtain fs2 where 2: "next_tok (s\<lparr>yyfiles := fs1\<rparr>) = ok (TTCP, s\<lparr>yyfiles := fs2\<rparr>)" "lexes (quoted_word h # quoted_word p # TAS # symbol_word y # Semicolon # ts) fs2"
    by (rule next_lexes[OF 1(2)])
  obtain fs3 where 3: "expect_string (s\<lparr>yyfiles := fs2\<rparr>) = ok ((h, True, False), s\<lparr>yyfiles := fs3\<rparr>)" "lexes (quoted_word p # TAS # symbol_word y # Semicolon # ts) fs3"
    by (rule expect_string_lexes[OF 2(2)])
  obtain fs4 where 4: "expect_string (s\<lparr>yyfiles := fs3\<rparr>) = ok ((p, True, False), s\<lparr>yyfiles := fs4\<rparr>)" "lexes (TAS # symbol_word y # Semicolon # ts) fs4"
    by (rule expect_string_lexes[OF 3(2)])
  obtain fs5 where 5: "expect TAS (s\<lparr>yyfiles := fs4\<rparr>) = ok (s\<lparr>yyfiles := fs5\<rparr>)" "lexes (symbol_word y # Semicolon # ts) fs5" by (rule expect_lexes[OF 4(2)])
  obtain fs where fs: "expect_string (s\<lparr>yyfiles := fs5\<rparr>) = ok ((y, False, True), s\<lparr>yyfiles := fs\<rparr>)" "lexes (Semicolon # ts) fs" by (rule expect_string_lexes[OF 5(2)])
  from m obtain th tp where t: "static_text (vars_table s) (cfg_env W) h = Some th" "static_text (vars_table s) (cfg_env W) p = Some tp"
    "m' = with_origin m (new_origin D_SOCKETW y [] 0 th tp)" by (auto simp: means_def bind_eq_Some_conv)
  let ?s = "s\<lparr>yyfiles := fs\<rparr>"
  obtain hs where "check_partial_static (h, True, False) ?s = ok hs" "resolve_ex W ?s hs = ok th"
    using static_resolves[of ?s W h th True False] t(1) by auto
  moreover obtain ps where "check_partial_static (p, True, False) ?s = ok ps" "resolve_ex W ?s ps = ok tp"
    using static_resolves[of ?s W p tp True False] t(2) by auto
  ultimately have "parse_one W [] s = in_stack [] (expect Semicolon ((add_origin (new_origin D_SOCKETW y [] 0 th tp) s)\<lparr>yyfiles := fs\<rparr>))"
    using 1(1) 2(1) 3(1) 4(1) 5(1) fs(1)
    by (simp add: parse_one_def command_def destination_cmd_def tcp_cmd_def check_symbol_ok resolved_text_def add_origin_files)
  with fs(2) means_origin[OF m(2)] t(3)
  show "\<exists>fs s'. lexes (Semicolon # ts) fs \<and> parse_one W [] s = in_stack [] (expect Semicolon (s'\<lparr>yyfiles := fs\<rparr>)) \<and> means s' m'" by blast
qed

text \<open>A rule opens a block without a block around it, whatever block was left open before.\<close>

lemma rule_opens:
  assumes "lexes (TRULE # Open_Brace # ts) (yyfiles s)"
  obtains fs where "lexes ts fs" "yyparse W [] s = yyparse W [Rule_Block] (open_block (s\<lparr>yyfiles := fs\<rparr>))"
    "blocks_inv (open_block (s\<lparr>yyfiles := fs\<rparr>)) [(next_node s, NoNode)]"
proof -
  obtain fs1 where 1: "next_tok s = ok (TRULE, s\<lparr>yyfiles := fs1\<rparr>)" "lexes (Open_Brace # ts) fs1" by (rule next_tok_lexes[OF assms])
  obtain fs where 2: "expect Open_Brace (s\<lparr>yyfiles := fs1\<rparr>) = ok (s\<lparr>yyfiles := fs\<rparr>)" "lexes ts fs" by (rule expect_lexes[OF 1(2)])
  have "yyparse W [] s = yyparse W [Rule_Block] (open_block (s\<lparr>yyfiles := fs\<rparr>))"
    using 1(1) 2(1) by (intro yyparse_step) (simp add: parse_one_def command_def begin_block_def)
  moreover have "blocks_inv (open_block (s\<lparr>yyfiles := fs\<rparr>)) [(next_node s, NoNode)]"
    using open_block_ok[of "s\<lparr>yyfiles := fs\<rparr>" "[]"] by (simp add: blocks_inv_def)
  ultimately show ?thesis using that 2(2) by blast
qed

lemma parses_rule: "parses_decl W (Rule_D sts)"
  unfolding parses_decl_def
proof (intro allI impI)
  fix s rest m m' assume m: "decl_meaning W (Rule_D sts) m = Some m'" "means s m" and "lexes (decl_tokens (Rule_D sts) @ rest) (yyfiles s)"
  then have lx: "lexes (TRULE # Open_Brace # stmts_tokens sts @ Close_Brace # rest) (yyfiles s)" by simp
  obtain fs2 where 2: "lexes (stmts_tokens sts @ Close_Brace # rest) fs2" and p1: "yyparse W [] s = yyparse W [Rule_Block] (open_block (s\<lparr>yyfiles := fs2\<rparr>))"
    and s1: "blocks_inv (open_block (s\<lparr>yyfiles := fs2\<rparr>)) [(next_node s, NoNode)]" by (rule rule_opens[OF lx])
  let ?s1 = "open_block (s\<lparr>yyfiles := fs2\<rparr>)" and ?n = "next_node s"
  have v: "vars_table ?s1 = vars_table s" "yyfiles ?s1 = fs2" "next_node ?s1 = Suc ?n" "pconfig ?s1 = pconfig s" "origins ?s1 = origins s"
    "rootnode ?s1 = Some (case rootnode s of None \<Rightarrow> ?n | Some r \<Rightarrow> r)" "\<forall>i < ?n. nodes ?s1 i = nodes s i"
    by (auto simp: open_block_def Let_def split: option.splits)
  have sok: "stmts_ok (vars_table s) sts" "m' = m\<lparr>m_rule := Some (case m_rule m of None \<Rightarrow> sts | Some r \<Rightarrow> r)\<rparr>"
    using m by (auto simp: means_def split: if_splits)
  obtain s2 u where s2: "yyparse W [Rule_Block] ?s1 = yyparse W [Rule_Block] s2" "lexes (Close_Brace # rest) (yyfiles s2)"
    "blocks_inv s2 [(?n, u)]" "rep_stmts sts u" "keeps {?n} ?s1 s2"
    using parses_all(2)[of W sts, unfolded parses_stmts_def, rule_format, of ?s1 "Close_Brace # rest" ?n NoNode "[]" Rule_Block "[]"] 2 s1 v sok(1) by auto
  obtain fs' where fs': "next_tok s2 = ok (Close_Brace, s2\<lparr>yyfiles := fs'\<rparr>)" "lexes rest fs'" by (rule next_tok_lexes[OF s2(2)])
  have p2: "yyparse W [Rule_Block] s2 = yyparse W [] (s2\<lparr>yyfiles := fs'\<rparr>)"
    using fs'(1) by (intro yyparse_step) (simp add: parse_one_def statement_def in_stack_def end_block_def)
  have old: "nodes s2 i = nodes s i" if "i < ?n" for i using that s2(5) v(3,7) by (simp add: keeps_def)
  have new: "tree_at (nodes s2) (Some ?n) (Node ?n NODE_PASSTHROUGH u NoNode) \<and> distinct (?n # ids u) \<and> (\<forall>i \<in> set (?n # ids u). i < next_node s2)"
    using s2(3) by (auto simp: blocks_inv_def)
  have r: "rootnode s2 = Some (case rootnode s of None \<Rightarrow> ?n | Some r \<Rightarrow> r)" "?n < next_node s2" using s2(5) v(3,6) by (simp_all add: keeps_def)
  have "root_is s2 (m_rule m')"
  proof (cases "m_rule m")
    case None
    then have "rootnode s = None" using m(2) by (simp add: means_def root_is_def)
    then show ?thesis using None new r s2(4) sok(2) by (auto simp: root_is_def simp del: tree_at.simps)
  next
    case (Some sts0)
    then obtain b t where t: "tree_at (nodes s) (rootnode s) (Node b NODE_PASSTHROUGH t NoNode)" "rep_stmts sts0 t" "distinct (b # ids t)"
      "\<forall>i \<in> set (b # ids t). i < ?n" using m(2) by (auto simp: means_def root_is_def simp del: tree_at.simps)
    then have "rootnode s2 = rootnode s" using r by auto
    moreover have "tree_at (nodes s2) (rootnode s) (Node b NODE_PASSTHROUGH t NoNode)"
      using t(1,4) old tree_frame[of "Node b NODE_PASSTHROUGH t NoNode" "nodes s2" "nodes s"] by auto
    ultimately show ?thesis using Some t(2-4) r(2) sok(2) by (fastforce simp: root_is_def simp del: tree_at.simps)
  qed
  then have "means (s2\<lparr>yyfiles := fs'\<rparr>) m'" using m(2) s2(5) v sok(2) by (simp add: means_def keeps_def)
  with p1 p2 s2(1) fs'(2) show "\<exists>s'. yyparse W [] s = yyparse W [] s' \<and> lexes rest (yyfiles s') \<and> means s' m'"
    by (intro exI[of _ "s2\<lparr>yyfiles := fs'\<rparr>"]) simp
qed

lemma parses_any: "parses_decl W d"
  by (cases d) (simp_all add: parses_var parses_setting parses_source parses_destination parses_rotlog parses_tcp parses_rule)

lemma yyparse_end:
  assumes "lexes [] (yyfiles s)"
  shows "yyparse W [] s = ok (s\<lparr>yyfiles := []\<rparr>)"
proof -
  have "parse_one W [] s = ok (Inl (s\<lparr>yyfiles := []\<rparr>))" using assms by (simp add: parse_one_def next_tok_def command_def)
  then show ?thesis by (subst yyparse.simps) simp
qed

lemma parses_decls:
  "decls_meaning W ds m = Some m' \<Longrightarrow> means s m \<Longrightarrow> lexes (cfg_tokens ds @ rest) (yyfiles s) \<Longrightarrow>
   \<exists>s'. yyparse W [] s = yyparse W [] s' \<and> lexes rest (yyfiles s') \<and> means s' m'"
proof (induction ds arbitrary: s m)
  case Nil
  then show ?case by (auto simp: cfg_tokens_def)
next
  case (Cons d ds)
  from Cons.prems(1) obtain m1 where m1: "decl_meaning W d m = Some m1" "decls_meaning W ds m1 = Some m'" by (auto simp: bind_eq_Some_conv)
  moreover have "lexes (decl_tokens d @ cfg_tokens ds @ rest) (yyfiles s)" using Cons.prems(3) by (simp add: cfg_tokens_def)
  ultimately obtain s1 where "yyparse W [] s = yyparse W [] s1" "lexes (cfg_tokens ds @ rest) (yyfiles s1)" "means s1 m1"
    using parses_any[of W d] Cons.prems(2) unfolding parses_decl_def by blast
  with Cons.IH[OF m1(2)] show ?case by auto
qed

text \<open>The parser on a file that starts with valid declarations.\<close>

lemma parse_config_prefix:
  assumes "list_all printable (cfg_tokens ds @ rest)" and "fopen W fname = Some (show_tokens (cfg_tokens ds @ rest))"
    and "decls_meaning W ds m = Some m'" and "means s m"
  obtains s' where "lexes rest (yyfiles s')" "means s' m'"
    "parse_config W fname s = yyparse W [] s' \<bind> (\<lambda>r. Some (case r of None \<Rightarrow> (1, None) | Some s' \<Rightarrow> (0, Some s')))"
proof -
  let ?f = "\<lparr>ftext = show_tokens (cfg_tokens ds @ rest), filename = fname\<rparr>"
  have "lexes (cfg_tokens ds @ rest) [?f]" using lexes_show[OF assms(1), of ?f] by simp
  moreover have "means (s\<lparr>yyfiles := [?f]\<rparr>) m" using assms(4) by (simp add: means_def)
  ultimately obtain s' where "yyparse W [] (s\<lparr>yyfiles := [?f]\<rparr>) = yyparse W [] s'" "lexes rest (yyfiles s')" "means s' m'"
    using parses_decls[OF assms(3), of "s\<lparr>yyfiles := [?f]\<rparr>" rest] by auto
  with that assms(2) show ?thesis by (simp add: parse_config_def cfgfile_include_def)
qed

lemma parse_config_means:
  assumes "list_all printable (cfg_tokens ds)" and "fopen W fname = Some (show_tokens (cfg_tokens ds))"
    and "decls_meaning W ds m = Some m'" and "means s m"
  shows "\<exists>s'. parse_config W fname s = Some (0, Some s') \<and> means s' m'"
proof -
  obtain s' where s': "lexes [] (yyfiles s')" "means s' m'"
    "parse_config W fname s = yyparse W [] s' \<bind> (\<lambda>r. Some (case r of None \<Rightarrow> (1, None) | Some s' \<Rightarrow> (0, Some s')))"
    using parse_config_prefix[of ds "[]" W fname m m' s] assms by auto
  with yyparse_end[OF s'(1), of W] show ?thesis by (simp add: means_def)
qed

section \<open>What the rules do\<close>

text \<open>What the code does: statements are executed in order; the block of a match sees its captures, and a break ends the block it stands in.\<close>

fun stmt_body :: "cfg_stmt \<Rightarrow> cfg_stmt list" where
  "stmt_body (Match_S re tgt src body) = body"
| "stmt_body (Matchall_S src body) = body"
| "stmt_body (Else_S body) = body"
| "stmt_body st = []"

lemma body_smaller [termination_simp]: "size_list size (stmt_body st) < Suc (size st + n)"
  by (cases st) auto

fun run_stmts :: "world \<Rightarrow> string \<Rightarrow> string \<Rightarrow> cfg_stmt list \<Rightarrow> string list \<Rightarrow> eval_result \<Rightarrow> (string \<times> string) list" where
  "run_stmts w ln src [] groups prev = []"
| "run_stmts w ln src (st # sts) groups prev =
     (case stmt w ln src (stmt_ctx st) groups prev of
        (r, groups', ws) \<Rightarrow>
          if r = EVAL_BREAK then ws
          else ws @ (if r = EVAL_TRUE then run_stmts w ln src (stmt_body st) groups' EVAL_TRUE else []) @ run_stmts w ln src sts groups r)"

fun stmt_scoped :: "bool \<Rightarrow> cfg_stmt \<Rightarrow> bool" and stmts_scoped :: "bool \<Rightarrow> cfg_stmt list \<Rightarrow> bool" where
  "stmt_scoped inm (Write_S f dst) = list_all (part_scoped inm) (fmt_of f)"
| "stmt_scoped inm Break_S = True"
| "stmt_scoped inm (Assign_S v f) = False"
| "stmt_scoped inm (Match_S re tgt src body) =
     ((\<exists>p. fmt_of re = [STR_VERBATIM p] \<and> pat_ok p) \<and> list_all (part_scoped inm) (fmt_of tgt) \<and> stmts_scoped True body)"
| "stmt_scoped inm (Matchall_S src body) = (\<not> inm \<and> stmts_scoped inm body)"
| "stmt_scoped inm (Else_S body) = stmts_scoped inm body"
| "stmts_scoped inm [] = True"
| "stmts_scoped inm (st # sts) = (stmt_scoped inm st \<and> stmts_scoped inm sts)"

lemma rep_blockE:
  assumes "rep_block st ch"
  obtains "ch = NoNode" "stmt_body st = []" | b t where "ch = Node b NODE_PASSTHROUGH t NoNode" "rep_stmts (stmt_body st) t"
  using assms by (cases st) (auto split: node.splits)

lemma run_rep: "rep_stmts sts t \<Longrightarrow> snd (run w ln src t groups prev) = run_stmts w ln src sts groups prev"
proof (induction w ln src sts groups prev arbitrary: t rule: run_stmts.induct)
  case (2 w ln src st sts groups prev)
  then obtain i ch sib where t: "t = Node i (stmt_ctx st) ch sib" "rep_block st ch" "rep_stmts sts sib" by (auto split: node.splits)
  obtain r groups' ws where r: "stmt w ln src (stmt_ctx st) groups prev = (r, groups', ws)" by (metis prod_cases3)
  show ?case
  proof (cases "r = EVAL_BREAK")
    case False
    from t(2) have "fst (run w ln src ch groups' EVAL_TRUE) \<noteq> EVAL_BREAK
      \<and> (r = EVAL_TRUE \<longrightarrow> snd (run w ln src ch groups' EVAL_TRUE) = run_stmts w ln src (stmt_body st) groups' EVAL_TRUE)"
    proof (cases rule: rep_blockE)
      case (2 b u)
      then show ?thesis using "2.IH"(1)[OF r[symmetric] refl False _ 2(2)] by (auto simp: stmt_def split: prod.splits)
    qed simp
    moreover have "snd (run w ln src sib groups r) = run_stmts w ln src sts groups r" using "2.IH"(2)[OF r[symmetric] refl False t(3)] .
    ultimately show ?thesis using t(1) r False by (auto split: prod.splits)
  qed (use t(1) r in simp)
qed simp

lemma scoped_rep:
  "rep_stmts sts t \<Longrightarrow> stmts_scoped inm sts \<Longrightarrow> scoped inm t"
  "rep_block st ch \<Longrightarrow> stmt_scoped inm st \<Longrightarrow> scoped inm (Node i (stmt_ctx st) ch NoNode)"
  "rep_body body ch \<Longrightarrow> stmts_scoped inm body \<Longrightarrow> scoped inm ch \<and> ch \<noteq> NoNode"
proof (induction sts t and st ch and body ch arbitrary: inm and inm i and inm rule: rep_stmts_rep_block_rep_body.induct)
  case (2 st sts t)
  then show ?case by (auto split: node.splits node_ctx.splits)
qed (auto split: node.splits)

text \<open>The tree of a state with this meaning: what it does is what the statements do.\<close>

lemma means_tree:
  assumes "means s m" and "m_rule m = Some sts" and "stmts_scoped False sts"
  obtains root where "tree_at (nodes s) (rootnode s) root" "scoped False root" "root \<noteq> NoNode" "distinct (ids root)"
    "\<forall>w ln src. snd (run w ln src root [] EVAL_TRUE) = run_stmts w ln src sts [] EVAL_TRUE"
proof -
  from assms(1,2) obtain b t where t: "tree_at (nodes s) (rootnode s) (Node b NODE_PASSTHROUGH t NoNode)" "rep_stmts sts t" "distinct (b # ids t)"
    by (auto simp: means_def root_is_def simp del: tree_at.simps)
  have "snd (run w ln src (Node b NODE_PASSTHROUGH t NoNode) [] EVAL_TRUE) = run_stmts w ln src sts [] EVAL_TRUE" for w ln src
    using run_rep[OF t(2), of w ln src "[]" EVAL_TRUE] by (auto simp: stmt_def split: prod.splits)
  moreover have "scoped False (Node b NODE_PASSTHROUGH t NoNode)" using scoped_rep(1)[OF t(2) assms(3)] by simp
  moreover have "distinct (ids (Node b NODE_PASSTHROUGH t NoNode))" using t(3) by simp
  ultimately show ?thesis using that[OF t(1)] by blast
qed

section \<open>What the rules are documented to do\<close>

text \<open>The documented meaning of the statements of a rule, as \<open>doc_run\<close>: a break leaves the rule.\<close>

fun doc_stmts :: "world \<Rightarrow> string \<Rightarrow> string \<Rightarrow> cfg_stmt list \<Rightarrow> string list \<Rightarrow> eval_result \<Rightarrow> bool \<times> (string \<times> string) list" where
  "doc_stmts w ln src [] groups prev = (False, [])"
| "doc_stmts w ln src (st # sts) groups prev =
     (case doc_stmt w ln src (stmt_ctx st) groups prev of
        (r, groups', ws) \<Rightarrow>
          if r = EVAL_BREAK then (True, ws)
          else (case (if r = EVAL_TRUE then doc_stmts w ln src (stmt_body st) groups' EVAL_TRUE else (False, [])) of
                  (left, ws1) \<Rightarrow>
                    if left then (True, ws @ ws1)
                    else (case doc_stmts w ln src sts groups r of (left', ws2) \<Rightarrow> (left', ws @ ws1 @ ws2))))"

fun has_breaks :: "cfg_stmt list \<Rightarrow> bool" where
  "has_breaks [] = False"
| "has_breaks (st # sts) = (st = Break_S \<or> has_breaks (stmt_body st) \<or> has_breaks sts)"

fun nothing_left :: "cfg_stmt list \<Rightarrow> bool" where
  "nothing_left [] = True"
| "nothing_left [Else_S body] = True"
| "nothing_left sts = False"

text \<open>Statements for which the code keeps to it: no filter agrees with the source on their common length and differs from it, \<^verbatim>\<open>%{T}\<close> is not
  used or its fraction has at most 8 digits, and what contains a break in its block is the last statement of its own block, apart from an \<^verbatim>\<open>else\<close>.\<close>

fun stmts_documented :: "world \<Rightarrow> string \<Rightarrow> cfg_stmt list \<Rightarrow> bool" where
  "stmts_documented w src [] = True"
| "stmts_documented w src (st # sts) =
     (ctx_exact w src (stmt_ctx st) \<and> (has_breaks (stmt_body st) \<longrightarrow> nothing_left sts) \<and> stmts_documented w src (stmt_body st) \<and> stmts_documented w src sts)"

lemma stmt_ctx_break: "stmt_ctx st = NODE_BREAK \<longleftrightarrow> st = Break_S"
  by (cases st) simp_all

lemma nothing_left_run: "nothing_left sts \<Longrightarrow> run_stmts w ln src sts groups EVAL_TRUE = []"
  by (cases sts rule: nothing_left.cases) (simp_all add: stmt_def)

lemma doc_stmts_agree:
  "stmts_documented w src sts \<Longrightarrow> snd (doc_stmts w ln src sts groups prev) = run_stmts w ln src sts groups prev
     \<and> (fst (doc_stmts w ln src sts groups prev) \<longrightarrow> has_breaks sts)"
proof (induction w ln src sts groups prev rule: run_stmts.induct)
  case (2 w ln src st sts groups prev)
  obtain r groups' ws where st: "stmt w ln src (stmt_ctx st) groups prev = (r, groups', ws)" by (metis prod_cases3)
  have dst: "doc_stmt w ln src (stmt_ctx st) groups prev = (r, groups', ws)" using stmt_exact 2(3) st by simp
  show ?case
  proof (cases "r = EVAL_BREAK")
    case True
    then have "st = Break_S" using stmt_break[of w ln src "stmt_ctx st" groups prev] st stmt_ctx_break by simp
    then show ?thesis using st dst True by simp
  next
    case False
    obtain left ws1 where e: "(if r = EVAL_TRUE then doc_stmts w ln src (stmt_body st) groups' EVAL_TRUE else (False, [])) = (left, ws1)" by fastforce
    have c: "ws1 = (if r = EVAL_TRUE then run_stmts w ln src (stmt_body st) groups' EVAL_TRUE else [])"
      "left \<longrightarrow> r = EVAL_TRUE \<and> has_breaks (stmt_body st)"
      using e 2(1)[OF st[symmetric] refl False] 2(3) by (auto split: if_splits)
    have R: "run_stmts w ln src (st # sts) groups prev = ws @ ws1 @ run_stmts w ln src sts groups r" unfolding c(1) using st False by simp
    have D: "doc_stmts w ln src (st # sts) groups prev = (if left then (True, ws @ ws1)
        else (fst (doc_stmts w ln src sts groups r), ws @ ws1 @ snd (doc_stmts w ln src sts groups r)))"
      unfolding doc_stmts.simps dst prod.case e using False by (simp split: prod.split)
    show ?thesis
    proof (cases left)
      case True
      with c(2) 2(3) have "run_stmts w ln src sts groups r = []" by (simp add: nothing_left_run)
      with True c(2) show ?thesis unfolding R D by simp
    next
      case no: False
      with 2(2)[OF st[symmetric] refl False] 2(3) show ?thesis unfolding R D by auto
    qed
  qed
qed simp

section \<open>Properties\<close>

text \<open>C4: parsing the text of a configuration whose rotation sizes fit an \<^verbatim>\<open>int\<close> gives exactly its meaning: the settings, the variables and the origins of its
  declarations, in order, and as the rule tree the nodes of its first rule, linked so that each statement is followed by the next one of its
  block and has its own block, if it has one, as its child.\<close>

theorem parse_config_correct:
  assumes "list_all printable (cfg_tokens ds)" and "fopen W fname = Some (show_tokens (cfg_tokens ds))"
    and "decls_meaning W ds m = Some m'" and "means s m"
  shows "\<exists>s'. parse_config W fname s = Some (0, Some s') \<and> means s' m'"
  by (rule parse_config_means[OF assms])

text \<open>An example: a source, a destination, a variable and two rules.\<close>

definition example_decls :: "cfg_decl list" where
  "example_decls =
     [Var_D ''dir'' ''/var/log'', Setting_D TTIMESTAMPRES ''microsecond'',
      Source_D False ''/tmp/in'' ''SRC'', Destination_D True ''/tmp/%{dir}'' ''DST'',
      Rule_D [Match_S ''at'' ''%{m}'' (Some ''SRC'') [Write_S ''<%{1}>'' ''DST''], Else_S [Write_S ''no'' ''DST'', Break_S]],
      Rule_D [Write_S ''again'' ''DST'']]"

definition example_world :: cfg_world where
  "example_world = \<lparr>readable = (\<lambda>_. True), fopen = (\<lambda>f. if f = ''dlog.conf'' then Some (show_tokens (cfg_tokens example_decls)) else None),
     cfg_env = (\<lambda>_. None), errno_einval = (\<lambda>_. False)\<rparr>"

definition empty_config :: dlog_config where
  "empty_config = \<lparr>datetime_format = [], fractsec_divider = 1, pidfile = [], logfile = [], listenskt_port = None\<rparr>"

definition start_state :: pstate where
  "start_state = \<lparr>yyfiles = [], pconfig = empty_config, vars_table = Map.empty, origins = [], nodes = Map.empty, next_node = 0,
     rootnode = None, curblock = None\<rparr>"

definition no_meaning :: cfg_meaning where
  "no_meaning = \<lparr>m_config = empty_config, m_vars = Map.empty, m_origins = [], m_rule = None\<rparr>"

definition example_meaning :: cfg_meaning where
  "example_meaning = \<lparr>m_config = empty_config\<lparr>fractsec_divider := 1000\<rparr>, m_vars = [''dir'' \<mapsto> [STR_VERBATIM ''/var/log'']],
     m_origins = [new_origin D_FIFOW ''DST'' ''/tmp//var/log'' 0 [] [], new_origin D_FILER ''SRC'' ''/tmp/in'' 0 [] []],
     m_rule = Some [Match_S ''at'' ''%{m}'' (Some ''SRC'') [Write_S ''<%{1}>'' ''DST''], Else_S [Write_S ''no'' ''DST'', Break_S]]\<rparr>"

lemma start_means: "means start_state no_meaning"
  by (simp add: means_def root_is_def start_state_def no_meaning_def)

lemma example_printable: "list_all printable (cfg_tokens example_decls)"
  by code_simp

lemma example_formats:
  "strpartial_split ''/var/log'' = Some [STR_VERBATIM ''/var/log'']" "strpartial_split ''/tmp/in'' = Some [STR_VERBATIM ''/tmp/in'']"
  "strpartial_split ''/tmp/%{dir}'' = Some [STR_VERBATIM ''/tmp/'', STR_VAR ''dir'']" "strpartial_split ''at'' = Some [STR_VERBATIM ''at'']"
  "strpartial_split ''%{m}'' = Some [STR_LOGLINE]" "strpartial_split ''no'' = Some [STR_VERBATIM ''no'']"
  "strpartial_split ''<%{1}>'' = Some [STR_VERBATIM ''<'', STR_CAPTURE_GROUP 1, STR_VERBATIM ''>'']" "strpartial_split ''again'' = Some [STR_VERBATIM ''again'']"
  by code_simp+

lemma example_meaning_from:
  assumes "m_vars m = Map.empty" and "m_origins m = []" and "m_rule m = None"
  shows "decls_meaning W example_decls m = Some (example_meaning\<lparr>m_config := (m_config m)\<lparr>fractsec_divider := 1000\<rparr>\<rparr>)"
  using assms by (cases m) (simp add: example_decls_def example_meaning_def fmt_ok_def fmt_of_def example_formats set_config_def fractsec_of_def
      static_text_def with_origin_def)

lemma example_means: "decls_meaning W example_decls no_meaning = Some example_meaning"
  using example_meaning_from[of no_meaning W] by (simp add: no_meaning_def example_meaning_def)

lemma example_scoped: "stmts_scoped False (the (m_rule example_meaning))"
  by (auto simp: example_meaning_def fmt_of_def example_formats nospecials_def SPECIALS_def intro!: pat_ok_plain)

theorem parse_config_correct_witness:
  "\<exists>s'. parse_config example_world ''dlog.conf'' start_state = Some (0, Some s') \<and> means s' example_meaning"
  by (rule parse_config_correct[OF example_printable _ example_means start_means]) (simp add: example_world_def)

lemma example_documented_rule: "stmts_documented w ''SRC'' (the (m_rule example_meaning))"
  by (simp add: example_meaning_def ctx_exact_def from_exact_def fmt_exact_def fmt_of_def example_formats)

text \<open>A rotation size that does not fit an \<^verbatim>\<open>int\<close> is cut: with this one the log is rotated after every write.\<close>

theorem rotation_size_cut: "or_size (new_origin D_ROTLOG symbol path (strtol ''4294967296'') [] []) = 0"
proof -
  have "to_int32 (strtol ''4294967296'') = 0" by code_simp
  then show ?thesis by (simp add: new_origin_def)
qed

text \<open>C9: whatever files are read, a configuration that is accepted is well typed: every name of a variable, source or destination
  is a symbol, every format string has parts and none is invalid, a variable that is assigned is declared, the divider of the
  fractions of a second is one of three, and each link of a node leads to an allocated node.\<close>

theorem parse_config_typed:
  assumes "typed s" and "parse_config W fname s = Some (ret, Some s')"
  shows "ret = 0 \<and> typed s'"
  by (rule parse_config_types[OF assms])

lemma start_typed: "typed start_state"
  by (simp add: typed_def start_state_def empty_config_def heap_typed_def below_def)

theorem parse_config_typed_witness:
  "\<exists>s'. parse_config example_world ''dlog.conf'' start_state = Some (0, Some s') \<and> typed s' \<and> rootnode s' \<noteq> None"
proof -
  obtain s' where s': "parse_config example_world ''dlog.conf'' start_state = Some (0, Some s')" "means s' example_meaning"
    using parse_config_means[OF example_printable _ example_means start_means, of example_world "''dlog.conf''"] by (auto simp: example_world_def)
  moreover from s'(2) have "rootnode s' \<noteq> None" by (auto simp: means_def root_is_def example_meaning_def)
  ultimately show ?thesis using parse_config_typed[OF start_typed s'(1)] by blast
qed

definition starts_command :: "token \<Rightarrow> bool" where
  "starts_command tk \<longleftrightarrow> tk \<in> {TVAR, TPIDFILE, TLOGFILE, TLISTEN, TDATETIMEFORMAT, TTIMESTAMPRES, TINCLUDE, TSOURCE, TDESTINATION, TRULE}"

text \<open>C36: after valid declarations, a token that cannot start a command makes the parser give up: nothing after it is looked at, the
  result is 1 and no tree is returned.\<close>

theorem misplaced_token_rejected:
  assumes "list_all printable (cfg_tokens ds @ tk # rest)" and "fopen W fname = Some (show_tokens (cfg_tokens ds @ tk # rest))"
    and "decls_meaning W ds m = Some m'" and "means s m" and "\<not> starts_command tk"
  shows "parse_config W fname s = Some (1, None)"
proof -
  obtain s' where s': "lexes (tk # rest) (yyfiles s')" "means s' m'"
    "parse_config W fname s = yyparse W [] s' \<bind> (\<lambda>r. Some (case r of None \<Rightarrow> (1, None) | Some s' \<Rightarrow> (0, Some s')))"
    by (rule parse_config_prefix[OF assms(1-4)])
  have tk: "tk \<noteq> End_Of_Input" using assms(1) by auto
  obtain fs where fs: "yylex (yyfiles s') = Some (tk, fs)" using s'(1) by (auto simp: lexes.simps(2))
  then have "fs \<noteq> []" using yylex_progress tk by blast
  then have "parse_one W [] s' = Some None"
    using fs tk assms(5) by (auto simp: parse_one_def command_def starts_command_def yyabort_def next_tok_def)
  then have "yyparse W [] s' = Some None" by (subst yyparse.simps) simp
  with s'(3) show ?thesis by simp
qed

lemma example_printable_with: "list_all printable ts \<Longrightarrow> list_all printable (cfg_tokens example_decls @ ts)"
  using example_printable by simp

theorem misplaced_token_rejected_witness:
  "parse_config (example_world\<lparr>fopen := \<lambda>_. Some (show_tokens (cfg_tokens example_decls @ [TWRITE, TRULE]))\<rparr>) ''dlog.conf'' start_state = Some (1, None)"
  using misplaced_token_rejected[of example_decls TWRITE "[TRULE]", OF _ _ example_means start_means] example_printable_with[of "[TWRITE, TRULE]"]
  by (simp add: starts_command_def)

text \<open>When the input ends inside a rule, the parser does not report an error: the message would name the file it is in, and there is
  none any more, so that a null pointer is used.\<close>

theorem unclosed_rule_faults:
  assumes "list_all printable (cfg_tokens ds @ TRULE # Open_Brace # stmts_tokens sts)"
    and "fopen W fname = Some (show_tokens (cfg_tokens ds @ TRULE # Open_Brace # stmts_tokens sts))"
    and "decls_meaning W ds m = Some m'" and "means s m" and "stmts_ok (m_vars m') sts"
  shows "parse_config W fname s = None"
proof -
  obtain s' where s': "lexes (TRULE # Open_Brace # stmts_tokens sts) (yyfiles s')" "means s' m'"
    "parse_config W fname s = yyparse W [] s' \<bind> (\<lambda>r. Some (case r of None \<Rightarrow> (1, None) | Some s' \<Rightarrow> (0, Some s')))"
    by (rule parse_config_prefix[OF assms(1-4)])
  obtain fs where fs: "lexes (stmts_tokens sts) fs" "yyparse W [] s' = yyparse W [Rule_Block] (open_block (s'\<lparr>yyfiles := fs\<rparr>))"
    "blocks_inv (open_block (s'\<lparr>yyfiles := fs\<rparr>)) [(next_node s', NoNode)]" by (rule rule_opens[OF s'(1)])
  define s1 where "s1 = open_block (s'\<lparr>yyfiles := fs\<rparr>)"
  have s1: "yyparse W [] s' = yyparse W [Rule_Block] s1" "lexes (stmts_tokens sts @ []) (yyfiles s1)"
    "blocks_inv s1 [(next_node s', NoNode)]" "vars_table s1 = m_vars m'"
    using fs s'(2) by (simp_all add: s1_def open_block_def Let_def means_def)
  obtain s2 where s2: "yyparse W [Rule_Block] s1 = yyparse W [Rule_Block] s2" "lexes [] (yyfiles s2)"
    using parses_all(2)[of W sts, unfolded parses_stmts_def, rule_format, of s1 "[]" "next_node s'" NoNode "[]" Rule_Block "[]"]
      s1(2-4) assms(5) by auto
  have "parse_one W [Rule_Block] s2 = None" using s2(2) by (simp add: parse_one_def next_tok_def statement_def yyabort_def)
  then have "yyparse W [Rule_Block] s2 = None" by (subst yyparse.simps) simp
  with s1(1) s2(1) s'(3) show ?thesis by simp
qed

lemma break_printable: "list_all printable [TRULE, Open_Brace, TBREAK, Semicolon]"
  by simp

theorem unclosed_rule_faults_witness:
  "parse_config (example_world\<lparr>fopen := \<lambda>_. Some (show_tokens (cfg_tokens example_decls @ [TRULE, Open_Brace, TBREAK, Semicolon]))\<rparr>) ''dlog.conf'' start_state = None"
  using unclosed_rule_faults[of example_decls "[Break_S]", OF _ _ example_means start_means] example_printable_with[OF break_printable] by simp

end
