(* ===== verification/Startup.thy ===== *)
theory Startup
  imports Config_File Restart
begin

text \<open>
  \<^verbatim>\<open>main\<close> of \<^verbatim>\<open>dlog.c\<close> up to the main loop: the initial environment, the command line, the configuration, the process, the
  descriptors handed over by an old process, and the descriptors of the configuration; and the signal mask and handlers that
  \<^verbatim>\<open>proc.c\<close> sets up around this.
\<close>

section \<open>Blocking and handling signals\<close>

definition SIGINT :: int where "SIGINT = 2"

record sig_setup =
  blocked :: "int \<Rightarrow> bool"
  handler_set :: "int set"

text \<open>\<open>mask_ok\<close>: \<^verbatim>\<open>sigprocmask\<close> succeeds.\<close>

definition sig_blockall :: "bool \<Rightarrow> bool \<Rightarrow> sig_setup \<Rightarrow> int \<times> sig_setup" where
  "sig_blockall mask_ok allow_int w =
     (if mask_ok then (0, w\<lparr>blocked := (\<lambda>n. blocked w n \<or> \<not> (allow_int \<and> n = SIGINT))\<rparr>) else (- 1, w))"

text \<open>\<open>install n\<close>: \<^verbatim>\<open>sigaction\<close> succeeds for the signal. The set is never initialised: it starts as \<open>sset\<close>, whatever that holds.\<close>

fun install_handlers :: "(int \<Rightarrow> bool) \<Rightarrow> sig_s list \<Rightarrow> int set \<Rightarrow> sig_setup \<Rightarrow> int set option \<times> sig_setup" where
  "install_handlers install [] sset w = (Some sset, w)"
| "install_handlers install (sig # sigs) sset w =
     (if install (signo sig)
      then install_handlers install sigs (insert (signo sig) sset) (w\<lparr>handler_set := insert (signo sig) (handler_set w)\<rparr>)
      else (None, w))"

definition sig_init :: "(int \<Rightarrow> bool) \<Rightarrow> bool \<Rightarrow> int set \<Rightarrow> sig_setup \<Rightarrow> int \<times> sig_setup" where
  "sig_init install mask_ok sset w =
     (case install_handlers install signals_init sset w of
        (None, w) \<Rightarrow> (- 1, w)
      | (Some sset, w) \<Rightarrow> (0, if mask_ok then w\<lparr>blocked := (\<lambda>n. blocked w n \<and> n \<notin> sset)\<rparr> else w))"

section \<open>The environment\<close>

definition DLOG_OPT_PIDFILE :: string where "DLOG_OPT_PIDFILE = ''/var/tmp/dlog.pid''"
definition DLOG_OPT_LOGFILE :: string where "DLOG_OPT_LOGFILE = ''dlog.logfile''"
definition DLOG_DEFAULT_DATETIME_FORMAT :: string where "DLOG_DEFAULT_DATETIME_FORMAT = ''%FT%T''"
definition DLOG_INOTIFY_SYMBOL :: string where "DLOG_INOTIFY_SYMBOL = ''#INOTIFY_SYM''"
definition DLOG_LISTEN_SOCKET_SYM :: string where "DLOG_LISTEN_SOCKET_SYM = ''#LISTEN_SKT''"

definition default_config :: dlog_config where
  "default_config = \<lparr>datetime_format = DLOG_DEFAULT_DATETIME_FORMAT, fractsec_divider = DLOG_DEFAULT_FRACTSEC_DIV,
     pidfile = DLOG_OPT_PIDFILE, logfile = DLOG_OPT_LOGFILE, listenskt_port = None\<rparr>"

text \<open>What \<^verbatim>\<open>env_init\<close> leaves for the parser, and, with a heap, the empty tables.\<close>

definition env_init :: pstate where
  "env_init = \<lparr>yyfiles = [], pconfig = default_config, vars_table = Map.empty, origins = [], nodes = Map.empty, next_node = 0,
     rootnode = None, curblock = None\<rparr>"

definition env_table :: "'h \<Rightarrow> (nat \<Rightarrow> origin) \<Rightarrow> 'h table" where
  "env_table h ogs = \<lparr>t_heap = h, t_strs = (\<lambda>_. None), t_descs = (\<lambda>_. None), t_next = 0, t_origins = ogs, t_active = TAILQ_INIT,
     t_symbols = Map.empty, t_pending = no_pending\<rparr>"

definition env_post_init :: "cmdopt \<Rightarrow> pstate \<Rightarrow> pstate" where
  "env_post_init opts s =
     (case listen_port opts of None \<Rightarrow> s | Some p \<Rightarrow> s\<lparr>pconfig := (pconfig s)\<lparr>listenskt_port := Some p\<rparr>\<rparr>)"

section \<open>Origins\<close>

definition static_origin :: "dtype \<Rightarrow> string \<Rightarrow> int \<Rightarrow> origin" where
  "static_origin ty symbol n =
     \<lparr>or_type = ty, or_symbol = symbol, inh_buffer = None, inh_idx = 0, inh_fd = n, or_path = [], or_size = 0\<rparr>"

definition inotify_origin :: origin where "inotify_origin = static_origin D_INOTIFY DLOG_INOTIFY_SYMBOL 0"
definition socket_read_origin :: origin where "socket_read_origin = static_origin D_SOCKETR DLOG_CLIENT_SOCKET_SYM 0"
definition listen_skt_or :: origin where "listen_skt_or = static_origin D_SOCKET_LISTEN DLOG_LISTEN_SOCKET_SYM (- 1)"

text \<open>The origins of the configuration by their position in the list, and after them the three that are part of the program.\<close>

definition all_origins :: "cfg_origin list \<Rightarrow> nat \<Rightarrow> origin" where
  "all_origins os i =
     (if i < length os then origin.truncate (os ! i)
      else if i = length os then inotify_origin
      else if i = length os + 1 then listen_skt_or
      else socket_read_origin)"

text \<open>A message of the old process: a client's socket gets an origin of its own, anything else is looked up.\<close>

definition import_origin :: "xfer_msg \<Rightarrow> cfg_origin list \<Rightarrow> cfg_origin list" where
  "import_origin m os =
     (if msg_symbol m = DLOG_CLIENT_SOCKET_SYM
      then (new_origin D_SOCKETR (msg_symbol m) [] 0 [] [])\<lparr>inh_buffer := Some (msg_text m), inh_idx := buf_idx m, inh_fd := in_fd m\<rparr> # os
      else set_inherited m os)"

section \<open>The program\<close>

text \<open>The tree that the pointers of the parser lead to.\<close>

partial_function (option) tree_of :: "(nat \<rightharpoonup> pnode) \<Rightarrow> nat option \<Rightarrow> node option" where
  "tree_of h p =
     (case p of
        None \<Rightarrow> Some NoNode
      | Some i \<Rightarrow> h i \<bind> (\<lambda>nd. tree_of h (pn_child nd) \<bind> (\<lambda>child. tree_of h (pn_sibling nd) \<bind> (\<lambda>sibling.
          Some (Node i (pn_ctx nd) child sibling)))))"

declare tree_of.simps [code]

text \<open>The arguments, and what the system gives: for the pid file whether it can be deleted, opened and written and its contents, for the
  hand-over whether the four socket calls succeed and what is received, and the results of the calls that open descriptors.\<close>

record main_world =
  mw_argv :: "string list"
  mw_envp :: "string list"
  mw_cfg :: cfg_world
  mw_process :: process
  mw_daemon :: daemon_sys
  mw_pidfile :: "bool \<times> bool \<times> bool \<times> string option"
  mw_recv :: "bool \<times> bool \<times> bool \<times> bool \<times> recv_result list"
  mw_inotify :: sys
  mw_listen :: sys
  mw_sys :: "nat \<Rightarrow> sys"
  mw_mask_ok :: bool
  mw_install :: "int \<Rightarrow> bool"
  mw_sset :: "int set"
  mw_sigs :: sig_setup

record 'h daemon =
  dm_table :: "'h table"
  dm_origins :: "cfg_origin list"
  dm_config :: dlog_config
  dm_vars :: "string \<rightharpoonup> strpartial list"
  dm_root :: node
  dm_inotify :: "nat option"
  dm_listen :: "nat option"
  dm_process :: process
  dm_pidfile :: "string option"
  has_pidfile :: bool
  dm_param :: env_param
  dm_sigs :: sig_setup

datatype 'h main_result = Main_Return int "string list" | Main_Loop "'h daemon"

text \<open>Becoming a daemon: whether that worked is not looked at.\<close>

definition start_process :: "main_world \<Rightarrow> cmdopt \<Rightarrow> process \<times> string option \<times> bool" where
  "start_process M opts =
     (case mw_pidfile M of (unlink_ok, open_ok, write_ok, file) \<Rightarrow>
        if nodaemon opts then (mw_process M, file, False)
        else (let p = snd (proc_daemonize (mw_daemon M) (mw_process M));
                  (r, file') = pidfile_create unlink_ok open_ok write_ok (pid_of p) file
              in (p, file', r = 0)))"

definition inherit :: "main_world \<Rightarrow> cmdopt \<Rightarrow> cfg_origin list \<Rightarrow> cfg_origin list option" where
  "inherit M opts os =
     (case mw_recv M of (socket_ok, bind_ok, listening, accept_ok, rs) \<Rightarrow>
        if \<not> newbinary opts then Some os
        else map_option (\<lambda>(r, ms). if r \<noteq> 0 then os else fold import_origin (msgs_of ms) os)
               (fdxfer_open_recv socket_ok bind_ok listening accept_ok rs))"

definition open_all :: "'h allocator \<Rightarrow> main_world \<Rightarrow> string option \<Rightarrow> cfg_origin list \<Rightarrow> 'h \<Rightarrow> ('h table \<times> nat option \<times> nat option) option" where
  "open_all A M port os h = do {
     let n = length os;
     (ino, t) \<leftarrow> open_descriptor A (mw_inotify M) (env_table h (all_origins os)) n None False DOPEN_NOFLAGS;
     (lst, t) \<leftarrow> (if port \<noteq> None then open_descriptor A (mw_listen M) t (n + 1) None False DOPEN_NOFLAGS else Some (None, t));
     t \<leftarrow> open_origins A (mw_sys M) 0 [0..<n] t;
     Some (t, ino, lst)
   }"

definition start_daemon :: "'h allocator \<Rightarrow> main_world \<Rightarrow> cmdopt \<Rightarrow> env_param \<Rightarrow> pstate \<Rightarrow> node \<Rightarrow> 'h \<Rightarrow> 'h main_result option" where
  "start_daemon A M opts e s root h = do {
     let w = snd (sig_blockall (mw_mask_ok M) (nodaemon opts) (mw_sigs M));
     let (p, file, haspid) = start_process M opts;
     os \<leftarrow> inherit M opts (origins s);
     (t, ino, lst) \<leftarrow> open_all A M (listenskt_port (pconfig s)) os h;
     Some (Main_Loop \<lparr>dm_table = t, dm_origins = os, dm_config = pconfig s, dm_vars = vars_table s, dm_root = root, dm_inotify = ino,
       dm_listen = lst, dm_process = p, dm_pidfile = file, has_pidfile = haspid, dm_param = e,
       dm_sigs = snd (sig_init (mw_install M) (mw_mask_ok M) (mw_sset M) w)\<rparr>)
   }"

text \<open>The value returned by the process with what it printed, or the state in which the main loop starts; \<open>None\<close> is a fault or a start that never ends.\<close>

definition dlog_main :: "'h allocator \<Rightarrow> main_world \<Rightarrow> 'h \<Rightarrow> 'h main_result option" where
  "dlog_main A M h =
     (case get_opts (errno_einval (mw_cfg M)) (tl (mw_argv M)) of (r, opts) \<Rightarrow>
        if r \<noteq> 0 then Some (Main_Return 1 [])
        else do {
          fname \<leftarrow> configfile opts;
          e \<leftarrow> proc_savecmd (mw_argv M) (mw_envp M) no_env_param;
          (res, s) \<leftarrow> parse_config (mw_cfg M) fname (env_post_init opts env_init);
          (case s of
             None \<Rightarrow> Some (Main_Return 1 [])
           | Some s \<Rightarrow> do {
               root \<leftarrow> tree_of (nodes s) (rootnode s);
               if testconfig opts then map_option (Main_Return 0) (print_node_tree root)
               else start_daemon A M opts e s root h
             })
        })"

section \<open>Lemmas\<close>

lemma tree_of_at: "tree_at h p t \<Longrightarrow> tree_of h p = Some t"
proof (induction h p t rule: tree_at.induct)
  case (1 h p)
  then show ?case by (simp add: tree_of.simps)
next
  case (2 h p i c child sibling)
  then obtain nd where nd: "p = Some i" "h i = Some nd" "pn_ctx nd = c" "tree_at h (pn_child nd) child" "tree_at h (pn_sibling nd) sibling" by auto
  with "2.IH" show ?case by (simp add: tree_of.simps[of h "Some i"])
qed

lemma symbol_no_nul: "tstring_is_symbol v \<Longrightarrow> NUL \<notin> set v"
proof -
  have n: "\<not> isalpha (uchar NUL)" "\<not> isalnum (uchar NUL)" by code_simp+
  assume "tstring_is_symbol v"
  with n show ?thesis by (cases v) (auto simp: tstring_is_symbol_def symbol_char_def list_all_iff)
qed

lemma all_origins_ok:
  assumes "\<forall>og \<in> set os. origin_typed og"
  shows "origin_ok (all_origins os i)" and "or_type (all_origins os i) \<noteq> D_TYPEINVALID"
proof -
  have "NUL \<notin> set DLOG_INOTIFY_SYMBOL" "NUL \<notin> set DLOG_LISTEN_SOCKET_SYM" "NUL \<notin> set DLOG_CLIENT_SOCKET_SYM"
    by (simp_all add: DLOG_INOTIFY_SYMBOL_def DLOG_LISTEN_SOCKET_SYM_def DLOG_CLIENT_SOCKET_SYM_def)
  moreover have "i < length os \<Longrightarrow> origin_typed (os ! i)" using assms by simp
  ultimately show "origin_ok (all_origins os i)" "or_type (all_origins os i) \<noteq> D_TYPEINVALID"
    by (auto simp: all_origins_def origin_ok_def origin.defs origin_typed_def inotify_origin_def listen_skt_or_def socket_read_origin_def
        static_origin_def dest: symbol_no_nul)
qed

text \<open>Opening one of the program's own descriptors, whatever comes of it.\<close>

lemma open_own:
  assumes "table_ok s" and "arena_ok (t_heap s) L" and "\<forall>i. same_origin (t_origins s i) (all_origins os i)" and "\<forall>og \<in> set os. origin_typed og"
  shows "\<exists>rp s' L'. open_descriptor dynstr_arena S s i None False DOPEN_NOFLAGS = Some (rp, s') \<and> table_ok s' \<and> arena_ok (t_heap s') L'
     \<and> (\<forall>i. same_origin (t_origins s' i) (all_origins os i))"
proof -
  note a = all_origins_ok[OF assms(4), of i]
  have o: "origin_ok (t_origins s i)" "or_type (t_origins s i) \<noteq> D_TYPEINVALID"
    using a same_origin_ok[OF assms(3)[rule_format, of i]] same_originD(1)[OF assms(3)[rule_format, of i]] by auto
  obtain rp s' L' where r: "open_descriptor dynstr_arena S s i None False DOPEN_NOFLAGS = Some (rp, s')" "arena_ok (t_heap s') L'"
    using open_new_returns[OF assms(1,2) o(1), of S False DOPEN_NOFLAGS] by blast
  moreover have "\<forall>x. same_origin (t_origins s' x) (t_origins s x)" using open_new_frame[OF r(1) o(2)] by blast
  then have "\<forall>i. same_origin (t_origins s' i) (all_origins os i)" using assms(3) same_origin_trans by blast
  ultimately show ?thesis using open_new_ok[OF assms(1) r(1)] by blast
qed

lemma open_all_ok:
  assumes h: "arena_ok h {}" and os: "\<forall>og \<in> set os. origin_typed og" "distinct (map or_symbol os)"
    and serves: "\<forall>k. \<forall>og \<in> set os. sys_serves (mw_sys M k) (or_type og)"
  shows "\<exists>t ino lst L k. open_all dynstr_arena M port os h = Some (t, ino, lst) \<and> table_ok t \<and> arena_ok (t_heap t) L
     \<and> (\<forall>j < length os. t_symbols t (or_symbol (os ! j)) = Some (k + j))"
proof -
  let ?n = "length os" and ?t0 = "env_table h (all_origins os)"
  have "table_start ?t0" by (simp add: table_start_def env_table_def)
  then have t0: "table_ok ?t0" "arena_ok (t_heap ?t0) {}" "\<forall>i. same_origin (t_origins ?t0 i) (all_origins os i)"
    using h table_start_ok by (auto simp: env_table_def)
  obtain ino t1 L1 where t1: "open_descriptor dynstr_arena (mw_inotify M) ?t0 ?n None False DOPEN_NOFLAGS = Some (ino, t1)"
    "table_ok t1" "arena_ok (t_heap t1) L1" "\<forall>i. same_origin (t_origins t1 i) (all_origins os i)"
    using open_own[OF t0 os(1)] by blast
  obtain lst t2 L2 where t2: "(if port \<noteq> None then open_descriptor dynstr_arena (mw_listen M) t1 (?n + 1) None False DOPEN_NOFLAGS else Some (None, t1)) = Some (lst, t2)"
    "table_ok t2" "arena_ok (t_heap t2) L2" "\<forall>i. same_origin (t_origins t2 i) (all_origins os i)"
  proof (cases "port = None")
    case True
    with that t1(2-4) show ?thesis by simp
  next
    case False
    with that open_own[OF t1(2-4) os(1), of "mw_listen M" "?n + 1"] show ?thesis by auto
  qed
  have o: "or_symbol (t_origins t2 j) = or_symbol (os ! j)" "or_type (t_origins t2 j) = or_type (os ! j)" "origin_ok (t_origins t2 j)" if "j < ?n" for j
    using same_originD[OF t2(4)[rule_format, of j]] same_origin_ok[OF t2(4)[rule_format, of j] all_origins_ok(1)[OF os(1)]] that
    by (simp_all add: all_origins_def origin.defs)
  have ty: "or_type (os ! j) \<in> {D_FILER, D_FIFOR, D_FILEW, D_FIFOW, D_ROTLOG, D_SOCKETW}" if "j < ?n" for j
    using os(1) that by (auto simp: origin_typed_def)
  have "\<forall>og \<in> set [0..<?n]. origin_ok (t_origins t2 og) \<and> or_type (t_origins t2 og) \<noteq> D_TYPEINVALID \<and> (\<forall>k. sys_serves (mw_sys M k) (or_type (t_origins t2 og)))"
  proof (intro ballI conjI allI)
    fix j k assume "j \<in> set [0..<?n]"
    then have j: "j < ?n" by simp
    show "origin_ok (t_origins t2 j)" by (rule o(3)[OF j])
    show "or_type (t_origins t2 j) \<noteq> D_TYPEINVALID" using ty[OF j] o(2)[OF j] by auto
    show "sys_serves (mw_sys M k) (or_type (t_origins t2 j))" using serves j o(2)[OF j] by simp
  qed
  moreover have "map (\<lambda>og. or_symbol (t_origins t2 og)) [0..<?n] = map or_symbol os" using o(1) by (intro nth_equalityI) simp_all
  ultimately obtain t L where t: "open_origins dynstr_arena (mw_sys M) 0 [0..<?n] t2 = Some t" "table_ok t" "arena_ok (t_heap t) L"
    "\<forall>j < ?n. D_IS_SOCKET_READ (or_type (t_origins t2 j)) \<or> t_symbols t (or_symbol (t_origins t2 j)) = Some (t_next t2 + j)"
    using open_origins_all[OF t2(2,3), of "[0..<?n]" "mw_sys M" 0] os(2) by auto
  have "\<not> D_IS_SOCKET_READ (or_type (t_origins t2 j))" if "j < ?n" for j using ty[OF that] o(2)[OF that] by (auto simp: D_IS_SOCKET_READ_def)
  then have "\<forall>j < ?n. t_symbols t (or_symbol (os ! j)) = Some (t_next t2 + j)" using t(4) o(1) by auto
  moreover have "open_all dynstr_arena M port os h = Some (t, ino, lst)" using t1(1) t2(1) t(1) by (simp add: open_all_def Let_def)
  ultimately show ?thesis using t(2,3) by blast
qed

text \<open>The start of the parser.\<close>

definition start_meaning :: "cmdopt \<Rightarrow> cfg_meaning" where
  "start_meaning opts = \<lparr>m_config = default_config\<lparr>listenskt_port := listen_port opts\<rparr>, m_vars = Map.empty, m_origins = [], m_rule = None\<rparr>"

lemma env_means: "means (env_post_init opts env_init) (start_meaning opts)"
  by (auto simp: means_def root_is_def env_post_init_def env_init_def start_meaning_def default_config_def split: option.splits)

lemma env_typed: "typed (env_post_init opts env_init)"
  by (auto simp: typed_def heap_typed_def below_def env_post_init_def env_init_def default_config_def DLOG_DEFAULT_FRACTSEC_DIV_def split: option.splits)

text \<open>A port of the command line stays whatever the configuration says.\<close>

lemma set_config_port: "set_config tk v c = Some c' \<Longrightarrow> listenskt_port c = Some p \<Longrightarrow> listenskt_port c' = Some p"
  by (auto simp: set_config_def split: token.splits)

lemma decl_port: "decl_meaning W d m = Some m' \<Longrightarrow> listenskt_port (m_config m) = Some p \<Longrightarrow> listenskt_port (m_config m') = Some p"
  by (cases d) (auto simp: with_origin_def bind_eq_Some_conv split: if_splits dest: set_config_port)

lemma decls_port: "decls_meaning W ds m = Some m' \<Longrightarrow> listenskt_port (m_config m) = Some p \<Longrightarrow> listenskt_port (m_config m') = Some p"
  by (induction ds arbitrary: m) (auto simp: bind_eq_Some_conv dest: decl_port)

text \<open>The signals of the table are handled and not blocked once everything was set up.\<close>

lemma install_all:
  "\<forall>sig \<in> set sigs. install (signo sig) \<Longrightarrow>
   install_handlers install sigs sset w = (Some (signo ` set sigs \<union> sset), w\<lparr>handler_set := signo ` set sigs \<union> handler_set w\<rparr>)"
  by (induction sigs arbitrary: sset w) auto

lemma sig_init_ready:
  assumes "\<forall>sig \<in> set signals_init. install (signo sig)" and "n \<in> signo ` set signals_init"
  shows "n \<in> handler_set (snd (sig_init install True sset w)) \<and> \<not> blocked (snd (sig_init install True sset w)) n"
  using install_all[OF assms(1), of sset w] assms(2) by (auto simp: sig_init_def)

section \<open>Properties\<close>


definition example_main :: main_world where
  "example_main = \<lparr>mw_argv = [''dlog'', ''-c'', ''dlog.conf'', ''-l'', ''514'', ''-n''], mw_envp = [], mw_cfg = example_world,
     mw_process = \<lparr>pid_of = 100, ppid_of = 1\<rparr>,
     mw_daemon = \<lparr>fork_pid = 101, adopter = 1, setsid_result = 0, devnull = 3, dup_stdin = 0, dup_stdout = 0, close_devnull = 0\<rparr>,
     mw_pidfile = (True, True, True, None), mw_recv = (True, True, True, True, []), mw_inotify = sys0, mw_listen = sys0, mw_sys = (\<lambda>_. sys0),
     mw_mask_ok = True, mw_install = (\<lambda>_. True), mw_sset = {}, mw_sigs = \<lparr>blocked = (\<lambda>_. False), handler_set = {}\<rparr>\<rparr>"


text \<open>The messages of an old process reach the origins of the configuration as \<open>Handover\<close> says.\<close>

theorem import_origin_msg: "map dorigin.truncate (import_origin m os) = import_msg m (map dorigin.truncate os)"
proof -
  have "map dorigin.truncate (set_inherited m os) = set_inherited m (map dorigin.truncate os)"
    by (induction os) (simp_all add: dorigin.defs)
  then show ?thesis by (simp add: import_origin_def import_msg_def new_origin_def dorigin.defs)
qed

text \<open>The result of \<^verbatim>\<open>sig_init\<close> is not looked at: when the handler of the first signal cannot be installed, the daemon runs with every signal
  blocked that it had blocked before, and cannot be told to end.\<close>

theorem signals_stay_blocked:
  assumes "\<not> install SIGHUP" and "n \<noteq> SIGINT"
  shows "blocked (snd (sig_init install mask_ok sset (snd (sig_blockall True allow_int w)))) n"
  using assms by (simp add: sig_init_def sig_blockall_def signals_init_def)

theorem signals_stay_blocked_witness:
  "blocked (snd (sig_init (\<lambda>_. False) True {} (snd (sig_blockall True False \<lparr>blocked = (\<lambda>_. False), handler_set = {}\<rparr>)))) SIGQUIT"
  by (rule signals_stay_blocked) (simp_all add: SIGQUIT_def SIGINT_def)

end
