(* ===== verification/Dict_Interface.thy ===== *)
theory Dict_Interface
  imports Prelude
begin

text \<open>
  What the daemon expects of its tables (descriptors by symbol, variables by name, pending reads by descriptor): the
  last value stored under a key is found under every equal key, and other keys are not affected. \<open>ok s k\<close> says that \<open>k\<close> is a
  usable key in state \<open>s\<close>, \<open>same s k k'\<close> that two keys are equal, and \<open>find\<close> returns \<open>Some 0\<close> (a null pointer) for an
  absent key; \<open>None\<close> is a memory fault.
\<close>

locale dict =
  fixes find :: "'s \<Rightarrow> addr \<Rightarrow> addr option"
    and upsert :: "'s \<Rightarrow> addr \<Rightarrow> addr \<Rightarrow> 's option"
    and inv :: "'s \<Rightarrow> bool"
    and ok :: "'s \<Rightarrow> addr \<Rightarrow> bool"
    and same :: "'s \<Rightarrow> addr \<Rightarrow> addr \<Rightarrow> bool"
  assumes find_total: "inv s \<Longrightarrow> ok s k \<Longrightarrow> \<exists>v. find s k = Some v"
    and upsert_total: "inv s \<Longrightarrow> ok s k \<Longrightarrow> v \<noteq> 0 \<Longrightarrow> \<exists>s'. upsert s k v = Some s'"
    and upsert_keeps: "inv s \<Longrightarrow> ok s k \<Longrightarrow> v \<noteq> 0 \<Longrightarrow> upsert s k v = Some s' \<Longrightarrow>
          inv s' \<and> (\<forall>k'. ok s k' \<longrightarrow> ok s' k') \<and> (\<forall>a b. ok s a \<longrightarrow> ok s b \<longrightarrow> same s' a b = same s a b)"
    and find_upsert: "inv s \<Longrightarrow> ok s k \<Longrightarrow> v \<noteq> 0 \<Longrightarrow> upsert s k v = Some s' \<Longrightarrow> ok s k' \<Longrightarrow>
          find s' k' = (if same s k k' then Some v else find s k')"
begin

text \<open>A sequence of updates.\<close>

fun upserts :: "'s \<Rightarrow> (addr \<times> addr) list \<Rightarrow> 's option" where
  "upserts s [] = Some s"
| "upserts s ((k, v) # kvs) = upsert s k v \<bind> (\<lambda>s'. upserts s' kvs)"

text \<open>The value that a sequence leaves under a key: the last one stored under an equal key.\<close>

fun last_value :: "'s \<Rightarrow> (addr \<times> addr) list \<Rightarrow> addr \<Rightarrow> addr option" where
  "last_value s [] k = None"
| "last_value s ((k0, v) # kvs) k =
     (case last_value s kvs k of Some w \<Rightarrow> Some w | None \<Rightarrow> if same s k0 k then Some v else None)"

lemma last_value_cong:
  "(\<And>a b. ok s a \<Longrightarrow> ok s b \<Longrightarrow> same s' a b = same s a b) \<Longrightarrow> ok s k \<Longrightarrow> \<forall>(k0, v) \<in> set kvs. ok s k0
   \<Longrightarrow> last_value s' kvs k = last_value s kvs k"
  by (induction kvs) (auto split: option.splits)

theorem find_upserts:
  assumes "inv s" and "\<forall>(k, v) \<in> set kvs. ok s k \<and> v \<noteq> 0" and "ok s k"
  shows "\<exists>s'. upserts s kvs = Some s' \<and> inv s' \<and> ok s' k
     \<and> find s' k = (case last_value s kvs k of Some v \<Rightarrow> Some v | None \<Rightarrow> find s k)"
  using assms
proof (induction kvs arbitrary: s)
  case (Cons kv kvs)
  obtain k0 v0 where kv: "kv = (k0, v0)" by fastforce
  have k0: "ok s k0" "v0 \<noteq> 0" using Cons.prems kv by auto
  obtain s1 where s1: "upsert s k0 v0 = Some s1" using upsert_total[OF Cons.prems(1) k0] by blast
  note keep = upsert_keeps[OF Cons.prems(1) k0 s1]
  have oks: "\<forall>(k, v) \<in> set kvs. ok s1 k \<and> v \<noteq> 0" "ok s1 k" using keep Cons.prems by auto
  have lv: "last_value s1 kvs k = last_value s kvs k"
    using Cons.prems keep by (intro last_value_cong) auto
  from Cons.IH[of s1] keep oks obtain s' where "upserts s1 kvs = Some s'" "inv s'" "ok s' k"
    "find s' k = (case last_value s1 kvs k of Some v \<Rightarrow> Some v | None \<Rightarrow> find s1 k)" by blast
  with lv s1 kv find_upsert[OF Cons.prems(1) k0 s1 Cons.prems(3)] show ?case
    by (auto split: option.splits)
qed auto

end

end
