(* ===== verification/Hashtable.thy ===== *)
theory Hashtable
  imports Dict_Interface "HOL-Library.Word" "HOL-Library.AList"
begin

text \<open>
  The chained hash table of \<^verbatim>\<open>hashtable.c\<close>. A key is an \<^verbatim>\<open>intptr_t\<close>, an integer or the address of a string; the strings
  that are alive are in a store, from which a release removes them. A value is a pointer; the calls of the value
  deleter are recorded. A bucket is its chain of elements, the first of which is part of the table.
\<close>

unbundle bit_operations_syntax

section \<open>Data\<close>

datatype HT_KEY_TYPE = HT_INT | HT_DYNSTR | HT_CSTR

record ht_element =
  key :: int
  elval :: addr

datatype ht_value_deleter = default_del | ht_value_deleter_null

record hashtable =
  ktype :: HT_KEY_TYPE
  num_buckets :: int
  fn_del :: ht_value_deleter
  heads :: "ht_element list list"

record ht_mem =
  strs :: "addr \<rightharpoonup> string"
  next_str :: addr
  deleted :: "(ht_value_deleter \<times> addr) list"

definition PRIME :: "64 word" where "PRIME = 0x100000001b3"
definition SEED :: "64 word" where "SEED = 0xcbf29ce484222325"

section \<open>Auxiliary functions\<close>

definition fnv1a :: "string \<Rightarrow> 64 word" where
  "fnv1a text = fold (\<lambda>c hash. ((of_nat (of_char c) :: 64 word) XOR hash) * PRIME) text SEED"

definition is_string_type :: "HT_KEY_TYPE \<Rightarrow> bool" where
  "is_string_type t \<longleftrightarrow> t = HT_DYNSTR \<or> t = HT_CSTR"

definition ht_hash :: "HT_KEY_TYPE \<Rightarrow> ht_mem \<Rightarrow> int \<Rightarrow> 64 word option" where
  "ht_hash t m k = (if is_string_type t then map_option fnv1a (strs m k) else Some (word_of_int k))"

text \<open>Whether \<^verbatim>\<open>_cmp\<close> returns 0. The difference of two integer keys is returned as an \<^verbatim>\<open>int\<close>.\<close>

definition ht_cmp_eq :: "HT_KEY_TYPE \<Rightarrow> ht_mem \<Rightarrow> int \<Rightarrow> int \<Rightarrow> bool option" where
  "ht_cmp_eq t m k1 k2 =
     (if is_string_type t then do { a \<leftarrow> strs m k1; b \<leftarrow> strs m k2; Some (a = b) }
      else Some ((k1 - k2) mod 2 ^ 32 = 0))"

definition free_key :: "HT_KEY_TYPE \<Rightarrow> ht_mem \<Rightarrow> int \<Rightarrow> ht_mem option" where
  "free_key t m k =
     (if is_string_type t \<and> k \<noteq> 0 then do { _ \<leftarrow> strs m k; Some (m\<lparr>strs := (strs m)(k := None)\<rparr>) } else Some m)"

definition free_value :: "hashtable \<Rightarrow> ht_mem \<Rightarrow> addr \<Rightarrow> ht_mem" where
  "free_value tbl m v = m\<lparr>deleted := deleted m @ [(fn_del tbl, v)]\<rparr>"

definition copy_key :: "HT_KEY_TYPE \<Rightarrow> ht_mem \<Rightarrow> int \<Rightarrow> (int \<times> ht_mem) option" where
  "copy_key t m k =
     (if is_string_type t then do {
        s \<leftarrow> strs m k;
        Some (next_str m, m\<lparr>strs := (strs m)(next_str m \<mapsto> s), next_str := next_str m + 1\<rparr>)
      } else Some (k, m))"

section \<open>Operations\<close>

definition ht_create :: "HT_KEY_TYPE \<Rightarrow> int \<Rightarrow> ht_value_deleter option \<Rightarrow> hashtable" where
  "ht_create t bkts deleter = \<lparr>ktype = t, num_buckets = bkts,
     fn_del = (case deleter of Some d \<Rightarrow> d | None \<Rightarrow> default_del),
     heads = replicate (nat bkts) [\<lparr>key = 0, elval = 0\<rparr>]\<rparr>"

text \<open>The bucket of a hash; division by zero and an index outside the table are faults.\<close>

definition bucket_of :: "hashtable \<Rightarrow> 64 word \<Rightarrow> nat option" where
  "bucket_of tbl h =
     (if 0 < num_buckets tbl \<and> unat h mod nat (num_buckets tbl) < length (heads tbl)
      then Some (unat h mod nat (num_buckets tbl)) else None)"

fun destroy_chain :: "hashtable \<Rightarrow> ht_mem \<Rightarrow> ht_element list \<Rightarrow> ht_mem option" where
  "destroy_chain tbl m [] = Some m"
| "destroy_chain tbl m (el # els) = do {
     m' \<leftarrow> free_key (ktype tbl) m (key el);
     destroy_chain tbl (free_value tbl m' (elval el)) els
   }"

fun destroy_buckets :: "hashtable \<Rightarrow> ht_mem \<Rightarrow> ht_element list list \<Rightarrow> ht_mem option" where
  "destroy_buckets tbl m [] = Some m"
| "destroy_buckets tbl m (b # bs) = do { m' \<leftarrow> destroy_chain tbl m b; destroy_buckets tbl m' bs }"

definition ht_destroy :: "hashtable \<Rightarrow> ht_mem \<Rightarrow> ht_mem option" where
  "ht_destroy tbl m = destroy_buckets tbl m (heads tbl)"

text \<open>The loop of \<^verbatim>\<open>ht_upsert\<close> along a chain.\<close>

fun upsert_chain :: "hashtable \<Rightarrow> ht_mem \<Rightarrow> int \<Rightarrow> addr \<Rightarrow> ht_element list \<Rightarrow> (ht_element list \<times> ht_mem) option" where
  "upsert_chain tbl m k v [] = Some ([], m)"
| "upsert_chain tbl m k v (el # els) = do {
     eq \<leftarrow> ht_cmp_eq (ktype tbl) m k (key el);
     if eq then Some (el\<lparr>elval := v\<rparr> # els, free_value tbl m (elval el))
     else if els = [] then do {
       (k', m') \<leftarrow> copy_key (ktype tbl) m k;
       Some ([el, \<lparr>key = k', elval = v\<rparr>], m')
     }
     else do { (els', m') \<leftarrow> upsert_chain tbl m k v els; Some (el # els', m') }
   }"

definition ht_upsert :: "hashtable \<Rightarrow> ht_mem \<Rightarrow> int \<Rightarrow> addr \<Rightarrow> (hashtable \<times> ht_mem) option" where
  "ht_upsert tbl m k v = do {
     h \<leftarrow> ht_hash (ktype tbl) m k;
     i \<leftarrow> bucket_of tbl h;
     case heads tbl ! i of
       [] \<Rightarrow> None
     | head # els \<Rightarrow>
         if elval head = 0 then do {
           (k', m') \<leftarrow> copy_key (ktype tbl) m k;
           Some (tbl\<lparr>heads := (heads tbl)[i := head\<lparr>key := k', elval := v\<rparr> # els]\<rparr>, m')
         }
         else do {
           (b, m') \<leftarrow> upsert_chain tbl m k v (head # els);
           Some (tbl\<lparr>heads := (heads tbl)[i := b]\<rparr>, m')
         }
   }"

fun find_chain :: "hashtable \<Rightarrow> ht_mem \<Rightarrow> int \<Rightarrow> ht_element list \<Rightarrow> addr option" where
  "find_chain tbl m k [] = Some 0"
| "find_chain tbl m k (el # els) =
     (if key el \<noteq> 0 then do {
        eq \<leftarrow> ht_cmp_eq (ktype tbl) m k (key el);
        if eq then Some (elval el) else find_chain tbl m k els
      } else find_chain tbl m k els)"

definition ht_find :: "hashtable \<Rightarrow> ht_mem \<Rightarrow> int \<Rightarrow> addr option" where
  "ht_find tbl m k = do {
     h \<leftarrow> ht_hash (ktype tbl) m k;
     i \<leftarrow> bucket_of tbl h;
     find_chain tbl m k (heads tbl ! i)
   }"

text \<open>Removing behind the head: after a match the element is released and then read again for the next pointer, so a
  match is a fault.\<close>

fun remove_behind :: "hashtable \<Rightarrow> ht_mem \<Rightarrow> int \<Rightarrow> ht_element list \<Rightarrow> unit option" where
  "remove_behind tbl m k [] = Some ()"
| "remove_behind tbl m k (en # els) = do {
     eq \<leftarrow> ht_cmp_eq (ktype tbl) m k (key en);
     if eq then None else remove_behind tbl m k els
   }"

definition ht_remove :: "hashtable \<Rightarrow> ht_mem \<Rightarrow> int \<Rightarrow> (hashtable \<times> ht_mem) option" where
  "ht_remove tbl m k = do {
     h \<leftarrow> ht_hash (ktype tbl) m k;
     i \<leftarrow> bucket_of tbl h;
     case heads tbl ! i of
       [] \<Rightarrow> None
     | el # els \<Rightarrow> do {
         eq \<leftarrow> (if key el \<noteq> 0 then ht_cmp_eq (ktype tbl) m k (key el) else Some False);
         if eq then do {
           m' \<leftarrow> free_key (ktype tbl) m k;
           let m' = free_value tbl m' (elval el);
           Some (tbl\<lparr>heads := (heads tbl)[i := (if els = [] then [\<lparr>key = 0, elval = 0\<rparr>] else els)]\<rparr>, m')
         }
         else do { _ \<leftarrow> remove_behind tbl m k els; Some (tbl, m) }
       }
   }"

text \<open>The visitor gets a key, a value and the user data, and returns its result and the new user data; it leaves the
  table alone. A visitor's \<open>-1\<close> ends the visit.\<close>

fun visit_chain :: "(int \<Rightarrow> addr \<Rightarrow> 'u \<Rightarrow> int \<times> 'u) \<Rightarrow> ht_element list \<Rightarrow> 'u \<Rightarrow> bool \<times> 'u" where
  "visit_chain f [] u = (True, u)"
| "visit_chain f (el # els) u =
     (if elval el = 0 then (True, u)
      else case f (key el) (elval el) u of (r, u') \<Rightarrow> if r = - 1 then (False, u') else visit_chain f els u')"

fun visit_buckets :: "(int \<Rightarrow> addr \<Rightarrow> 'u \<Rightarrow> int \<times> 'u) \<Rightarrow> ht_element list list \<Rightarrow> 'u \<Rightarrow> 'u" where
  "visit_buckets f [] u = u"
| "visit_buckets f (b # bs) u = (case visit_chain f b u of (go, u') \<Rightarrow> if go then visit_buckets f bs u' else u')"

definition ht_visit :: "(int \<Rightarrow> addr \<Rightarrow> 'u \<Rightarrow> int \<times> 'u) \<Rightarrow> hashtable \<Rightarrow> 'u \<Rightarrow> 'u" where
  "ht_visit f tbl u = visit_buckets f (heads tbl) u"

section \<open>What a table holds\<close>

text \<open>The content of a key: the text of a string key, the number of an integer key.\<close>

definition kcon :: "HT_KEY_TYPE \<Rightarrow> ht_mem \<Rightarrow> int \<Rightarrow> string + int" where
  "kcon t m k = (if is_string_type t then Inl (the (strs m k)) else Inr k)"

definition hcon :: "string + int \<Rightarrow> 64 word" where
  "hcon c = (case c of Inl s \<Rightarrow> fnv1a s | Inr k \<Rightarrow> word_of_int k)"

text \<open>Usable keys: live strings, or positive 31-bit integers such as file descriptors.\<close>

definition key_ok :: "HT_KEY_TYPE \<Rightarrow> ht_mem \<Rightarrow> int \<Rightarrow> bool" where
  "key_ok t m k \<longleftrightarrow> k \<noteq> 0 \<and> (if is_string_type t then k \<in> dom (strs m) else 0 < k \<and> k < 2 ^ 31)"

definition assocs :: "HT_KEY_TYPE \<Rightarrow> ht_mem \<Rightarrow> ht_element list \<Rightarrow> ((string + int) \<times> addr) list" where
  "assocs t m es = map (\<lambda>e. (kcon t m (key e), elval e)) es"

definition empty_chain :: "ht_element list" where "empty_chain = [\<lparr>key = 0, elval = 0\<rparr>]"

definition chain_wf :: "HT_KEY_TYPE \<Rightarrow> ht_mem \<Rightarrow> nat \<Rightarrow> nat \<Rightarrow> ht_element list \<Rightarrow> bool" where
  "chain_wf t m n i es \<longleftrightarrow> es = empty_chain \<or>
     es \<noteq> [] \<and> (\<forall>e \<in> set es. elval e \<noteq> 0 \<and> key_ok t m (key e) \<and> unat (hcon (kcon t m (key e))) mod n = i)
     \<and> distinct (map fst (assocs t m es))"

definition mem_wf :: "ht_mem \<Rightarrow> bool" where
  "mem_wf m \<longleftrightarrow> 0 < next_str m \<and> (\<forall>a \<in> dom (strs m). 0 < a \<and> a < next_str m)"

definition ht_wf :: "ht_mem \<Rightarrow> hashtable \<Rightarrow> bool" where
  "ht_wf m tbl \<longleftrightarrow> mem_wf m \<and> 0 < num_buckets tbl \<and> length (heads tbl) = nat (num_buckets tbl)
     \<and> (\<forall>i < length (heads tbl). chain_wf (ktype tbl) m (length (heads tbl)) i (heads tbl ! i))"

text \<open>A memory that has more strings.\<close>

definition mem_grows :: "ht_mem \<Rightarrow> ht_mem \<Rightarrow> bool" where
  "mem_grows m m' \<longleftrightarrow> mem_wf m' \<and> (\<forall>a \<in> dom (strs m). strs m' a = strs m a)"

lemma cmp_eq_ok: "key_ok t m a \<Longrightarrow> key_ok t m b \<Longrightarrow> ht_cmp_eq t m a b = Some (kcon t m a = kcon t m b)"
proof -
  have "(a - b) mod 2 ^ 32 = 0 \<longleftrightarrow> a = b" if "0 < a" "a < 2 ^ 31" "0 < b" "b < 2 ^ 31"
  proof
    assume "(a - b) mod 2 ^ 32 = 0"
    then have "2 ^ 32 dvd a - b" by (rule mod_0_imp_dvd)
    then show "a = b" using dvd_imp_le_int[of "a - b" "2 ^ 32"] that by (cases "a = b") (auto simp: abs_if split: if_splits)
  qed simp
  then show "key_ok t m a \<Longrightarrow> key_ok t m b \<Longrightarrow> ?thesis"
    by (auto simp: ht_cmp_eq_def key_ok_def kcon_def)
qed

lemma hash_ok: "key_ok t m k \<Longrightarrow> ht_hash t m k = Some (hcon (kcon t m k))"
  by (auto simp: ht_hash_def key_ok_def kcon_def hcon_def)

lemma grows_key:
  assumes "mem_grows m m'" and "key_ok t m k"
  shows "key_ok t m' k" "kcon t m' k = kcon t m k"
  using assms by (auto simp: mem_grows_def key_ok_def kcon_def)

lemma grows_chain:
  assumes "mem_grows m m'" and "\<forall>e \<in> set es. key_ok t m (key e)"
  shows "assocs t m' es = assocs t m es"
  using assms grows_key[OF assms(1)] by (simp add: assocs_def)

lemma grows_chain_wf: "mem_grows m m' \<Longrightarrow> chain_wf t m n i es \<Longrightarrow> chain_wf t m' n i es"
  using grows_key[of m m' t] grows_chain[of m m' es t] by (auto simp: chain_wf_def)

lemma grows_free_value: "mem_wf m \<Longrightarrow> mem_grows m (free_value tbl m v)"
  by (simp add: mem_grows_def free_value_def mem_wf_def)

lemma copy_key_ok:
  assumes "mem_wf m" and "key_ok t m k"
  obtains k' m' where "copy_key t m k = Some (k', m')" "mem_grows m m'" "key_ok t m' k'" "kcon t m' k' = kcon t m k"
proof (cases "is_string_type t")
  case True
  then obtain s where s: "strs m k = Some s" using assms(2) by (auto simp: key_ok_def)
  let ?m = "m\<lparr>strs := (strs m)(next_str m \<mapsto> s), next_str := next_str m + 1\<rparr>"
  have old: "0 < a \<and> a < next_str m" if "strs m a = Some x" for a x
    using that assms(1) by (auto simp: mem_wf_def dom_def)
  then have "mem_wf ?m" using assms(1) by (force simp: mem_wf_def dom_def)
  then have "mem_grows m ?m" using old by (force simp: mem_grows_def dom_def)
  moreover have "key_ok t ?m (next_str m)" "kcon t ?m (next_str m) = kcon t m k"
    using True s assms(1) by (auto simp: key_ok_def kcon_def mem_wf_def)
  ultimately show thesis using that True s by (simp add: copy_key_def)
next
  case False
  with that[of k m] assms show thesis by (simp add: copy_key_def mem_grows_def)
qed

section \<open>Finding and updating\<close>

lemma find_chain_ok:
  assumes "\<forall>e \<in> set es. key_ok (ktype tbl) m (key e)" and "key_ok (ktype tbl) m k"
  shows "find_chain tbl m k es = Some (case map_of (assocs (ktype tbl) m es) (kcon (ktype tbl) m k) of Some v \<Rightarrow> v | None \<Rightarrow> 0)"
  using assms(1)
proof (induction es)
  case (Cons e es)
  then have "key e \<noteq> 0" "ht_cmp_eq (ktype tbl) m k (key e) = Some (kcon (ktype tbl) m k = kcon (ktype tbl) m (key e))"
    using assms(2) by (auto simp: cmp_eq_ok) (simp add: key_ok_def)
  with Cons show ?case by (auto simp: assocs_def)
qed (simp add: assocs_def)

lemma upsert_chain_ok:
  assumes "mem_wf m" and "\<forall>e \<in> set es. elval e \<noteq> 0 \<and> key_ok (ktype tbl) m (key e)" and "es \<noteq> []" and "key_ok (ktype tbl) m k"
    and "v \<noteq> 0"
  shows "\<exists>es' m'. upsert_chain tbl m k v es = Some (es', m') \<and> mem_grows m m' \<and> es' \<noteq> []
     \<and> (\<forall>e \<in> set es'. elval e \<noteq> 0 \<and> key_ok (ktype tbl) m' (key e))
     \<and> assocs (ktype tbl) m' es' = AList.update (kcon (ktype tbl) m k) v (assocs (ktype tbl) m es)"
  using assms(2,3)
proof (induction es)
  case (Cons e es)
  let ?t = "ktype tbl"
  have e: "elval e \<noteq> 0" "key_ok ?t m (key e)" and es: "\<forall>e \<in> set es. elval e \<noteq> 0 \<and> key_ok ?t m (key e)" using Cons.prems by auto
  have cmp: "ht_cmp_eq ?t m k (key e) = Some (kcon ?t m k = kcon ?t m (key e))" using cmp_eq_ok[OF assms(4) e(2)] .
  consider "kcon ?t m k = kcon ?t m (key e)" | "kcon ?t m k \<noteq> kcon ?t m (key e)" "es = []"
    | "kcon ?t m k \<noteq> kcon ?t m (key e)" "es \<noteq> []" by blast
  then show ?case
  proof cases
    case 1
    have g: "mem_grows m (free_value tbl m (elval e))" using grows_free_value[OF assms(1)] .
    have "\<forall>x \<in> set (e\<lparr>elval := v\<rparr> # es). elval x \<noteq> 0 \<and> key_ok ?t (free_value tbl m (elval e)) (key x)"
      using e es assms(5) by (auto simp: free_value_def key_ok_def split: if_splits)
    then show ?thesis using cmp 1 g grows_chain[OF g, of es ?t] es grows_key[OF g e(2)]
      by (auto simp: assocs_def)
  next
    case 2
    obtain k' m' where c: "copy_key ?t m k = Some (k', m')" "mem_grows m m'" "key_ok ?t m' k'" "kcon ?t m' k' = kcon ?t m k"
      using copy_key_ok[OF assms(1,4)] by blast
    then show ?thesis using cmp 2 e assms(5) grows_key[OF c(2) e(2)] by (auto simp: assocs_def)
  next
    case 3
    from Cons.IH[OF es 3(2)] obtain es' m' where I: "upsert_chain tbl m k v es = Some (es', m')" "mem_grows m m'" "es' \<noteq> []"
      "\<forall>e \<in> set es'. elval e \<noteq> 0 \<and> key_ok ?t m' (key e)"
      "assocs ?t m' es' = AList.update (kcon ?t m k) v (assocs ?t m es)" by blast
    then show ?thesis using cmp 3 e grows_key[OF I(2) e(2)] by (auto simp: assocs_def)
  qed
qed simp

text \<open>The table as a map from contents to values: the association of the bucket its hash selects.\<close>

definition bucket :: "hashtable \<Rightarrow> string + int \<Rightarrow> ht_element list" where
  "bucket tbl c = heads tbl ! (unat (hcon c) mod length (heads tbl))"

definition ht_map :: "ht_mem \<Rightarrow> hashtable \<Rightarrow> string + int \<Rightarrow> addr" where
  "ht_map m tbl c = (if bucket tbl c = empty_chain then 0
     else case map_of (assocs (ktype tbl) m (bucket tbl c)) c of Some v \<Rightarrow> v | None \<Rightarrow> 0)"

lemma bucket_of_ok:
  assumes "ht_wf m tbl" and "key_ok (ktype tbl) m k"
  shows "\<exists>h. ht_hash (ktype tbl) m k = Some h \<and> bucket_of tbl h = Some (unat (hcon (kcon (ktype tbl) m k)) mod length (heads tbl))
     \<and> unat (hcon (kcon (ktype tbl) m k)) mod length (heads tbl) < length (heads tbl)"
  using assms by (auto simp: hash_ok bucket_of_def ht_wf_def)

lemma ht_find_ok:
  assumes wf: "ht_wf m tbl" and k: "key_ok (ktype tbl) m k"
  shows "ht_find tbl m k = Some (ht_map m tbl (kcon (ktype tbl) m k))"
proof -
  let ?c = "kcon (ktype tbl) m k" and ?i = "unat (hcon (kcon (ktype tbl) m k)) mod length (heads tbl)"
  have i: "?i < length (heads tbl)" "ht_find tbl m k = find_chain tbl m k (bucket tbl ?c)"
    using bucket_of_ok[OF wf k] by (auto simp: ht_find_def bucket_def)
  have "chain_wf (ktype tbl) m (length (heads tbl)) ?i (bucket tbl ?c)" using wf i(1) unfolding ht_wf_def bucket_def by blast
  then show ?thesis using find_chain_ok[OF _ k] i(2)
    by (auto simp: chain_wf_def ht_map_def empty_chain_def)
qed

lemma upsert_bucket_ok:
  assumes wf: "ht_wf m tbl" and k: "key_ok (ktype tbl) m k" and v: "v \<noteq> 0" and c: "c = kcon (ktype tbl) m k"
    and i: "i = unat (hcon c) mod length (heads tbl)"
  shows "\<exists>es' m'. ht_upsert tbl m k v = Some (tbl\<lparr>heads := (heads tbl)[i := es']\<rparr>, m') \<and> mem_grows m m'
     \<and> es' \<noteq> empty_chain \<and> chain_wf (ktype tbl) m' (length (heads tbl)) i es'
     \<and> assocs (ktype tbl) m' es' =
         (if heads tbl ! i = empty_chain then [(c, v)] else AList.update c v (assocs (ktype tbl) m (heads tbl ! i)))"
proof -
  let ?t = "ktype tbl" and ?n = "length (heads tbl)" and ?b = "heads tbl ! i"
  obtain h where h: "ht_hash ?t m k = Some h" "bucket_of tbl h = Some i" "i < ?n"
    using bucket_of_ok[OF wf k] by (auto simp: i c)
  have ch: "chain_wf ?t m ?n i ?b" and mw: "mem_wf m" using wf h(3) unfolding ht_wf_def by blast+
  show ?thesis
  proof (cases "?b = empty_chain")
    case True
    obtain k' m' where cp: "copy_key ?t m k = Some (k', m')" "mem_grows m m'" "key_ok ?t m' k'" "kcon ?t m' k' = c"
      using copy_key_ok[OF mw k] c by blast
    have "ht_upsert tbl m k v = Some (tbl\<lparr>heads := (heads tbl)[i := [\<lparr>key = k', elval = v\<rparr>]]\<rparr>, m')"
      using h True cp(1) by (simp add: ht_upsert_def empty_chain_def)
    then show ?thesis using cp v True
      by (intro exI[of _ "[\<lparr>key = k', elval = v\<rparr>]"] exI[of _ m']) (auto simp: chain_wf_def empty_chain_def assocs_def i)
  next
    case False
    then have es: "\<forall>e \<in> set ?b. elval e \<noteq> 0 \<and> key_ok ?t m (key e)" "?b \<noteq> []"
      "\<forall>e \<in> set ?b. unat (hcon (kcon ?t m (key e))) mod ?n = i" "distinct (map fst (assocs ?t m ?b))"
      using ch by (auto simp: chain_wf_def)
    obtain es' m' where u: "upsert_chain tbl m k v ?b = Some (es', m')" "mem_grows m m'" "es' \<noteq> []"
      "\<forall>e \<in> set es'. elval e \<noteq> 0 \<and> key_ok ?t m' (key e)" "assocs ?t m' es' = AList.update c v (assocs ?t m ?b)"
      using upsert_chain_ok[OF mw es(1,2) k v] c by blast
    obtain e0 es0 where e0: "?b = e0 # es0" "elval e0 \<noteq> 0" using es(1,2) by (cases ?b) auto
    have run: "ht_upsert tbl m k v = Some (tbl\<lparr>heads := (heads tbl)[i := es']\<rparr>, m')"
      using h e0 u(1) by (simp add: ht_upsert_def del: upsert_chain.simps)
    have "fst ` set (assocs ?t m' es') \<subseteq> insert c (fst ` set (assocs ?t m ?b))"
      unfolding u(5) by (auto simp: update_conv simp flip: dom_map_of_conv_image_fst split: if_splits)
    then have "\<forall>e \<in> set es'. unat (hcon (kcon ?t m' (key e))) mod ?n = i"
      using es(3) i by (force simp: assocs_def)
    moreover have "distinct (map fst (assocs ?t m' es'))" unfolding u(5) using es(4) by (rule distinct_update)
    ultimately have "chain_wf ?t m' ?n i es'" using u(3,4) by (simp add: chain_wf_def)
    moreover have "es' \<noteq> empty_chain" using u(4) by (auto simp: empty_chain_def)
    ultimately show ?thesis using run u(2,5) False by auto
  qed
qed

lemma ht_upsert_ok:
  assumes wf: "ht_wf m tbl" and k: "key_ok (ktype tbl) m k" and v: "v \<noteq> 0"
  shows "\<exists>tbl' m'. ht_upsert tbl m k v = Some (tbl', m') \<and> ht_wf m' tbl' \<and> mem_grows m m' \<and> ktype tbl' = ktype tbl
     \<and> ht_map m' tbl' = (ht_map m tbl)(kcon (ktype tbl) m k := v)"
proof -
  let ?t = "ktype tbl" and ?n = "length (heads tbl)"
  define c where "c = kcon ?t m k"
  define i where "i = unat (hcon c) mod ?n"
  obtain es' m' where r: "ht_upsert tbl m k v = Some (tbl\<lparr>heads := (heads tbl)[i := es']\<rparr>, m')" "mem_grows m m'"
    "es' \<noteq> empty_chain" "chain_wf ?t m' ?n i es'"
    "assocs ?t m' es' = (if heads tbl ! i = empty_chain then [(c, v)] else AList.update c v (assocs ?t m (heads tbl ! i)))"
    using upsert_bucket_ok[OF wf k v c_def i_def] by blast
  let ?tbl = "tbl\<lparr>heads := (heads tbl)[i := es']\<rparr>"
  have n0: "0 < ?n" using wf by (auto simp: ht_wf_def)
  then have lt: "x mod ?n < ?n" for x by simp
  have "chain_wf ?t m' ?n j ((heads tbl)[i := es'] ! j)" if "j < ?n" for j
    using wf r(4) grows_chain_wf[OF r(2)] that by (cases "j = i") (auto simp: ht_wf_def)
  then have "ht_wf m' ?tbl" using wf r(2) by (auto simp: ht_wf_def mem_grows_def)
  moreover have "ht_map m' ?tbl c' = ((ht_map m tbl)(c := v)) c'" for c'
  proof -
    let ?j = "unat (hcon c') mod ?n"
    have b: "bucket ?tbl c' = (if ?j = i then es' else bucket tbl c')"
      using lt[of "unat (hcon c')"] by (auto simp: bucket_def nth_list_update)
    have "chain_wf ?t m ?n ?j (bucket tbl c')" using wf lt unfolding ht_wf_def bucket_def by blast
    then have same: "assocs ?t m' (bucket tbl c') = assocs ?t m (bucket tbl c')" if "bucket tbl c' \<noteq> empty_chain"
      using grows_chain[OF r(2)] that by (auto simp: chain_wf_def)
    show ?thesis
    proof (cases "?j = i")
      case True
      then have "heads tbl ! i = bucket tbl c'" by (simp add: bucket_def)
      with b True r(3,5) show ?thesis by (auto simp: ht_map_def update_conv)
    next
      case False
      then have "c' \<noteq> c" by (auto simp: i_def)
      with b False same show ?thesis by (simp add: ht_map_def)
    qed
  qed
  ultimately show ?thesis using r(1,2) c_def by (intro exI[of _ ?tbl] exI[of _ m']) (auto simp: fun_eq_iff)
qed

section \<open>The table as a dictionary\<close>

type_synonym ht_state = "ht_mem \<times> hashtable"

definition st_find :: "ht_state \<Rightarrow> addr \<Rightarrow> addr option" where
  "st_find s k = ht_find (snd s) (fst s) k"

definition st_upsert :: "ht_state \<Rightarrow> addr \<Rightarrow> addr \<Rightarrow> ht_state option" where
  "st_upsert s k v = map_option prod.swap (ht_upsert (snd s) (fst s) k v)"

definition st_inv :: "ht_state \<Rightarrow> bool" where
  "st_inv s \<longleftrightarrow> ht_wf (fst s) (snd s)"

definition st_ok :: "ht_state \<Rightarrow> addr \<Rightarrow> bool" where
  "st_ok s k \<longleftrightarrow> key_ok (ktype (snd s)) (fst s) k"

definition st_same :: "ht_state \<Rightarrow> addr \<Rightarrow> addr \<Rightarrow> bool" where
  "st_same s a b \<longleftrightarrow> kcon (ktype (snd s)) (fst s) a = kcon (ktype (snd s)) (fst s) b"

lemmas st_defs = st_find_def st_upsert_def st_inv_def st_ok_def st_same_def

lemma st_upsert_step:
  assumes "st_inv s" and "st_ok s k" and "v \<noteq> 0" and "st_upsert s k v = Some s'"
  shows "st_inv s' \<and> mem_grows (fst s) (fst s') \<and> ktype (snd s') = ktype (snd s)
     \<and> ht_map (fst s') (snd s') = (ht_map (fst s) (snd s))(kcon (ktype (snd s)) (fst s) k := v)"
  using ht_upsert_ok[of "fst s" "snd s" k v] assms by (auto simp: st_defs)

interpretation tb: dict st_find st_upsert st_inv st_ok st_same
proof
  fix s s' :: ht_state and k v k' :: addr
  assume a: "st_inv s" "st_ok s k"
  then show "\<exists>v. st_find s k = Some v" using ht_find_ok by (auto simp: st_defs)
  assume v: "v \<noteq> 0"
  show "\<exists>s'. st_upsert s k v = Some s'" using ht_upsert_ok[of "fst s" "snd s" k v] a v by (auto simp: st_defs)
  assume u: "st_upsert s k v = Some s'"
  note step = st_upsert_step[OF a v u]
  then show "st_inv s' \<and> (\<forall>k'. st_ok s k' \<longrightarrow> st_ok s' k') \<and> (\<forall>a b. st_ok s a \<longrightarrow> st_ok s b \<longrightarrow> st_same s' a b = st_same s a b)"
    using grows_key[of "fst s" "fst s'" "ktype (snd s)"] by (auto simp: st_ok_def st_same_def)
  assume k': "st_ok s k'"
  have "st_find s' k' = Some (ht_map (fst s') (snd s') (kcon (ktype (snd s)) (fst s) k'))"
    using step k' ht_find_ok[of "fst s'" "snd s'" k'] grows_key[of "fst s" "fst s'" "ktype (snd s)" k'] by (auto simp: st_defs)
  then show "st_find s' k' = (if st_same s k k' then Some v else st_find s k')"
    using step k' a ht_find_ok[of "fst s" "snd s" k'] by (auto simp: st_defs)
qed

lemma ht_create_wf:
  assumes "mem_wf m" and "0 < n"
  shows "ht_wf m (ht_create t n d)" and "ht_map m (ht_create t n d) c = 0"
proof -
  have len: "length (heads (ht_create t n d)) = nat n" by (simp add: ht_create_def)
  have all: "heads (ht_create t n d) ! i = empty_chain" if "i < nat n" for i
    using that by (simp add: ht_create_def empty_chain_def)
  then show "ht_wf m (ht_create t n d)"
    using assms len by (auto simp: ht_wf_def chain_wf_def) (simp_all add: ht_create_def)
  have "unat (hcon c) mod nat n < nat n" using assms(2) by simp
  with all len show "ht_map m (ht_create t n d) c = 0" by (simp add: ht_map_def bucket_def)
qed

lemma ht_create_type [simp]: "ktype (ht_create t n d) = t"
  by (simp add: ht_create_def)

section \<open>Removing\<close>

lemma remove_head:
  assumes wf: "ht_wf m tbl" and k: "key_ok (ktype tbl) m k"
    and b: "bucket tbl (kcon (ktype tbl) m k) = el # els" "kcon (ktype tbl) m (key el) = kcon (ktype tbl) m k" "elval el \<noteq> 0"
  shows "\<exists>m1. free_key (ktype tbl) m k = Some m1 \<and>
     ht_remove tbl m k = Some (tbl\<lparr>heads := (heads tbl)[unat (hcon (kcon (ktype tbl) m k)) mod length (heads tbl) :=
       (if els = [] then empty_chain else els)]\<rparr>, free_value tbl m1 (elval el))"
proof -
  let ?t = "ktype tbl" and ?c = "kcon (ktype tbl) m k"
  let ?i = "unat (hcon ?c) mod length (heads tbl)"
  obtain h where h: "ht_hash ?t m k = Some h" "bucket_of tbl h = Some ?i" "?i < length (heads tbl)"
    using bucket_of_ok[OF wf k] by auto
  have "chain_wf ?t m (length (heads tbl)) ?i (el # els)" using wf h(3) b(1) unfolding ht_wf_def bucket_def by metis
  then have el: "key_ok ?t m (key el)" using b(3) by (auto simp: chain_wf_def empty_chain_def)
  then have "key el \<noteq> 0" "ht_cmp_eq ?t m k (key el) = Some True" using cmp_eq_ok[OF k el] b(2) by (auto simp: key_ok_def)
  moreover obtain m1 where "free_key ?t m k = Some m1"
    using k by (cases "is_string_type ?t") (auto simp: free_key_def key_ok_def)
  ultimately show ?thesis using h b(1) by (auto simp: ht_remove_def bucket_def empty_chain_def)
qed

section \<open>Properties\<close>

text \<open>C15: in a table created with any positive number of buckets, after any sequence of updates with non-null values under valid keys (live
  strings, or integers from 1 to $2^{31} - 1$), a lookup of a valid key finds the last value stored under an equal key, and a null pointer if there is none.
  The key 0 is excluded: it is never found (\<open>ht_key_zero_not_found\<close>).\<close>

theorem ht_find_after_upserts:
  assumes "mem_wf m" and "0 < n" and "\<forall>(k, v) \<in> set kvs. key_ok t m k \<and> v \<noteq> 0" and "key_ok t m k"
  shows "\<exists>m' tbl'. tb.upserts (m, ht_create t n d) kvs = Some (m', tbl') \<and> ht_wf m' tbl'
     \<and> ht_find tbl' m' k = Some (case tb.last_value (m, ht_create t n d) kvs k of Some v \<Rightarrow> v | None \<Rightarrow> 0)"
proof -
  have s: "st_inv (m, ht_create t n d)" "st_ok (m, ht_create t n d) k"
    "\<forall>(k, v) \<in> set kvs. st_ok (m, ht_create t n d) k \<and> v \<noteq> 0"
    using ht_create_wf(1)[OF assms(1,2)] assms(3,4) by (auto simp: st_inv_def st_ok_def)
  have "st_find (m, ht_create t n d) k = Some 0"
    using ht_find_ok[OF ht_create_wf(1)[OF assms(1,2)], of t d k] assms(4) ht_create_wf(2)[OF assms(1,2)] by (simp add: st_find_def)
  with tb.find_upserts[OF s(1,3,2)] show ?thesis
    by (auto simp: st_find_def st_inv_def split: option.splits)
qed

theorem ht_find_after_upserts_witness:
  "\<exists>m' tbl'. tb.upserts (\<lparr>strs = [1 \<mapsto> ''a'', 2 \<mapsto> ''a'', 3 \<mapsto> ''b''], next_str = 4, deleted = []\<rparr>, ht_create HT_DYNSTR 53 None)
       [(1, 10), (3, 20), (2, 30)] = Some (m', tbl') \<and> ht_find tbl' m' 1 = Some 30"
  using ht_find_after_upserts[of "\<lparr>strs = [1 \<mapsto> ''a'', 2 \<mapsto> ''a'', 3 \<mapsto> ''b''], next_str = 4, deleted = []\<rparr>" 53
      "[(1, 10), (3, 20), (2, 30)]" HT_DYNSTR 1 None]
  by (fastforce simp: mem_wf_def key_ok_def is_string_type_def st_same_def kcon_def)

text \<open>In a table of integer keys, such as the pending reads, a key that is not behind the first element of its bucket is
  removed: it is no longer found, and all other keys keep their values.\<close>

theorem ht_remove_int:
  assumes wf: "ht_wf m tbl" and t: "ktype tbl = HT_INT" and k: "key_ok HT_INT m k"
    and b: "bucket tbl (Inr k) = el # els" "k \<notin> key ` set els"
  shows "\<exists>tbl' m'. ht_remove tbl m k = Some (tbl', m') \<and> ht_wf m' tbl' \<and> ht_map m' tbl' = (ht_map m tbl)(Inr k := 0)"
proof -
  have c: "kcon HT_INT x y = Inr y" for x y by (simp add: kcon_def is_string_type_def)
  have as: "assocs HT_INT x es = map (\<lambda>e. (Inr (key e), elval e)) es" for x es by (simp add: assocs_def c)
  let ?n = "length (heads tbl)" and ?i = "unat (hcon (Inr k)) mod length (heads tbl)"
  obtain h where h: "ht_hash HT_INT m k = Some h" "bucket_of tbl h = Some ?i" "?i < ?n"
    using bucket_of_ok[OF wf, of k] k t by (auto simp: c)
  have ch: "chain_wf HT_INT m ?n ?i (el # els)" using wf h(3) b(1) t unfolding ht_wf_def bucket_def by metis
  have absent: "map_of (map (\<lambda>e. (Inr (key e), elval e)) els) (Inr k :: string + int) = None"
    using b(2) by (auto simp: map_of_eq_None_iff)
  show ?thesis
  proof (cases "key el = k")
    case True
    then have ev: "elval el \<noteq> 0" using ch k by (auto simp: chain_wf_def empty_chain_def key_ok_def)
    let ?els = "if els = [] then empty_chain else els"
    let ?tbl = "tbl\<lparr>heads := (heads tbl)[?i := ?els]\<rparr>" and ?m = "free_value tbl m (elval el)"
    have run: "ht_remove tbl m k = Some (?tbl, ?m)"
      using remove_head[OF wf, of k el els] t k b(1) True ev by (auto simp: c free_key_def is_string_type_def)
    have g: "mem_grows m ?m" using grows_free_value wf by (auto simp: ht_wf_def)
    have "chain_wf HT_INT ?m ?n ?i ?els"
      using grows_chain_wf[OF g, of HT_INT ?n ?i els] ch by (auto simp: chain_wf_def empty_chain_def as)
    then have "chain_wf HT_INT ?m ?n j ((heads tbl)[?i := ?els] ! j)" if "j < ?n" for j
      using wf grows_chain_wf[OF g] that t by (cases "j = ?i") (auto simp: ht_wf_def)
    then have "ht_wf ?m ?tbl" using wf g t by (auto simp: ht_wf_def mem_grows_def)
    moreover have "ht_map ?m ?tbl c' = ((ht_map m tbl)(Inr k := 0)) c'" for c'
    proof -
      have lt: "unat (hcon c') mod ?n < ?n" using h(3) by (cases ?n) auto
      have bk: "bucket ?tbl c' = (if unat (hcon c') mod ?n = ?i then ?els else bucket tbl c')"
        using lt by (auto simp: bucket_def nth_list_update)
      have "bucket tbl c' = el # els" if "unat (hcon c') mod ?n = ?i" using that b(1) by (simp add: bucket_def)
      with bk t absent True ev show ?thesis by (auto simp: ht_map_def as empty_chain_def)
    qed
    ultimately show ?thesis using run by (intro exI[of _ ?tbl] exI[of _ ?m]) (auto simp: fun_eq_iff)
  next
    case False
    have no: "remove_behind tbl m k xs = Some ()" if "\<forall>e \<in> set xs. key_ok HT_INT m (key e) \<and> key e \<noteq> k" for xs
      using that t by (induction xs) (auto simp: cmp_eq_ok[OF k] c)
    have "els = [] \<or> (\<forall>e \<in> set (el # els). key_ok HT_INT m (key e))" using ch by (auto simp: chain_wf_def empty_chain_def)
    then have "remove_behind tbl m k els = Some ()" using no[of els] b(2) by auto
    moreover have "key el \<noteq> 0 \<Longrightarrow> ht_cmp_eq HT_INT m k (key el) = Some False"
      using ch False cmp_eq_ok[OF k, of "key el"] by (auto simp: chain_wf_def empty_chain_def c)
    ultimately have "ht_remove tbl m k = Some (tbl, m)" using h b(1) t by (auto simp: ht_remove_def bucket_def)
    moreover have "ht_map m tbl (Inr k) = 0" using False absent b(1) t by (simp add: ht_map_def as)
    ultimately show ?thesis using wf by (auto simp: fun_eq_iff)
  qed
qed

theorem ht_remove_int_witness:
  "\<exists>tbl' m'. ht_remove \<lparr>ktype = HT_INT, num_buckets = 1, fn_del = ht_value_deleter_null, heads = [[\<lparr>key = 4, elval = 10\<rparr>]]\<rparr>
      \<lparr>strs = Map.empty, next_str = 1, deleted = []\<rparr> 4 = Some (tbl', m') \<and> ht_map m' tbl' (Inr 4) = 0"
proof -
  let ?m = "\<lparr>strs = Map.empty, next_str = 1, deleted = []\<rparr>"
  let ?tbl = "\<lparr>ktype = HT_INT, num_buckets = 1, fn_del = ht_value_deleter_null, heads = [[\<lparr>key = 4, elval = 10\<rparr>]]\<rparr>"
  have "ht_wf ?m ?tbl" by (auto simp: ht_wf_def mem_wf_def chain_wf_def key_ok_def is_string_type_def assocs_def)
  from ht_remove_int[OF this, of 4 "\<lparr>key = 4, elval = 10\<rparr>" "[]"] show ?thesis
    by (fastforce simp: is_string_type_def key_ok_def bucket_def)
qed

text \<open>Removing a string key that is first in its bucket releases the key of the caller; the copy that the table made
  when the key was stored stays allocated and is no longer reachable from the table.\<close>

theorem ht_remove_frees_callers_key:
  assumes "ht_wf m tbl" and "is_string_type (ktype tbl)" and "key_ok (ktype tbl) m k"
    and "bucket tbl (kcon (ktype tbl) m k) = [el]" and "kcon (ktype tbl) m (key el) = kcon (ktype tbl) m k"
    and "elval el \<noteq> 0" and "key el \<noteq> k"
  shows "\<exists>tbl' m'. ht_remove tbl m k = Some (tbl', m') \<and> strs m' k = None
     \<and> strs m' (key el) = strs m (key el) \<and> bucket tbl' (kcon (ktype tbl) m k) = empty_chain"
proof -
  let ?i = "unat (hcon (kcon (ktype tbl) m k)) mod length (heads tbl)"
  obtain m1 where m1: "free_key (ktype tbl) m k = Some m1"
    "ht_remove tbl m k = Some (tbl\<lparr>heads := (heads tbl)[?i := empty_chain]\<rparr>, free_value tbl m1 (elval el))"
    using remove_head[OF assms(1,3,4,5,6)] by auto
  have "?i < length (heads tbl)" using bucket_of_ok[OF assms(1,3)] by auto
  then have "bucket (tbl\<lparr>heads := (heads tbl)[?i := empty_chain]\<rparr>) (kcon (ktype tbl) m k) = empty_chain"
    by (simp add: bucket_def)
  moreover have "strs m1 k = None" "strs m1 (key el) = strs m (key el)"
    using m1(1) assms(2,3,7) by (auto simp: free_key_def key_ok_def bind_Some_iff)
  ultimately show ?thesis using m1(2) by (auto simp: free_value_def)
qed

lemma one_entry:
  "ht_upsert (ht_create HT_DYNSTR 1 None) \<lparr>strs = [1 \<mapsto> ''a''], next_str = 2, deleted = []\<rparr> 1 10
     = Some (\<lparr>ktype = HT_DYNSTR, num_buckets = 1, fn_del = default_del, heads = [[\<lparr>key = 2, elval = 10\<rparr>]]\<rparr>,
         \<lparr>strs = [1 \<mapsto> ''a'', 2 \<mapsto> ''a''], next_str = 3, deleted = []\<rparr>)"
  by (simp add: ht_upsert_def ht_create_def ht_hash_def is_string_type_def bucket_of_def copy_key_def)

theorem ht_remove_frees_callers_key_witness:
  "\<exists>tbl' m'. ht_remove \<lparr>ktype = HT_DYNSTR, num_buckets = 1, fn_del = default_del, heads = [[\<lparr>key = 2, elval = 10\<rparr>]]\<rparr>
      \<lparr>strs = [1 \<mapsto> ''a'', 2 \<mapsto> ''a''], next_str = 3, deleted = []\<rparr> 1 = Some (tbl', m') \<and> strs m' 1 = None \<and> strs m' 2 = Some ''a''"
proof -
  let ?m = "\<lparr>strs = [1 \<mapsto> ''a'', 2 \<mapsto> ''a''], next_str = 3, deleted = []\<rparr>"
  let ?tbl = "\<lparr>ktype = HT_DYNSTR, num_buckets = 1, fn_del = default_del, heads = [[\<lparr>key = 2, elval = 10\<rparr>]]\<rparr>"
  have "ht_wf ?m ?tbl"
    by (auto simp: ht_wf_def mem_wf_def chain_wf_def key_ok_def is_string_type_def assocs_def)
  from ht_remove_frees_callers_key[OF this, of 1 "\<lparr>key = 2, elval = 10\<rparr>"] show ?thesis
    by (fastforce simp: is_string_type_def key_ok_def bucket_def kcon_def)
qed

text \<open>Removing a key that is stored behind the first element of its bucket reads the element after its release.\<close>

theorem ht_remove_behind_faults:
  assumes "ht_wf m tbl" and "key_ok (ktype tbl) m k" and "bucket tbl (kcon (ktype tbl) m k) = el # els"
    and "e \<in> set els" and "kcon (ktype tbl) m (key e) = kcon (ktype tbl) m k"
  shows "ht_remove tbl m k = None"
proof -
  let ?t = "ktype tbl" and ?c = "kcon (ktype tbl) m k"
  let ?i = "unat (hcon ?c) mod length (heads tbl)"
  obtain h where h: "ht_hash ?t m k = Some h" "bucket_of tbl h = Some ?i" "?i < length (heads tbl)"
    using bucket_of_ok[OF assms(1,2)] by auto
  have "chain_wf ?t m (length (heads tbl)) ?i (el # els)" using assms(1,3) h(3) unfolding ht_wf_def bucket_def by metis
  then have ch: "\<forall>x \<in> set (el # els). key_ok ?t m (key x)" "kcon ?t m (key el) \<notin> (\<lambda>x. kcon ?t m (key x)) ` set els"
    using assms(4) by (auto simp: chain_wf_def empty_chain_def assocs_def)
  have cmp: "ht_cmp_eq ?t m k (key x) = Some (?c = kcon ?t m (key x))" if "x \<in> set (el # els)" for x
    using cmp_eq_ok[OF assms(2)] ch(1) that by blast
  have "remove_behind tbl m k els = None"
    using assms(4,5) cmp by (induction els) (auto simp: bind_eq_None_conv)
  moreover have "key el \<noteq> 0" "ht_cmp_eq ?t m k (key el) = Some False"
    using ch(1) cmp[of el] image_eqI[of _ "\<lambda>x. kcon ?t m (key x)", OF assms(5)[symmetric] assms(4)] ch(2)
    by (auto simp: key_ok_def)
  ultimately show ?thesis using h assms(3) by (simp add: ht_remove_def bucket_def)
qed

theorem ht_remove_behind_faults_witness:
  "ht_remove \<lparr>ktype = HT_INT, num_buckets = 17, fn_del = ht_value_deleter_null,
      heads = (replicate 17 empty_chain)[4 := [\<lparr>key = 4, elval = 10\<rparr>, \<lparr>key = 21, elval = 20\<rparr>]]\<rparr>
      \<lparr>strs = Map.empty, next_str = 1, deleted = []\<rparr> 21 = None"
proof -
  let ?m = "\<lparr>strs = Map.empty, next_str = 1, deleted = []\<rparr>"
  let ?tbl = "\<lparr>ktype = HT_INT, num_buckets = 17, fn_del = ht_value_deleter_null,
      heads = (replicate 17 empty_chain)[4 := [\<lparr>key = 4, elval = 10\<rparr>, \<lparr>key = 21, elval = 20\<rparr>]]\<rparr>"
  have "ht_wf ?m ?tbl"
    by (auto simp: ht_wf_def mem_wf_def chain_wf_def key_ok_def is_string_type_def assocs_def nth_list_update kcon_def hcon_def)
  from ht_remove_behind_faults[OF this, of 21 "\<lparr>key = 4, elval = 10\<rparr>" "[\<lparr>key = 21, elval = 20\<rparr>]" "\<lparr>key = 21, elval = 20\<rparr>"]
  show ?thesis by (simp add: is_string_type_def key_ok_def bucket_def kcon_def hcon_def)
qed

text \<open>An integer key 0 can be stored but is never found: the lookup takes it for an unused element.\<close>

theorem ht_key_zero_not_found:
  "\<exists>tbl. ht_upsert (ht_create HT_INT 17 d) m 0 v = Some (tbl, m) \<and> key (heads tbl ! 0 ! 0) = 0
     \<and> elval (heads tbl ! 0 ! 0) = v \<and> ht_find tbl m 0 = Some 0"
  by (simp add: ht_upsert_def ht_find_def ht_create_def ht_hash_def is_string_type_def bucket_of_def copy_key_def)

end
