(* ===== verification/Release.thy ===== *)
theory Release
  imports Startup Watchers Hashtable
begin

text \<open>
  What the daemon gives back when it ends, or would: the end of \<^verbatim>\<open>dlog_sig_shutdown\<close> in \<^verbatim>\<open>dlog.c\<close> with \<^verbatim>\<open>fdxfer_close\<close> of
  \<^verbatim>\<open>fdxfer.c\<close>, \<^verbatim>\<open>arena_destroy\<close> of \<^verbatim>\<open>arena.c\<close> and the tables of \<^verbatim>\<open>hashtable.c\<close>; \<^verbatim>\<open>free_dorigin\<close> of
  \<^verbatim>\<open>coredesc.c\<close> and \<^verbatim>\<open>sig_resetall\<close> of \<^verbatim>\<open>proc.c\<close>. The closing of the descriptors, with which the shutdown begins, is in \<open>Restart\<close>. The blocks that are allocated are a set of addresses; releasing any other block but the null
  pointer is a fault.
\<close>

section \<open>Blocks\<close>

definition free_block :: "addr \<Rightarrow> addr set \<Rightarrow> addr set option" where
  "free_block p live = (if p = 0 then Some live else if p \<in> live then Some (live - {p}) else None)"

section \<open>The connection of the hand-over\<close>

text \<open>The static variables of \<^verbatim>\<open>fdxfer.c\<close>, and the blocks and descriptors of the process. The result of \<^verbatim>\<open>close\<close> is not looked at.\<close>

record xfer_static =
  xfer_bufs :: addr
  xfer_skt :: int

record resources =
  live_blocks :: "addr set"
  open_fds :: "int set"

definition fdxfer_close :: "xfer_static \<Rightarrow> resources \<Rightarrow> resources option" where
  "fdxfer_close x w = do {
     live \<leftarrow> free_block (xfer_bufs x) (live_blocks w);
     Some \<lparr>live_blocks = live, open_fds = open_fds w - {xfer_skt x}\<rparr>
   }"

section \<open>The arena\<close>

text \<open>Only the block of the arena itself is released, not its pools.\<close>

definition arena_destroy :: "addr \<Rightarrow> (addr \<Rightarrow> addr set \<Rightarrow> addr set option) option \<Rightarrow> addr set \<Rightarrow> addr set option" where
  "arena_destroy ar fn live = (case fn of Some f \<Rightarrow> f ar live | None \<Rightarrow> free_block ar live)"

section \<open>Origins\<close>

text \<open>The pointers of an origin. The loop does not advance to the next one.\<close>

record origin_blocks =
  ob_type :: dtype
  ob_symbol :: addr
  ob_buffer :: addr
  ob_path :: addr
  ob_host :: addr
  ob_port :: addr

definition free_fields :: "origin_blocks \<Rightarrow> addr set \<Rightarrow> addr set option" where
  "free_fields b live = do {
     live \<leftarrow> free_block (ob_symbol b) live;
     live \<leftarrow> free_block (ob_buffer b) live;
     if D_IS_FILE (ob_type b) then free_block (ob_path b) live
     else if D_IS_SOCKET_READ (ob_type b) \<or> D_IS_SOCKET_WRITE (ob_type b) then do {
       live \<leftarrow> free_block (ob_host b) live;
       free_block (ob_port b) live
     }
     else Some live
   }"

partial_function (option) free_dorigin_loop :: "(addr \<rightharpoonup> origin_blocks) \<Rightarrow> addr \<Rightarrow> addr set \<Rightarrow> addr set option" where
  "free_dorigin_loop mem p live =
     (if p = 0 then Some live else mem p \<bind> (\<lambda>b. free_fields b live \<bind> free_dorigin_loop mem p))"

definition free_dorigin :: "(addr \<rightharpoonup> origin_blocks) \<Rightarrow> addr \<Rightarrow> addr set \<Rightarrow> addr set option" where
  "free_dorigin mem p live = (if p = 0 then Some live else free_dorigin_loop mem p live \<bind> free_block 0)"

section \<open>Signal handlers\<close>

text \<open>\<open>nsig\<close> is the number of signals of the platform.\<close>

fun sig_resetall :: "nat \<Rightarrow> sig_setup \<Rightarrow> sig_setup" where
  "sig_resetall 0 w = w"
| "sig_resetall (Suc n) w = sig_resetall n (w\<lparr>handler_set := handler_set w - {int n}\<rparr>)"

section \<open>The end of the shutdown\<close>

text \<open>What the process holds when its descriptors are closed: the tables and the memory of their keys, the pointer to the environment and the
  one to the arena of the strings, the event queue and the pid file.\<close>

record leaving =
  lv_symbol_table :: hashtable
  lv_pending_table :: hashtable
  lv_vars_table :: hashtable
  lv_mem :: ht_mem
  lv_res :: resources
  lv_evtsys :: int
  lv_env :: addr
  lv_arena :: addr
  lv_xfer :: xfer_static
  lv_pidfile :: "string option"

definition evt_sys_destroy :: "int \<Rightarrow> resources \<Rightarrow> resources" where
  "evt_sys_destroy q w = w\<lparr>open_fds := open_fds w - {q}\<rparr>"

text \<open>The calls of the value deleters of the tables: the default one is \<^verbatim>\<open>free\<close>, the other one does nothing.\<close>

fun free_values :: "(ht_value_deleter \<times> addr) list \<Rightarrow> addr set \<Rightarrow> addr set option" where
  "free_values [] live = Some live"
| "free_values ((f, v) # cs) live =
     (case f of default_del \<Rightarrow> free_block v live | ht_value_deleter_null \<Rightarrow> Some live) \<bind> free_values cs"

definition destroy_table :: "hashtable \<Rightarrow> ht_mem \<times> addr set \<Rightarrow> (ht_mem \<times> addr set) option" where
  "destroy_table tbl z = do {
     m \<leftarrow> ht_destroy tbl (fst z);
     live \<leftarrow> free_values (drop (length (deleted (fst z))) (deleted m)) (snd z);
     Some (m, live)
   }"

definition shutdown_release :: "bool \<Rightarrow> bool \<Rightarrow> leaving \<Rightarrow> leaving option" where
  "shutdown_release has_file unlink_ok L = do {
     let w = evt_sys_destroy (lv_evtsys L) (lv_res L);
     z \<leftarrow> destroy_table (lv_symbol_table L) (lv_mem L, live_blocks w);
     z \<leftarrow> destroy_table (lv_pending_table L) z;
     (m, live) \<leftarrow> destroy_table (lv_vars_table L) z;
     live \<leftarrow> free_block (lv_env L) live;
     let p = (if has_file then pidfile_delete unlink_ok (lv_pidfile L) else lv_pidfile L);
     w \<leftarrow> fdxfer_close (lv_xfer L) (w\<lparr>live_blocks := live\<rparr>);
     live \<leftarrow> arena_destroy (lv_arena L) None (live_blocks w);
     Some (L\<lparr>lv_mem := m, lv_res := w\<lparr>live_blocks := live\<rparr>, lv_pidfile := p\<rparr>)
   }"

section \<open>Destroying a table\<close>

text \<open>The stored copies of the keys, and the calls of the value deleter.\<close>

definition table_keys :: "hashtable \<Rightarrow> int list" where
  "table_keys tbl = (if is_string_type (ktype tbl) then filter (\<lambda>k. k \<noteq> 0) (map key (concat (heads tbl))) else [])"

definition table_values :: "hashtable \<Rightarrow> addr list" where
  "table_values tbl = filter (\<lambda>v. v \<noteq> 0) (map elval (concat (heads tbl)))"

lemma destroy_chain_append: "destroy_chain tbl m (as @ bs) = destroy_chain tbl m as \<bind> (\<lambda>m. destroy_chain tbl m bs)"
  by (induction as arbitrary: m) (auto split: bind_splits)

lemma destroy_buckets_concat: "destroy_buckets tbl m bs = destroy_chain tbl m (concat bs)"
  by (induction bs arbitrary: m) (simp_all add: destroy_chain_append)

lemma destroy_chain_calls:
  "destroy_chain tbl m els = Some m' \<Longrightarrow> deleted m' = deleted m @ map (\<lambda>e. (fn_del tbl, elval e)) els"
  by (induction els arbitrary: m) (auto simp: free_key_def free_value_def bind_eq_Some_conv split: if_splits)

lemma destroy_chain_keys:
  assumes "is_string_type (ktype tbl)" and "distinct (filter (\<lambda>k. k \<noteq> 0) (map key els))"
    and "set (map key els) - {0} \<subseteq> dom (strs m)"
  shows "\<exists>m'. destroy_chain tbl m els = Some m' \<and> strs m' = strs m |` (- (set (map key els) - {0}))"
  using assms(2,3)
proof (induction els arbitrary: m)
  case (Cons e els)
  let ?m = "if key e = 0 then m else m\<lparr>strs := (strs m)(key e := None)\<rparr>"
  have f: "free_key (ktype tbl) m (key e) = Some ?m" using assms(1) Cons.prems(2) by (auto simp: free_key_def)
  have k: "set (map key els) - {0} \<subseteq> dom (strs ?m)"
  proof (cases "key e = 0")
    case False
    with Cons.prems(1) have "key e \<notin> set (map key els)" by simp
    with False Cons.prems(2) show ?thesis by (auto simp del: set_map; metis)
  qed (use Cons.prems in auto)
  have d: "distinct (filter (\<lambda>k. k \<noteq> 0) (map key els))" using Cons.prems(1) by (simp split: if_splits)
  have d': "set (map key els) - {0} \<subseteq> dom (strs (free_value tbl ?m (elval e)))" using k by (simp add: free_value_def)
  from Cons.IH[OF d d'] f show ?case by (auto simp: free_value_def restrict_map_def fun_eq_iff)
qed (simp add: restrict_map_def)

lemma destroy_chain_ints: "\<not> is_string_type (ktype tbl) \<Longrightarrow> \<exists>m'. destroy_chain tbl m els = Some m' \<and> strs m' = strs m"
proof (induction els arbitrary: m)
  case (Cons e els)
  from Cons.IH[OF Cons.prems, of "free_value tbl m (elval e)"] Cons.prems show ?case by (auto simp: free_key_def free_value_def)
qed simp

lemma ht_destroy_ok:
  assumes "distinct (table_keys tbl)" and "set (table_keys tbl) \<subseteq> dom (strs m)"
  shows "\<exists>m'. ht_destroy tbl m = Some m' \<and> strs m' = strs m |` (- set (table_keys tbl))"
proof (cases "is_string_type (ktype tbl)")
  case True
  have k: "set (table_keys tbl) = set (map key (concat (heads tbl))) - {0}" using True by (auto simp: table_keys_def)
  from destroy_chain_keys[OF True, of "concat (heads tbl)" m] assms True show ?thesis
    unfolding k by (simp add: table_keys_def ht_destroy_def destroy_buckets_concat)
next
  case False
  from destroy_chain_ints[OF False] False show ?thesis by (simp add: table_keys_def ht_destroy_def destroy_buckets_concat restrict_map_def)
qed

lemma free_values_null: "\<forall>c \<in> set cs. fst c = ht_value_deleter_null \<Longrightarrow> free_values cs live = Some live"
  by (induction cs) auto

lemma free_values_default:
  assumes "distinct (filter (\<lambda>v. v \<noteq> 0) vs)" and "set vs - {0} \<subseteq> live"
  shows "free_values (map (Pair default_del) vs) live = Some (live - (set vs - {0}))"
  using assms
proof (induction vs arbitrary: live)
  case (Cons v vs)
  show ?case
  proof (cases "v = 0")
    case False
    with Cons.prems have "v \<in> live" "v \<notin> set vs" by auto
    with False Cons.prems have "set vs - {0} \<subseteq> live - {v}" "distinct (filter (\<lambda>v. v \<noteq> 0) vs)" by auto
    from Cons.IH[OF this(2,1)] False \<open>v \<in> live\<close> show ?thesis by (auto simp: free_block_def)
  qed (use Cons in \<open>simp add: free_block_def\<close>)
qed simp

lemma free_values_subset: "free_values cs live = Some live' \<Longrightarrow> live' \<subseteq> live"
  by (induction cs arbitrary: live) (fastforce simp: free_block_def bind_eq_Some_conv split: ht_value_deleter.splits if_splits)+

lemma free_values_fault: "(default_del, v) \<in> set cs \<Longrightarrow> v \<noteq> 0 \<Longrightarrow> v \<notin> live \<Longrightarrow> free_values cs live = None"
proof (induction cs arbitrary: live)
  case (Cons c cs)
  then show ?case by (cases c) (auto simp: free_block_def bind_eq_None_conv split: ht_value_deleter.splits)
qed simp

lemma destroy_table_calls:
  "destroy_table tbl (m, live) = do { m' \<leftarrow> ht_destroy tbl m; live' \<leftarrow> free_values (map (\<lambda>e. (fn_del tbl, elval e)) (concat (heads tbl))) live; Some (m', live') }"
proof (cases "ht_destroy tbl m")
  case (Some m')
  then have "deleted m' = deleted m @ map (\<lambda>e. (fn_del tbl, elval e)) (concat (heads tbl))"
    by (simp add: destroy_chain_calls ht_destroy_def destroy_buckets_concat)
  with Some show ?thesis by (simp add: destroy_table_def)
qed (simp add: destroy_table_def)

lemma destroy_table_null:
  assumes "fn_del tbl = ht_value_deleter_null" and "distinct (table_keys tbl)" and "set (table_keys tbl) \<subseteq> dom (strs m)"
  shows "\<exists>m'. destroy_table tbl (m, live) = Some (m', live) \<and> strs m' = strs m |` (- set (table_keys tbl))"
  using ht_destroy_ok[OF assms(2,3)] assms(1) by (auto simp: destroy_table_calls free_values_null)

lemma destroy_table_default:
  assumes "fn_del tbl = default_del" and "distinct (table_keys tbl)" and "set (table_keys tbl) \<subseteq> dom (strs m)"
    and "distinct (table_values tbl)" and "set (table_values tbl) \<subseteq> live"
  shows "\<exists>m'. destroy_table tbl (m, live) = Some (m', live - set (table_values tbl)) \<and> strs m' = strs m |` (- set (table_keys tbl))"
proof -
  have v: "set (table_values tbl) = set (map elval (concat (heads tbl))) - {0}" by (auto simp: table_values_def)
  have "map (\<lambda>e. (fn_del tbl, elval e)) (concat (heads tbl)) = map (Pair default_del) (map elval (concat (heads tbl)))" using assms(1) by simp
  with ht_destroy_ok[OF assms(2,3)] free_values_default[of "map elval (concat (heads tbl))" live] assms(4,5) v show ?thesis
    by (auto simp: destroy_table_calls table_values_def simp del: map_map)
qed

section \<open>What goes wrong, and what does not\<close>

text \<open>The shutdown releases everything it lists, exactly once, if the keys of the tables are their own copies, the values of the variables are blocks
  of the heap, and the array of the hand-over was not released before.\<close>

theorem shutdown_releases:
  assumes nulls: "fn_del (lv_symbol_table L) = ht_value_deleter_null" "fn_del (lv_pending_table L) = ht_value_deleter_null"
      "fn_del (lv_vars_table L) = default_del"
    and keys: "distinct (table_keys (lv_symbol_table L) @ table_keys (lv_pending_table L) @ table_keys (lv_vars_table L))"
      "set (table_keys (lv_symbol_table L) @ table_keys (lv_pending_table L) @ table_keys (lv_vars_table L)) \<subseteq> dom (strs (lv_mem L))"
    and blocks: "0 \<notin> set bs" "distinct (table_values (lv_vars_table L) @ bs)"
      "set (table_values (lv_vars_table L) @ bs) \<subseteq> live_blocks (lv_res L)"
      "bs = lv_env L # (if xfer_bufs (lv_xfer L) = 0 then [] else [xfer_bufs (lv_xfer L)]) @ [lv_arena L]"
  shows "\<exists>m. shutdown_release True True L = Some (L\<lparr>lv_mem := m, lv_pidfile := None,
      lv_res := \<lparr>live_blocks = live_blocks (lv_res L) - set (table_values (lv_vars_table L) @ bs),
        open_fds = open_fds (lv_res L) - {lv_evtsys L, xfer_skt (lv_xfer L)}\<rparr>\<rparr>)
     \<and> dom (strs m) = dom (strs (lv_mem L)) - set (table_keys (lv_symbol_table L) @ table_keys (lv_pending_table L) @ table_keys (lv_vars_table L))"
proof -
  let ?S = "lv_symbol_table L" and ?P = "lv_pending_table L" and ?V = "lv_vars_table L" and ?live = "live_blocks (lv_res L)"
  let ?m = "lv_mem L"
  have k: "distinct (table_keys ?S)" "set (table_keys ?S) \<subseteq> dom (strs ?m)" "distinct (table_keys ?P)" "distinct (table_keys ?V)"
    "set (table_keys ?P) \<subseteq> dom (strs ?m) - set (table_keys ?S)"
    "set (table_keys ?V) \<subseteq> dom (strs ?m) - set (table_keys ?S) - set (table_keys ?P)"
    using keys unfolding distinct_append set_append by blast+
  have v: "distinct (table_values ?V)" "set (table_values ?V) \<subseteq> ?live" using blocks(2,3) by simp_all
  obtain m1 where 1: "destroy_table ?S (?m, ?live) = Some (m1, ?live)" "strs m1 = strs ?m |` (- set (table_keys ?S))"
    using destroy_table_null[OF nulls(1) k(1,2)] by blast
  then have k1: "set (table_keys ?P) \<subseteq> dom (strs m1)" using k(5) by auto
  obtain m2 where 2: "destroy_table ?P (m1, ?live) = Some (m2, ?live)" "strs m2 = strs m1 |` (- set (table_keys ?P))"
    using destroy_table_null[OF nulls(2) k(3) k1] by blast
  then have k2: "set (table_keys ?V) \<subseteq> dom (strs m2)" using k(6) 1(2) by auto
  obtain m3 where 3: "destroy_table ?V (m2, ?live) = Some (m3, ?live - set (table_values ?V))" "strs m3 = strs m2 |` (- set (table_keys ?V))"
    using destroy_table_default[OF nulls(3) k(4) k2 v] by blast
  have "dom (strs m3) = dom (strs (lv_mem L)) - set (table_keys ?S @ table_keys ?P @ table_keys ?V)" using 1(2) 2(2) 3(2) by auto
  moreover have "shutdown_release True True L = Some (L\<lparr>lv_mem := m3, lv_pidfile := None,
      lv_res := \<lparr>live_blocks = ?live - set (table_values ?V @ bs), open_fds = open_fds (lv_res L) - {lv_evtsys L, xfer_skt (lv_xfer L)}\<rparr>\<rparr>)"
  proof -
    let ?l = "?live - set (table_values ?V)" and ?b = "xfer_bufs (lv_xfer L)"
    have b: "lv_env L \<noteq> 0" "lv_env L \<in> ?l" "lv_arena L \<noteq> 0" "lv_arena L \<in> ?l" "lv_arena L \<noteq> lv_env L"
      "?b = 0 \<or> ?b \<in> ?l \<and> ?b \<noteq> lv_env L \<and> ?b \<noteq> lv_arena L"
      using blocks(1-3) unfolding blocks(4) by (auto split: if_splits)
    have l: "?l - {lv_env L} - (if ?b = 0 then {} else {?b}) - {lv_arena L} = ?live - set (table_values ?V @ bs)"
      unfolding blocks(4) by auto
    have x: "fdxfer_close (lv_xfer L) (evt_sys_destroy (lv_evtsys L) (lv_res L)\<lparr>live_blocks := ?l - {lv_env L}\<rparr>)
        = Some \<lparr>live_blocks = ?l - {lv_env L} - (if ?b = 0 then {} else {?b}), open_fds = open_fds (lv_res L) - {lv_evtsys L, xfer_skt (lv_xfer L)}\<rparr>"
      using b(6) by (auto simp: fdxfer_close_def free_block_def evt_sys_destroy_def)
    have a: "arena_destroy (lv_arena L) None (?l - {lv_env L} - (if ?b = 0 then {} else {?b})) = Some (?live - set (table_values ?V @ bs))"
    proof -
      have "lv_arena L \<in> ?l - {lv_env L} - (if ?b = 0 then {} else {?b})" using b by auto
      with l b(3) show ?thesis unfolding arena_destroy_def free_block_def by (simp del: Diff_iff set_append)
    qed
    have e: "free_block (lv_env L) ?l = Some (?l - {lv_env L})" using b by (simp add: free_block_def)
    have w: "live_blocks (evt_sys_destroy (lv_evtsys L) (lv_res L)) = ?live" by (simp add: evt_sys_destroy_def)
    show ?thesis unfolding shutdown_release_def Let_def w by (simp add: 1(1) 2(1) 3(1) e x a pidfile_delete_def del: set_append)
  qed
  ultimately show ?thesis by blast
qed

text \<open>The value of a variable that a rule has assigned is a string of the arena, not a block of the heap: destroying the table of variables
  passes it to \<^verbatim>\<open>free\<close>.\<close>

theorem shutdown_variable_faults:
  assumes "e \<in> set (concat (heads (lv_vars_table L)))" and "elval e \<noteq> 0" and "elval e \<notin> live_blocks (lv_res L)"
    and "fn_del (lv_vars_table L) = default_del"
  shows "shutdown_release has_file unlink_ok L = None"
proof -
  let ?S = "lv_symbol_table L" and ?P = "lv_pending_table L" and ?V = "lv_vars_table L"
  have s: "live' \<subseteq> live" if "destroy_table tbl (m, live) = Some (m', live')" for tbl m live m' live'
    using that free_values_subset by (fastforce simp: destroy_table_calls bind_eq_Some_conv)
  have f: "destroy_table ?V (m, live) = None" if "live \<subseteq> live_blocks (lv_res L)" for m live
  proof -
    have "(default_del, elval e) \<in> set (map (\<lambda>e. (fn_del ?V, elval e)) (concat (heads ?V)))" using assms(1,4) by auto
    moreover have "elval e \<notin> live" using that assms(3) by blast
    ultimately show ?thesis using free_values_fault assms(2) by (auto simp: destroy_table_calls bind_eq_None_conv)
  qed
  show ?thesis
  proof (cases "destroy_table ?S (lv_mem L, live_blocks (lv_res L)) \<bind> destroy_table ?P")
    case (Some z)
    then obtain m1 l1 m2 l2 where z: "destroy_table ?S (lv_mem L, live_blocks (lv_res L)) = Some (m1, l1)" "destroy_table ?P (m1, l1) = Some (m2, l2)" "z = (m2, l2)"
      by (cases z) (auto simp: bind_eq_Some_conv)
    have "destroy_table ?V (m2, l2) = None" using s[OF z(1)] s[OF z(2)] by (intro f) blast
    with z show ?thesis by (simp add: shutdown_release_def evt_sys_destroy_def)
  qed (auto simp: shutdown_release_def evt_sys_destroy_def bind_eq_None_conv)
qed

text \<open>A daemon that has taken descriptors over closes the connection at the start and again when it shuts down: the array of messages is released twice.\<close>

theorem fdxfer_close_twice:
  assumes "xfer_bufs x \<noteq> 0"
  shows "fdxfer_close x w \<bind> fdxfer_close x = None"
  using assms by (auto simp: fdxfer_close_def free_block_def)

lemma free_dorigin_loop_stuck:
  assumes "free_dorigin_loop mem p live = Some r"
  shows "p = 0"
  by (rule free_dorigin_loop.raw_induct[where P = "\<lambda>_ p _ _. p = 0", OF _ assms])
    (auto simp: bind_eq_Some_conv split: if_splits)

text \<open>Releasing an origin never returns: its loop releases the same origin again and again, until it releases a block a second time.\<close>

theorem free_dorigin_never_returns:
  assumes "p \<noteq> 0"
  shows "free_dorigin mem p live = None"
proof -
  from assms free_dorigin_loop_stuck have "free_dorigin_loop mem p live = None" by (cases "free_dorigin_loop mem p live") auto
  with assms show ?thesis by (simp add: free_dorigin_def)
qed

text \<open>Resetting takes back every handler, and leaves what is blocked.\<close>

theorem sig_resetall_handlers:
  "handler_set (sig_resetall n w) = handler_set w - {0..<int n} \<and> blocked (sig_resetall n w) = blocked w"
proof (induction n arbitrary: w)
  case (Suc n)
  have "{0..<int (Suc n)} = insert (int n) {0..<int n}" by auto
  with Suc show ?case by auto
qed simp

text \<open>A connection that never received anything can be closed any number of times.\<close>

theorem fdxfer_close_again:
  assumes "xfer_bufs x = 0"
  shows "fdxfer_close x w \<bind> fdxfer_close x = fdxfer_close x w"
  using assms by (simp add: fdxfer_close_def free_block_def)

end
