(* ===== verification/Config_Progress.thy ===== *)
theory Config_Progress
  imports Config_Types
begin

text \<open>
  The parser makes progress: every command, statement, head and end of a block consumes input, so that a configuration that
  includes no file is parsed in at most as many turns as it has characters.
\<close>

section \<open>Consuming input\<close>

definition unread :: "pstate \<Rightarrow> nat" where
  "unread s = input_size (yyfiles s)"

lemma next_tok_reads: "next_tok s = ok (tk, s') \<Longrightarrow> unread s' < unread s"
proof -
  assume "next_tok s = ok (tk, s')"
  then obtain fs where fs: "yylex (yyfiles s) = Some (tk, fs)" "s' = s\<lparr>yyfiles := fs\<rparr>" by (auto simp: next_tok_def)
  then have "yyfiles s \<noteq> []" by (auto simp: yylex_def)
  then have "0 < input_size (yyfiles s)" by (simp add: input_size_def)
  with fs yylex_end[of "yyfiles s" fs] yylex_progress[OF fs(1)] show ?thesis by (cases "tk = End_Of_Input") (auto simp: unread_def input_size_def)
qed

lemma expect_reads: "expect tk s = ok s' \<Longrightarrow> unread s' \<le> unread s"
  by (auto simp: expect_def pbind_ok split: if_splits dest!: next_tok_reads)

lemma expect_string_reads: "expect_string s = ok (a, s') \<Longrightarrow> unread s' \<le> unread s"
proof -
  assume "expect_string s = ok (a, s')"
  then obtain tk s1 where "next_tok s = ok (tk, s1)"
    "(case tk of TSTRING v quoted issym \<Rightarrow> ok ((v, quoted, issym), s1) | _ \<Rightarrow> yyabort s1) = ok (a, s')"
    by (auto simp: expect_string_def pbind_ok)
  with next_tok_reads[of s tk s1] show ?thesis by (cases tk) auto
qed

lemma unread_simps [simp]:
  "unread (s\<lparr>vars_table := vt\<rparr>) = unread s" "unread (s\<lparr>pconfig := c\<rparr>) = unread s" "unread (add_origin og s) = unread s" "unread (open_block s) = unread s"
  by (simp_all add: unread_def add_origin_def open_block_def Let_def)

lemma add_node_reads: "add_node c s = Some s' \<Longrightarrow> unread s' = unread s"
  by (auto simp: add_node_def unread_def bind_eq_Some_conv Let_def)

lemma add_node_wparent_reads: "add_node_wparent c s = Some s' \<Longrightarrow> unread s' = unread s"
  by (auto simp: add_node_wparent_def unread_def bind_eq_Some_conv Let_def)

lemmas reads = expect_reads expect_string_reads next_tok_reads add_node_reads add_node_wparent_reads

lemma var_cmd_reads: "var_cmd s = ok s' \<Longrightarrow> unread s' \<le> unread s"
  by (fastforce simp: var_cmd_def pbind_ok dest: reads)

lemma include_cmd_reads: "include_cmd W s = ok s' \<Longrightarrow> \<forall>f. \<not> readable W f \<Longrightarrow> unread s' \<le> unread s"
  by (auto simp: include_cmd_def pbind_ok)

lemma config_cmd_reads: "config_cmd tk s = ok s' \<Longrightarrow> unread s' \<le> unread s"
  by (fastforce simp: config_cmd_def pbind_ok Let_def dest: reads)

lemma path_cmd_reads: "path_cmd W ty checked s = ok s' \<Longrightarrow> unread s' \<le> unread s"
  by (fastforce simp: path_cmd_def pbind_ok dest: reads)

lemma rotlog_cmd_reads: "rotlog_cmd W s = ok s' \<Longrightarrow> unread s' \<le> unread s"
  by (fastforce simp: rotlog_cmd_def pbind_ok bind_eq_Some_conv split: if_splits option.splits dest: reads)

lemma tcp_cmd_reads: "tcp_cmd W s = ok s' \<Longrightarrow> unread s' \<le> unread s"
  by (fastforce simp: tcp_cmd_def pbind_ok dest: reads)

lemma source_cmd_reads: "source_cmd W s = ok s' \<Longrightarrow> unread s' \<le> unread s"
  by (fastforce simp: source_cmd_def pbind_ok split: if_splits dest: reads path_cmd_reads)

lemma destination_cmd_reads: "destination_cmd W s = ok s' \<Longrightarrow> unread s' \<le> unread s"
  by (fastforce simp: destination_cmd_def pbind_ok split: if_splits dest: reads path_cmd_reads rotlog_cmd_reads tcp_cmd_reads)

lemma write_cmd_reads: "write_cmd s = ok s' \<Longrightarrow> unread s' \<le> unread s"
  by (fastforce simp: write_cmd_def pbind_ok bind_eq_Some_conv dest: reads)

lemma break_cmd_reads: "break_cmd s = ok s' \<Longrightarrow> unread s' \<le> unread s"
  by (fastforce simp: break_cmd_def bind_eq_Some_conv dest: reads)

lemma assign_cmd_reads: "assign_cmd a s = ok s' \<Longrightarrow> unread s' \<le> unread s"
  by (fastforce simp: assign_cmd_def pbind_ok bind_eq_Some_conv split: if_splits dest: reads)

lemma begin_block_reads: "begin_block bh stk s = ok (stk', s') \<Longrightarrow> unread s' \<le> unread s"
  by (fastforce simp: begin_block_def pbind_ok dest: reads)

lemma match_head_reads: "match_head stk s = ok (stk', s') \<Longrightarrow> unread s' \<le> unread s"
  by (fastforce simp: match_head_def pbind_ok split: if_splits dest: reads begin_block_reads)

lemma end_block_reads: "end_block bh s = ok s' \<Longrightarrow> unread s' \<le> unread s"
  by (fastforce simp: end_block_def pbind_ok split: block_head.splits option.splits dest: reads)

lemma in_stack_reads: "in_stack stk m = ok (Inr (stk', s')) \<Longrightarrow> m = ok s'"
  by (auto simp: in_stack_def pbind_ok)

lemma command_reads: "command W tk s = ok (Inr (stk, s')) \<Longrightarrow> \<forall>f. \<not> readable W f \<Longrightarrow> unread s' \<le> unread s"
  by (auto simp: command_def pbind_ok split: if_splits dest!: in_stack_reads
      dest: var_cmd_reads config_cmd_reads include_cmd_reads source_cmd_reads destination_cmd_reads begin_block_reads)

lemma statement_reads: "statement tk bh stk s = ok (Inr (stk', s')) \<Longrightarrow> unread s' \<le> unread s"
  by (cases tk) (fastforce simp: statement_def pbind_ok dest!: in_stack_reads
      dest: end_block_reads write_cmd_reads break_cmd_reads assign_cmd_reads match_head_reads begin_block_reads reads)+

lemma parse_one_reads:
  assumes "parse_one W stk s = ok (Inr (stk', s'))" and "\<forall>f. \<not> readable W f"
  shows "unread s' < unread s"
proof -
  obtain tk s1 where tk: "next_tok s = ok (tk, s1)" "(case stk of [] \<Rightarrow> command W tk s1 | bh # stk \<Rightarrow> statement tk bh stk s1) = ok (Inr (stk', s'))"
    using assms(1) by (auto simp: parse_one_def pbind_ok)
  then have "unread s' \<le> unread s1" using assms(2) by (cases stk) (auto dest: command_reads statement_reads)
  with next_tok_reads[OF tk(1)] show ?thesis by simp
qed

section \<open>The turns of the loop\<close>

text \<open>One turn of the loop that goes on, and what the loop makes of a turn that ends it.\<close>

definition parse_step :: "cfg_world \<Rightarrow> ((block_head list \<times> pstate) \<times> (block_head list \<times> pstate)) set" where
  "parse_step W = {(c, c'). parse_one W (fst c) (snd c) = ok (Inr c')}"

definition parse_end :: "(pstate + block_head list \<times> pstate) option option \<Rightarrow> pstate option option" where
  "parse_end r = (case r of Some (Some (Inl s)) \<Rightarrow> ok s | Some None \<Rightarrow> Some None | _ \<Rightarrow> None)"

lemma yyparse_last: "\<forall>x. parse_one W stk s \<noteq> ok (Inr x) \<Longrightarrow> yyparse W stk s = parse_end (parse_one W stk s)"
  by (subst yyparse.simps) (auto simp: parse_end_def split: option.splits sum.splits)

lemma yyparse_turn: "parse_one W stk s = ok (Inr (stk', s')) \<Longrightarrow> yyparse W stk s = yyparse W stk' s'"
  by (subst yyparse.simps) simp

definition rule_state :: "string \<Rightarrow> pstate" where
  "rule_state t = \<lparr>yyfiles = [\<lparr>ftext = t, filename = ''c''\<rparr>],
     pconfig = \<lparr>datetime_format = [], fractsec_divider = 1, pidfile = [], logfile = [], listenskt_port = None\<rparr>, vars_table = Map.empty, origins = [],
     nodes = [0 \<mapsto> new_node NODE_PASSTHROUGH None], next_node = 1, rootnode = Some 0, curblock = Some 0\<rparr>"

definition no_includes :: cfg_world where
  "no_includes = \<lparr>readable = (\<lambda>_. False), fopen = (\<lambda>_. None), cfg_env = (\<lambda>_. None), errno_einval = (\<lambda>_. False)\<rparr>"

section \<open>Properties\<close>

text \<open>C35: when no file is included, the parser's loop ends after at most as many turns as there are characters (and one per file): each turn
  leaves less input than it found. The result is that of the turn that ends it, so that no configuration makes the loop run forever.\<close>

theorem parse_turns_bounded:
  assumes "\<forall>f. \<not> readable W f"
  shows "\<exists>n stk' s'. n + input_size (yyfiles s') \<le> input_size (yyfiles s) \<and> ((stk, s), (stk', s')) \<in> parse_step W ^^ n
    \<and> (\<forall>x. parse_one W stk' s' \<noteq> ok (Inr x)) \<and> yyparse W stk s = parse_end (parse_one W stk' s')"
proof (induction "unread s" arbitrary: stk s rule: less_induct)
  case less
  show ?case
  proof (cases "\<exists>x. parse_one W stk s = ok (Inr x)")
    case False
    then show ?thesis using yyparse_last[of W stk s] by (intro exI[of _ 0] exI[of _ stk] exI[of _ s]) auto
  next
    case True
    then obtain stk1 s1 where t: "parse_one W stk s = ok (Inr (stk1, s1))" by auto
    note r = parse_one_reads[OF t assms]
    obtain n stk' s' where IH: "n + input_size (yyfiles s') \<le> input_size (yyfiles s1)" "((stk1, s1), (stk', s')) \<in> parse_step W ^^ n"
      "\<forall>x. parse_one W stk' s' \<noteq> ok (Inr x)" "yyparse W stk1 s1 = parse_end (parse_one W stk' s')" using less[OF r, of stk1] by auto
    have "((stk, s), (stk', s')) \<in> parse_step W ^^ Suc n"
      using t IH(2) by (intro relpow_Suc_I2) (simp_all add: parse_step_def)
    then show ?thesis using r IH yyparse_turn[OF t] by (intro exI[of _ "Suc n"] exI[of _ stk'] exI[of _ s']) (auto simp: unread_def)
  qed
qed

theorem parse_turns_bounded_witness:
  "\<exists>n stk' s'. n + input_size (yyfiles s') \<le> 4 \<and> (([Rule_Block], rule_state '' ;;''), (stk', s')) \<in> parse_step no_includes ^^ n
    \<and> (\<forall>x. parse_one no_includes stk' s' \<noteq> ok (Inr x)) \<and> yyparse no_includes [Rule_Block] (rule_state '' ;;'') = parse_end (parse_one no_includes stk' s')"
proof -
  have "input_size (yyfiles (rule_state '' ;;'')) = 4" by (simp add: rule_state_def input_size_def)
  then show ?thesis using parse_turns_bounded[of no_includes "rule_state '' ;;''" "[Rule_Block]"] by (simp add: no_includes_def)
qed

end
