(* ===== verification/Kqueue.thy ===== *)
theory Kqueue
  imports Watchers
begin

text \<open>
  The file watchers on BSD, \<^verbatim>\<open>evt_kq.c\<close>. A directory is watched as a whole, so that after a change every file waited for in it
  is looked up. The waiting files are elements of a tail queue with one pair of links, which is used for the
  directory's list and, while an event is processed, for the list of files that were found: moving an element to the second
  list changes the links that the loop over the first one follows. Loops over lists may not end, and are partial functions.
\<close>

section \<open>Data\<close>

text \<open>Watchers of files are numbered; \<open>kq_file\<close> is the descriptor of a watcher.\<close>

record kq_dirw =
  kq_path :: string
  kq_dirfd :: int
  kq_files :: tailq

record kq_watch =
  kq_dirs :: "kq_dirw list"
  kq_file :: "nat \<Rightarrow> nat"
  kq_next :: nat

definition NOTE_DELETE :: int where "NOTE_DELETE = 1"
definition NOTE_WRITE :: int where "NOTE_WRITE = 2"
definition NOTE_EXTEND :: int where "NOTE_EXTEND = 4"
definition NOTE_RENAME :: int where "NOTE_RENAME = 32"

section \<open>Watching\<close>

fun kq_find_dir :: "kq_dirw list \<Rightarrow> string \<Rightarrow> kq_dirw option" where
  "kq_find_dir [] path = None"
| "kq_find_dir (dir # dirs) path = (if path = kq_path dir then Some dir else kq_find_dir dirs path)"

fun kq_find_dir_fd :: "kq_dirw list \<Rightarrow> int \<Rightarrow> kq_dirw option" where
  "kq_find_dir_fd [] n = None"
| "kq_find_dir_fd (dir # dirs) n = (if n = kq_dirfd dir then Some dir else kq_find_dir_fd dirs n)"

text \<open>Storing the changed list of the directory that was found.\<close>

fun kq_set_files :: "kq_dirw list \<Rightarrow> string \<Rightarrow> tailq \<Rightarrow> kq_dirw list" where
  "kq_set_files [] path q = []"
| "kq_set_files (dir # dirs) path q = (if path = kq_path dir then dir\<lparr>kq_files := q\<rparr> # dirs else dir # kq_set_files dirs path q)"

text \<open>The watcher of descriptor \<open>i\<close> from a pointer on; \<open>Some None\<close> when there is none.\<close>

partial_function (option) kq_seek :: "tailq \<Rightarrow> (nat \<Rightarrow> nat) \<Rightarrow> nat \<Rightarrow> nat option \<Rightarrow> nat option option" where
  "kq_seek q file i cur =
     (if cur = None then Some None
      else if file (the cur) = i then Some cur
      else kq_seek q file i (tqe_next q (the cur)))"

text \<open>The result is \<open>-1\<close> when the directory cannot be opened, \<open>0\<close> when the file is waited for already, and otherwise the descriptor
  \<open>dfd\<close> the directory was opened with.\<close>

definition add_file_watch :: "int \<Rightarrow> nat \<Rightarrow> string \<Rightarrow> kq_watch \<Rightarrow> (int \<times> kq_watch) option" where
  "add_file_watch dfd i file_path w =
     (let path = c_dirname file_path in
      if dfd = - 1 then Some (- 1, w)
      else do {
        let w = (if kq_find_dir (kq_dirs w) path = None
                 then w\<lparr>kq_dirs := kq_dirs w @ [\<lparr>kq_path = path, kq_dirfd = dfd, kq_files = TAILQ_INIT\<rparr>]\<rparr> else w);
        dir \<leftarrow> kq_find_dir (kq_dirs w) path;
        found \<leftarrow> kq_seek (kq_files dir) (kq_file w) i (tqh_first (kq_files dir));
        if found \<noteq> None then Some (0, w)
        else do {
          q \<leftarrow> TAILQ_INSERT_TAIL (kq_files dir) (kq_next w);
          Some (dfd, w\<lparr>kq_dirs := kq_set_files (kq_dirs w) path q, kq_file := (kq_file w)(kq_next w := i), kq_next := kq_next w + 1\<rparr>)
        }
      })"

definition kq_evt_watch_vnode :: "int \<Rightarrow> nat \<Rightarrow> string \<Rightarrow> kq_watch \<Rightarrow> (int \<times> kq_watch) option" where
  "kq_evt_watch_vnode dfd i file_path w = do {
     (r, w) \<leftarrow> add_file_watch dfd i file_path w;
     Some (if r = - 1 then - 1 else if r = 0 then 1 else 0, w)
   }"

definition remove_file_watch :: "int \<Rightarrow> nat \<Rightarrow> kq_watch \<Rightarrow> (int \<times> kq_watch) option" where
  "remove_file_watch dirfd i w =
     (case kq_find_dir_fd (kq_dirs w) dirfd of
        None \<Rightarrow> Some (1, w)
      | Some dir \<Rightarrow> do {
          found \<leftarrow> kq_seek (kq_files dir) (kq_file w) i (tqh_first (kq_files dir));
          (case found of
             None \<Rightarrow> Some (1, w)
           | Some f \<Rightarrow> do {
               q \<leftarrow> TAILQ_REMOVE (kq_files dir) f;
               Some (0, w\<lparr>kq_dirs := kq_set_files (kq_dirs w) (kq_path dir) q\<rparr>)
             })
        })"

section \<open>Events\<close>

text \<open>The links of the elements belong to both lists.\<close>

definition share_links :: "tailq \<Rightarrow> tailq \<Rightarrow> tailq" where
  "share_links q links = q\<lparr>tqe_next := tqe_next links, tqe_prev := tqe_prev links\<rparr>"

text \<open>The loop over the files of a directory: those that can be accessed are moved to the list \<open>flist\<close> and opened.\<close>

partial_function (option) kq_open_loop ::
  "'h allocator \<Rightarrow> (nat \<Rightarrow> sys) \<Rightarrow> (string \<Rightarrow> bool) \<Rightarrow> (nat \<Rightarrow> nat) \<Rightarrow> 'h table \<Rightarrow> tailq \<Rightarrow> tailq \<Rightarrow> nat option \<Rightarrow> ('h table \<times> tailq \<times> tailq) option" where
  "kq_open_loop A S accessible file s files flist cur =
     (case cur of
        None \<Rightarrow> Some (s, files, flist)
      | Some f \<Rightarrow>
          t_descs s (file f) \<bind> (\<lambda>d.
          if accessible (or_path (t_origins s (d_origin d))) then
            TAILQ_REMOVE files f \<bind> (\<lambda>files.
            TAILQ_INSERT_TAIL (share_links flist files) f \<bind> (\<lambda>flist.
            open_descriptor A (S (file f)) s (d_origin d) (Some (file f)) False (DOPEN_SEEKSTART OR DOPEN_KEEP_BUFFERS) \<bind> (\<lambda>(_, s).
            kq_open_loop A S accessible file s (share_links files flist) flist (tqe_next flist f))))
          else kq_open_loop A S accessible file s files flist (tqe_next files f)))"

text \<open>The second loop asks for the removal of the files found, from the list they are no longer in.\<close>

fun kq_unwatch :: "int \<Rightarrow> nat list \<Rightarrow> kq_watch \<Rightarrow> kq_watch option" where
  "kq_unwatch dirfd [] w = Some w"
| "kq_unwatch dirfd (f # fs) w = remove_file_watch dirfd (kq_file w f) w \<bind> (\<lambda>(_, w). kq_unwatch dirfd fs w)"

definition kq_dir_event :: "'h allocator \<Rightarrow> (nat \<Rightarrow> sys) \<Rightarrow> (string \<Rightarrow> bool) \<Rightarrow> string \<Rightarrow> int \<Rightarrow> 'h table \<Rightarrow> kq_watch \<Rightarrow> ('h table \<times> kq_watch) option" where
  "kq_dir_event A S accessible path fflags s w =
     (if fflags AND (NOTE_WRITE OR NOTE_EXTEND) \<noteq> 0 then
        (case kq_find_dir (kq_dirs w) path of
           None \<Rightarrow> Some (s, w)
         | Some dir \<Rightarrow> do {
             (s, files, flist) \<leftarrow> kq_open_loop A S accessible (kq_file w) s (kq_files dir) TAILQ_INIT (tqh_first (kq_files dir));
             fs \<leftarrow> TAILQ_FOREACH flist;
             w \<leftarrow> kq_unwatch (kq_dirfd dir) fs (w\<lparr>kq_dirs := kq_set_files (kq_dirs w) path files\<rparr>);
             Some (s, w)
           })
      else Some (s, w))"

text \<open>A file that was deleted or renamed, with what \<^verbatim>\<open>fstat\<close> says: it is drained, and becomes the one file to read.\<close>

definition kq_file_event :: "bool \<Rightarrow> nat \<Rightarrow> int \<Rightarrow> 'h table \<Rightarrow> nat list \<Rightarrow> ('h table \<times> nat list) option" where
  "kq_file_event fstat_ok i fflags s ds = do {
     d \<leftarrow> t_descs s i;
     if fflags AND (NOTE_DELETE OR NOTE_RENAME) \<noteq> 0 \<and> fstat_ok
     then Some (s\<lparr>t_descs := (t_descs s)(i \<mapsto> d\<lparr>d_state := DSTATE_DRAIN_ROTATE\<rparr>)\<rparr>, [i])
     else Some (s, ds)
   }"

section \<open>Lemmas\<close>

lemma seek_linked:
  "linked q p xs \<Longrightarrow> kq_seek q file i (load q p) = Some (find (\<lambda>f. file f = i) xs)"
proof (induction xs arbitrary: p)
  case Nil
  then show ?case by (subst kq_seek.simps) simp
next
  case (Cons x xs)
  then have l: "load q p = Some x" "kq_seek q file i (tqe_next q x) = Some (find (\<lambda>f. file f = i) xs)" using Cons.IH[of "Next x"] by auto
  show ?case using l by (subst kq_seek.simps) simp
qed

lemma seek_rep: "tq_rep q xs \<Longrightarrow> kq_seek q file i (tqh_first q) = Some (find (\<lambda>f. file f = i) xs)"
  using seek_linked[of q Head xs] by (simp add: tq_rep_def)

lemma find_set_files:
  "kq_find_dir (kq_set_files dirs path q) path' =
     (if path' = path then map_option (\<lambda>dir. dir\<lparr>kq_files := q\<rparr>) (kq_find_dir dirs path) else kq_find_dir dirs path')"
  by (induction dirs) auto

lemma kq_find_dir_append: "kq_find_dir (xs @ ys) path = (case kq_find_dir xs path of None \<Rightarrow> kq_find_dir ys path | Some dir \<Rightarrow> Some dir)"
  by (induction xs) auto

text \<open>Files that cannot be accessed are passed over.\<close>

lemma open_loop_skips:
  assumes "chained files p xs" and "\<forall>x \<in> set xs. \<exists>d. t_descs s (file x) = Some d \<and> \<not> accessible (or_path (t_origins s (d_origin d)))"
  shows "kq_open_loop A S accessible file s files flist (load files p) = kq_open_loop A S accessible file s files flist (load files (end_place p xs))"
  using assms
proof (induction xs arbitrary: p)
  case (Cons x xs)
  then have "load files p = Some x" "chained files (Next x) xs" by auto
  with Cons.IH[of "Next x"] Cons.prems(2) show ?case by (subst kq_open_loop.simps) auto
qed simp

text \<open>Moving an element to an empty list leaves the first list as the removal made it.\<close>

lemma move_to_empty:
  assumes "tq_rep files xs" and "f \<notin> set xs" and "TAILQ_INSERT_TAIL (share_links TAILQ_INIT files) f = Some flist"
  shows "tq_rep (share_links files flist) xs" and "tq_rep flist [f]" and "tqe_next flist f = None"
proof -
  have fl: "tqe_next flist = (tqe_next files)(f := None)" "tqe_prev flist = (tqe_prev files)(f := Some Head)" "tqh_first flist = Some f" "tqh_last flist = Next f"
    using assms(3) by (auto simp: TAILQ_INSERT_TAIL_def share_links_def TAILQ_INIT_def Let_def)
  show "tq_rep flist [f]" "tqe_next flist f = None" by (simp_all add: tq_rep_def fl)
  have "linked (share_links files flist) Head xs"
    by (rule linked_cong[of files]) (use assms(1,2) in \<open>auto simp: tq_rep_def share_links_def fl\<close>)
  then show "tq_rep (share_links files flist) xs" using assms(1) by (simp add: tq_rep_def)
qed

section \<open>Properties\<close>

text \<open>One change of a directory opens at most one of the files waited for in it, the first of the list that can be accessed:
  moving it to the second list ends the loop, since its next pointer then ends that list. The files behind it are not
  looked at, and wait for the next change of the directory.\<close>

theorem kq_opens_first_only:
  assumes "tq_rep files (xs @ f # ys)"
    and "\<forall>x \<in> set xs. \<exists>d. t_descs s (fo x) = Some d \<and> \<not> accessible (or_path (t_origins s (d_origin d)))"
    and "t_descs s (fo f) = Some d" and "accessible (or_path (t_origins s (d_origin d)))"
    and "open_descriptor A (S (fo f)) s (d_origin d) (Some (fo f)) False (DOPEN_SEEKSTART OR DOPEN_KEEP_BUFFERS) = Some (rp, s')"
  shows "\<exists>files' flist. kq_open_loop A S accessible fo s files TAILQ_INIT (tqh_first files) = Some (s', files', flist)
     \<and> tq_rep files' (xs @ ys) \<and> TAILQ_FOREACH flist = Some [f]"
proof -
  obtain files1 where r: "TAILQ_REMOVE files f = Some files1" "tq_rep files1 (xs @ ys)" using linked_remove[OF assms(1)] by blast
  obtain flist where i: "TAILQ_INSERT_TAIL (share_links TAILQ_INIT files1) f = Some flist" using insert_total by blast
  have "f \<notin> set (xs @ ys)" using assms(1) by (auto simp: tq_rep_def)
  note m = move_to_empty[OF r(2) this i]
  have l: "chained files Head xs" "load files (end_place Head xs) = Some f" using assms(1) by (auto simp: tq_rep_def linked_append)
  have "kq_open_loop A S accessible fo s files TAILQ_INIT (tqh_first files) = kq_open_loop A S accessible fo s files TAILQ_INIT (Some f)"
    using open_loop_skips[OF l(1) assms(2), where A = A and S = S and flist = TAILQ_INIT] l(2) by simp
  also have "\<dots> = Some (s', share_links files1 flist, flist)"
    using assms(3-5) r(1) i m(3) by (subst kq_open_loop.simps) (simp add: kq_open_loop.simps[of _ _ _ _ _ _ _ None])
  finally show ?thesis using m(1) tq.elems_law[OF m(2)] by blast
qed

definition two_files :: tailq where
  "two_files = the (TAILQ_INSERT_TAIL (the (TAILQ_INSERT_TAIL TAILQ_INIT 0)) 1)"

definition table2_pending :: "'h \<Rightarrow> 'h table" where
  "table2_pending h = (table0 h (log_origin\<lparr>or_type := D_FILER\<rparr>))\<lparr>t_descs := [0 \<mapsto> a_desc DSTATE_PENDING D_FILER, 1 \<mapsto> a_desc DSTATE_PENDING D_FILER],
     t_next := 2\<rparr>"

lemma two_files_rep: "tq_rep two_files [0, 1]"
proof -
  obtain q where q: "TAILQ_INSERT_TAIL TAILQ_INIT 0 = Some q" "tq_rep q [0]" using tq.ins_law[OF tq.rep_empty, of 0] by auto
  with tq.ins_law[OF q(2), of 1] show ?thesis by (auto simp: two_files_def)
qed

theorem kq_opens_first_only_witness:
  "\<forall>ar. \<exists>s' files' flist. kq_open_loop dynstr_arena (\<lambda>_. sys0) (\<lambda>_. True) (\<lambda>x. x) (table2_pending ar) two_files TAILQ_INIT (tqh_first two_files)
       = Some (s', files', flist) \<and> tq_rep files' [1] \<and> TAILQ_FOREACH flist = Some [0]"
proof (rule allI)
  fix ar :: arena
  let ?s = "table2_pending ar" and ?d = "a_desc DSTATE_PENDING D_FILER"
  have d: "t_descs ?s 0 = Some ?d" "d_origin ?d = 0" "or_type (t_origins ?s 0) \<noteq> D_TYPEINVALID"
    by (simp_all add: table2_pending_def table0_def a_desc_def log_origin_def)
  have "(DOPEN_SEEKSTART OR DOPEN_KEEP_BUFFERS) AND DOPEN_KEEP_BUFFERS \<noteq> 0" by (simp add: DOPEN_KEEP_BUFFERS_def DOPEN_SEEKSTART_def)
  from open_keep_ok[OF d(1,3) this] obtain rp s' where
    "open_descriptor dynstr_arena sys0 ?s 0 (Some 0) False (DOPEN_SEEKSTART OR DOPEN_KEEP_BUFFERS) = Some (rp, s')" by blast
  with kq_opens_first_only[where files = two_files and xs = "[]" and f = 0 and ys = "[1]" and s = ?s and fo = "\<lambda>x. x" and d = ?d
      and accessible = "\<lambda>_. True" and A = dynstr_arena and S = "\<lambda>_. sys0" and rp = rp and s' = s'] two_files_rep d
  show "\<exists>s' files' flist. kq_open_loop dynstr_arena (\<lambda>_. sys0) (\<lambda>_. True) (\<lambda>x. x) ?s two_files TAILQ_INIT (tqh_first two_files)
       = Some (s', files', flist) \<and> tq_rep files' [1] \<and> TAILQ_FOREACH flist = Some [0]" by auto
qed

text \<open>Watching a file of a directory that is not watched yet puts it into a new list of its own; asking again finds it there and
  changes nothing.\<close>

theorem kq_watch_idempotent:
  assumes "kq_find_dir (kq_dirs w) (c_dirname path) = None" and "dfd \<noteq> - 1" and "dfd \<noteq> 0"
  shows "\<exists>w' dir. kq_evt_watch_vnode dfd i path w = Some (0, w') \<and> kq_find_dir (kq_dirs w') (c_dirname path) = Some dir
     \<and> tq_rep (kq_files dir) [kq_next w] \<and> kq_file w' (kq_next w) = i \<and> kq_evt_watch_vnode dfd' i path w' = Some (if dfd' = - 1 then - 1 else 1, w')"
proof -
  obtain q where q: "TAILQ_INSERT_TAIL TAILQ_INIT (kq_next w) = Some q" "tq_rep q [kq_next w]" using tq.ins_law[OF tq.rep_empty] by auto
  let ?p = "c_dirname path"
  let ?w = "w\<lparr>kq_dirs := kq_dirs w @ [\<lparr>kq_path = ?p, kq_dirfd = dfd, kq_files = q\<rparr>], kq_file := (kq_file w)(kq_next w := i), kq_next := kq_next w + 1\<rparr>"
  have set: "kq_set_files (dirs @ [\<lparr>kq_path = ?p, kq_dirfd = dfd, kq_files = TAILQ_INIT\<rparr>]) ?p q = dirs @ [\<lparr>kq_path = ?p, kq_dirfd = dfd, kq_files = q\<rparr>]"
    if "kq_find_dir dirs ?p = None" for dirs using that by (induction dirs) (auto split: if_splits)
  have "kq_seek TAILQ_INIT (kq_file w) i None = Some None" by (simp add: kq_seek.simps)
  moreover have "tqh_first TAILQ_INIT = None" by (simp add: TAILQ_INIT_def)
  ultimately have "add_file_watch dfd i path w = Some (dfd, ?w)" using assms(1,2) q(1) set[OF assms(1)]
    by (simp add: add_file_watch_def kq_find_dir_append Let_def)
  then have "kq_evt_watch_vnode dfd i path w = Some (0, ?w)" using assms(2,3) by (simp add: kq_evt_watch_vnode_def)
  moreover have f: "kq_find_dir (kq_dirs ?w) ?p = Some \<lparr>kq_path = ?p, kq_dirfd = dfd, kq_files = q\<rparr>" using assms(1) by (simp add: kq_find_dir_append)
  moreover have "kq_seek q (kq_file ?w) i (tqh_first q) = Some (Some (kq_next w))" using seek_rep[OF q(2), of "kq_file ?w" i] by simp
  with f have "kq_evt_watch_vnode dfd' i path ?w = Some (if dfd' = - 1 then - 1 else 1, ?w)"
    by (simp add: kq_evt_watch_vnode_def add_file_watch_def Let_def)
  ultimately show ?thesis using q(2) by auto
qed

text \<open>When a file is deleted or renamed, the files that the main loop had collected for reading before this event are
  forgotten: the array starts over with this one file.\<close>

theorem kq_file_event_forgets:
  assumes "t_descs s i = Some d" and "fflags AND (NOTE_DELETE OR NOTE_RENAME) \<noteq> 0"
  shows "\<exists>s'. kq_file_event True i fflags s ds = Some (s', [i]) \<and> t_descs s' i = Some (d\<lparr>d_state := DSTATE_DRAIN_ROTATE\<rparr>)"
  using assms by (simp add: kq_file_event_def)

end
