(* ===== verification/Kq_Register.thy ===== *)
theory Kq_Register
  imports Kqueue "HOL-Library.Word"
begin

text \<open>
  How \<^verbatim>\<open>evt_kq.c\<close> registers descriptors with the kernel queue, and how it finds out what an event is about: the pointer that is
  stored with a registration carries a tag in its upper 16 bits (\<^verbatim>\<open>TAGPTR\<close> and \<^verbatim>\<open>UNTAGPTR\<close> of \<^verbatim>\<open>def.h\<close>).
\<close>

unbundle bit_operations_syntax

section \<open>Tagged pointers\<close>

definition TAGPTR :: "64 word \<Rightarrow> 64 word \<Rightarrow> 64 word" where
  "TAGPTR p tag = p OR push_bit 48 tag"

text \<open>The tag and the pointer.\<close>

definition UNTAGPTR :: "64 word \<Rightarrow> 64 word \<times> 64 word" where
  "UNTAGPTR tagptr = (drop_bit 48 tagptr, tagptr AND 0x0000ffffffffffff)"

definition VNODE_FILE :: "64 word" where "VNODE_FILE = 0"
definition VNODE_DIR :: "64 word" where "VNODE_DIR = 1"

section \<open>Registrations\<close>

datatype kq_filter = EVFILT_READ | EVFILT_WRITE | EVFILT_VNODE

record kq_change =
  kq_ident :: int
  kq_filt :: kq_filter
  kq_flags :: int
  kq_fflags :: int
  kq_udata :: "64 word"

definition EV_ADD :: int where "EV_ADD = 1"
definition EV_DELETE :: int where "EV_DELETE = 2"
definition EV_ONESHOT :: int where "EV_ONESHOT = 16"
definition EV_CLEAR :: int where "EV_CLEAR = 32"

definition EV_SET :: "int \<Rightarrow> kq_filter \<Rightarrow> int \<Rightarrow> int \<Rightarrow> 64 word \<Rightarrow> kq_change" where
  "EV_SET ident filt flags fflags udata = \<lparr>kq_ident = ident, kq_filt = filt, kq_flags = flags, kq_fflags = fflags, kq_udata = udata\<rparr>"

text \<open>\<open>kevent\<close> is the system call with a list of changes and no room for events: its result and the registrations after it, by descriptor
  and filter. The pointer to a descriptor is \<open>p\<close>.\<close>

type_synonym kq_interest = "int \<times> kq_filter \<rightharpoonup> kq_change"
type_synonym kq_call = "kq_change list \<Rightarrow> kq_interest \<Rightarrow> int \<times> kq_interest"

definition kq_reg_read :: "kq_call \<Rightarrow> int \<Rightarrow> 64 word \<Rightarrow> kq_interest \<Rightarrow> int \<times> kq_interest" where
  "kq_reg_read kevent n p q = kevent [EV_SET n EVFILT_READ (EV_ADD OR EV_CLEAR) 0 p] q"

definition kq_reg_write :: "kq_call \<Rightarrow> int \<Rightarrow> 64 word \<Rightarrow> kq_interest \<Rightarrow> int \<times> kq_interest" where
  "kq_reg_write kevent n p q = kevent [EV_SET n EVFILT_WRITE (EV_ADD OR EV_CLEAR OR EV_ONESHOT) 0 p] q"

definition file_watch_deletion :: "kq_call \<Rightarrow> int \<Rightarrow> 64 word \<Rightarrow> kq_interest \<Rightarrow> kq_interest" where
  "file_watch_deletion kevent n p q =
     snd (kevent [EV_SET n EVFILT_VNODE (EV_ADD OR EV_CLEAR OR EV_ONESHOT) (NOTE_DELETE OR NOTE_RENAME) (TAGPTR p VNODE_FILE)] q)"

definition kq_reg_vnode_del :: "kq_call \<Rightarrow> int \<Rightarrow> 64 word \<Rightarrow> kq_interest \<Rightarrow> kq_interest" where
  "kq_reg_vnode_del kevent n p q = file_watch_deletion kevent n p q"

text \<open>Watching the directory of a file; \<open>path_ptr\<close> is the address of the directory's name.\<close>

definition kq_watch_vnode ::
  "kq_call \<Rightarrow> (string \<Rightarrow> 64 word) \<Rightarrow> int \<Rightarrow> nat \<Rightarrow> string \<Rightarrow> kq_watch \<Rightarrow> kq_interest \<Rightarrow> (int \<times> kq_watch \<times> kq_interest) option" where
  "kq_watch_vnode kevent path_ptr dfd i file_path w q = do {
     (r, w') \<leftarrow> add_file_watch dfd i file_path w;
     Some (if r = - 1 then (- 1, w', q)
       else if r = 0 then (1, w', q)
       else (0, w', snd (kevent [EV_SET r EVFILT_VNODE (EV_ADD OR EV_CLEAR) (NOTE_WRITE OR NOTE_EXTEND OR NOTE_DELETE)
                                   (TAGPTR (path_ptr (c_dirname file_path)) VNODE_DIR)] q)))
   }"

definition kq_unwatch_vnode :: "int \<Rightarrow> nat \<Rightarrow> kq_watch \<Rightarrow> kq_watch option" where
  "kq_unwatch_vnode dirfd i w = map_option snd (remove_file_watch dirfd i w)"

definition kq_clear_state :: "kq_call \<Rightarrow> kq_filter \<Rightarrow> int \<Rightarrow> kq_interest \<Rightarrow> int \<times> kq_interest" where
  "kq_clear_state kevent filt n q = kevent [EV_SET n filt EV_CLEAR 0 0] q"

definition kq_reg_remove :: "kq_call \<Rightarrow> int \<Rightarrow> 64 word \<Rightarrow> kq_interest \<Rightarrow> int \<times> kq_interest" where
  "kq_reg_remove kevent n p q =
     kevent [EV_SET n EVFILT_VNODE EV_DELETE 0 p, EV_SET n EVFILT_READ EV_DELETE 0 p, EV_SET n EVFILT_WRITE EV_DELETE 0 p] q"

section \<open>Events\<close>

text \<open>An event with the pointer it was registered with; \<open>path_at\<close> and \<open>desc_at\<close> are what pointers point to.\<close>

definition kq_evt_process_vnode ::
  "'h allocator \<Rightarrow> (nat \<Rightarrow> sys) \<Rightarrow> (string \<Rightarrow> bool) \<Rightarrow> bool \<Rightarrow> (64 word \<Rightarrow> string) \<Rightarrow> (64 word \<Rightarrow> nat) \<Rightarrow> 64 word \<Rightarrow> int
   \<Rightarrow> 'h table \<times> kq_watch \<times> nat list \<Rightarrow> ('h table \<times> kq_watch \<times> nat list) option" where
  "kq_evt_process_vnode A S accessible fstat_ok path_at desc_at udata fflags = (\<lambda>(s, w, ds).
     (case UNTAGPTR udata of (vnodetype, data) \<Rightarrow>
        if vnodetype = VNODE_DIR then map_option (\<lambda>(s, w). (s, w, ds)) (kq_dir_event A S accessible (path_at data) fflags s w)
        else if vnodetype = VNODE_FILE then map_option (\<lambda>(s, ds). (s, w, ds)) (kq_file_event fstat_ok (desc_at data) fflags s ds)
        else Some (s, w, ds)))"

section \<open>The kernel\<close>

text \<open>What is documented of \<^verbatim>\<open>kevent\<close>: changes are applied in order; adding replaces a registration, deleting one that does not exist
  is an error, and as there is no room to report it, the call ends there.\<close>

definition kevent_documented :: "kq_call \<Rightarrow> bool" where
  "kevent_documented kevent \<longleftrightarrow> (\<forall>q. kevent [] q = (0, q))
     \<and> (\<forall>c cs q. kq_flags c AND EV_ADD \<noteq> 0 \<longrightarrow> kevent (c # cs) q = kevent cs (q((kq_ident c, kq_filt c) \<mapsto> c)))
     \<and> (\<forall>c cs q. kq_flags c = EV_DELETE \<longrightarrow>
          kevent (c # cs) q = (if q (kq_ident c, kq_filt c) = None then (- 1, q) else kevent cs (q((kq_ident c, kq_filt c) := None))))"

fun kevent_model :: kq_call where
  "kevent_model [] q = (0, q)"
| "kevent_model (c # cs) q =
     (if kq_flags c AND EV_ADD \<noteq> 0 then kevent_model cs (q((kq_ident c, kq_filt c) \<mapsto> c))
      else if kq_flags c = EV_DELETE then
        (if q (kq_ident c, kq_filt c) = None then (- 1, q) else kevent_model cs (q((kq_ident c, kq_filt c) := None)))
      else kevent_model cs q)"

lemma kevent_model_documented: "kevent_documented kevent_model"
  by (simp add: kevent_documented_def EV_ADD_def EV_DELETE_def)

lemma kevent_add:
  "kevent_documented kevent \<Longrightarrow> kq_flags c AND EV_ADD \<noteq> 0 \<Longrightarrow> kevent [c] q = (0, q((kq_ident c, kq_filt c) \<mapsto> c))"
  by (simp add: kevent_documented_def)

section \<open>Properties\<close>

lemma tag_bits:
  fixes p t :: "64 word"
  assumes "unat p < 2 ^ 48" and "unat t < 2 ^ 16"
  shows "drop_bit 48 (TAGPTR p t) = t" and "TAGPTR p t AND 0x0000ffffffffffff = p"
proof -
  have p: "take_bit 48 p = p" using assms(1) by (simp add: word_unat_eq_iff unsigned_take_bit_eq take_bit_nat_eq_self)
  have t: "take_bit 16 t = t" using assms(2) by (simp add: word_unat_eq_iff unsigned_take_bit_eq take_bit_nat_eq_self)
  have m: "(0x0000ffffffffffff :: 64 word) = mask 48" by (simp add: mask_eq_exp_minus_1)
  have pb: "bit p i \<Longrightarrow> i < 48" for i using p by (metis bit_take_bit_iff)
  have tb: "bit t i \<Longrightarrow> i < 16" for i using t by (metis bit_take_bit_iff)
  show "drop_bit 48 (TAGPTR p t) = t"
    by (rule bit_word_eqI) (auto simp: TAGPTR_def bit_simps dest: pb tb)
  show "TAGPTR p t AND 0x0000ffffffffffff = p" unfolding m
    by (rule bit_word_eqI) (auto simp: TAGPTR_def bit_simps dest: pb)
qed

text \<open>A pointer of 48 bits comes back with its tag.\<close>

theorem tagged_pointer_roundtrip:
  assumes "unat p < 2 ^ 48" and "unat t < 2 ^ 16"
  shows "UNTAGPTR (TAGPTR p t) = (t, p)"
  using tag_bits[OF assms] by (simp add: UNTAGPTR_def)

theorem tagged_pointer_roundtrip_witness: "UNTAGPTR (TAGPTR 0x7f0012345678 1) = (1, 0x7f0012345678)"
  by (rule tagged_pointer_roundtrip) simp_all

lemma untag: "unat p < 2 ^ 48 \<Longrightarrow> UNTAGPTR (TAGPTR p VNODE_DIR) = (VNODE_DIR, p)" "unat p < 2 ^ 48 \<Longrightarrow> UNTAGPTR (TAGPTR p VNODE_FILE) = (VNODE_FILE, p)"
  using tag_bits[of p VNODE_DIR] tag_bits[of p VNODE_FILE] by (simp_all add: UNTAGPTR_def VNODE_DIR_def VNODE_FILE_def)

lemma add_file_watch_result: "add_file_watch dfd i file_path w = Some (r, w') \<Longrightarrow> r \<in> {- 1, 0, dfd}"
  by (auto simp: add_file_watch_def Let_def bind_eq_Some_conv split: if_splits)

text \<open>A directory that was registered for a file is found again when its event arrives: the files waited for in it are looked up.\<close>

theorem watched_directory_found:
  assumes "kevent_documented kevent" and "kq_watch_vnode kevent path_ptr dfd i file_path w q = Some (0, w', q')"
    and "path_at (path_ptr (c_dirname file_path)) = c_dirname file_path" and "unat (path_ptr (c_dirname file_path)) < 2 ^ 48"
  shows "\<exists>c. q' (dfd, EVFILT_VNODE) = Some c \<and> kq_evt_process_vnode A S accessible fstat_ok path_at desc_at (kq_udata c) fflags (s, w', ds)
     = map_option (\<lambda>(s, w). (s, w, ds)) (kq_dir_event A S accessible (c_dirname file_path) fflags s w')"
proof -
  obtain r w1 where a: "add_file_watch dfd i file_path w = Some (r, w1)" using assms(2) by (auto simp: kq_watch_vnode_def bind_eq_Some_conv)
  let ?c = "EV_SET r EVFILT_VNODE (EV_ADD OR EV_CLEAR) (NOTE_WRITE OR NOTE_EXTEND OR NOTE_DELETE) (TAGPTR (path_ptr (c_dirname file_path)) VNODE_DIR)"
  have c: "kq_flags ?c AND EV_ADD \<noteq> 0" by (simp add: EV_SET_def EV_ADD_def EV_CLEAR_def)
  have "r \<noteq> - 1 \<and> r \<noteq> 0 \<and> w' = w1 \<and> q' = snd (kevent [?c] q)" using assms(2) a by (auto simp: kq_watch_vnode_def split: if_splits)
  moreover from this have "r = dfd" using add_file_watch_result[OF a] by auto
  ultimately have "q' (dfd, EVFILT_VNODE) = Some ?c" using kevent_add[OF assms(1) c, of q] by (simp add: EV_SET_def)
  moreover have "kq_udata ?c = TAGPTR (path_ptr (c_dirname file_path)) VNODE_DIR" by (simp add: EV_SET_def)
  ultimately show ?thesis using untag(1)[OF assms(4)] assms(3) by (intro exI[of _ ?c]) (simp add: kq_evt_process_vnode_def)
qed

theorem watched_directory_found_witness:
  "\<exists>w' q' c. kq_watch_vnode kevent_model (\<lambda>_. 0x1000) 7 0 ''/tmp/a'' \<lparr>kq_dirs = [], kq_file = (\<lambda>_. 0), kq_next = 0\<rparr> Map.empty = Some (0, w', q')
     \<and> q' (7, EVFILT_VNODE) = Some c \<and> (\<forall>S accessible fflags s. kq_evt_process_vnode dynstr_arena S accessible True (\<lambda>_. ''/tmp'') (\<lambda>_. 0) (kq_udata c) fflags (s, w', [])
       = map_option (\<lambda>(s, w). (s, w, [])) (kq_dir_event dynstr_arena S accessible ''/tmp'' fflags s w'))"
proof -
  have d: "c_dirname ''/tmp/a'' = ''/tmp''" by code_simp
  obtain w' where a: "add_file_watch 7 0 ''/tmp/a'' \<lparr>kq_dirs = [], kq_file = (\<lambda>_. 0), kq_next = 0\<rparr> = Some (7, w')"
    by (simp add: add_file_watch_def d TAILQ_INIT_def TAILQ_INSERT_TAIL_def kq_seek.simps Let_def)
  then obtain q' where r: "kq_watch_vnode kevent_model (\<lambda>_. 0x1000) 7 0 ''/tmp/a'' \<lparr>kq_dirs = [], kq_file = (\<lambda>_. 0), kq_next = 0\<rparr> Map.empty = Some (0, w', q')"
    by (simp add: kq_watch_vnode_def)
  have "\<exists>c. q' (7, EVFILT_VNODE) = Some c \<and> kq_evt_process_vnode dynstr_arena S accessible True (\<lambda>_. ''/tmp'') (\<lambda>_. 0) (kq_udata c) fflags (s, w', [])
       = map_option (\<lambda>(s, w). (s, w, [])) (kq_dir_event dynstr_arena S accessible ''/tmp'' fflags s w')" for S accessible fflags s
    using watched_directory_found[OF kevent_model_documented r, of "\<lambda>_. ''/tmp''" dynstr_arena S accessible True "\<lambda>_. 0" fflags s "[]"] d by simp
  note ev = this
  then obtain c where c: "q' (7, EVFILT_VNODE) = Some c" by blast
  have "kq_evt_process_vnode dynstr_arena S accessible True (\<lambda>_. ''/tmp'') (\<lambda>_. 0) (kq_udata c) fflags (s, w', [])
       = map_option (\<lambda>(s, w). (s, w, [])) (kq_dir_event dynstr_arena S accessible ''/tmp'' fflags s w')" for S accessible fflags s
    using ev[of S accessible fflags s] c by simp
  with r c show ?thesis by blast
qed

text \<open>A descriptor that is registered for reading only stays registered when it is removed: deleting the filter that it does not have ends
  the call.\<close>

theorem remove_stops_at_missing:
  assumes "kevent_documented kevent" and "q (n, EVFILT_VNODE) = None"
  shows "kq_reg_remove kevent n p q = (- 1, q)"
  using assms by (simp add: kq_reg_remove_def kevent_documented_def EV_SET_def)

theorem remove_stops_at_missing_witness:
  "\<exists>q. kq_reg_read kevent_model 7 0x1000 Map.empty = (0, q) \<and> kq_reg_remove kevent_model 7 0x1000 q = (- 1, q) \<and> q (7, EVFILT_READ) \<noteq> None"
proof -
  let ?p = "0x1000 :: 64 word"
  let ?q = "[(7, EVFILT_READ) \<mapsto> EV_SET 7 EVFILT_READ (EV_ADD OR EV_CLEAR) 0 ?p]"
  have "kq_reg_read kevent_model 7 ?p Map.empty = (0, ?q)" by (simp add: kq_reg_read_def EV_SET_def EV_ADD_def EV_CLEAR_def)
  moreover have "kq_reg_remove kevent_model 7 ?p ?q = (- 1, ?q)" by (rule remove_stops_at_missing[OF kevent_model_documented]) simp
  ultimately show ?thesis by auto
qed

end
