(* ===== verification/Pending_Hash.thy ===== *)
theory Pending_Hash
  imports Pending Hashtable
begin

text \<open>
  The table of pending reads is a hash table: its operations are \<^verbatim>\<open>ht_upsert\<close> and \<^verbatim>\<open>ht_remove\<close> of \<^verbatim>\<open>hashtable.c\<close> on a table with integer keys,
  17 buckets and no deleter, as \<^verbatim>\<open>env_init\<close> creates it. A pointer to a descriptor is its number, counted from 1.
\<close>

definition elem_of :: "pend_elem \<Rightarrow> ht_element" where
  "elem_of e = \<lparr>key = pe_fd e, elval = int (pe_desc e) + 1\<rparr>"

definition chain_of :: "pend_elem list \<Rightarrow> ht_element list" where
  "chain_of els = (if els = [] then empty_chain else map elem_of els)"

definition table_of :: "pending \<Rightarrow> hashtable" where
  "table_of p = (ht_create HT_INT 17 (Some ht_value_deleter_null))\<lparr>heads := map (\<lambda>b. chain_of (p_chain p b)) [0..<pend_buckets]\<rparr>"

text \<open>File descriptors are positive numbers of 31 bits.\<close>

definition fd_ok :: "int \<Rightarrow> bool" where "fd_ok n \<longleftrightarrow> 0 < n \<and> n < 2 ^ 31"

definition pend_keys :: "pending \<Rightarrow> int set" where "pend_keys p = (\<Union>b. pe_fd ` set (p_chain p b))"

lemma fd_key: "fd_ok n \<Longrightarrow> key_ok HT_INT m n"
  by (simp add: fd_ok_def key_ok_def is_string_type_def)

lemma fd_cmp: "fd_ok n \<Longrightarrow> fd_ok k \<Longrightarrow> ht_cmp_eq HT_INT m n k = Some (n = k)"
  using cmp_eq_ok[OF fd_key fd_key, of n k m] by (simp add: kcon_def is_string_type_def)

lemma table_of_simps [simp]: "ktype (table_of p) = HT_INT" "length (heads (table_of p)) = 17" "num_buckets (table_of p) = 17"
  "fn_del (table_of p) = ht_value_deleter_null" "b < 17 \<Longrightarrow> heads (table_of p) ! b = chain_of (p_chain p b)"
  by (simp_all add: table_of_def ht_create_def pend_buckets_def)

lemma fd_bucket: "bucket_of (table_of p) (word_of_int n) = Some (pend_bucket n)"
  by (simp add: bucket_of_def pend_bucket_def pend_buckets_def unsigned_of_int take_bit_eq_mod)

lemma heads_update:
  assumes "b < 17" and "\<forall>b'. b' \<noteq> b \<longrightarrow> p_chain p' b' = p_chain p b'"
  shows "(table_of p)\<lparr>heads := (heads (table_of p))[b := chain_of (p_chain p' b)]\<rparr> = table_of p'"
proof -
  have "(heads (table_of p))[b := chain_of (p_chain p' b)] = heads (table_of p')"
    using assms by (intro nth_equalityI) (auto simp: nth_list_update)
  then show ?thesis by (simp add: table_of_def ht_create_def)
qed

lemma upsert_put:
  assumes "fd_ok n" and "\<forall>e \<in> set els. fd_ok (pe_fd e)" and "els \<noteq> []"
  shows "\<exists>m'. upsert_chain (table_of p) m n (int i + 1) (map elem_of els) = Some (map elem_of (pend_put c n i els), m') \<and> strs m' = strs m"
  using assms(2,3)
proof (induction els)
  case (Cons e es)
  have c: "ht_cmp_eq HT_INT m n (key (elem_of e)) = Some (n = pe_fd e)" using fd_cmp[OF assms(1)] Cons.prems(1) by (simp add: elem_of_def)
  show ?case
  proof (cases "n = pe_fd e")
    case True
    with c show ?thesis by (simp add: free_value_def) (simp add: elem_of_def)
  next
    case False
    with c Cons show ?thesis by (cases "es = []") (auto simp: copy_key_def is_string_type_def elem_of_def)
  qed
qed simp

section \<open>Properties\<close>

text \<open>C16: adding a descriptor to the pending reads is \<^verbatim>\<open>ht_upsert\<close>, and taking one out is \<^verbatim>\<open>ht_remove\<close>, which faults in the same cases; both
  leave the strings alone.\<close>

theorem pending_is_hash_table:
  assumes "fd_ok n" and "\<forall>k \<in> pend_keys p. fd_ok k"
  shows "(\<exists>m'. ht_upsert (table_of p) m n (int i + 1) = Some (table_of (desc_pending_add n i p), m') \<and> strs m' = strs m)
     \<and> (case desc_pending_remove n p of None \<Rightarrow> ht_remove (table_of p) m n = None
        | Some p' \<Rightarrow> \<exists>m'. ht_remove (table_of p) m n = Some (table_of p', m') \<and> strs m' = strs m)"
proof -
  let ?b = "pend_bucket n" and ?T = "table_of p"
  have h: "ht_hash HT_INT m n = Some (word_of_int n)" by (simp add: ht_hash_def is_string_type_def)
  have ks: "\<forall>e \<in> set (p_chain p ?b). fd_ok (pe_fd e)" using assms(2) by (auto simp: pend_keys_def)
  have n0: "n \<noteq> 0" "pe_fd e \<noteq> 0" if "e \<in> set (p_chain p ?b)" for e using that assms(1) ks by (auto simp: fd_ok_def)
  have up: "?T\<lparr>heads := (heads ?T)[?b := chain_of (p_chain p' ?b)]\<rparr> = table_of p'" if "\<forall>b'. b' \<noteq> ?b \<longrightarrow> p_chain p' b' = p_chain p b'" for p'
    using heads_update[OF _ that] by simp
  have add: "\<exists>m'. ht_upsert ?T m n (int i + 1) = Some (table_of (desc_pending_add n i p), m') \<and> strs m' = strs m"
  proof (cases "p_chain p ?b")
    case Nil
    then show ?thesis using up[of "desc_pending_add n i p"] h fd_bucket
      by (simp add: ht_upsert_def chain_of_def empty_chain_def copy_key_def is_string_type_def add_chain elem_of_def)
  next
    case (Cons e es)
    obtain m' where u: "upsert_chain ?T m n (int i + 1) (map elem_of (e # es)) = Some (map elem_of (pend_put (p_next p) n i (e # es)), m')" "strs m' = strs m"
      using upsert_put[OF assms(1), of "e # es" p m i "p_next p"] ks Cons by auto
    have "chain_of (p_chain (desc_pending_add n i p) ?b) = map elem_of (pend_put (p_next p) n i (e # es))"
      using Cons by (simp add: add_chain chain_of_def)
    moreover have "elval (elem_of e) \<noteq> 0" by (simp add: elem_of_def)
    ultimately show ?thesis using up[of "desc_pending_add n i p"] h fd_bucket u Cons
      by (simp add: ht_upsert_def chain_of_def add_chain del: upsert_chain.simps pend_put.simps)
  qed
  have beh: "remove_behind ?T m n (map elem_of es) = (if n \<in> pe_fd ` set es then None else Some ())" if "\<forall>e \<in> set es. fd_ok (pe_fd e)" for es
    using that by (induction es) (auto simp: fd_cmp[OF assms(1)] elem_of_def)
  have "case desc_pending_remove n p of None \<Rightarrow> ht_remove ?T m n = None
        | Some p' \<Rightarrow> \<exists>m'. ht_remove ?T m n = Some (table_of p', m') \<and> strs m' = strs m"
  proof (cases "p_chain p ?b")
    case Nil
    then show ?thesis using h fd_bucket by (simp add: desc_pending_remove_def ht_remove_def chain_of_def empty_chain_def)
  next
    case (Cons e es)
    let ?p = "p\<lparr>p_chain := (p_chain p)(?b := (case es of [] \<Rightarrow> [] | x # xs \<Rightarrow> x\<lparr>pe_cell := pe_cell e\<rparr> # xs))\<rparr>"
    have T: "?T\<lparr>heads := (heads ?T)[?b := (if es = [] then empty_chain else map elem_of es)]\<rparr> = table_of ?p"
      using up[of ?p] by (cases es) (simp_all add: chain_of_def elem_of_def)
    have c: "ht_cmp_eq HT_INT m n (key (elem_of e)) = Some (n = pe_fd e)" "key (elem_of e) = pe_fd e" "pe_fd e \<noteq> 0"
      using fd_cmp[OF assms(1)] ks Cons n0 by (simp_all add: elem_of_def)
    show ?thesis
    proof (cases "n = pe_fd e")
      case True
      then show ?thesis using Cons T c h fd_bucket
        by (cases es) (simp_all add: desc_pending_remove_def ht_remove_def chain_of_def free_key_def is_string_type_def free_value_def empty_chain_def Let_def)
    next
      case False
      then show ?thesis using Cons c h fd_bucket beh[of es] ks by (simp add: desc_pending_remove_def ht_remove_def chain_of_def)
    qed
  qed
  with add show ?thesis by blast
qed

theorem pending_is_hash_table_witness:
  "\<exists>m'. ht_upsert (table_of (desc_pending_add 4 0 no_pending)) \<lparr>strs = Map.empty, next_str = 1, deleted = []\<rparr> 21 2
       = Some (table_of (desc_pending_add 21 1 (desc_pending_add 4 0 no_pending)), m')"
proof -
  have "\<forall>k \<in> pend_keys (desc_pending_add 4 0 no_pending). fd_ok k" by (auto simp: pend_keys_def add_chain fd_ok_def split: if_splits)
  moreover have "fd_ok 21" by (simp add: fd_ok_def)
  ultimately show ?thesis using pending_is_hash_table[of 21 "desc_pending_add 4 0 no_pending" "\<lparr>strs = Map.empty, next_str = 1, deleted = []\<rparr>" 1] by auto
qed

end
