(* ===== verification/Logging.thy ===== *)
theory Logging
  imports Dynstr "HOL-Library.Word"
begin

text \<open>
  The logger of \<^verbatim>\<open>log.c\<close>: where the messages go, how a message is put together in its buffer of 2048 bytes, and the log file that
  is opened again when its descriptor has become invalid. The system calls work on a state \<open>'w\<close> of the outside. A message is
  given by the text that its format makes, which is at most \<^verbatim>\<open>INT_MAX\<close> bytes long; \<open>None\<close> is a write outside the buffer, the
  use of a released name, or a recursion that never ends.
\<close>

section \<open>State\<close>

datatype DLOG_LOGTYPE = LOGTYPE_INVALID | LOGTYPE_FILE | LOGTYPE_SYSLOG | LOGTYPE_STDERR

datatype DLOG_MSG_SEVERITY = DLOG_MSG_DEBUG | DLOG_MSG_INFO | DLOG_MSG_WARNING | DLOG_MSG_ERROR

primrec severity_value :: "DLOG_MSG_SEVERITY \<Rightarrow> int" where
  "severity_value DLOG_MSG_DEBUG = 0"
| "severity_value DLOG_MSG_INFO = 1"
| "severity_value DLOG_MSG_WARNING = 2"
| "severity_value DLOG_MSG_ERROR = 3"

text \<open>The name of the log file is not set, a copy, or a pointer to a copy that was released.\<close>

datatype held_name = Unset | Held string | Released

record log_state =
  log_type :: DLOG_LOGTYPE
  log_file_fd :: int
  log_filename :: held_name

text \<open>A write fails with an error number or returns how much it took.\<close>

record 'w log_calls =
  log_write :: "int \<Rightarrow> string \<Rightarrow> 'w \<Rightarrow> (int + int) \<times> 'w"
  log_open :: "string \<Rightarrow> 'w \<Rightarrow> int \<times> 'w"
  log_syscall :: "int \<Rightarrow> string \<Rightarrow> 'w \<Rightarrow> 'w"

definition log_initial :: log_state where
  "log_initial = \<lparr>log_type = LOGTYPE_INVALID, log_file_fd = - 1, log_filename = Unset\<rparr>"

definition EBADF_no :: int where "EBADF_no = 9"
definition EINVAL_no :: int where "EINVAL_no = 22"

definition prio_ERR :: int where "prio_ERR = 3"
definition prio_WARNING :: int where "prio_WARNING = 4"
definition prio_NOTICE :: int where "prio_NOTICE = 5"
definition prio_INFO :: int where "prio_INFO = 6"
definition prio_DEBUG :: int where "prio_DEBUG = 7"

section \<open>Where messages go\<close>

definition log_create_stderr :: "log_state \<Rightarrow> log_state" where
  "log_create_stderr l = l\<lparr>log_type := LOGTYPE_STDERR\<rparr>"

definition log_create_syslog :: "log_state \<Rightarrow> log_state" where
  "log_create_syslog l = l\<lparr>log_type := LOGTYPE_SYSLOG\<rparr>"

definition log_create_file :: "'w log_calls \<Rightarrow> string \<Rightarrow> log_state \<Rightarrow> 'w \<Rightarrow> (log_state \<times> 'w) option" where
  "log_create_file C filename l w = do {
     name \<leftarrow> (case log_filename l of Unset \<Rightarrow> Some filename | Held name \<Rightarrow> Some name | Released \<Rightarrow> None);
     let (n, w) = log_open C name w;
     Some (l\<lparr>log_filename := Held name, log_type := LOGTYPE_FILE, log_file_fd := n\<rparr>, w)
   }"

text \<open>Closing keeps the descriptor's number and the pointer to the name.\<close>

definition log_close :: "log_state \<Rightarrow> log_state option" where
  "log_close l =
     (if log_type l = LOGTYPE_FILE then
        (case log_filename l of Released \<Rightarrow> None | Unset \<Rightarrow> Some l | Held _ \<Rightarrow> Some (l\<lparr>log_filename := Released\<rparr>))
      else Some l)"

partial_function (option) log_file :: "'w log_calls \<Rightarrow> string \<Rightarrow> log_state \<Rightarrow> 'w \<Rightarrow> (int \<times> log_state \<times> 'w) option" where
  "log_file C ln l w =
     (if log_file_fd l \<noteq> - 1 then
        (case log_write C (log_file_fd l) ln w of
           (Inr _, w') \<Rightarrow> Some (0, l, w')
         | (Inl e, w') \<Rightarrow>
             if e = EBADF_no \<or> e = EINVAL_no then
               (case log_filename l of
                  Held name \<Rightarrow> log_create_file C name l w' \<bind> (\<lambda>(l', w''). log_file C ln l' w'' \<bind> (\<lambda>(_, z). Some (0, z)))
                | _ \<Rightarrow> None)
             else Some (0, l, w'))
      else Some (- 1, l, w))"

text \<open>The nested conditionals test the constants after the first comparison.\<close>

definition log_syslog :: "'w log_calls \<Rightarrow> DLOG_MSG_SEVERITY \<Rightarrow> string \<Rightarrow> 'w \<Rightarrow> int \<times> 'w" where
  "log_syslog C severity ln w =
     (let sev = (if severity = DLOG_MSG_DEBUG then prio_DEBUG
        else if severity_value DLOG_MSG_INFO \<noteq> 0 then prio_INFO
        else if severity_value DLOG_MSG_WARNING \<noteq> 0 then prio_WARNING
        else if severity_value DLOG_MSG_ERROR \<noteq> 0 then prio_ERR else prio_NOTICE)
      in (0, log_syscall C sev (''dlog - '' @ ln) w))"

definition log_stderr :: "'w log_calls \<Rightarrow> string \<Rightarrow> 'w \<Rightarrow> int \<times> 'w" where
  "log_stderr C ln w = (case log_write C 2 ln w of (Inr n, w) \<Rightarrow> (n, w) | (Inl _, w) \<Rightarrow> (- 1, w))"

definition write_log :: "'w log_calls \<Rightarrow> DLOG_MSG_SEVERITY \<Rightarrow> string \<Rightarrow> log_state \<times> 'w \<Rightarrow> (int \<times> log_state \<times> 'w) option" where
  "write_log C severity ln = (\<lambda>(l, w).
     case log_type l of
       LOGTYPE_FILE \<Rightarrow> log_file C ln l w
     | LOGTYPE_SYSLOG \<Rightarrow> (case log_syslog C severity ln w of (r, w) \<Rightarrow> Some (r, l, w))
     | LOGTYPE_STDERR \<Rightarrow> (case log_stderr C ln w of (r, w) \<Rightarrow> Some (r, l, w))
     | LOGTYPE_INVALID \<Rightarrow> Some (- 1, l, w))"

section \<open>Putting a message together\<close>

text \<open>\<^verbatim>\<open>snprintf\<close> and \<^verbatim>\<open>vsnprintf\<close> with the size \<open>n\<close> at an offset of a buffer, for a formatted text: at most \<open>n - 1\<close> bytes and the NUL are written, and
  the length of the whole text is returned.\<close>

definition vsnprintf :: "bytes \<Rightarrow> int \<Rightarrow> int \<Rightarrow> string \<Rightarrow> (bytes \<times> int) option" where
  "vsnprintf b off n msg =
     (if n = 0 then Some (b, int (length msg))
      else map_option (\<lambda>b. (b, int (length msg))) (buf_put b off (map Some (take (nat (n - 1)) msg) @ [Some NUL])))"

text \<open>The size that is left, computed in \<^verbatim>\<open>size_t\<close>.\<close>

definition size_left :: "int \<Rightarrow> int" where
  "size_left off = uint (word_of_int (2048 - off) :: 64 word)"

definition log_buffer :: bytes where
  "log_buffer = replicate 2048 None"

definition log_message :: "'w log_calls \<Rightarrow> DLOG_MSG_SEVERITY \<Rightarrow> string \<Rightarrow> string \<Rightarrow> log_state \<times> 'w \<Rightarrow> (log_state \<times> 'w) option" where
  "log_message C severity prefix msg s = do {
     (buffer, off) \<leftarrow> vsnprintf log_buffer 0 2048 prefix;
     (buffer, _) \<leftarrow> vsnprintf buffer off (size_left off) msg;
     ln \<leftarrow> buf_cstr buffer;
     (_, s) \<leftarrow> write_log C severity ln s;
     Some s
   }"

definition log_info :: "'w log_calls \<Rightarrow> string \<Rightarrow> log_state \<times> 'w \<Rightarrow> (log_state \<times> 'w) option" where
  "log_info C msg s = log_message C DLOG_MSG_INFO ''INFO  - '' msg s"

definition log_warn :: "'w log_calls \<Rightarrow> string \<Rightarrow> log_state \<times> 'w \<Rightarrow> (log_state \<times> 'w) option" where
  "log_warn C msg s = log_message C DLOG_MSG_WARNING ''WARN  - '' msg s"

definition log_error :: "'w log_calls \<Rightarrow> string \<Rightarrow> log_state \<times> 'w \<Rightarrow> (log_state \<times> 'w) option" where
  "log_error C msg s = log_message C DLOG_MSG_ERROR ''ERROR - '' msg s"

definition log_dbgtrace :: "'w log_calls \<Rightarrow> string \<Rightarrow> int \<Rightarrow> string \<Rightarrow> log_state \<times> 'w \<Rightarrow> (log_state \<times> 'w) option" where
  "log_dbgtrace C filename lineno msg s = log_message C DLOG_MSG_DEBUG (''DEBUG - '' @ filename @ '':'' @ dec_of_int lineno @ '' - '') msg s"

text \<open>\<open>errbuf\<close> is what \<^verbatim>\<open>strerror_r\<close> leaves in its buffer; the GNU version need not write to it.\<close>

definition log_syserr :: "'w log_calls \<Rightarrow> bytes \<Rightarrow> string \<Rightarrow> log_state \<times> 'w \<Rightarrow> (log_state \<times> 'w) option" where
  "log_syserr C errbuf msg s = do {
     (buffer, off) \<leftarrow> vsnprintf log_buffer 0 2048 ''ERROR - '';
     (buffer, n) \<leftarrow> vsnprintf buffer off (size_left off) msg;
     let off = off + n;
     err \<leftarrow> buf_cstr errbuf;
     (buffer, _) \<leftarrow> vsnprintf buffer off (size_left off) ('' ('' @ err @ '')'' @ [NL]);
     ln \<leftarrow> buf_cstr buffer;
     (_, s) \<leftarrow> write_log C DLOG_MSG_ERROR ln s;
     Some s
   }"

section \<open>Lemmas\<close>

text \<open>The buffer holds a text with its NUL.\<close>

definition log_holds :: "bytes \<Rightarrow> string \<Rightarrow> bool" where
  "log_holds b t \<longleftrightarrow> length b = 2048 \<and> length t \<le> 2047 \<and> take (Suc (length t)) b = map Some t @ [Some NUL]"

lemma log_holds_cstr:
  assumes "log_holds b t" and "NUL \<notin> set t"
  shows "buf_cstr b = Some t"
proof -
  have "b = map Some t @ Some NUL # drop (Suc (length t)) b"
    using assms(1) append_take_drop_id[of "Suc (length t)" b] by (simp add: log_holds_def)
  then show ?thesis using buf_cstr_prefix[OF assms(2)] by metis
qed

lemma size_left_mod: "size_left off = (2048 - off) mod 2 ^ 64"
  unfolding size_left_def uint_word_of_int by simp

lemma size_left_inside: "0 \<le> off \<Longrightarrow> off \<le> 2048 \<Longrightarrow> size_left off = 2048 - off"
  by (simp add: size_left_mod)

lemma size_left_wraps:
  assumes "2048 < off" and "off < 2 ^ 32"
  shows "size_left off = 2 ^ 64 + 2048 - off"
proof -
  have "(2048 - off) mod 2 ^ 64 = (2048 - off + 2 ^ 64) mod 2 ^ 64" by (rule mod_add_self2[symmetric])
  also have "\<dots> = 2048 - off + 2 ^ 64" using assms by (intro mod_pos_pos_trivial) auto
  finally show ?thesis by (simp add: size_left_mod)
qed

lemma vsnprintf_next:
  assumes "log_holds b p"
  shows "\<exists>b'. vsnprintf b (int (length p)) (size_left (int (length p))) t = Some (b', int (length t)) \<and> log_holds b' (take 2047 (p @ t))"
proof -
  let ?w = "take (2047 - length p) t"
  have e: "take (Suc (length p)) b = map Some p @ [Some NUL]" using assms by (simp add: log_holds_def)
  have "take (length p) b = take (length p) (take (Suc (length p)) b)" by simp
  then have p: "length b = 2048" "length p \<le> 2047" "take (length p) b = map Some p" using assms unfolding e by (simp_all add: log_holds_def)
  let ?b = "map Some p @ map Some ?w @ Some NUL # drop (length p + Suc (length ?w)) b"
  have "size_left (int (length p)) = int (2048 - length p)" using p(2) by (simp add: size_left_inside)
  then have "vsnprintf b (int (length p)) (size_left (int (length p))) t = Some (?b, int (length t))"
    using p by (simp add: vsnprintf_def buf_put_def nat_diff_distrib')
  moreover have "log_holds ?b (take 2047 (p @ t))" using p by (auto simp: log_holds_def)
  ultimately show ?thesis by blast
qed

lemma vsnprintf_first: "\<exists>b. vsnprintf log_buffer 0 2048 t = Some (b, int (length t)) \<and> log_holds b (take 2047 t)"
proof -
  have "buf_put log_buffer 0 (map Some (take 2047 t) @ [Some NUL]) = Some (map Some (take 2047 t) @ Some NUL # drop (Suc (length (take 2047 t))) log_buffer)"
    by (simp add: buf_put_def log_buffer_def)
  then show ?thesis by (auto simp: vsnprintf_def log_holds_def log_buffer_def)
qed

lemma log_message_run:
  assumes "length prefix \<le> 2047" and "NUL \<notin> set prefix" and "NUL \<notin> set msg"
  shows "log_message C severity prefix msg s = map_option snd (write_log C severity (take 2047 (prefix @ msg)) s)"
proof -
  obtain b where b: "vsnprintf log_buffer 0 2048 prefix = Some (b, int (length prefix))" "log_holds b prefix"
    using vsnprintf_first[of prefix] assms(1) by auto
  obtain b' where b': "vsnprintf b (int (length prefix)) (size_left (int (length prefix))) msg = Some (b', int (length msg))"
    "log_holds b' (take 2047 (prefix @ msg))" using vsnprintf_next[OF b(2)] by blast
  have "buf_cstr b' = Some (take 2047 (prefix @ msg))" using log_holds_cstr[OF b'(2)] assms(2,3) by (auto dest: in_set_takeD)
  then show ?thesis using b(1) b'(1) by (cases "write_log C severity (take 2047 (prefix @ msg)) s") (auto simp: log_message_def)
qed

lemma log_file_accepted:
  assumes "log_file_fd l \<noteq> - 1" and "log_write C (log_file_fd l) ln w = (Inr n, w')"
  shows "log_file C ln l w = Some (0, l, w')"
  using assms by (subst log_file.simps) simp

section \<open>Properties\<close>

text \<open>An error message goes to the log file as it was written, with its prefix, cut at 2047 bytes; when the descriptor has become
  invalid, the file is opened again under the name it was first given and the same line is written there.\<close>

theorem log_error_delivered:
  assumes "log_type l = LOGTYPE_FILE" and "log_filename l = Held name" and "log_file_fd l \<noteq> - 1" and "NUL \<notin> set msg"
    and "log_write C (log_file_fd l) (take 2047 (''ERROR - '' @ msg)) w = (res, w1)"
    and "res = Inl EBADF_no \<Longrightarrow> log_open C name w1 = (n, w2) \<and> n \<noteq> - 1 \<and> log_write C n (take 2047 (''ERROR - '' @ msg)) w2 = (Inr k, w3)"
    and "res = Inl EBADF_no \<or> (\<exists>k. res = Inr k)"
  shows "log_error C msg (l, w) = Some (if res = Inl EBADF_no then (l\<lparr>log_file_fd := n\<rparr>, w3) else (l, w1))"
proof -
  let ?ln = "take 2047 (''ERROR - '' @ msg)"
  have m: "log_error C msg (l, w) = map_option snd (log_file C ?ln l w)"
    using log_message_run[of "''ERROR - ''" msg C DLOG_MSG_ERROR "(l, w)"] assms(1,4) by (simp add: log_error_def write_log_def)
  show ?thesis
  proof (cases "res = Inl EBADF_no")
    case True
    let ?l = "l\<lparr>log_file_fd := n\<rparr>"
    have l: "l\<lparr>log_filename := Held name, log_type := LOGTYPE_FILE, log_file_fd := n\<rparr> = ?l" using assms(1,2) by (cases l) simp
    have "log_file C ?ln ?l w2 = Some (0, ?l, w3)" by (rule log_file_accepted) (use assms(6)[OF True] in simp_all)
    then have "log_file C ?ln l w = Some (0, ?l, w3)"
      using assms(2,3,5) assms(6)[OF True] True by (subst log_file.simps) (simp add: log_create_file_def l)
    with m True show ?thesis by simp
  next
    case False
    with assms(7) obtain k where k: "res = Inr k" by blast
    have "log_file C ?ln l w = Some (0, l, w1)" by (rule log_file_accepted[OF assms(3)]) (use assms(5) k in simp)
    with m False show ?thesis by simp
  qed
qed

theorem log_error_delivered_witness:
  "log_error \<lparr>log_write = (\<lambda>n ln w. if n = 3 then (Inl 9, w) else (Inr (int (length ln)), w @ [(n, ln)])), log_open = (\<lambda>name w. (4, w)), log_syscall = (\<lambda>_ _ w. w)\<rparr>
     ''x'' (\<lparr>log_type = LOGTYPE_FILE, log_file_fd = 3, log_filename = Held ''l''\<rparr>, [])
   = Some (\<lparr>log_type = LOGTYPE_FILE, log_file_fd = 4, log_filename = Held ''l''\<rparr>, [(4, ''ERROR - x'')])"
proof -
  let ?C = "\<lparr>log_write = (\<lambda>n ln w. if n = 3 then (Inl 9, w) else (Inr (int (length ln)), w @ [(n, ln)])), log_open = (\<lambda>name w. (4, w)), log_syscall = (\<lambda>_ _ w. w)\<rparr>
    :: (int \<times> string) list log_calls"
  have "take 2047 (''ERROR - '' @ ''x'') = ''ERROR - x''" by simp
  then show ?thesis
    using log_error_delivered[of "\<lparr>log_type = LOGTYPE_FILE, log_file_fd = 3, log_filename = Held ''l''\<rparr>" "''l''" "''x''" ?C "[]" "Inl 9" "[]" 4 "[]" 9 "[(4, ''ERROR - x'')]"]
    by (simp add: EBADF_no_def)
qed

text \<open>When the descriptors that opening gives are all refused, reporting never ends.\<close>

theorem log_file_unending:
  assumes "\<forall>n t w. \<exists>w'. log_write C n t w = (Inl EBADF_no, w')" and "\<forall>name w. fst (log_open C name w) \<noteq> - 1"
    and "log_file_fd l \<noteq> - 1"
  shows "log_file C ln l w = None"
proof -
  let ?P = "\<lambda>C' ln' l' w' r. C' = C \<longrightarrow> log_file_fd l' \<noteq> - 1 \<longrightarrow> False"
  have "\<not> (\<exists>r. log_file C ln l w = Some r)"
  proof (rule notI, elim exE)
    fix r assume r: "log_file C ln l w = Some r"
    have "?P C ln l w r"
    proof (rule log_file.raw_induct[of ?P, OF _ r], intro impI)
      fix f :: "'a log_calls \<Rightarrow> string \<Rightarrow> log_state \<Rightarrow> 'a \<Rightarrow> (int \<times> log_state \<times> 'a) option" and C' ln' l' w' y
      assume IH: "\<And>C' ln' l' w' y. f C' ln' l' w' = Some y \<Longrightarrow> C' = C \<longrightarrow> log_file_fd l' \<noteq> - 1 \<longrightarrow> False"
        and C': "C' = C" and fdl: "log_file_fd l' \<noteq> - 1"
        and body: "(if log_file_fd l' \<noteq> - 1 then
            (case log_write C' (log_file_fd l') ln' w' of
               (Inl e, w'') \<Rightarrow> if e = EBADF_no \<or> e = EINVAL_no then
                 (case log_filename l' of
                    Held name \<Rightarrow> log_create_file C' name l' w'' \<bind> (\<lambda>(l'', w''). f C' ln' l'' w'' \<bind> (\<lambda>(_, z). Some (0, z)))
                  | _ \<Rightarrow> None)
                 else Some (0, l', w'')
             | (Inr _, w'') \<Rightarrow> Some (0, l', w''))
          else Some (- 1, l', w')) = Some y"
      obtain w1 where w1: "log_write C (log_file_fd l') ln' w' = (Inl EBADF_no, w1)" using assms(1) by blast
      then obtain name where n: "log_filename l' = Held name" using body C' fdl by (cases "log_filename l'") simp_all
      obtain k w2 where o: "log_open C name w1 = (k, w2)" "k \<noteq> - 1" using assms(2) by (metis fst_conv surj_pair)
      with body w1 n C' fdl obtain z where "f C ln' (l'\<lparr>log_filename := Held name, log_type := LOGTYPE_FILE, log_file_fd := k\<rparr>) w2 = Some z"
        by (auto simp: log_create_file_def bind_Some_iff)
      from IH[OF this] o(2) show False by simp
    qed
    with assms(3) show False by simp
  qed
  then show ?thesis by (cases "log_file C ln l w") auto
qed

theorem log_file_unending_witness:
  "log_file \<lparr>log_write = (\<lambda>n ln w. (Inl 9, w)), log_open = (\<lambda>name w. (4, w)), log_syscall = (\<lambda>_ _ w. w)\<rparr> ''x''
     \<lparr>log_type = LOGTYPE_FILE, log_file_fd = 3, log_filename = Held ''l''\<rparr> () = None"
  by (rule log_file_unending) (simp_all add: EBADF_no_def)

text \<open>C40: reporting a system error stays in its buffer exactly when the message has at most 2040 bytes: a longer one makes the
  size that is left wrap around.\<close>

theorem log_syserr_bounds:
  assumes "NUL \<notin> set msg" and "length msg < 2 ^ 31" and "buf_cstr errbuf = Some err"
  shows "log_syserr C errbuf msg s =
     (if length msg \<le> 2040
      then map_option snd (write_log C DLOG_MSG_ERROR (take 2047 (''ERROR - '' @ msg @ '' ('' @ err @ '')'' @ [NL])) s)
      else None)"
proof -
  let ?p = "''ERROR - ''" and ?e = "'' ('' @ err @ '')'' @ [NL]"
  obtain b where b: "vsnprintf log_buffer 0 2048 ?p = Some (b, 8)" "log_holds b ?p" using vsnprintf_first[of ?p] by auto
  obtain b' where b': "vsnprintf b 8 (size_left 8) msg = Some (b', int (length msg))" "log_holds b' (take 2047 (?p @ msg))"
    using vsnprintf_next[OF b(2), of msg] by auto
  let ?off = "8 + int (length msg)"
  let ?ln = "take 2047 (?p @ msg @ ?e)"
  have err: "NUL \<notin> set err" using assms(3) by (induction errbuf arbitrary: err rule: buf_cstr.induct) (auto split: if_splits)
  consider (fits) "length msg \<le> 2039" | (full) "length msg = 2040" | (over) "2040 < length msg" by linarith
  then show ?thesis
  proof cases
    case fits
    then obtain b'' where b'': "vsnprintf b' ?off (size_left ?off) ?e = Some (b'', int (length ?e))" "log_holds b'' ?ln"
      using vsnprintf_next[of b' "?p @ msg" ?e] b'(2) by (auto simp: add.commute)
    have "NUL \<notin> set (?p @ msg @ ?e)" using assms(1) err by simp
    then have "NUL \<notin> set ?ln" by (meson in_set_takeD)
    then have "buf_cstr b'' = Some ?ln" by (rule log_holds_cstr[OF b''(2)])
    then show ?thesis using fits b b' b'' assms(3) by (cases "write_log C DLOG_MSG_ERROR ?ln s") (auto simp: log_syserr_def)
  next
    case full
    have e: "vsnprintf b' ?off (size_left ?off) ?e = Some (b', int (length ?e))" using full by (simp add: vsnprintf_def size_left_inside)
    have "?ln = take 2047 (?p @ msg)" using full by simp
    moreover have "buf_cstr b' = Some (take 2047 (?p @ msg))" using log_holds_cstr[OF b'(2)] assms(1) by (auto dest: in_set_takeD)
    ultimately show ?thesis using full b b' e assms(3) by (cases "write_log C DLOG_MSG_ERROR ?ln s") (auto simp: log_syserr_def)
  next
    case over
    then have "size_left ?off = 2 ^ 64 + 2048 - ?off" using assms(2) by (intro size_left_wraps) auto
    moreover have "buf_put b' ?off xs = None" if "xs \<noteq> []" for xs using that over b'(2) by (auto simp: buf_put_def log_holds_def)
    ultimately have "vsnprintf b' ?off (size_left ?off) ?e = None" using over assms(2) by (simp add: vsnprintf_def)
    then show ?thesis using over b b' assms(3) by (simp add: log_syserr_def)
  qed
qed

theorem log_syserr_bounds_witness:
  "log_syserr \<lparr>log_write = (\<lambda>n ln w. (Inl 9, w)), log_open = (\<lambda>name w. (4, w)), log_syscall = (\<lambda>_ _ w. w)\<rparr> [Some (CHR ''E''), Some NUL]
     (replicate 2041 (CHR ''m'')) (log_create_stderr log_initial, ()) = None"
  by (subst log_syserr_bounds[where err = "''E''"]) simp_all

text \<open>Every message that is not for debugging reaches the system log with the same priority, errors included.\<close>

theorem log_syslog_priority:
  assumes "severity \<noteq> DLOG_MSG_DEBUG"
  shows "log_syslog C severity ln w = (0, log_syscall C prio_INFO (''dlog - '' @ ln) w)"
  using assms by (simp add: log_syslog_def)

theorem log_syslog_priority_witness:
  "log_syslog \<lparr>log_write = (\<lambda>n ln w. (Inl 9, w)), log_open = (\<lambda>name w. (4, w)), log_syscall = (\<lambda>p t w. w @ [(p, t)])\<rparr> DLOG_MSG_ERROR ''x'' []
   = (0, [(6, ''dlog - x'')])"
  by (subst log_syslog_priority) (simp_all add: prio_INFO_def)

end
