(* ===== verification/Spec2Isabelle.thy ===== *)
theory Spec2Isabelle
  imports Event_Loop Startup Release Config_Progress Kq_Register Pending_Hash Logging
begin

text \<open>
  \<^bold>\<open>dlog\<close> is a daemon that follows log files, fifos and sockets, cuts what it reads into lines, runs every line through
  the rules of its configuration and writes the lines the rules produce to other files, fifos, sockets and rotating
  logs. This development models the daemon's own logic from its C sources and proves what makes it correct. The theories
  follow the layers of the program, lowest first.

  \<^item> \<open>Prelude\<close>: generic lemmas, byte buffers whose uninitialised bytes are \<open>None\<close>, and the fault monad: an operation whose C
    code would access memory outside its objects, use a released block or dereference a null pointer returns \<open>None\<close>.

  \<^item> \<open>Slot_Interface\<close>, \<open>Mempool\<close> (\<^verbatim>\<open>mempool.c\<close>): the fixed-size pools. The interface \<open>slot_stack\<close> says what an allocator of
    slots with a free list owes its clients; the pool, whose free slots hold the list in their own bytes, is an instance.
    Shown: allocation is fresh, in bounds and aligned like the buffer in every reachable state, release is last-in first-out, creation
    lays the slots out inside the buffer; a double release makes the pool hand a slot out twice.

  \<^item> \<open>Block_Interface\<close>, \<open>Arena\<close> (\<^verbatim>\<open>arena.c\<close>, and the arena of \<^verbatim>\<open>dlog.c\<close>): pools of growing slot sizes with the heap behind
    them. The interface \<open>block_heap\<close> is what the strings rely on; the arena that \<^verbatim>\<open>env_init\<close> creates is an instance.

  \<^item> \<open>Dynstr\<close> (\<^verbatim>\<open>dynstr.c\<close>): strings with a length, a capacity and a final NUL, over any \<open>block_heap\<close>. Each operation is shown
    to do its text operation, with every other block untouched and no temporary left behind.

  \<^item> \<open>Line_Reader\<close> (\<^verbatim>\<open>lr.c\<close>) and \<open>Write_Queue\<close> (\<^verbatim>\<open>lw.c\<close>): the buffer lines are cut from, refined to the text-level \<open>next_line\<close> and
    \<open>cut_lines\<close>, which say what the code does with every text, and to \<open>documented_lines\<close>, the lines the documentation promises, on texts without empty
    lines; the queue of lines waiting for a descriptor, for every answer of \<^verbatim>\<open>writev\<close>.

  \<^item> \<open>Patterns\<close>, \<open>Pattern_Search\<close> (\<^verbatim>\<open>patterns.c\<close>): the Lua-style matcher with its limits on recursion, repetition and
    captures, and the proof that it decides the declarative relation \<open>pm\<close> at the leftmost position.

  \<^item> \<open>Strpartial\<close> (\<^verbatim>\<open>strpartial.c\<close>): format strings as lists of parts; splitting is inverse to printing.

  \<^item> \<open>Dict_Interface\<close>, \<open>Hashtable\<close> (\<^verbatim>\<open>hashtable.c\<close>): chained hashing with FNV-1a on 64-bit words. The interface \<open>dict\<close> gives
    what a sequence of upserts is worth to a later find; the table is an instance.

  \<^item> \<open>Node\<close>, \<open>Rule_Semantics\<close> (\<^verbatim>\<open>node.c\<close>): the interpreter of the rule tree, its safety, and its refinement of two semantics
    without pointers in which captures are lexically scoped: \<open>run\<close> is what the code does, \<open>doc_run\<close> what is documented, and \<open>as_documented\<close> says for which
    rules they agree.

  \<^item> \<open>Lexer\<close>, \<open>Config_Parser\<close> (\<^verbatim>\<open>parse.y\<close>): the scanner, with its stack of included files, and the grammar with its actions, which fill the
    settings, the variables and the origins and allocate the nodes of the rules. The grammar decides on one token, so that the generated parser is the loop
    over tokens with a stack of open blocks that \<open>yyparse\<close> is. \<open>Config_Tree\<close> proves that the nodes that the actions link are the tree of the
    statements, with an invariant of all open blocks; \<open>Config_Types\<close> that everything the parser accepts is well typed; \<open>Config_Progress\<close> that every turn of the loop consumes input,
    so that it ends; \<open>Config_File\<close> gives
    a configuration a meaning and proves that its text is parsed to this meaning, and what happens on misplaced tokens and an early end. There \<open>run_stmts\<close> and
    \<open>doc_stmts\<close> give the statements the two semantics of \<open>Rule_Semantics\<close>, and \<open>stmts_documented\<close> is when they agree.

  \<^item> \<open>Descriptor_IO\<close> (\<^verbatim>\<open>dlog.c\<close>): reading a descriptor into its reader and evaluating the lines, ending, queueing and writing
    a line. \<open>Line_Chunks\<close> shows that lines that arrive over several reads are those of the whole text, unless a read starts with a newline.

  \<^item> \<open>Pending\<close> (\<^verbatim>\<open>desc_pending_add\<close>, \<^verbatim>\<open>desc_pending_remove\<close>): the table of pending reads as the chains of its buckets, with the addresses of
    the elements. \<open>Pending_Hash\<close> shows that it is a table of \<^verbatim>\<open>hashtable.c\<close> under its own operations, which fault in the same cases.

  \<^item> \<open>Handover\<close> (\<^verbatim>\<open>fdxfer.c\<close>, \<^verbatim>\<open>main\<close>, \<^verbatim>\<open>open_descriptor\<close>): passing descriptors with their unread text to a new binary.

  \<^item> \<open>List_Interface\<close>, \<open>Tailq\<close> (the macros of \<^verbatim>\<open>sys/queue.h\<close>): the list of active descriptors with its forward and back pointers. The
    interface \<open>member_list\<close> says what insertion, removal and traversal promise as long as nothing is inserted twice; what happens
    otherwise is shown too.

  \<^item> \<open>Descriptor_Table\<close> (\<^verbatim>\<open>coredesc.c\<close>, \<^verbatim>\<open>rotlog.c\<close>, parts of \<^verbatim>\<open>main_loop\<close>): opening, resetting and closing descriptors of every type for
    every outcome of the system calls. Shown: the invariant of all tables that \<open>table_step\<close> reaches, which has every operation but those that are shown to break it (rotating an active log,
    draining a descriptor that is listed, a socket that becomes active without being listed), that opening returns and harms no block,
    that reconnecting loses no queued line; and where the code leaves the contract of the list or releases twice.

  \<^item> \<open>Watchers\<close> (\<^verbatim>\<open>evt_inotify.c\<close>): the watched directories and files and the processing of inotify events, up to a missing file being
    opened when it appears.

  \<^item> \<open>Kqueue\<close>, \<open>Kq_Register\<close> (\<^verbatim>\<open>evt_kq.c\<close>): the watchers on BSD, with the links that two lists share while an event is processed; the registrations
    and the tagged pointers that lead from an event back to what was registered. What is assumed of the kernel is \<open>kevent_documented\<close>.

  \<^item> \<open>Main_Loop\<close> (\<^verbatim>\<open>dlog.c\<close>, \<^verbatim>\<open>_socket_listen_pre_read\<close>): the start, accepting clients, writing to a symbol with the hooks of logs and
    sockets, one turn of \<^verbatim>\<open>main_loop\<close> with its events, and the loops over the active list. Shown: the start opens everything
    or never ends, a write to a log is delivered and counted, clients get descriptors, the new lines of a modified file are evaluated; rotating all logs can hang and draining uses a released descriptor.

  \<^item> \<open>Idle_Loop\<close> (\<^verbatim>\<open>idle_loop\<close>, \<^verbatim>\<open>_read_pending\<close>, \<^verbatim>\<open>ht_visit\<close>): the visit of the pending reads, whose reads change the chains that are visited. Shown: without
    collisions each pending descriptor is read once; a file of any length is drained; with a collision the visit follows a released element.

  \<^item> \<open>Process\<close> (\<^verbatim>\<open>proc.c\<close>, \<^verbatim>\<open>process_signals\<close>): the signal table, undisturbed and with the handler interrupting at any step, the pid
    file and the saved command line.

  \<^item> \<open>Restart\<close> (\<^verbatim>\<open>dlog_sig_restart\<close>, \<^verbatim>\<open>dlog_sig_shutdown\<close>, the rest of \<^verbatim>\<open>fdxfer.c\<close> and \<^verbatim>\<open>proc.c\<close>): ending and replacing the daemon. Shown: the
    active reader reaches the new binary with its text; when the two processes find each other, and when the restart faults.

  \<^item> \<open>Event_Loop\<close> (\<^verbatim>\<open>main_loop\<close>): the endless loop, given by what happens in each of its rounds: signals, changes of the world, the result of the wait.
    Shown: a followed file is evaluated without loss or repetition under every schedule; a signal that ends the daemon ends the loop.

  \<^item> \<open>Startup\<close> (\<^verbatim>\<open>main\<close>, \<^verbatim>\<open>env_init\<close>, \<^verbatim>\<open>sig_init\<close>): the program from its arguments to the main loop. Shown: with a valid command line and
    configuration the main loop is reached with everything opened that the configuration names.

  \<^item> \<open>Release\<close> (the end of \<^verbatim>\<open>dlog_sig_shutdown\<close>, \<^verbatim>\<open>fdxfer_close\<close>, \<^verbatim>\<open>arena_destroy\<close>, \<^verbatim>\<open>free_dorigin\<close>, \<^verbatim>\<open>sig_resetall\<close>): what is given back. Shown: when the
    shutdown releases everything once, and when it releases a block twice or a string of the arena with \<^verbatim>\<open>free\<close>.

  \<^item> \<open>Logging\<close> (\<^verbatim>\<open>log.c\<close>): the destinations of messages and the fixed buffer they are put together in, with its bounds.

  \<^item> \<open>Options\<close> (\<^verbatim>\<open>get_opts\<close> of \<^verbatim>\<open>dlog.c\<close>): the command line.

  This theory composes the layers: from the text of the configuration and the bytes from the kernel to the lines written,
  first for one read and then, in the last section, for a daemon that follows a file in its main loop.

  \<^bold>\<open>Conventions.\<close> Addresses and C integers that cannot overflow in the code's own use are \<open>int\<close>; the hash is computed on
  64-bit words, and a conversion that cuts a number (capture group numbers, port numbers, the sizes of rotating logs, which are C \<open>int\<close>s) is written out. Definitions
  keep the C names, without a leading underscore. What lies outside the sources is a parameter: the kernel's \<^verbatim>\<open>read\<close>, \<^verbatim>\<open>writev\<close>
  and \<^verbatim>\<open>recvmsg\<close>, the clock, the environment. The only thing assumed of \<^verbatim>\<open>read\<close> is that it returns at most as many bytes as
  asked for (\<open>read_bounded\<close>); for a regular file that is followed the kernel is \<open>file_read\<close>, the text behind the position of the descriptor, which a round of
  the main loop may extend. Of the clock it is assumed that its nanoseconds are below $10^9$ (\<open>world_ok\<close>).

  \<^bold>\<open>Code and documentation.\<close> Where \<^verbatim>\<open>README.md\<close> promises something else than the code does, the theorems on the whole program are about what is promised, under
  conditions that keep the code to it, and the difference is a theorem of its own: an empty line is kept in front of the next line instead of being ignored
  (\<open>empty_line_glued\<close>); a newline that is the first byte of a read does not end the line before it (\<open>lone_newline_glues_lines\<close>); a break ends its block but not the
  rule (\<open>break_scope\<close>); \<^verbatim>\<open>%{T}\<close> is cut after 8 digits of the fraction (\<open>datetimefract_differs\<close>); a source filter accepts a prefix of its
  name, and a name of which it is a prefix; a matchall inside a match block loses the captures (\<open>matchall_loses_captures\<close>); a declared variable cannot be used
  (\<open>declared_variable_faults\<close>).

  \<^bold>\<open>Termination.\<close> No definition uses fuel. Loops that may not end (over the active list, over the origins at the start, the parser when files include each other, the
  chains that the visitor changes, the release of an origin) are partial functions, whose ending is shown where it holds; the endless main loop is a function of the list
  of its rounds, so that every statement about it is one about all its finite prefixes, and a file of $n$ bytes is drained in at most $(n + 4095) / 4096 + 1$ idle rounds, a buffer having 4096 bytes; the other loops of the code are functions with termination proofs: the matcher by the
  recursion limit and the lengths of pattern and subject, the read loop because each turn but the last reads a byte of a
  bounded amount, the loop over lines because each line shortens the buffer, the release loop of the write queue because its
  index stays inside the array.

  \<^bold>\<open>Not modelled.\<close> The tables that the parser generator makes from \<^verbatim>\<open>parse.y\<close>; what is a single system call (creating the event queue);
  shared memory (\<^verbatim>\<open>shmem.c\<close>), which is not part of the build and does not compile. The symbol table of \<open>Descriptor_Table\<close> is
  the map that \<open>Hashtable\<close> shows a table to be as long as no key is removed from behind the head of its bucket. The interpreter's strings are texts, not arena blocks: what the string operations
  do with texts is shown in \<open>Dynstr\<close>, and where the code's treatment of the blocks goes wrong (a literal passed to \<^verbatim>\<open>free\<close>, a
  moved string that is forgotten) the model has a fault.
\<close>

section \<open>From the bytes read to the lines written\<close>

text \<open>The evaluation \<^verbatim>\<open>descriptor_read\<close> applies to every line: the rules, with the symbol of the descriptor as the source.\<close>

definition rules_eval :: "world \<Rightarrow> node \<Rightarrow> string \<Rightarrow> string \<Rightarrow> exec_ctx \<Rightarrow> exec_ctx option" where
  "rules_eval w root symbol t ctx = node_eval_root w root t symbol ctx"

lemma eval_lines_rules:
  assumes "scoped False root" and "root \<noteq> NoNode" and "distinct (ids root)" and "world_ok w" and "clock_ok w"
    and "\<forall>i. None \<notin> set (cur_match ctx i)"
  shows "\<exists>ctx'. eval_lines (rules_eval w root symbol) ls ctx = Some ctx'
     \<and> written ctx' = written ctx @ concat (map (\<lambda>l. snd (run w l symbol root [] EVAL_TRUE)) ls) \<and> (\<forall>i. None \<notin> set (cur_match ctx' i))"
  using assms(6)
proof (induction ls arbitrary: ctx)
  case (Cons l ls)
  obtain ctx1 where c1: "node_eval_root w root l symbol ctx = Some ctx1"
    "written ctx1 = written ctx @ snd (run w l symbol root [] EVAL_TRUE)" "\<forall>i. None \<notin> set (cur_match ctx1 i)"
    using node_eval_line[OF assms(1-3) Cons.prems assms(4,5)] by blast
  from Cons.IH[OF c1(3)] c1(1,2) show ?case by (auto simp: rules_eval_def)
qed simp

lemma nul_cut_lines:
  "\<forall>w \<in> set ws. NUL \<notin> set w \<Longrightarrow> map nul_cut (map (\<lambda>w. w @ [NL]) ws) = map (\<lambda>w. w @ [NL]) ws"
  by (induction ws) auto

lemma pipeline_lines:
  assumes "reader_at ar L (reader d) 0 []" and "read_bounded read" and "fd d > 0"
    and "pull read DLOG_READ_BUF_SZ k (DYNSTR_USABLE_SIZE DLOG_READ_MAX_CHUNK)
       = (concat (map (\<lambda>w. w @ [NL]) ws) @ v, ret, again, k')"
    and "\<forall>w \<in> set ws. w \<noteq> [] \<and> NL \<notin> set w \<and> NUL \<notin> set w" and "NL \<notin> set v"
    and "scoped False root" and "root \<noteq> NoNode" and "distinct (ids root)" and "world_ok w" and "clock_ok w"
    and "\<forall>i. None \<notin> set (cur_match ctx i)"
  shows "\<exists>lr calls ar' ctx'. descriptor_read dynstr_arena read None (rules_eval w root symbol) ar d 0 k ctx
       = Some (d\<lparr>reader := lr\<rparr>, calls, ar', k', ctx')
     \<and> written ctx' = written ctx @ concat (map (\<lambda>l. snd (run w (l @ [NL]) symbol root [] EVAL_TRUE)) ws)
     \<and> dyn_rep (buf lr) v"
proof -
  let ?ls = "map (\<lambda>w. w @ [NL]) ws"
  have c: "cut_lines 0 ([] @ concat ?ls @ v) = (?ls, v)" using cut_lines_roundtrip[of ws v] assms(5,6) by simp
  obtain ctx' where e: "eval_lines (rules_eval w root symbol) ?ls ctx = Some ctx'"
    "written ctx' = written ctx @ concat (map (\<lambda>l. snd (run w l symbol root [] EVAL_TRUE)) ?ls)"
    using eval_lines_rules[OF assms(7-12)] by blast
  have "map nul_cut ?ls = ?ls" using assms(5) by (intro nul_cut_lines) simp
  with e(1) have e': "eval_lines (rules_eval w root symbol) (map nul_cut ?ls) ctx = Some ctx'" by (simp only:)
  have p: "pull read (if (0::int) = 0 then DLOG_READ_BUF_SZ else 0) k (DYNSTR_USABLE_SIZE DLOG_READ_MAX_CHUNK)
      = (concat ?ls @ v, ret, again, k')" using assms(4) by simp
  from descriptor_read_ok[OF assms(1-3) p c e'] e(2) show ?thesis
    by (fastforce simp: reader_in_def str_in_def comp_def)
qed

text \<open>Lines that arrive in one read, however the kernel splits them into chunks, come out as the rules say: each line is
  evaluated on its own by the reference semantics, in order, the lines written are exactly those, and an incomplete last
  line stays in the buffer. Every layer is the model of the code: the arena under the strings, the line reader, the read
  loop, the rule interpreter and the pattern matcher.\<close>

theorem pipeline_correct:
  assumes "reader_at ar L (reader d) 0 []" and "read_bounded read" and "fd d > 0"
    and "pull read DLOG_READ_BUF_SZ k (DYNSTR_USABLE_SIZE DLOG_READ_MAX_CHUNK)
       = (concat (map (\<lambda>w. w @ [NL]) ws) @ v, ret, again, k')"
    and "\<forall>w \<in> set ws. w \<noteq> [] \<and> NL \<notin> set w \<and> NUL \<notin> set w" and "NL \<notin> set v"
    and "scoped False root" and "root \<noteq> NoNode" and "distinct (ids root)" and "world_ok w" and "clock_ok w"
    and "\<forall>i. None \<notin> set (cur_match ctx i)"
  shows "\<exists>lr calls ar' ctx'. descriptor_read dynstr_arena read None (rules_eval w root symbol) ar d 0 k ctx
       = Some (d\<lparr>reader := lr\<rparr>, calls, ar', k', ctx')
     \<and> written ctx' = written ctx @ concat (map (\<lambda>l. snd (run w (l @ [NL]) symbol root [] EVAL_TRUE)) ws)
     \<and> dyn_rep (buf lr) v"
  by (rule pipeline_lines[OF assms])

theorem pipeline_correct_witness:
  "\<exists>ar L r lr calls ar' ctx'. reader_at ar L r 0 []
     \<and> descriptor_read dynstr_arena scripted None (rules_eval w0 nested_rule ''S'') ar (file_desc r) 0
         [Read_Bytes (''cat'' @ [NL] @ ''do''), Read_Error] ctx0 = Some ((file_desc r)\<lparr>reader := lr\<rparr>, calls, ar', [], ctx')
     \<and> written ctx' = [(''D'', ''c''), (''D'', ''at'')] \<and> dyn_rep (buf lr) ''do''"
proof -
  obtain ar L r where r: "reader_at ar L r 0 []" using reader_exists[of "[]" 0] by auto
  then have r': "reader_at ar L (reader (file_desc r)) 0 []" and f: "fd (file_desc r) > 0" by (simp_all add: file_desc_def)
  have p: "pull scripted DLOG_READ_BUF_SZ [Read_Bytes (''cat'' @ [NL] @ ''do''), Read_Error] (DYNSTR_USABLE_SIZE DLOG_READ_MAX_CHUNK)
      = (concat (map (\<lambda>w. w @ [NL]) [''cat'']) @ ''do'', - 1, False, [])"
    using usable_chunk by (subst pull_scripted) (auto simp: DLOG_READ_BUF_SZ_def)
  have m: "str_match (''cat'' @ [NL]) ''at'' = Some (0, [Some (''cat'' @ [NL]), Some ''at''], None)"
    "str_match (''cat'' @ [NL]) ''c'' = Some (0, [Some (''cat'' @ [NL]), Some ''c''], None)" by code_simp+
  then have run: "snd (run w0 (''cat'' @ [NL]) ''S'' nested_rule [] EVAL_TRUE) = [(''D'', ''c''), (''D'', ''at'')]"
    by (simp add: nested_rule_def stmt_def captures_def fmt_text_def from_ok_def)
  have "clock_ok w0" "\<forall>i. None \<notin> set (cur_match ctx0 i)" by (simp_all add: w0_def ctx0_def)
  from pipeline_correct[OF r' scripted_bounded f p _ _ nested_rule_scoped w0_ok this, of "''S''"] obtain lr calls ar' ctx' where
    "descriptor_read dynstr_arena scripted None (rules_eval w0 nested_rule ''S'') ar (file_desc r) 0
       [Read_Bytes (''cat'' @ [NL] @ ''do''), Read_Error] ctx0 = Some ((file_desc r)\<lparr>reader := lr\<rparr>, calls, ar', [], ctx')"
    "written ctx' = written ctx0 @ concat (map (\<lambda>l. snd (run w0 (l @ [NL]) ''S'' nested_rule [] EVAL_TRUE)) [''cat''])"
    "dyn_rep (buf lr) ''do''" by auto
  moreover from this(2) run have "written ctx' = [(''D'', ''c''), (''D'', ''at'')]" by (simp add: ctx0_def)
  ultimately show ?thesis using r by blast
qed

section \<open>From the configuration to the lines written\<close>



section \<open>A daemon that follows a file\<close>

definition lines_text :: "string list \<Rightarrow> string" where
  "lines_text ws = concat (map (\<lambda>w. w @ [NL]) ws)"

lemma follow_lines:
  assumes X: "o_read X = file_read" "o_eval X = rules_eval w root symbol" and sg: "\<not> sig_delivered sg"
    and root: "scoped False root" "root \<noteq> NoNode" "distinct (ids root)" and w: "world_ok w" "clock_ok w"
    and bs: "\<forall>b \<in> set bs. buffers_inside (lines_text b) \<and> (length (lines_text b) + 4095) div 4096 + 1 \<le> m \<and> (\<forall>v \<in> set b. v \<noteq> [] \<and> NL \<notin> set v \<and> NUL \<notin> set v)"
    and "reads_file l i n 0 []" and "l_kernel l = []" and "reports_modified (l_watch l) i ev" and "\<forall>i. None \<notin> set (cur_match (l_eval l) i)"
  shows "\<exists>l'. main_loop dynstr_arena X G (concat (map (\<lambda>b. append_rounds ev m (lines_text b)) bs)) (sg, l) = Some (Loop_Running (sg, l'))
     \<and> reads_file l' i n 0 [] \<and> l_kernel l' = []
     \<and> written (l_eval l') = written (l_eval l) @ concat (map (\<lambda>ln. snd (run w (ln @ [NL]) symbol root [] EVAL_TRUE)) (concat bs))"
  using bs assms(10-13)
proof (induction bs arbitrary: l)
  case Nil
  then show ?case by (intro exI[of _ l]) simp
next
  case (Cons b bs)
  let ?ls = "map (\<lambda>w. w @ [NL]) b"
  have b: "\<forall>v \<in> set b. v \<noteq> [] \<and> NL \<notin> set v \<and> NUL \<notin> set v" "buffers_inside (lines_text b)" "(length (lines_text b) + 4095) div 4096 + 1 \<le> m"
    using Cons.prems(1) by auto
  have c: "cut_lines 0 ([] @ lines_text b) = (?ls, [])" using cut_lines_roundtrip[of b "[]"] b(1) by (simp add: lines_text_def)
  obtain x' where x: "eval_lines (rules_eval w root symbol) ?ls (l_eval l) = Some x'"
    "written x' = written (l_eval l) @ concat (map (\<lambda>l. snd (run w l symbol root [] EVAL_TRUE)) ?ls)" "\<forall>i. None \<notin> set (cur_match x' i)"
    using eval_lines_rules[OF root w Cons.prems(5)] by blast
  have e: "eval_lines (o_eval X) (map nul_cut ?ls) (l_eval l) = Some x'"
    using x(1) b(1) nul_cut_lines[of b] X(2) by (simp del: map_map)
  obtain l1 where 1: "main_loop dynstr_arena X G (append_rounds ev m (lines_text b)) (sg, l) = Some (Loop_Running (sg, l1))" "l_kernel l1 = []"
    "l_eval l1 = x'" "l_watch l1 = l_watch l" "reads_file l1 i n 0 []"
    using append_evaluated[OF Cons.prems(2,3) X(1) Cons.prems(4) sg b(2,3) c e, of G] by auto
  obtain l2 where 2: "main_loop dynstr_arena X G (concat (map (\<lambda>b. append_rounds ev m (lines_text b)) bs)) (sg, l1) = Some (Loop_Running (sg, l2))"
    "reads_file l2 i n 0 []" "l_kernel l2 = []"
    "written (l_eval l2) = written (l_eval l1) @ concat (map (\<lambda>ln. snd (run w (ln @ [NL]) symbol root [] EVAL_TRUE)) (concat bs))"
    using Cons.IH[of l1] Cons.prems(1,4) 1(2-5) x(3) by auto
  have "main_loop dynstr_arena X G (concat (map (\<lambda>b. append_rounds ev m (lines_text b)) (b # bs))) (sg, l) = Some (Loop_Running (sg, l2))"
    using 1(1) 2(1) by (simp add: main_loop_append del: main_loop.simps(2))
  moreover have "written (l_eval l2) = written (l_eval l) @ concat (map (\<lambda>ln. snd (run w (ln @ [NL]) symbol root [] EVAL_TRUE)) (concat (b # bs)))"
    using 2(4) 1(3) x(2) by (simp add: comp_def)
  ultimately show ?case using 2(2,3) by blast
qed


definition follow_state :: "arena \<Rightarrow> linereader \<Rightarrow> exec_ctx \<Rightarrow> (arena, string, exec_ctx) loop_state" where
  "follow_state ar r ctx = \<lparr>l_table = l_table (file_state ar r [] no_pending), l_watch = l_watch (file_state ar r [] no_pending), l_kernel = [],
     l_eval = ctx, read_files = []\<rparr>"

definition follow_outside :: "(string, exec_ctx) outside" where
  "follow_outside = \<lparr>o_read = file_read, o_eval = (\<lambda>_ x. Some x), o_sys = (\<lambda>_. sys0), o_client = (\<lambda>_. sys0), o_accepts = [], o_sk = 0, o_notify = notify0\<rparr>"


end
